(* ===== verification/Prelude.thy ===== *)
theory Prelude
  imports Main "HOL-Library.Word"
begin

text \<open>
  Shared vocabulary of the development: the names of the machine integer types of the
  kernel sources, the little- and big-endian views of a byte buffer (what a C cast
  between a struct and its bytes means on x86-64), and the generic facts on lists and
  words that the component theories use.
\<close>

unbundle bit_operations_syntax

type_synonym u8 = "8 word"
type_synonym u16 = "16 word"
type_synonym u32 = "32 word"
type_synonym u64 = "64 word"

named_theorems byte_simps \<open>lengths and values of byte sequences\<close>
named_theorems list_upd \<open>reading back what a list update stored\<close>

subsection \<open>Byte order\<close>

primrec le_val :: "u8 list \<Rightarrow> nat" where
  "le_val [] = 0"
| "le_val (b # bs) = unat b + 256 * le_val bs"

primrec le_bytes :: "nat \<Rightarrow> nat \<Rightarrow> u8 list" where
  "le_bytes 0 v = []"
| "le_bytes (Suc n) v = word_of_nat v # le_bytes n (v div 256)"

definition be_val :: "u8 list \<Rightarrow> nat" where
  "be_val bs = le_val (rev bs)"

definition be_bytes :: "nat \<Rightarrow> nat \<Rightarrow> u8 list" where
  "be_bytes n v = rev (le_bytes n v)"

lemma length_le_bytes [simp, byte_simps]: "length (le_bytes n v) = n"
  by (induction n arbitrary: v) auto

lemma length_be_bytes [simp, byte_simps]: "length (be_bytes n v) = n"
  by (simp add: be_bytes_def)

lemma unat_u8_of_nat [simp]: "unat (word_of_nat v :: u8) = v mod 256"
  by (simp add: unat_of_nat)

lemma le_val_bound: "le_val bs < 256 ^ length bs"
proof (induction bs)
  case Nil
  then show ?case by simp
next
  case (Cons b bs)
  have "unat b < 256" using unsigned_less [of b] by simp
  then show ?case using Cons by simp
qed

lemma le_val_le_bytes [byte_simps]: "le_val (le_bytes n v) = v mod 256 ^ n"
proof (induction n arbitrary: v)
  case 0
  then show ?case by simp
next
  case (Suc n)
  have "v mod 256 + 256 * (v div 256 mod 256 ^ n) = v mod (256 * 256 ^ n)"
    by (metis add.commute mod_mult2_eq mult.commute)
  with Suc show ?case by simp
qed

lemma le_bytes_le_val [byte_simps]: "le_bytes (length bs) (le_val bs) = bs"
proof (induction bs)
  case Nil
  then show ?case by simp
next
  case (Cons b bs)
  have b: "unat b < 256" using unsigned_less [of b] by simp
  then have "(unat b + 256 * le_val bs) div 256 = le_val bs" by simp
  moreover have "(word_of_nat (unat b + 256 * le_val bs) :: u8) = b"
    by (rule word_unat_eq_iff [THEN iffD2]) (use b in \<open>simp del: of_nat_add of_nat_mult\<close>)
  ultimately show ?case using Cons by simp
qed

lemma be_val_be_bytes [byte_simps]: "be_val (be_bytes n v) = v mod 256 ^ n"
  by (simp add: be_val_def be_bytes_def byte_simps)

subsection \<open>Lists\<close>

lemma nth_list_update_if [list_upd]:
  "i < length xs \<Longrightarrow> xs[i := v] ! j = (if j = i then v else xs ! j)"
  by (auto simp: nth_list_update)

lemma take_Suc_update [list_upd]:
  "i < length xs \<Longrightarrow> take (Suc i) (xs[i := v]) = take i xs @ [v]"
  by (simp add: take_Suc_conv_app_nth)

lemma foldl_concat_chunks: "foldl f s (xs @ ys) = foldl f (foldl f s xs) ys"
  by simp

subsection \<open>Words\<close>

lemma unat_mask_u32 [simp]: "unat ((x :: u32) AND 15) < 16"
proof -
  have "x AND 15 \<le> 15" by (rule word_and_le1)
  then have "unat (x AND 15) \<le> unat (15 :: u32)" by (rule word_le_nat_alt [THEN iffD1])
  then show ?thesis by simp
qed

subsection \<open>Runs of a step relation\<close>

text \<open>
  What every client of a state machine needs: if each step from a good state relates it, by
  a transitive relation, to a good state, then so does every run.
\<close>

locale monotone_system =
  fixes step :: "'s \<Rightarrow> 's \<Rightarrow> bool" and ok :: "'s \<Rightarrow> bool" and rel :: "'s \<Rightarrow> 's \<Rightarrow> bool"
  assumes rel_refl: "ok a \<Longrightarrow> rel a a"
    and rel_trans: "rel a b \<Longrightarrow> rel b c \<Longrightarrow> rel a c"
    and rel_ok: "ok a \<Longrightarrow> rel a b \<Longrightarrow> ok b"
    and step_rel: "step a b \<Longrightarrow> ok a \<Longrightarrow> rel a b"
begin

lemma run_rel: "step\<^sup>*\<^sup>* a b \<Longrightarrow> ok a \<Longrightarrow> rel a b"
proof (induction rule: rtranclp_induct)
  case base
  then show ?case by (rule rel_refl)
next
  case (step b c)
  from step(3) [OF step(4)] have "rel a b" .
  moreover have "rel b c" by (rule step_rel [OF step(2) rel_ok [OF step(4) calculation]])
  ultimately show ?case by (rule rel_trans)
qed

lemma run_ok: "step\<^sup>*\<^sup>* a b \<Longrightarrow> ok a \<Longrightarrow> ok b"
  by (rule rel_ok [OF _ run_rel])

end

end
