(* ===== verification/Seccomp.thy ===== *)
theory Seccomp
  imports Prelude
begin

text \<open>
  The system-call filter of kernel/arch/x86_64/seccomp.c: classic BPF programs that a
  task installs, the checker that admits them, the interpreter that runs them on every
  system call, and the life cycle of a filter over install, fork and release.

  Program counters and lengths are uint64_t in the source. They are natural numbers
  here: every jump adds at most 2 ^ 32 and the interpreter takes at most 4096 steps,
  so no 64-bit sum wraps. The one truncation the source makes, the cast of a jump
  target to uint32_t in the checker, is written out. A failing kmalloc is a boolean
  argument; user memory is the argument that gives the bytes of a user range, or None
  when copy_from_user fails.
\<close>

unbundle bit_operations_syntax

record bpf_insn =
  bi_code :: u16
  bi_jt :: u8
  bi_jf :: u8
  bi_k :: u32

record bpf_fprog =
  fp_len :: u16
  fp_filter :: u64

abbreviation BPF_LD :: u16 where "BPF_LD \<equiv> 0x00"
abbreviation BPF_LDX :: u16 where "BPF_LDX \<equiv> 0x01"
abbreviation BPF_ST :: u16 where "BPF_ST \<equiv> 0x02"
abbreviation BPF_STX :: u16 where "BPF_STX \<equiv> 0x03"
abbreviation BPF_ALU :: u16 where "BPF_ALU \<equiv> 0x04"
abbreviation BPF_JMP :: u16 where "BPF_JMP \<equiv> 0x05"
abbreviation BPF_RET :: u16 where "BPF_RET \<equiv> 0x06"
abbreviation BPF_MISC :: u16 where "BPF_MISC \<equiv> 0x07"
abbreviation BPF_W :: u16 where "BPF_W \<equiv> 0x00"
abbreviation BPF_IMM :: u16 where "BPF_IMM \<equiv> 0x00"
abbreviation BPF_ABS :: u16 where "BPF_ABS \<equiv> 0x20"
abbreviation BPF_MEM :: u16 where "BPF_MEM \<equiv> 0x60"
abbreviation BPF_LEN :: u16 where "BPF_LEN \<equiv> 0x80"
abbreviation BPF_ADD :: u16 where "BPF_ADD \<equiv> 0x00"
abbreviation BPF_SUB :: u16 where "BPF_SUB \<equiv> 0x10"
abbreviation BPF_MUL :: u16 where "BPF_MUL \<equiv> 0x20"
abbreviation BPF_DIV :: u16 where "BPF_DIV \<equiv> 0x30"
abbreviation BPF_OR :: u16 where "BPF_OR \<equiv> 0x40"
abbreviation BPF_AND :: u16 where "BPF_AND \<equiv> 0x50"
abbreviation BPF_LSH :: u16 where "BPF_LSH \<equiv> 0x60"
abbreviation BPF_RSH :: u16 where "BPF_RSH \<equiv> 0x70"
abbreviation BPF_NEG :: u16 where "BPF_NEG \<equiv> 0x80"
abbreviation BPF_MOD :: u16 where "BPF_MOD \<equiv> 0x90"
abbreviation BPF_XOR :: u16 where "BPF_XOR \<equiv> 0xa0"
abbreviation BPF_JA :: u16 where "BPF_JA \<equiv> 0x00"
abbreviation BPF_JEQ :: u16 where "BPF_JEQ \<equiv> 0x10"
abbreviation BPF_JGT :: u16 where "BPF_JGT \<equiv> 0x20"
abbreviation BPF_JGE :: u16 where "BPF_JGE \<equiv> 0x30"
abbreviation BPF_JSET :: u16 where "BPF_JSET \<equiv> 0x40"
abbreviation BPF_K :: u16 where "BPF_K \<equiv> 0x00"
abbreviation BPF_X :: u16 where "BPF_X \<equiv> 0x08"
abbreviation BPF_A :: u16 where "BPF_A \<equiv> 0x10"
abbreviation BPF_TAX :: u16 where "BPF_TAX \<equiv> 0x00"
abbreviation BPF_TXA :: u16 where "BPF_TXA \<equiv> 0x80"
abbreviation SECCOMP_RET_ALLOW :: u32 where "SECCOMP_RET_ALLOW \<equiv> 0x7fff0000"
abbreviation SECCOMP_RET_KILL :: u32 where "SECCOMP_RET_KILL \<equiv> 0"
abbreviation SECCOMP_RET_ERRNO :: u32 where "SECCOMP_RET_ERRNO \<equiv> 0x00050000"
abbreviation SECCOMP_RET_MASK :: u32 where "SECCOMP_RET_MASK \<equiv> 0x0000ffff"
abbreviation AUDIT_ARCH_X86_64 :: u32 where "AUDIT_ARCH_X86_64 \<equiv> 0xc000003e"
abbreviation SECCOMP_BPF_MAX_LEN :: nat where "SECCOMP_BPF_MAX_LEN \<equiv> 512"
abbreviation SECCOMP_BPF_MAX_STEPS :: nat where "SECCOMP_BPF_MAX_STEPS \<equiv> 4096"

subsection \<open>The checker\<close>

definition bpf_load_word :: "u32 \<Rightarrow> u32 \<Rightarrow> u64 \<Rightarrow> u64 list \<Rightarrow> u32 \<Rightarrow> u32" where
  "bpf_load_word nr arch ip args k =
     (if k = 0 then nr
      else if k = 4 then arch
      else if k = 8 then ucast (ip AND 0xffffffff)
      else if k = 12 then ucast (drop_bit 32 ip)
      else if 16 \<le> k \<and> k \<le> 56 \<and> (k - 16) AND 7 = 0
        then ucast ((args ! unat ((k - 16) div 8)) AND 0xffffffff)
      else 0)"

definition jump_target :: "nat \<Rightarrow> nat \<Rightarrow> nat" where
  "jump_target pc off = (pc + 1 + off) mod 2 ^ 32"

definition target_ok :: "nat \<Rightarrow> nat \<Rightarrow> nat \<Rightarrow> bool" where
  "target_ok len pc off \<longleftrightarrow> \<not> (jump_target pc off \<ge> len \<or> jump_target pc off \<le> pc)"

definition mem_index_ok :: "u32 \<Rightarrow> bool" where
  "mem_index_ok k \<longleftrightarrow> k AND NOT 0xf = 0"

definition bpf_check_insn :: "nat \<Rightarrow> nat \<Rightarrow> bpf_insn \<Rightarrow> bool" where
  "bpf_check_insn len pc i =
     (let code = bi_code i; cls = code AND 0x07; k = bi_k i in
      if cls = BPF_LD then
        (if code = BPF_LD OR BPF_W OR BPF_ABS then
           \<not> (k \<noteq> 0 \<and> k \<noteq> 4 \<and> k \<noteq> 8 \<and> k \<noteq> 12 \<and>
              (k < 16 \<or> k > 56 \<or> (k - 16) AND 7 \<noteq> 0))
         else if code = BPF_LD OR BPF_W OR BPF_IMM then True
         else if code = BPF_LD OR BPF_W OR BPF_LEN then True
         else if code = BPF_LD OR BPF_MEM then mem_index_ok k
         else False)
      else if cls = BPF_LDX then
        (if code \<noteq> BPF_LDX OR BPF_W OR BPF_IMM \<and> code \<noteq> BPF_LDX OR BPF_W OR BPF_LEN \<and>
            code \<noteq> BPF_LDX OR BPF_MEM then False
         else \<not> (code = BPF_LDX OR BPF_MEM \<and> \<not> mem_index_ok k))
      else if cls = BPF_ST then code = BPF_ST OR BPF_MEM \<and> mem_index_ok k
      else if cls = BPF_STX then code = BPF_STX OR BPF_MEM \<and> mem_index_ok k
      else if cls = BPF_ALU then
        (let aop = code AND 0xf0; src = code AND 0x08 in
         if aop \<noteq> BPF_ADD \<and> aop \<noteq> BPF_SUB \<and> aop \<noteq> BPF_MUL \<and> aop \<noteq> BPF_DIV \<and>
            aop \<noteq> BPF_MOD \<and> aop \<noteq> BPF_OR \<and> aop \<noteq> BPF_AND \<and> aop \<noteq> BPF_XOR \<and>
            aop \<noteq> BPF_LSH \<and> aop \<noteq> BPF_RSH \<and> aop \<noteq> BPF_NEG then False
         else if src \<noteq> BPF_K \<and> src \<noteq> BPF_X then False
         else \<not> (aop = BPF_NEG \<and> src \<noteq> BPF_X))
      else if cls = BPF_JMP then
        (let jop = code AND 0xf0 in
         if jop = BPF_JA then
           (if k = 0 then False else target_ok len pc (unat k))
         else if jop = BPF_JEQ \<or> jop = BPF_JGT \<or> jop = BPF_JGE \<or> jop = BPF_JSET then
           (let src = code AND 0x08 in
            if src \<noteq> BPF_K \<and> src \<noteq> BPF_X then False
            else target_ok len pc (unat (bi_jt i)) \<and> target_ok len pc (unat (bi_jf i)))
         else False)
      else if cls = BPF_RET then
        code = BPF_RET OR BPF_K \<or> code = BPF_RET OR BPF_X \<or> code = BPF_RET OR BPF_A
      else if cls = BPF_MISC then
        code = BPF_MISC OR BPF_TAX \<or> code = BPF_MISC OR BPF_TXA
      else False)"

fun bpf_check_from :: "bpf_insn list \<Rightarrow> nat \<Rightarrow> nat \<Rightarrow> bool" where
  "bpf_check_from [] len pc = True"
| "bpf_check_from (i # is) len pc =
     (if bpf_check_insn len pc i then bpf_check_from is len (Suc pc) else False)"

definition bpf_check_program :: "bpf_insn list option \<Rightarrow> nat \<Rightarrow> int" where
  "bpf_check_program prog len =
     (case prog of
        None \<Rightarrow> -1
      | Some p \<Rightarrow>
          if len = 0 \<or> len > SECCOMP_BPF_MAX_LEN then -1
          else if \<not> bpf_check_from (take len p) len 0 then -1
          else if bi_code (p ! (len - 1)) AND 0x07 \<noteq> BPF_RET then -1
          else 0)"

subsection \<open>The interpreter\<close>

record bpf_state =
  bs_mem :: "u32 list"
  bs_a :: u32
  bs_x :: u32
  bs_pc :: nat

record bpf_data =
  bd_nr :: u32
  bd_arch :: u32
  bd_ip :: u64
  bd_args :: "u64 list"

definition bpf_alu :: "u16 \<Rightarrow> u32 \<Rightarrow> u32 \<Rightarrow> u32" where
  "bpf_alu aop a v =
     (if aop = BPF_ADD then a + v
      else if aop = BPF_SUB then a - v
      else if aop = BPF_MUL then a * v
      else if aop = BPF_DIV then (if v \<noteq> 0 then a div v else 0)
      else if aop = BPF_MOD then (if v \<noteq> 0 then a mod v else 0)
      else if aop = BPF_OR then a OR v
      else if aop = BPF_AND then a AND v
      else if aop = BPF_XOR then a XOR v
      else if aop = BPF_LSH then push_bit (unat (v AND 31)) a
      else if aop = BPF_RSH then drop_bit (unat (v AND 31)) a
      else if aop = BPF_NEG then - a
      else a)"

definition bpf_take :: "u16 \<Rightarrow> u32 \<Rightarrow> u32 \<Rightarrow> bool" where
  "bpf_take jop a v =
     (if jop = BPF_JEQ then a = v
      else if jop = BPF_JGT then a > v
      else if jop = BPF_JGE then a \<ge> v
      else a AND v \<noteq> 0)"

definition bpf_step :: "bpf_insn \<Rightarrow> nat \<Rightarrow> bpf_data \<Rightarrow> bpf_state \<Rightarrow> u32 + bpf_state" where
  "bpf_step i len d s =
     (let code = bi_code i; cls = code AND 0x07; k = bi_k i;
          cell = unat (k AND 0xf); s1 = s\<lparr>bs_pc := bs_pc s + 1\<rparr>;
          v = (if code AND 0x08 \<noteq> 0 then bs_x s else k) in
      if cls = BPF_LD then
        Inr (s1\<lparr>bs_a :=
          (if code = BPF_LD OR BPF_W OR BPF_ABS
             then bpf_load_word (bd_nr d) (bd_arch d) (bd_ip d) (bd_args d) k
           else if code = BPF_LD OR BPF_W OR BPF_IMM then k
           else if code = BPF_LD OR BPF_MEM then bs_mem s ! cell
           else word_of_nat len)\<rparr>)
      else if cls = BPF_LDX then
        Inr (s1\<lparr>bs_x :=
          (if code = BPF_LDX OR BPF_W OR BPF_IMM then k
           else if code = BPF_LDX OR BPF_MEM then bs_mem s ! cell
           else word_of_nat len)\<rparr>)
      else if cls = BPF_ST then Inr (s1\<lparr>bs_mem := (bs_mem s)[cell := bs_a s]\<rparr>)
      else if cls = BPF_STX then Inr (s1\<lparr>bs_mem := (bs_mem s)[cell := bs_x s]\<rparr>)
      else if cls = BPF_MISC then
        (if code = BPF_MISC OR BPF_TAX then Inr (s1\<lparr>bs_x := bs_a s\<rparr>)
         else Inr (s1\<lparr>bs_a := bs_x s\<rparr>))
      else if cls = BPF_ALU then
        Inr (s1\<lparr>bs_a := bpf_alu (code AND 0xf0) (bs_a s) v\<rparr>)
      else if cls = BPF_JMP then
        (let jop = code AND 0xf0 in
         if jop = BPF_JA then Inr (s\<lparr>bs_pc := bs_pc s + 1 + unat k\<rparr>)
         else Inr (s\<lparr>bs_pc := bs_pc s + 1 +
                (if bpf_take jop (bs_a s) v then unat (bi_jt i) else unat (bi_jf i))\<rparr>))
      else if cls = BPF_RET then
        (if code = BPF_RET OR BPF_X then Inl (bs_x s)
         else if code = BPF_RET OR BPF_A then Inl (bs_a s)
         else Inl k)
      else Inl SECCOMP_RET_KILL)"

function bpf_loop :: "bpf_insn list \<Rightarrow> nat \<Rightarrow> bpf_data \<Rightarrow> nat \<Rightarrow> bpf_state \<Rightarrow> u32" where
  "bpf_loop prog len d steps s =
     (if bs_pc s < len then
        (if steps + 1 > SECCOMP_BPF_MAX_STEPS then SECCOMP_RET_KILL
         else (case bpf_step (prog ! bs_pc s) len d s of
                 Inl r \<Rightarrow> r
               | Inr s' \<Rightarrow> bpf_loop prog len d (steps + 1) s'))
      else SECCOMP_RET_KILL)"
  by pat_completeness auto
termination
  by (relation "measure (\<lambda>(prog, len, d, steps, s). SECCOMP_BPF_MAX_STEPS - steps)") auto

definition bpf_init :: bpf_state where
  "bpf_init = \<lparr>bs_mem = replicate 16 0, bs_a = 0, bs_x = 0, bs_pc = 0\<rparr>"

definition bpf_run :: "bpf_insn list \<Rightarrow> nat \<Rightarrow> bpf_data \<Rightarrow> u32" where
  "bpf_run prog len d = bpf_loop prog len d 0 bpf_init"

subsection \<open>Filters of tasks\<close>

record task_ext =
  seccomp_filter :: "bpf_insn list option"
  seccomp_filter_len :: nat

text \<open>A task is known here by its task\_ext pointer; None is a null pointer.\<close>

type_synonym sc_task = "task_ext option"

definition task_ext_get :: "bool \<Rightarrow> bool \<Rightarrow> sc_task \<Rightarrow> sc_task" where
  "task_ext_get create alloc_ok t =
     (case t of
        Some e \<Rightarrow> Some e
      | None \<Rightarrow> if \<not> create then None
                else if \<not> alloc_ok then None
                else Some \<lparr>seccomp_filter = None, seccomp_filter_len = 0\<rparr>)"

definition bpf_decode_fprog :: "u8 list \<Rightarrow> bpf_fprog" where
  "bpf_decode_fprog bs =
     \<lparr>fp_len = word_of_nat (le_val (take 2 bs)),
      fp_filter = word_of_nat (le_val (take 8 (drop 8 bs)))\<rparr>"

definition bpf_decode_insn :: "u8 list \<Rightarrow> bpf_insn" where
  "bpf_decode_insn bs =
     \<lparr>bi_code = word_of_nat (le_val (take 2 bs)),
      bi_jt = bs ! 2, bi_jf = bs ! 3,
      bi_k = word_of_nat (le_val (take 4 (drop 4 bs)))\<rparr>"

fun bpf_decode :: "nat \<Rightarrow> u8 list \<Rightarrow> bpf_insn list" where
  "bpf_decode 0 bs = []"
| "bpf_decode (Suc n) bs = bpf_decode_insn (take 8 bs) # bpf_decode n (drop 8 bs)"

definition seccomp_install ::
    "bool \<Rightarrow> bool \<Rightarrow> (u64 \<Rightarrow> nat \<Rightarrow> u8 list option) \<Rightarrow> sc_task option \<Rightarrow> u64 \<Rightarrow> int \<times> sc_task option"
  where
  "seccomp_install insns_ok ext_ok user task uprog =
     (case task of
        None \<Rightarrow> (-22, task)
      | Some t \<Rightarrow>
          if uprog = 0 then (-22, task)
          else if uprog < 0x1000 \<or> uprog \<ge> 0xFFFFFFFF80000000 then (-14, task)
          else (case user uprog 16 of
             None \<Rightarrow> (-14, task)
           | Some hb \<Rightarrow>
               (let fprog = bpf_decode_fprog hb; n = unat (fp_len fprog) in
                if n = 0 \<or> n > SECCOMP_BPF_MAX_LEN then (-22, task)
                else if fp_filter fprog = 0 then (-14, task)
                else if \<not> insns_ok then (-12, task)
                else (case user (fp_filter fprog) (n * 8) of
                   None \<Rightarrow> (-14, task)
                 | Some ib \<Rightarrow>
                     (let insns = bpf_decode n ib in
                      if bpf_check_program (Some insns) n \<noteq> 0 then (-22, task)
                      else (case task_ext_get True ext_ok t of
                         None \<Rightarrow> (-12, task)
                       | Some e \<Rightarrow>
                           (0, Some (Some (e\<lparr>seccomp_filter := Some insns,
                                             seccomp_filter_len := n\<rparr>)))))))))"

text \<open>
  seccomp\_check returns the value that the system-call entry hands back to the caller
  (0 lets the call proceed) and the signal it raises on the task, if any.
\<close>

definition seccomp_verdict :: "u32 \<Rightarrow> int \<times> nat option" where
  "seccomp_verdict ret =
     (if ret AND 0x7fff0000 = SECCOMP_RET_ALLOW then (0, None)
      else if ret AND 0x7fff0000 = SECCOMP_RET_ERRNO then
        (let err = uint (ret AND SECCOMP_RET_MASK) in
         (if err \<le> 0 \<or> err > 4095 then - 1 else - err, None))
      else (-38, Some 31))"

definition seccomp_check :: "sc_task option \<Rightarrow> int \<Rightarrow> u64 \<Rightarrow> u64 list \<Rightarrow> int \<times> nat option" where
  "seccomp_check task nr ip args =
     (case task of
        None \<Rightarrow> (0, None)
      | Some t \<Rightarrow>
          (case task_ext_get False False t of
             None \<Rightarrow> (0, None)
           | Some e \<Rightarrow>
               (case seccomp_filter e of
                  None \<Rightarrow> (0, None)
                | Some prog \<Rightarrow>
                    if seccomp_filter_len e = 0 then (0, None)
                    else seccomp_verdict (bpf_run prog (seccomp_filter_len e)
                           \<lparr>bd_nr = word_of_int nr, bd_arch = AUDIT_ARCH_X86_64,
                            bd_ip = ip, bd_args = args\<rparr>))))"

definition seccomp_fork ::
    "bool \<Rightarrow> bool \<Rightarrow> sc_task option \<Rightarrow> sc_task option \<Rightarrow> int \<times> sc_task option" where
  "seccomp_fork ext_ok copy_ok parent child =
     (case (parent, child) of
        (Some p, Some c) \<Rightarrow>
          (case task_ext_get False False p of
             None \<Rightarrow> (0, child)
           | Some pe \<Rightarrow>
               (case seccomp_filter pe of
                  None \<Rightarrow> (0, child)
                | Some prog \<Rightarrow>
                    if seccomp_filter_len pe = 0 then (0, child)
                    else (case task_ext_get True ext_ok c of
                       None \<Rightarrow> (-12, child)
                     | Some ce \<Rightarrow>
                         if \<not> copy_ok then (-12, Some (Some ce))
                         else (0, Some (Some (ce\<lparr>seccomp_filter := Some (take (seccomp_filter_len pe) prog),
                                                seccomp_filter_len := seccomp_filter_len pe\<rparr>))))))
      | _ \<Rightarrow> (-22, child))"

definition seccomp_release_task :: "sc_task option \<Rightarrow> sc_task option" where
  "seccomp_release_task task =
     (case task of
        None \<Rightarrow> None
      | Some t \<Rightarrow>
          (case task_ext_get False False t of
             None \<Rightarrow> task
           | Some e \<Rightarrow>
               (case seccomp_filter e of
                  None \<Rightarrow> task
                | Some _ \<Rightarrow> Some (Some (e\<lparr>seccomp_filter := None, seccomp_filter_len := 0\<rparr>)))))"


subsection \<open>What a filter means\<close>

text \<open>
  The meaning of a filter without the step counter of the interpreter: one rule per kind
  of step. A run that jumps out of the program has no derivation, so a derivation says
  that control stayed inside and ended at a return. The second argument counts the
  instructions executed.
\<close>

inductive bpf_exec :: "bpf_insn list \<Rightarrow> bpf_data \<Rightarrow> bpf_state \<Rightarrow> nat \<Rightarrow> u32 \<Rightarrow> bool"
  for prog :: "bpf_insn list" and d :: bpf_data where
  exec_ret: "bs_pc s < length prog \<Longrightarrow>
     bpf_step (prog ! bs_pc s) (length prog) d s = Inl r \<Longrightarrow> bpf_exec prog d s (Suc 0) r"
| exec_step: "bs_pc s < length prog \<Longrightarrow>
     bpf_step (prog ! bs_pc s) (length prog) d s = Inr s' \<Longrightarrow> bpf_exec prog d s' n r \<Longrightarrow>
     bpf_exec prog d s (Suc n) r"

inductive_cases bpf_execE: "bpf_exec prog d s n r"

definition checked :: "bpf_insn list \<Rightarrow> bool" where
  "checked prog \<longleftrightarrow> bpf_check_program (Some prog) (length prog) = 0"

declare bpf_loop.simps [simp del]

lemma target_ok_forward:
  assumes "target_ok len pc off" and "off < 2 ^ 32" and "pc < len" and "len \<le> 512"
  shows "pc + 1 + off < len"
proof (cases "pc + 1 + off < 2 ^ 32")
  case True
  with assms show ?thesis by (simp add: target_ok_def jump_target_def)
next
  case False
  then have "(pc + 1 + off) mod 2 ^ 32 = (pc + 1 + off - 2 ^ 32) mod 2 ^ 32"
    by (simp add: le_mod_geq)
  also have "\<dots> \<le> pc + 1 + off - 2 ^ 32" by simp
  also have "\<dots> \<le> pc" using assms(2) by simp
  finally show ?thesis using assms(1) by (simp add: target_ok_def jump_target_def)
qed

lemma bpf_check_from_iff:
  "bpf_check_from is len pc \<longleftrightarrow> (\<forall>j < length is. bpf_check_insn len (pc + j) (is ! j))"
proof (induction "is" arbitrary: pc)
  case Nil
  then show ?case by simp
next
  case (Cons i "is")
  show ?case by (auto simp: Cons nth_Cons' less_Suc_eq_0_disj split: if_splits)
qed

lemma checkedD:
  assumes "checked prog"
  shows "0 < length prog" and "length prog \<le> 512"
    and "pc < length prog \<Longrightarrow> bpf_check_insn (length prog) pc (prog ! pc)"
    and "bi_code (prog ! (length prog - 1)) AND 7 = BPF_RET"
  using assms
  by (auto simp: checked_def bpf_check_program_def bpf_check_from_iff split: if_splits)

lemma u8_off [simp]: "unat (b :: u8) < 4294967296"
  using unsigned_less [of b] by (rule order_less_trans) simp

lemma u32_off [simp]: "unat (w :: u32) < 4294967296"
  using unsigned_less [of w] by simp

lemma bpf_step_ret_class: "bi_code i AND 7 = BPF_RET \<Longrightarrow> \<exists>r. bpf_step i len d s = Inl r"
  by (auto simp: bpf_step_def Let_def)

lemma bpf_step_next:
  assumes "bpf_step i len d s = Inr s'" and "bi_code i AND 7 \<noteq> BPF_JMP"
  shows "bs_pc s' = Suc (bs_pc s)"
  using assms by (auto simp: bpf_step_def Let_def split: if_splits)

lemma bpf_step_jmp_eq:
  assumes "bi_code i AND 7 = BPF_JMP"
  shows "bpf_step i len d s = Inr (s\<lparr>bs_pc := bs_pc s + 1 +
     (if bi_code i AND 0xf0 = BPF_JA then unat (bi_k i)
      else if bpf_take (bi_code i AND 0xf0) (bs_a s)
                (if bi_code i AND 0x08 \<noteq> 0 then bs_x s else bi_k i)
      then unat (bi_jt i) else unat (bi_jf i))\<rparr>)"
  using assms by (simp add: bpf_step_def Let_def)

lemma bpf_check_jmp:
  assumes "bi_code i AND 7 = BPF_JMP" and "bpf_check_insn len pc i"
  shows "if bi_code i AND 0xf0 = BPF_JA then target_ok len pc (unat (bi_k i))
         else target_ok len pc (unat (bi_jt i)) \<and> target_ok len pc (unat (bi_jf i))"
  using assms by (simp add: bpf_check_insn_def Let_def split: if_splits)

lemma bpf_step_jump:
  assumes "bpf_step i len d s = Inr s'" and "bi_code i AND 7 = BPF_JMP"
    and "bpf_check_insn len (bs_pc s) i" and "bs_pc s < len" and "len \<le> 512"
  shows "bs_pc s < bs_pc s' \<and> bs_pc s' < len"
proof -
  from assms(1) bpf_step_jmp_eq [OF assms(2), of len d s] obtain off
    where pc: "bs_pc s' = bs_pc s + 1 + off"
      and off: "off = (if bi_code i AND 0xf0 = BPF_JA then unat (bi_k i)
        else if bpf_take (bi_code i AND 0xf0) (bs_a s)
                  (if bi_code i AND 0x08 \<noteq> 0 then bs_x s else bi_k i)
        then unat (bi_jt i) else unat (bi_jf i))"
    by auto
  from bpf_check_jmp [OF assms(2,3)] off have "target_ok len (bs_pc s) off"
    by (simp split: if_splits)
  moreover have "off < 2 ^ 32" using off by simp
  ultimately have "bs_pc s + 1 + off < len"
    using assms(4,5) by (rule target_ok_forward)
  with pc show ?thesis by simp
qed

lemma checked_step_forward:
  assumes "checked prog" and "bs_pc s < length prog"
    and "bpf_step (prog ! bs_pc s) (length prog) d s = Inr s'"
  shows "bs_pc s < bs_pc s' \<and> bs_pc s' < length prog"
proof (cases "bi_code (prog ! bs_pc s) AND 7 = BPF_JMP")
  case True
  show ?thesis
    by (rule bpf_step_jump [OF assms(3) True checkedD(3) [OF assms(1,2)] assms(2) checkedD(2) [OF assms(1)]])
next
  case False
  from assms(3) bpf_step_next [OF assms(3) False] have nxt: "bs_pc s' = Suc (bs_pc s)" by simp
  have "bs_pc s \<noteq> length prog - 1"
  proof
    assume "bs_pc s = length prog - 1"
    with checkedD(4) [OF assms(1)] have "bi_code (prog ! bs_pc s) AND 7 = BPF_RET" by simp
    from bpf_step_ret_class [OF this] assms(3) show False
      by (metis Inl_Inr_False)
  qed
  with nxt assms(2) show ?thesis by simp
qed

text \<open>
  From any point of a checked program the interpreter reaches a return within the
  instructions that are left, provided that many steps remain on its counter.
\<close>

lemma bpf_loop_exec:
  assumes "checked prog" and "bs_pc s < length prog"
    and "steps + (length prog - bs_pc s) \<le> SECCOMP_BPF_MAX_STEPS"
  shows "\<exists>n \<le> length prog - bs_pc s.
           bpf_exec prog d s n (bpf_loop prog (length prog) d steps s)"
  using assms(2,3)
proof (induction "length prog - bs_pc s" arbitrary: s steps rule: less_induct)
  case less
  show ?case
  proof (cases "bpf_step (prog ! bs_pc s) (length prog) d s")
    case (Inl r)
    with less.prems have "bpf_exec prog d s (Suc 0) (bpf_loop prog (length prog) d steps s)"
      by (auto intro!: exec_ret simp: bpf_loop.simps [of prog "length prog" d steps s])
    with less.prems show ?thesis by (intro exI [of _ "Suc 0"]) simp
  next
    case (Inr s')
    from checked_step_forward [OF assms(1) less.prems(1) Inr]
    have fwd: "bs_pc s < bs_pc s'" "bs_pc s' < length prog" by simp_all
    then have lt: "length prog - bs_pc s' < length prog - bs_pc s"
      "steps + 1 + (length prog - bs_pc s') \<le> SECCOMP_BPF_MAX_STEPS"
      using less.prems by arith+
    from less.hyps [OF lt(1) fwd(2) lt(2)] obtain n where n: "n \<le> length prog - bs_pc s'"
      "bpf_exec prog d s' n (bpf_loop prog (length prog) d (steps + 1) s')"
      by blast
    have "steps + 1 \<le> SECCOMP_BPF_MAX_STEPS" using lt(2) by arith
    with Inr less.prems have "bpf_loop prog (length prog) d steps s =
        bpf_loop prog (length prog) d (steps + 1) s'"
      by (simp add: bpf_loop.simps [of prog "length prog" d steps s])
    with n(2) Inr less.prems have "bpf_exec prog d s (Suc n) (bpf_loop prog (length prog) d steps s)"
      by (auto intro: exec_step)
    with n(1) fwd show ?thesis by (intro exI [of _ "Suc n"]) simp
  qed
qed

lemma bpf_run_exec:
  assumes "checked prog"
  shows "\<exists>n \<le> length prog. bpf_exec prog d bpf_init n (bpf_run prog (length prog) d)"
  using bpf_loop_exec [OF assms, of bpf_init 0 d] checkedD(1,2) [OF assms]
  by (simp add: bpf_run_def bpf_init_def)

lemma bpf_exec_unique:
  "bpf_exec prog d s n r \<Longrightarrow> bpf_exec prog d s m q \<Longrightarrow> n = m \<and> r = q"
proof (induction arbitrary: m q rule: bpf_exec.induct)
  case (exec_ret s r)
  from exec_ret(3) show ?case by (rule bpf_execE) (use exec_ret(2) in auto)
next
  case (exec_step s s' n r)
  from exec_step(5) obtain m' where "m = Suc m'" "bpf_exec prog d s' m' q"
    by (rule bpf_execE) (use exec_step(2) in auto)
  with exec_step(4) show ?case by blast
qed


subsection \<open>Filters over the life of tasks\<close>

text \<open>
  Tasks by process id. A task is created without a task\_ext, installs filters, is the
  parent of a fork whose child is a fresh task, and is released; user memory and the
  outcome of every allocation are arbitrary.
\<close>

type_synonym sc_sys = "nat \<Rightarrow> sc_task option"

inductive sc_step :: "sc_sys \<Rightarrow> sc_sys \<Rightarrow> bool" where
  sc_create: "sc_step f (f(pid := Some None))"
| sc_install: "seccomp_install insns_ok ext_ok user (f pid) uprog = (r, t) \<Longrightarrow>
     sc_step f (f(pid := t))"
| sc_fork: "f child = Some None \<Longrightarrow> seccomp_fork ext_ok copy_ok (f parent) (f child) = (r, t) \<Longrightarrow>
     sc_step f (f(child := t))"
| sc_release: "sc_step f (f(pid := seccomp_release_task (f pid)))"

inductive sc_reachable :: "sc_sys \<Rightarrow> bool" where
  sc_start: "sc_reachable (\<lambda>_. None)"
| sc_next: "sc_reachable f \<Longrightarrow> sc_step f g \<Longrightarrow> sc_reachable g"

definition filter_wf :: "sc_task option \<Rightarrow> bool" where
  "filter_wf t = (case t of
     Some (Some e) \<Rightarrow>
       (case seccomp_filter e of
          Some prog \<Rightarrow> length prog = seccomp_filter_len e \<and> checked prog
        | None \<Rightarrow> seccomp_filter_len e = 0)
   | _ \<Rightarrow> True)"

lemma length_bpf_decode [simp]: "length (bpf_decode n bs) = n"
  by (induction n bs rule: bpf_decode.induct) auto

lemma filter_wf_install:
  "filter_wf task \<Longrightarrow> seccomp_install insns_ok ext_ok user task uprog = (r, t) \<Longrightarrow> filter_wf t"
  by (auto simp: seccomp_install_def Let_def filter_wf_def checked_def split: option.splits if_splits)

lemma filter_wf_fork:
  "filter_wf parent \<Longrightarrow> filter_wf child \<Longrightarrow>
   seccomp_fork ext_ok copy_ok parent child = (r, t) \<Longrightarrow> filter_wf t"
  by (auto simp: seccomp_fork_def filter_wf_def task_ext_get_def split: option.splits if_splits)

lemma filter_wf_release: "filter_wf task \<Longrightarrow> filter_wf (seccomp_release_task task)"
  by (auto simp: seccomp_release_task_def filter_wf_def task_ext_get_def split: option.splits)

lemma sc_step_wf: "sc_step f g \<Longrightarrow> \<forall>p. filter_wf (f p) \<Longrightarrow> filter_wf (g p)"
proof (induction rule: sc_step.induct)
  case (sc_create f pid)
  then show ?case by (simp add: filter_wf_def)
next
  case (sc_install insns_ok ext_ok user f pid uprog r t)
  then show ?case using filter_wf_install [OF _ sc_install(1)] by simp
next
  case (sc_fork f child ext_ok copy_ok parent r t)
  then have "filter_wf t" by (blast intro: filter_wf_fork)
  with sc_fork(3) show ?case by simp
next
  case (sc_release f pid)
  then show ?case by (simp add: filter_wf_release)
qed

lemma sc_reachable_wf: "sc_reachable f \<Longrightarrow> filter_wf (f p)"
proof (induction arbitrary: p rule: sc_reachable.induct)
  case sc_start
  show ?case by (simp add: filter_wf_def)
next
  case (sc_next f g)
  from sc_next(2) show ?case by (rule sc_step_wf) (simp add: sc_next(3))
qed

lemma seccomp_check_filter:
  assumes "seccomp_filter e = Some prog" and "seccomp_filter_len e = length prog" and "prog \<noteq> []"
  shows "seccomp_check (Some (Some e)) nr ip args =
    seccomp_verdict (bpf_run prog (length prog)
      \<lparr>bd_nr = word_of_int nr, bd_arch = AUDIT_ARCH_X86_64, bd_ip = ip, bd_args = args\<rparr>)"
  using assms by (simp add: seccomp_check_def task_ext_get_def)

lemma filtered_check:
  assumes "sc_reachable f" and "f pid = Some (Some e)" and "seccomp_filter e = Some prog"
  shows "\<exists>n r. n \<le> length prog \<and>
           bpf_exec prog \<lparr>bd_nr = word_of_int nr, bd_arch = AUDIT_ARCH_X86_64, bd_ip = ip,
             bd_args = args\<rparr> bpf_init n r \<and>
           seccomp_check (f pid) nr ip args = seccomp_verdict r"
proof -
  from sc_reachable_wf [OF assms(1), of pid] assms(2,3)
  have wf: "seccomp_filter_len e = length prog" "checked prog"
    by (simp_all add: filter_wf_def)
  from checkedD(1) [OF wf(2)] have "prog \<noteq> []" by simp
  from seccomp_check_filter [OF assms(3) wf(1) this] bpf_run_exec [OF wf(2)] assms(2)
  show ?thesis by metis
qed

lemma word_mask_u16_range: "0 \<le> uint (r AND SECCOMP_RET_MASK) \<and> uint (r AND SECCOMP_RET_MASK) \<le> 65535"
proof -
  have "r AND SECCOMP_RET_MASK \<le> SECCOMP_RET_MASK" by (rule word_and_le1)
  then have "uint (r AND SECCOMP_RET_MASK) \<le> uint SECCOMP_RET_MASK"
    by (simp add: word_le_def)
  then show ?thesis by simp
qed

lemma mem_index_okD:
  assumes "mem_index_ok k"
  shows "unat k < 16 \<and> k AND 0xf = k"
proof -
  have "k = (k AND 0xf) OR (k AND NOT 0xf)" by (simp add: bit_eq_iff bit_simps) blast
  with assms have eq: "k AND 0xf = k" by (simp add: mem_index_ok_def)
  with unat_mask_u32 [of k] show ?thesis by simp
qed

subsection \<open>Properties\<close>

text \<open>
  A small filter for the witnesses: load the system-call number, allow number 1,
  answer everything else with errno 13.
\<close>

definition demo_filter :: "bpf_insn list" where
  "demo_filter =
     [\<lparr>bi_code = 0x20, bi_jt = 0, bi_jf = 0, bi_k = 0\<rparr>,
      \<lparr>bi_code = 0x15, bi_jt = 0, bi_jf = 1, bi_k = 1\<rparr>,
      \<lparr>bi_code = 0x06, bi_jt = 0, bi_jf = 0, bi_k = 0x7fff0000\<rparr>,
      \<lparr>bi_code = 0x06, bi_jt = 0, bi_jf = 0, bi_k = 0x0005000d\<rparr>]"

lemma demo_filter_ok: "bpf_check_program (Some demo_filter) (length demo_filter) = 0"
  by (simp add: demo_filter_def bpf_check_program_def bpf_check_insn_def Let_def
      target_ok_def jump_target_def)

lemma demo_filter_len [simp]: "length demo_filter = 4"
  by (simp add: demo_filter_def)

text \<open>
  C2. Whatever the system call, the interpreter runs a program the checker admits from
  its first instruction to a return inside the program, in at most as many steps as the
  program has instructions: it neither reaches the step limit nor runs off the end.
\<close>

theorem admitted_filter_returns:
  assumes "bpf_check_program (Some prog) (length prog) = 0"
  shows "\<exists>n \<le> length prog. bpf_exec prog d bpf_init n (bpf_run prog (length prog) d)"
  using assms by (intro bpf_run_exec) (simp add: checked_def)

theorem admitted_filter_returns_witness:
  "\<exists>n \<le> length demo_filter.
     bpf_exec demo_filter \<lparr>bd_nr = 1, bd_arch = AUDIT_ARCH_X86_64, bd_ip = 0, bd_args = []\<rparr>
       bpf_init n
       (bpf_run demo_filter (length demo_filter)
          \<lparr>bd_nr = 1, bd_arch = AUDIT_ARCH_X86_64, bd_ip = 0, bd_args = []\<rparr>)"
  by (rule admitted_filter_returns [OF demo_filter_ok])


text \<open>
  C20. In a program the checker admits, every load from the system-call record names one of
  the six argument slots or a fixed field, and every access to the scratch memory names
  a cell below 16, so that the mask with 0xf that the interpreter applies changes nothing.
\<close>

theorem admitted_filter_in_bounds:
  assumes "bpf_check_program (Some prog) (length prog) = 0" and "pc < length prog"
  shows "(bi_code (prog ! pc) = BPF_LD OR BPF_W OR BPF_ABS \<and> 16 \<le> bi_k (prog ! pc) \<longrightarrow>
            unat ((bi_k (prog ! pc) - 16) div 8) < 6) \<and>
         (bi_code (prog ! pc) \<in> {BPF_LD OR BPF_MEM, BPF_LDX OR BPF_MEM, BPF_ST OR BPF_MEM,
            BPF_STX OR BPF_MEM} \<longrightarrow>
            unat (bi_k (prog ! pc)) < 16 \<and> bi_k (prog ! pc) AND 0xf = bi_k (prog ! pc))"
proof -
  let ?i = "prog ! pc"
  from assms have ok: "bpf_check_insn (length prog) pc ?i"
    by (intro checkedD) (simp_all add: checked_def)
  have "16 \<le> bi_k ?i \<longrightarrow> unat ((bi_k ?i - 16) div 8) < 6"
    if "bi_code ?i = BPF_LD OR BPF_W OR BPF_ABS"
  proof
    assume ge: "16 \<le> bi_k ?i"
    with ok that have "bi_k ?i \<le> 56"
      by (auto simp: bpf_check_insn_def Let_def not_less word_le_nat_alt word_less_nat_alt)
    with ge show "unat ((bi_k ?i - 16) div 8) < 6"
      by (simp add: unat_div unat_sub word_le_nat_alt)
  qed
  moreover have "unat (bi_k ?i) < 16 \<and> bi_k ?i AND 0xf = bi_k ?i" if "mem_index_ok (bi_k ?i)"
    using that by (rule mem_index_okD)
  moreover have "mem_index_ok (bi_k ?i)"
    if "bi_code ?i \<in> {BPF_LD OR BPF_MEM, BPF_LDX OR BPF_MEM, BPF_ST OR BPF_MEM, BPF_STX OR BPF_MEM}"
    using ok that by (auto simp: bpf_check_insn_def Let_def)
  ultimately show ?thesis by blast
qed

theorem admitted_filter_in_bounds_witness:
  "unat ((bi_k (\<lparr>bi_code = 0x20, bi_jt = 0, bi_jf = 0, bi_k = 56\<rparr> :: bpf_insn) - 16) div 8) < 6"
  using admitted_filter_in_bounds
    [of "[\<lparr>bi_code = 0x20, bi_jt = 0, bi_jf = 0, bi_k = 56\<rparr>,
          \<lparr>bi_code = 0x16, bi_jt = 0, bi_jf = 0, bi_k = 0\<rparr>]" 0]
  by (simp add: bpf_check_program_def bpf_check_insn_def Let_def)

definition demo_user :: "u64 \<Rightarrow> nat \<Rightarrow> u8 list option" where
  "demo_user addr n =
     (if addr = 0x4000 \<and> n = 16 then Some ([4, 0] @ replicate 6 0 @ [0, 0x50] @ replicate 6 0)
      else if addr = 0x5000 \<and> n = 32 then
        Some [0x20, 0, 0, 0, 0, 0, 0, 0, 0x15, 0, 0, 1, 1, 0, 0, 0,
              0x06, 0, 0, 0, 0, 0, 0xff, 0x7f, 0x06, 0, 0, 0, 0x0d, 0, 0x05, 0]
      else None)"

lemma bpf_decode_4:
  "bpf_decode 4 bs = [bpf_decode_insn (take 8 bs), bpf_decode_insn (take 8 (drop 8 bs)),
     bpf_decode_insn (take 8 (drop 8 (drop 8 bs))),
     bpf_decode_insn (take 8 (drop 8 (drop 8 (drop 8 bs))))]"
proof -
  have four: "(4 :: nat) = Suc (Suc (Suc (Suc 0)))" by simp
  show ?thesis by (simp only: four bpf_decode.simps)
qed

lemma replicate_6: "replicate 6 x = [x, x, x, x, x, x]"
  by (simp add: numeral_eq_Suc)

lemma demo_bytes:
  "bpf_decode 4 [0x20, 0, 0, 0, 0, 0, 0, 0, 0x15, 0, 0, 1, 1, 0, 0, 0,
     0x06, 0, 0, 0, 0, 0, 0xff, 0x7f, 0x06, 0, 0, 0, 0x0d, 0, 0x05, 0] = demo_filter"
  by (simp add: bpf_decode_4 bpf_decode_insn_def demo_filter_def)

lemma demo_install:
  "seccomp_install True True demo_user (Some None) 0x4000 =
     (0, Some (Some \<lparr>seccomp_filter = Some demo_filter, seccomp_filter_len = 4\<rparr>))"
  using demo_filter_ok
  by (simp add: seccomp_install_def demo_user_def bpf_decode_fprog_def Let_def demo_bytes
      task_ext_get_def replicate_6)

lemma demo_reachable:
  "sc_reachable ((\<lambda>_. None)(7 := Some (Some \<lparr>seccomp_filter = Some demo_filter, seccomp_filter_len = 4\<rparr>)))"
proof -
  have "sc_reachable ((\<lambda>_. None)(7 := Some None))"
    by (rule sc_next [OF sc_start sc_create])
  moreover have "sc_step ((\<lambda>_. None)(7 := Some None)) (((\<lambda>_. None)(7 := Some None))
      (7 := Some (Some \<lparr>seccomp_filter = Some demo_filter, seccomp_filter_len = 4\<rparr>)))"
    by (rule sc_install [where insns_ok = True and ext_ok = True and user = demo_user and uprog = "0x4000" and r = 0])
       (simp add: demo_install)
  ultimately show ?thesis using sc_next by fastforce
qed

text \<open>
  A child forked from a task of a reachable state is filtered exactly as its parent is: when
  seccomp\_fork succeeds on a fresh child, both get the same answer to every system call.
\<close>

theorem seccomp_fork_inherits:
  assumes "sc_reachable f" and "f child = Some None"
    and "f parent = Some p"
    and "seccomp_fork ext_ok copy_ok (f parent) (f child) = (0, t)"
  shows "seccomp_check t nr ip args = seccomp_check (f parent) nr ip args"
proof -
  from sc_reachable_wf [OF assms(1), of parent] have wf: "filter_wf (f parent)" .
  show ?thesis
  proof (cases p)
    case None
    with assms(2-4) show ?thesis by (simp add: seccomp_fork_def task_ext_get_def)
  next
    case (Some pe)
    note pe = this
    show ?thesis
    proof (cases "seccomp_filter pe")
      case None
      with pe assms(2-4) have "t = Some None"
        by (simp add: seccomp_fork_def task_ext_get_def)
      with None pe assms(3) show ?thesis
        by (simp add: seccomp_check_def task_ext_get_def)
    next
      case (Some prog)
      with wf pe assms(3) have len: "length prog = seccomp_filter_len pe" "checked prog"
        by (simp_all add: filter_wf_def)
      with checkedD(1) [OF len(2)] have "seccomp_filter_len pe \<noteq> 0" by simp
      with Some pe len(1) assms(2-4) have "t = Some (Some \<lparr>seccomp_filter = Some prog,
          seccomp_filter_len = length prog\<rparr>)"
        by (simp add: seccomp_fork_def task_ext_get_def split: if_splits)
      with Some pe assms(3) len(1) show ?thesis
        by (simp add: seccomp_check_def task_ext_get_def)
    qed
  qed
qed

lemma demo_reachable_child:
  "sc_reachable ((\<lambda>_. None)(7 := Some (Some \<lparr>seccomp_filter = Some demo_filter, seccomp_filter_len = 4\<rparr>),
     8 := Some None))"
  using sc_next [OF demo_reachable sc_create, of 8] by simp

theorem seccomp_fork_inherits_witness:
  "seccomp_fork True True (Some (Some \<lparr>seccomp_filter = Some demo_filter, seccomp_filter_len = 4\<rparr>))
     (Some None) = (0, Some (Some \<lparr>seccomp_filter = Some demo_filter, seccomp_filter_len = 4\<rparr>)) \<and>
   seccomp_check (Some (Some \<lparr>seccomp_filter = Some demo_filter, seccomp_filter_len = 4\<rparr>)) 5 0 [] =
   seccomp_check (Some (Some \<lparr>seccomp_filter = Some demo_filter, seccomp_filter_len = 4\<rparr>)) 5 0 []"
proof -
  have fork: "seccomp_fork True True
      (Some (Some \<lparr>seccomp_filter = Some demo_filter, seccomp_filter_len = 4\<rparr>)) (Some None) =
      (0, Some (Some \<lparr>seccomp_filter = Some demo_filter, seccomp_filter_len = 4\<rparr>))"
    by (simp add: seccomp_fork_def task_ext_get_def)
  show ?thesis
    using fork seccomp_fork_inherits [OF demo_reachable_child, where child = 8 and parent = 7
        and ext_ok = True and copy_ok = True and nr = 5 and ip = 0 and args = "[]"
        and p = "Some \<lparr>seccomp_filter = Some demo_filter, seccomp_filter_len = 4\<rparr>"
        and t = "Some (Some \<lparr>seccomp_filter = Some demo_filter, seccomp_filter_len = 4\<rparr>)"]
    by simp
qed

definition filter_of :: "sc_task option \<Rightarrow> bpf_insn list option" where
  "filter_of task = Option.bind task (\<lambda>t. Option.bind t seccomp_filter)"

lemma filter_of_Some: "filter_of task = Some prog \<longleftrightarrow> (\<exists>e. task = Some (Some e) \<and> seccomp_filter e = Some prog)"
  by (auto simp: filter_of_def bind_eq_Some_conv)

lemma unfiltered_check: "filter_of task = None \<Longrightarrow> seccomp_check task nr ip args = (0, None)"
  by (auto simp: filter_of_def seccomp_check_def task_ext_get_def bind_eq_None_conv split: option.splits)

text \<open>
  C19. In every state that task creation, filter installation with arbitrary user memory, fork
  and release can reach, seccomp\_check answers a system call of any task with 0,
  which lets it proceed, exactly when the task has no filter or the run of its filter on that
  call ends with a value of the ALLOW action. Otherwise the answer is negative: for the ERRNO
  action the errno in the value, or -1 when that is zero or above 4095, and it is at least
  -4095; signal 31 is raised exactly when the action is neither ALLOW nor ERRNO.
\<close>

theorem seccomp_check_reachable:
  assumes "sc_reachable f"
  shows "case filter_of (f p) of
      None \<Rightarrow> seccomp_check (f p) nr ip args = (0, None)
    | Some prog \<Rightarrow> (\<exists>n r. n \<le> length prog \<and>
        bpf_exec prog \<lparr>bd_nr = word_of_int nr, bd_arch = AUDIT_ARCH_X86_64, bd_ip = ip, bd_args = args\<rparr> bpf_init n r \<and>
        seccomp_check (f p) nr ip args = seccomp_verdict r \<and>
        (fst (seccomp_check (f p) nr ip args) = 0 \<longleftrightarrow> r AND 0x7fff0000 = SECCOMP_RET_ALLOW) \<and>
        fst (seccomp_check (f p) nr ip args) \<in> {-4095..0} \<and>
        (r AND 0x7fff0000 = SECCOMP_RET_ERRNO \<longrightarrow>
           seccomp_check (f p) nr ip args =
             (if uint (r AND 0xffff) \<in> {1..4095} then - uint (r AND 0xffff) else -1, None)) \<and>
        (snd (seccomp_check (f p) nr ip args) = Some 31 \<longleftrightarrow>
           r AND 0x7fff0000 \<noteq> SECCOMP_RET_ALLOW \<and> r AND 0x7fff0000 \<noteq> SECCOMP_RET_ERRNO))"
proof (cases "filter_of (f p)")
  case None
  then show ?thesis by (simp add: unfiltered_check)
next
  case (Some prog)
  then obtain e where e: "f p = Some (Some e)" "seccomp_filter e = Some prog" by (auto simp: filter_of_Some)
  obtain n r where r: "n \<le> length prog"
    "bpf_exec prog \<lparr>bd_nr = word_of_int nr, bd_arch = AUDIT_ARCH_X86_64, bd_ip = ip, bd_args = args\<rparr> bpf_init n r"
    "seccomp_check (f p) nr ip args = seccomp_verdict r"
    using filtered_check [OF assms e] by blast
  moreover have "fst (seccomp_verdict r) = 0 \<longleftrightarrow> r AND 0x7fff0000 = SECCOMP_RET_ALLOW"
    "fst (seccomp_verdict r) \<in> {-4095..0}"
    "r AND 0x7fff0000 = SECCOMP_RET_ERRNO \<longrightarrow>
       seccomp_verdict r = (if uint (r AND 0xffff) \<in> {1..4095} then - uint (r AND 0xffff) else -1, None)"
    "snd (seccomp_verdict r) = Some 31 \<longleftrightarrow>
       r AND 0x7fff0000 \<noteq> SECCOMP_RET_ALLOW \<and> r AND 0x7fff0000 \<noteq> SECCOMP_RET_ERRNO"
    using word_mask_u16_range [of r] by (auto simp: seccomp_verdict_def Let_def int_one_le_iff_zero_less order_le_less)
  ultimately show ?thesis unfolding Some option.case by metis
qed

theorem seccomp_check_reachable_witness:
  "\<exists>n r. n \<le> 4 \<and> bpf_exec demo_filter \<lparr>bd_nr = 5, bd_arch = AUDIT_ARCH_X86_64, bd_ip = 0, bd_args = []\<rparr> bpf_init n r \<and>
     seccomp_check (Some (Some \<lparr>seccomp_filter = Some demo_filter, seccomp_filter_len = 4\<rparr>)) 5 0 [] = seccomp_verdict r \<and>
     (fst (seccomp_check (Some (Some \<lparr>seccomp_filter = Some demo_filter, seccomp_filter_len = 4\<rparr>)) 5 0 []) = 0 \<longleftrightarrow>
        r AND 0x7fff0000 = SECCOMP_RET_ALLOW)"
  using seccomp_check_reachable [OF demo_reachable, of 7 5 0 "[]"] by (auto simp: filter_of_def)

text \<open>
  C21. The checker refuses every program that contains the standard encoding 0x84 of the negate
  instruction (class ALU, operation NEG, source bit clear), although the interpreter implements
  it: only the encoding with the source bit X set is admitted.
\<close>

theorem bpf_neg_standard_encoding_refused:
  assumes "pc < length prog" and "bi_code (prog ! pc) = BPF_ALU OR BPF_NEG"
  shows "bpf_check_program (Some prog) (length prog) = -1"
proof (rule ccontr)
  assume "\<not> ?thesis"
  then have "checked prog"
    by (auto simp: checked_def bpf_check_program_def split: if_splits)
  from checkedD(3) [OF this assms(1)] assms(2) show False
    by (simp add: bpf_check_insn_def Let_def)
qed

theorem bpf_neg_standard_encoding_refused_witness:
  "bpf_check_program (Some [\<lparr>bi_code = 0x84, bi_jt = 0, bi_jf = 0, bi_k = 0\<rparr>,
     \<lparr>bi_code = 0x16, bi_jt = 0, bi_jf = 0, bi_k = 0\<rparr>]) 2 = -1"
  using bpf_neg_standard_encoding_refused
    [of 0 "[\<lparr>bi_code = 0x84, bi_jt = 0, bi_jf = 0, bi_k = 0\<rparr>,
     \<lparr>bi_code = 0x16, bi_jt = 0, bi_jf = 0, bi_k = 0\<rparr>]"] by (simp add: numeral_2_eq_2)

end
