(* ===== verification/Md_Hash.thy ===== *)
theory Md_Hash
  imports Prelude
begin

text \<open>
  What the two hash families of kernel/crypto share: cutting a message into blocks,
  the Merkle-Damgard padding of FIPS 180-4, and two interfaces. Locale md_stream is
  what a context that buffers bytes and compresses full blocks promises about one byte
  and about finishing; the reading of a context as the message it has absorbed, and that
  finishing gives the hash of that message, are proved once from it. Locale stream_hash is
  what a user of a hash needs, and HMAC is verified over it.
\<close>

function chunks :: "nat \<Rightarrow> 'a list \<Rightarrow> 'a list list" where
  "chunks n xs = (if n = 0 \<or> length xs < n then [] else take n xs # chunks n (drop n xs))"
  by pat_completeness auto
termination
  by (relation "measure (\<lambda>(n, xs). length xs)") auto

declare chunks.simps [simp del]

definition pad_zeros :: "nat \<Rightarrow> nat \<Rightarrow> nat \<Rightarrow> nat" where
  "pad_zeros B L n = (if n mod B < B - L then B - L - 1 - n mod B else 2 * B - L - 1 - n mod B)"

definition md_pad :: "nat \<Rightarrow> nat \<Rightarrow> u8 list \<Rightarrow> u8 list" where
  "md_pad B L msg =
     msg @ [0x80] @ replicate (pad_zeros B L (length msg)) 0 @ be_bytes L (8 * length msg)"

definition md_digest :: "nat \<Rightarrow> nat \<Rightarrow> ('h \<Rightarrow> u8 list \<Rightarrow> 'h) \<Rightarrow> 'h \<Rightarrow> u8 list \<Rightarrow> 'h" where
  "md_digest B L compress h0 msg = foldl compress h0 (chunks B (md_pad B L msg))"

text \<open>
  The straight-line code of the sources: storing the bytes of a 64-bit number at eight
  consecutive positions, most significant first, and the loop that clears a range of the
  buffer.
\<close>

definition put_be64 :: "u8 list \<Rightarrow> nat \<Rightarrow> u64 \<Rightarrow> u8 list" where
  "put_be64 d off v =
     d[off + 7 := ucast v, off + 6 := ucast (drop_bit 8 v), off + 5 := ucast (drop_bit 16 v),
       off + 4 := ucast (drop_bit 24 v), off + 3 := ucast (drop_bit 32 v),
       off + 2 := ucast (drop_bit 40 v), off + 1 := ucast (drop_bit 48 v),
       off := ucast (drop_bit 56 v)]"

function zero_fill :: "u8 list \<Rightarrow> nat \<Rightarrow> nat \<Rightarrow> u8 list" where
  "zero_fill d i lim = (if i < lim then zero_fill (d[i := 0]) (Suc i) lim else d)"
  by pat_completeness auto
termination
  by (relation "measure (\<lambda>(d, i, lim). lim - i)") auto

declare zero_fill.simps [simp del]

lemma zero_fill_eq:
  "i \<le> lim \<Longrightarrow> lim \<le> length d \<Longrightarrow>
   zero_fill d i lim = take i d @ replicate (lim - i) 0 @ drop lim d"
proof (induction d i lim rule: zero_fill.induct)
  case (1 d i lim)
  show ?case
  proof (cases "i < lim")
    case True
    with 1 have "zero_fill d i lim = take (Suc i) (d[i := 0]) @ replicate (lim - Suc i) 0 @ drop lim d"
      by (simp add: zero_fill.simps [of d i lim])
    also have "\<dots> = take i d @ replicate (lim - i) 0 @ drop lim d"
      using True 1(3) by (simp add: take_Suc_update flip: replicate_Suc Suc_diff_Suc)
    finally show ?thesis .
  next
    case False
    with 1(2) have "i = lim" by simp
    then show ?thesis by (simp add: zero_fill.simps [of d lim lim])
  qed
qed

lemma length_zero_fill [simp]: "length (zero_fill d i lim) = length d"
  by (induction d i lim rule: zero_fill.induct) (metis length_list_update zero_fill.simps)

lemma byte_of_drop_bit: "(ucast (drop_bit n (w :: 'a::len word)) :: u8) = word_of_nat (unat w div 2 ^ n)"
proof -
  have "(ucast (drop_bit n w) :: u8) = word_of_nat (unat (drop_bit n w))" by (rule of_nat_unat [symmetric])
  also have "unat (drop_bit n w) = unat w div 2 ^ n" 
    by (simp only: unat_drop_bit_eq) (simp only: drop_bit_eq_div)
  finally show ?thesis .
qed

lemma byte_of_word: "(ucast (w :: 'a::len word) :: u8) = word_of_nat (unat w)"
  by (rule of_nat_unat [symmetric])

lemma be_bytes_8: "be_bytes 8 v = map (\<lambda>n. word_of_nat (v div 2 ^ n)) [56, 48, 40, 32, 24, 16, 8, 0]"
proof -
  have eight: "(8 :: nat) = Suc (Suc (Suc (Suc (Suc (Suc (Suc (Suc 0)))))))" by simp
  have "le_bytes 8 v = map (\<lambda>n. word_of_nat (v div 2 ^ n)) [0, 8, 16, 24, 32, 40, 48, 56]"
    unfolding eight le_bytes.simps by (simp add: div_mult2_numeral_eq)
  then show ?thesis by (simp add: be_bytes_def)
qed

lemma be_bytes_4: "be_bytes 4 v = map (\<lambda>n. word_of_nat (v div 2 ^ n)) [24, 16, 8, 0]"
proof -
  have four: "(4 :: nat) = Suc (Suc (Suc (Suc 0)))" by simp
  have "le_bytes 4 v = map (\<lambda>n. word_of_nat (v div 2 ^ n)) [0, 8, 16, 24]"
    unfolding four le_bytes.simps by (simp add: div_mult2_numeral_eq)
  then show ?thesis by (simp add: be_bytes_def)
qed

lemma le_bytes_mod: "le_bytes n (v mod 256 ^ n) = le_bytes n v"
  using le_bytes_le_val [of "le_bytes n v"] by (simp add: le_val_le_bytes)

lemma put_be64_eq:
  assumes "off + 8 \<le> length d"
  shows "put_be64 d off v = take off d @ be_bytes 8 (unat v) @ drop (off + 8) d"
proof -
  define ys zs ws where "ys = take off d" and "zs = take 8 (drop off d)" and "ws = drop (off + 8) d"
  have d: "d = ys @ zs @ ws"
    unfolding ys_def zs_def ws_def by (metis add.commute append_take_drop_id drop_drop)
  have ly: "length ys = off" and lz: "length zs = 8"
    using assms by (auto simp: ys_def zs_def)
  from lz obtain a b c e f g h i where zs: "zs = [a, b, c, e, f, g, h, i]"
    by (auto simp: numeral_eq_Suc length_Suc_conv)
  show ?thesis
    unfolding d put_be64_def be_bytes_8
    by (simp add: zs ly list_update_append byte_of_drop_bit)
qed

lemma length_put_be64 [simp]: "length (put_be64 d off v) = length d"
  by (simp add: put_be64_def)

lemma le_bytes_add: "le_bytes (m + n) v = le_bytes m v @ le_bytes n (v div 256 ^ m)"
  by (induction m arbitrary: v) (simp_all add: div_mult2_eq)

lemma be_bytes_16:
  assumes "lo < 2 ^ 64"
  shows "be_bytes 16 (lo + 2 ^ 64 * hi) = be_bytes 8 hi @ be_bytes 8 lo"
proof -
  have sixteen: "(16 :: nat) = 8 + 8" by simp
  have "(lo + 2 ^ 64 * hi) div 2 ^ 64 = hi" and low: "(lo + 2 ^ 64 * hi) mod 256 ^ 8 = lo"
    using assms by simp_all
  moreover have "le_bytes 8 (lo + 2 ^ 64 * hi) = le_bytes 8 lo"
    using le_bytes_mod [of 8 "lo + 2 ^ 64 * hi"] low by simp
  ultimately show ?thesis
    unfolding sixteen be_bytes_def le_bytes_add by simp
qed

subsection \<open>Blocks\<close>

lemma chunks_Nil [simp]: "chunks n [] = []"
  by (cases "n = 0") (simp_all add: chunks.simps)

lemma chunks_block:
  assumes "0 < n" and "length ys = n"
  shows "chunks n (ys @ zs) = ys # chunks n zs"
proof -
  have "\<not> (n = 0 \<or> length (ys @ zs) < n)" using assms by auto
  then have "chunks n (ys @ zs) = take n (ys @ zs) # chunks n (drop n (ys @ zs))"
    by (subst chunks.simps) (simp only: if_False)
  with assms show ?thesis by simp
qed

lemma chunks_single: "0 < n \<Longrightarrow> length ys = n \<Longrightarrow> chunks n ys = [ys]"
  using chunks_block [of n ys "[]"] by simp

lemma chunks_append:
  "0 < n \<Longrightarrow> length xs mod n = 0 \<Longrightarrow> chunks n (xs @ ys) = chunks n xs @ chunks n ys"
proof (induction n xs rule: chunks.induct)
  case (1 n xs)
  show ?case
  proof (cases "length xs < n")
    case True
    with 1(3) have "xs = []" by simp
    then show ?thesis by simp
  next
    case False
    then have "length (drop n xs) mod n = 0"
      using 1(3) by (simp add: le_mod_geq)
    with False 1(1,2) have IH: "chunks n (drop n xs @ ys) = chunks n (drop n xs) @ chunks n ys"
      by simp
    have "chunks n (xs @ ys) = take n xs # chunks n (drop n xs @ ys)"
      using False 1(2) by (simp add: chunks.simps [of n "xs @ ys"])
    also have "\<dots> = chunks n xs @ chunks n ys"
      using False 1(2) IH by (simp add: chunks.simps [of n xs])
    finally show ?thesis .
  qed
qed

definition whole :: "nat \<Rightarrow> 'a list \<Rightarrow> 'a list" where
  "whole B m = take (B * (length m div B)) m"

definition partial :: "nat \<Rightarrow> 'a list \<Rightarrow> 'a list" where
  "partial B m = drop (B * (length m div B)) m"

lemma whole_partial: "whole B m @ partial B m = m"
  by (simp add: whole_def partial_def)

lemma length_whole [simp]: "length (whole B m) = B * (length m div B)"
  by (simp add: whole_def min_absorb2)

lemma length_partial [simp]: "length (partial B m) = length m mod B"
  by (simp add: partial_def minus_mult_div_eq_mod)

lemma whole_partial_grow:
  assumes "0 < B" and "Suc (length m mod B) < B"
  shows "whole B (m @ [b]) = whole B m" and "partial B (m @ [b]) = partial B m @ [b]"
proof -
  from assms have "Suc (length m) div B = length m div B"
    by (metis Suc_eq_plus1 div_Suc mod_Suc nat_neq_iff zero_less_Suc)
  then show "whole B (m @ [b]) = whole B m" and "partial B (m @ [b]) = partial B m @ [b]"
    by (simp_all add: whole_def partial_def)
qed

lemma whole_partial_full:
  assumes "0 < B" and "Suc (length m mod B) = B"
  shows "whole B (m @ [b]) = whole B m @ partial B m @ [b]" and "partial B (m @ [b]) = []"
proof -
  from assms have "Suc (length m) mod B = 0" by (simp add: mod_Suc)
  then have *: "B * (Suc (length m) div B) = Suc (length m)"
    by (metis add.right_neutral mult_div_mod_eq)
  then show "whole B (m @ [b]) = whole B m @ partial B m @ [b]"
    using whole_partial [of B m] by (simp add: whole_def [of B "m @ [b]"])
  from * show "partial B (m @ [b]) = []" by (simp add: partial_def)
qed


subsection \<open>A buffering context\<close>

text \<open>
  Parameters: the block size B, the size L of the length field, the modulus M of the bit
  counter, the compression function on chaining values, and, of a context, its invariant,
  its buffer, fill level, chaining value and bit counter. The laws say what absorbing one
  byte and finishing do to them.
\<close>

locale md_stream =
  fixes B L :: nat
    and M :: nat
    and compress :: "'h \<Rightarrow> u8 list \<Rightarrow> 'h"
    and h0 :: 'h
    and out :: "'h \<Rightarrow> u8 list"
    and invar :: "'s \<Rightarrow> bool"
    and buf :: "'s \<Rightarrow> u8 list"
    and fill :: "'s \<Rightarrow> nat"
    and chain :: "'s \<Rightarrow> 'h"
    and bits :: "'s \<Rightarrow> nat"
    and absorb :: "'s \<Rightarrow> u8 \<Rightarrow> 's"
    and finish :: "'s \<Rightarrow> u8 list"
  assumes sizes: "0 < L" "L < B" "M = 256 ^ L"
    and absorb_invar: "invar s \<Longrightarrow> invar (absorb s b)"
    and buffer: "invar s \<Longrightarrow> length (buf s) = B \<and> fill s < B"
    and absorb_part: "invar s \<Longrightarrow> Suc (fill s) < B \<Longrightarrow>
      take (Suc (fill s)) (buf (absorb s b)) = take (fill s) (buf s) @ [b] \<and>
      fill (absorb s b) = Suc (fill s) \<and> chain (absorb s b) = chain s \<and> bits (absorb s b) = bits s"
    and absorb_block: "invar s \<Longrightarrow> Suc (fill s) = B \<Longrightarrow>
      fill (absorb s b) = 0 \<and> chain (absorb s b) = compress (chain s) (take (fill s) (buf s) @ [b]) \<and>
      bits (absorb s b) = (bits s + 8 * B) mod M"
    and finish_short: "invar s \<Longrightarrow> fill s < B - L \<Longrightarrow>
      finish s = out (compress (chain s)
        (take (fill s) (buf s) @ [0x80] @ replicate (B - L - 1 - fill s) 0 @
         be_bytes L ((bits s + 8 * fill s) mod M)))"
    and finish_long: "invar s \<Longrightarrow> B - L \<le> fill s \<Longrightarrow>
      finish s = out (compress
        (compress (chain s) (take (fill s) (buf s) @ [0x80] @ replicate (B - 1 - fill s) 0))
        (replicate (B - L) 0 @ be_bytes L ((bits s + 8 * fill s) mod M)))"
begin

definition absorbed :: "'s \<Rightarrow> u8 list \<Rightarrow> bool" where
  "absorbed s m \<longleftrightarrow> invar s \<and> fill s = length m mod B \<and> take (fill s) (buf s) = partial B m \<and>
     chain s = foldl compress h0 (chunks B (whole B m)) \<and>
     bits s = (8 * length (whole B m)) mod M"

lemma B_pos: "0 < B"
  using sizes by simp

lemma absorbedD:
  assumes "absorbed s m"
  shows "invar s" and "fill s = length m mod B" and "take (length m mod B) (buf s) = partial B m"
    and "chain s = foldl compress h0 (chunks B (whole B m))"
    and "bits s = (8 * length (whole B m)) mod M"
  using assms by (auto simp: absorbed_def)

lemma absorbed_start:
  "invar s \<Longrightarrow> fill s = 0 \<Longrightarrow> chain s = h0 \<Longrightarrow> bits s = 0 \<Longrightarrow> absorbed s []"
  by (simp add: absorbed_def whole_def partial_def)

lemma absorbed_absorb:
  assumes "absorbed s m"
  shows "absorbed (absorb s b) (m @ [b])"
proof -
  note s = absorbedD [OF assms]
  have inv: "invar s" "invar (absorb s b)" using s(1) absorb_invar by simp_all
  consider (part) "Suc (fill s) < B" | (block) "Suc (fill s) = B"
    using buffer [OF inv(1)] by linarith
  then show ?thesis
  proof cases
    case part
    with s have lt: "Suc (length m mod B) < B" by simp
    then have "length (m @ [b]) mod B = Suc (length m mod B)" by (simp add: mod_Suc)
    with part s inv absorb_part [OF inv(1) part] whole_partial_grow [OF B_pos lt] show ?thesis
      by (simp add: absorbed_def)
  next
    case block
    with s have eq: "Suc (length m mod B) = B" by simp
    have len: "length (partial B m @ [b]) = B" using eq by simp
    have "chunks B (whole B (m @ [b])) = chunks B (whole B m) @ [partial B m @ [b]]"
      using whole_partial_full(1) [OF B_pos eq] len B_pos
      by (simp add: chunks_append chunks_single)
    moreover have "length (whole B (m @ [b])) = length (whole B m) + B"
      using whole_partial_full(1) [OF B_pos eq, of b] len by simp
    moreover have "length (m @ [b]) mod B = 0" using eq by (simp add: mod_Suc)
    ultimately show ?thesis
      using s inv absorb_block [OF inv(1) block] whole_partial_full(2) [OF B_pos eq, of b]
      by (simp add: absorbed_def mod_simps algebra_simps del: length_whole)
  qed
qed

lemma absorbed_foldl: "absorbed s m \<Longrightarrow> absorbed (foldl absorb s d) (m @ d)"
proof (induction d arbitrary: s m)
  case Nil
  then show ?case by simp
next
  case (Cons b d)
  from Cons.IH [OF absorbed_absorb [OF Cons.prems]] show ?case by simp
qed

lemma total_bits:
  assumes "absorbed s m"
  shows "be_bytes L ((bits s + 8 * fill s) mod M) = be_bytes L (8 * length m)"
proof -
  have "8 * length m = 8 * length (whole B m) + 8 * (length m mod B)"
    by (simp flip: distrib_left)
  then have "(bits s + 8 * fill s) mod M = (8 * length m) mod M"
    using absorbedD(2,5) [OF assms] by (metis mod_add_left_eq)
  then show ?thesis
    using le_bytes_mod [of L] sizes(3) by (metis be_bytes_def)
qed

lemma absorbed_finish:
  assumes "absorbed s m"
  shows "finish s = out (md_digest B L compress h0 m)"
proof -
  note s = absorbedD [OF assms]
  let ?len = "be_bytes L (8 * length m)"
  have pad: "md_pad B L m = whole B m @ partial B m @ [0x80] @
      replicate (pad_zeros B L (length m)) 0 @ ?len"
    using whole_partial [of B m] by (simp add: md_pad_def)
  have cut: "chunks B (md_pad B L m) = chunks B (whole B m) @
      chunks B (partial B m @ [0x80] @ replicate (pad_zeros B L (length m)) 0 @ ?len)"
    unfolding pad by (rule chunks_append) (simp_all add: B_pos)
  show ?thesis
  proof (cases "fill s < B - L")
    case True
    with s have *: "length m mod B < B - L" by simp
    with sizes have "length (partial B m @ [0x80] @
        replicate (pad_zeros B L (length m)) 0 @ ?len) = B"
      by (simp add: pad_zeros_def)
    with cut * s finish_short [OF _ True] B_pos total_bits [OF assms] show ?thesis
      by (simp add: md_digest_def chunks_single pad_zeros_def)
  next
    case False
    with s have *: "\<not> length m mod B < B - L" by simp
    have lt: "length m mod B < B" using B_pos by simp
    define z where "z = B - 1 - length m mod B"
    have "2 * B - L - 1 - r = (B - 1 - r) + (B - L)" if "r < B" for r
      using that sizes(1,2) by arith
    from this [OF lt] * have "pad_zeros B L (length m) = z + (B - L)"
      by (simp add: pad_zeros_def z_def)
    then have "partial B m @ [0x80] @ replicate (pad_zeros B L (length m)) (0 :: u8) @ ?len =
        (partial B m @ [0x80] @ replicate z 0) @ (replicate (B - L) 0 @ ?len)"
      by (simp add: replicate_add)
    moreover have "length (partial B m @ [0x80] @ replicate z (0 :: u8)) = B"
      using lt by (simp add: z_def)
    moreover have "length (replicate (B - L) (0 :: u8) @ ?len) = B"
      using sizes by simp
    ultimately have "chunks B (partial B m @ [0x80] @ replicate (pad_zeros B L (length m)) 0 @ ?len) =
        [partial B m @ [0x80] @ replicate z 0, replicate (B - L) 0 @ ?len]"
      using B_pos by (metis chunks_block chunks_single)
    with cut s False finish_long [of s] total_bits [OF assms] show ?thesis
      by (simp add: md_digest_def z_def)
  qed
qed

end

subsection \<open>What a user of a hash needs\<close>

locale stream_hash =
  fixes ready :: "'s \<Rightarrow> bool"
    and hinit :: "'s \<Rightarrow> 's"
    and hupdate :: "'s \<Rightarrow> u8 list \<Rightarrow> 's"
    and hfinal :: "'s \<Rightarrow> u8 list"
    and digest :: "u8 list \<Rightarrow> u8 list"
    and holds :: "'s \<Rightarrow> u8 list \<Rightarrow> bool"
  assumes holds_init: "ready c \<Longrightarrow> holds (hinit c) []"
    and holds_update: "holds s m \<Longrightarrow> holds (hupdate s d) (m @ d)"
    and holds_final: "holds s m \<Longrightarrow> hfinal s = digest m"
begin

lemma holds_updates: "holds s m \<Longrightarrow> holds (foldl hupdate s ds) (m @ concat ds)"
proof (induction ds arbitrary: s m)
  case Nil
  then show ?case by simp
next
  case (Cons d ds)
  from Cons.IH [OF holds_update [OF Cons.prems]] show ?case by simp
qed

lemma final_updates: "ready c \<Longrightarrow> hfinal (foldl hupdate (hinit c) ds) = digest (concat ds)"
  using holds_final [OF holds_updates [OF holds_init]] by simp

lemma final_one: "ready c \<Longrightarrow> hfinal (hupdate (hinit c) a) = digest a"
  using final_updates [of c "[a]"] by simp

lemma final_two: "ready c \<Longrightarrow> hfinal (hupdate (hupdate (hinit c) a) b) = digest (a @ b)"
  using final_updates [of c "[a, b]"] by simp

end

end
