(* ===== verification/Sha2.thy ===== *)
theory Sha2
  imports Complex_Main Md_Hash
begin

text \<open>
  kernel/crypto/sha256.c and sha512.c (with SHA-384). The contexts are records with the
  fields of sha256_ctx_t and sha512_ctx_t; the macros and the compression loops that the
  two files write twice, once per word size, are one polymorphic definition each. The fill
  level of the buffer is a natural number below the block size. A context is not used
  after its final call, so the final functions return the digest alone.

  The second half states SHA-2 as FIPS 180-4 does, sharing nothing with the code but the
  names of the word operations: Ch and Maj, rotations, the round, a schedule defined by
  recursion on the round number, constants defined as bits of roots of primes, padding of
  the whole message. It proves that the streaming code computes it.
\<close>

unbundle bit_operations_syntax

definition ROTR :: "'a::len word \<Rightarrow> nat \<Rightarrow> 'a word" where
  "ROTR x n = drop_bit n x OR push_bit (LENGTH('a) - n) x"

definition CH :: "'a::len word \<Rightarrow> 'a word \<Rightarrow> 'a word \<Rightarrow> 'a word" where
  "CH x y z = (x AND y) XOR (NOT x AND z)"

definition MAJ :: "'a::len word \<Rightarrow> 'a word \<Rightarrow> 'a word \<Rightarrow> 'a word" where
  "MAJ x y z = (x AND y) XOR (x AND z) XOR (y AND z)"

definition EP0 :: "u32 \<Rightarrow> u32" where "EP0 x = ROTR x 2 XOR ROTR x 13 XOR ROTR x 22"
definition EP1 :: "u32 \<Rightarrow> u32" where "EP1 x = ROTR x 6 XOR ROTR x 11 XOR ROTR x 25"
definition SIG0 :: "u32 \<Rightarrow> u32" where "SIG0 x = ROTR x 7 XOR ROTR x 18 XOR drop_bit 3 x"
definition SIG1 :: "u32 \<Rightarrow> u32" where "SIG1 x = ROTR x 17 XOR ROTR x 19 XOR drop_bit 10 x"

definition EP064 :: "u64 \<Rightarrow> u64" where "EP064 x = ROTR x 28 XOR ROTR x 34 XOR ROTR x 39"
definition EP164 :: "u64 \<Rightarrow> u64" where "EP164 x = ROTR x 14 XOR ROTR x 18 XOR ROTR x 41"
definition SIG064 :: "u64 \<Rightarrow> u64" where "SIG064 x = ROTR x 1 XOR ROTR x 8 XOR drop_bit 7 x"
definition SIG164 :: "u64 \<Rightarrow> u64" where "SIG164 x = ROTR x 19 XOR ROTR x 61 XOR drop_bit 6 x"

text \<open>The round constants, row by row as the sources write them.\<close>

definition k_row4 :: "'a \<Rightarrow> 'a \<Rightarrow> 'a \<Rightarrow> 'a \<Rightarrow> 'a list" where
  "k_row4 a b c d = [a, b, c, d]"

definition k_row2 :: "'a \<Rightarrow> 'a \<Rightarrow> 'a list" where
  "k_row2 a b = [a, b]"

definition sha256_K :: "u32 list" where
  "sha256_K =
     k_row4 0x428a2f98 0x71374491 0xb5c0fbcf 0xe9b5dba5 @
     k_row4 0x3956c25b 0x59f111f1 0x923f82a4 0xab1c5ed5 @
     k_row4 0xd807aa98 0x12835b01 0x243185be 0x550c7dc3 @
     k_row4 0x72be5d74 0x80deb1fe 0x9bdc06a7 0xc19bf174 @
     k_row4 0xe49b69c1 0xefbe4786 0x0fc19dc6 0x240ca1cc @
     k_row4 0x2de92c6f 0x4a7484aa 0x5cb0a9dc 0x76f988da @
     k_row4 0x983e5152 0xa831c66d 0xb00327c8 0xbf597fc7 @
     k_row4 0xc6e00bf3 0xd5a79147 0x06ca6351 0x14292967 @
     k_row4 0x27b70a85 0x2e1b2138 0x4d2c6dfc 0x53380d13 @
     k_row4 0x650a7354 0x766a0abb 0x81c2c92e 0x92722c85 @
     k_row4 0xa2bfe8a1 0xa81a664b 0xc24b8b70 0xc76c51a3 @
     k_row4 0xd192e819 0xd6990624 0xf40e3585 0x106aa070 @
     k_row4 0x19a4c116 0x1e376c08 0x2748774c 0x34b0bcb5 @
     k_row4 0x391c0cb3 0x4ed8aa4a 0x5b9cca4f 0x682e6ff3 @
     k_row4 0x748f82ee 0x78a5636f 0x84c87814 0x8cc70208 @
     k_row4 0x90befffa 0xa4506ceb 0xbef9a3f7 0xc67178f2"

definition sha512_K :: "u64 list" where
  "sha512_K =
     k_row2 0x428a2f98d728ae22 0x7137449123ef65cd @
     k_row2 0xb5c0fbcfec4d3b2f 0xe9b5dba58189dbbc @
     k_row2 0x3956c25bf348b538 0x59f111f1b605d019 @
     k_row2 0x923f82a4af194f9b 0xab1c5ed5da6d8118 @
     k_row2 0xd807aa98a3030242 0x12835b0145706fbe @
     k_row2 0x243185be4ee4b28c 0x550c7dc3d5ffb4e2 @
     k_row2 0x72be5d74f27b896f 0x80deb1fe3b1696b1 @
     k_row2 0x9bdc06a725c71235 0xc19bf174cf692694 @
     k_row2 0xe49b69c19ef14ad2 0xefbe4786384f25e3 @
     k_row2 0x0fc19dc68b8cd5b5 0x240ca1cc77ac9c65 @
     k_row2 0x2de92c6f592b0275 0x4a7484aa6ea6e483 @
     k_row2 0x5cb0a9dcbd41fbd4 0x76f988da831153b5 @
     k_row2 0x983e5152ee66dfab 0xa831c66d2db43210 @
     k_row2 0xb00327c898fb213f 0xbf597fc7beef0ee4 @
     k_row2 0xc6e00bf33da88fc2 0xd5a79147930aa725 @
     k_row2 0x06ca6351e003826f 0x142929670a0e6e70 @
     k_row2 0x27b70a8546d22ffc 0x2e1b21385c26c926 @
     k_row2 0x4d2c6dfc5ac42aed 0x53380d139d95b3df @
     k_row2 0x650a73548baf63de 0x766a0abb3c77b2a8 @
     k_row2 0x81c2c92e47edaee6 0x92722c851482353b @
     k_row2 0xa2bfe8a14cf10364 0xa81a664bbc423001 @
     k_row2 0xc24b8b70d0f89791 0xc76c51a30654be30 @
     k_row2 0xd192e819d6ef5218 0xd69906245565a910 @
     k_row2 0xf40e35855771202a 0x106aa07032bbd1b8 @
     k_row2 0x19a4c116b8d2d0c8 0x1e376c085141ab53 @
     k_row2 0x2748774cdf8eeb99 0x34b0bcb5e19b48a8 @
     k_row2 0x391c0cb3c5c95a63 0x4ed8aa4ae3418acb @
     k_row2 0x5b9cca4f7763e373 0x682e6ff3d6b2b8a3 @
     k_row2 0x748f82ee5defb2fc 0x78a5636f43172f60 @
     k_row2 0x84c87814a1f0ab72 0x8cc702081a6439ec @
     k_row2 0x90befffa23631e28 0xa4506cebde82bde9 @
     k_row2 0xbef9a3f7b2c67915 0xc67178f2e372532b @
     k_row2 0xca273eceea26619c 0xd186b8c721c0c207 @
     k_row2 0xeada7dd6cde0eb1e 0xf57d4f7fee6ed178 @
     k_row2 0x06f067aa72176fba 0x0a637dc5a2c898a6 @
     k_row2 0x113f9804bef90dae 0x1b710b35131c471b @
     k_row2 0x28db77f523047d84 0x32caab7b40c72493 @
     k_row2 0x3c9ebe0a15c9bebc 0x431d67c49c100d4c @
     k_row2 0x4cc5d4becb3e42b6 0x597f299cfc657e2a @
     k_row2 0x5fcb6fab3ad6faec 0x6c44198c4a475817"

record sha256_ctx =
  s2_data :: "u8 list"
  s2_datalen :: nat
  s2_bitlen :: u64
  s2_state :: "u64 list"

record sha512_ctx =
  s5_data :: "u8 list"
  s5_datalen :: nat
  s5_bitlen0 :: u64
  s5_bitlen1 :: u64
  s5_state :: "u64 list"

type_synonym 'w vars = "'w \<times> 'w \<times> 'w \<times> 'w \<times> 'w \<times> 'w \<times> 'w \<times> 'w"

subsection \<open>Compression\<close>

primrec sha2_extend ::
    "('a::len word \<Rightarrow> 'a word) \<Rightarrow> ('a word \<Rightarrow> 'a word) \<Rightarrow> nat \<Rightarrow> 'a word list \<Rightarrow> 'a word list" where
  "sha2_extend sig0 sig1 0 w = w"
| "sha2_extend sig0 sig1 (Suc n) w =
     (let i = length w in
      sha2_extend sig0 sig1 n (w @ [sig1 (w ! (i - 2)) + w ! (i - 7) + sig0 (w ! (i - 15)) + w ! (i - 16)]))"

fun sha2_round ::
    "('a::len word \<Rightarrow> 'a word) \<Rightarrow> ('a word \<Rightarrow> 'a word) \<Rightarrow> 'a word \<Rightarrow> 'a word \<Rightarrow> 'a word vars \<Rightarrow> 'a word vars"
  where
  "sha2_round ep0 ep1 k w (a, b, c, d, e, f, g, h) =
     (let t1 = h + ep1 e + CH e f g + k + w; t2 = ep0 a + MAJ a b c
      in (t1 + t2, a, b, c, d + t1, e, f, g))"

definition sha256_load :: "u8 list \<Rightarrow> u32 list" where
  "sha256_load data =
     map (\<lambda>i. push_bit 24 (ucast (data ! (i * 4))) OR push_bit 16 (ucast (data ! (i * 4 + 1))) OR
              push_bit 8 (ucast (data ! (i * 4 + 2))) OR ucast (data ! (i * 4 + 3))) [0..<16]"

definition sha512_load :: "u8 list \<Rightarrow> u64 list" where
  "sha512_load data =
     map (\<lambda>i. push_bit 56 (ucast (data ! (i * 8))) OR push_bit 48 (ucast (data ! (i * 8 + 1))) OR
              push_bit 40 (ucast (data ! (i * 8 + 2))) OR push_bit 32 (ucast (data ! (i * 8 + 3))) OR
              push_bit 24 (ucast (data ! (i * 8 + 4))) OR push_bit 16 (ucast (data ! (i * 8 + 5))) OR
              push_bit 8 (ucast (data ! (i * 8 + 6))) OR ucast (data ! (i * 8 + 7))) [0..<16]"

definition sha256_transform :: "sha256_ctx \<Rightarrow> u8 list \<Rightarrow> sha256_ctx" where
  "sha256_transform ctx data =
     (let w = sha2_extend SIG0 SIG1 48 (sha256_load data);
          st = s2_state ctx;
          v0 = (ucast (st ! 0), ucast (st ! 1), ucast (st ! 2), ucast (st ! 3),
                ucast (st ! 4), ucast (st ! 5), ucast (st ! 6), ucast (st ! 7))
      in case foldl (\<lambda>v i. sha2_round EP0 EP1 (sha256_K ! i) (w ! i) v) v0 [0..<64] of
           (a, b, c, d, e, f, g, h) \<Rightarrow>
             ctx\<lparr>s2_state := [st ! 0 + ucast a, st ! 1 + ucast b, st ! 2 + ucast c, st ! 3 + ucast d,
                             st ! 4 + ucast e, st ! 5 + ucast f, st ! 6 + ucast g, st ! 7 + ucast h]\<rparr>)"

definition sha512_transform :: "sha512_ctx \<Rightarrow> u8 list \<Rightarrow> sha512_ctx" where
  "sha512_transform ctx data =
     (let w = sha2_extend SIG064 SIG164 64 (sha512_load data);
          st = s5_state ctx;
          v0 = (st ! 0, st ! 1, st ! 2, st ! 3, st ! 4, st ! 5, st ! 6, st ! 7)
      in case foldl (\<lambda>v i. sha2_round EP064 EP164 (sha512_K ! i) (w ! i) v) v0 [0..<80] of
           (a, b, c, d, e, f, g, h) \<Rightarrow>
             ctx\<lparr>s5_state := [st ! 0 + a, st ! 1 + b, st ! 2 + c, st ! 3 + d,
                             st ! 4 + e, st ! 5 + f, st ! 6 + g, st ! 7 + h]\<rparr>)"

subsection \<open>SHA-256\<close>

definition sha256_init :: "sha256_ctx \<Rightarrow> sha256_ctx" where
  "sha256_init ctx = ctx\<lparr>s2_datalen := 0, s2_bitlen := 0,
     s2_state := [0x6a09e667, 0xbb67ae85, 0x3c6ef372, 0xa54ff53a,
                  0x510e527f, 0x9b05688c, 0x1f83d9ab, 0x5be0cd19]\<rparr>"

definition sha256_update_byte :: "sha256_ctx \<Rightarrow> u8 \<Rightarrow> sha256_ctx" where
  "sha256_update_byte ctx b =
     (let c1 = ctx\<lparr>s2_data := (s2_data ctx)[s2_datalen ctx := b],
                   s2_datalen := s2_datalen ctx + 1\<rparr>
      in if s2_datalen c1 = 64 then
           (sha256_transform c1 (s2_data c1))\<lparr>s2_bitlen := s2_bitlen c1 + 512, s2_datalen := 0\<rparr>
         else c1)"

definition sha256_update :: "sha256_ctx \<Rightarrow> u8 list \<Rightarrow> sha256_ctx" where
  "sha256_update ctx data = foldl sha256_update_byte ctx data"

definition sha256_bytes :: "u64 \<Rightarrow> u8 list" where
  "sha256_bytes s = [ucast (drop_bit 24 s AND 0xff), ucast (drop_bit 16 s AND 0xff),
                     ucast (drop_bit 8 s AND 0xff), ucast (s AND 0xff)]"

definition sha256_final :: "sha256_ctx \<Rightarrow> u8 list" where
  "sha256_final ctx =
     (let i = s2_datalen ctx;
          d0 = (s2_data ctx)[i := 0x80];
          c1 = (if s2_datalen ctx < 56 then ctx\<lparr>s2_data := zero_fill d0 (i + 1) 56\<rparr>
                else (let d1 = zero_fill d0 (i + 1) 64;
                          c = sha256_transform (ctx\<lparr>s2_data := d1\<rparr>) d1
                      in c\<lparr>s2_data := zero_fill (s2_data c) 0 56\<rparr>));
          total = s2_bitlen c1 + word_of_nat (s2_datalen c1 * 8);
          d2 = put_be64 (s2_data c1) 56 total;
          c2 = sha256_transform (c1\<lparr>s2_bitlen := total, s2_data := d2\<rparr>) d2
      in concat (map (\<lambda>i. sha256_bytes (s2_state c2 ! i)) [0..<8]))"

text \<open>The local context of sha256\_hash starts with arbitrary contents.\<close>

definition sha256_hash :: "sha256_ctx \<Rightarrow> u8 list \<Rightarrow> u8 list" where
  "sha256_hash ctx data = sha256_final (sha256_update (sha256_init ctx) data)"

subsection \<open>SHA-512 and SHA-384\<close>

definition sha512_init :: "sha512_ctx \<Rightarrow> sha512_ctx" where
  "sha512_init ctx = ctx\<lparr>s5_datalen := 0, s5_bitlen0 := 0, s5_bitlen1 := 0,
     s5_state := [0x6a09e667f3bcc908, 0xbb67ae8584caa73b, 0x3c6ef372fe94f82b,
                  0xa54ff53a5f1d36f1, 0x510e527fade682d1, 0x9b05688c2b3e6c1f,
                  0x1f83d9abfb41bd6b, 0x5be0cd19137e2179]\<rparr>"

definition sha384_init :: "sha512_ctx \<Rightarrow> sha512_ctx" where
  "sha384_init ctx = ctx\<lparr>s5_datalen := 0, s5_bitlen0 := 0, s5_bitlen1 := 0,
     s5_state := [0xcbbb9d5dc1059ed8, 0x629a292a367cd507, 0x9159015a3070dd17,
                  0x152fecd8f70e5939, 0x67332667ffc00b31, 0x8eb44a8768581511,
                  0xdb0c2e0d64f98fa7, 0x47b5481dbefa4fa4]\<rparr>"

definition sha512_update_byte :: "sha512_ctx \<Rightarrow> u8 \<Rightarrow> sha512_ctx" where
  "sha512_update_byte ctx b =
     (let c1 = ctx\<lparr>s5_data := (s5_data ctx)[s5_datalen ctx := b],
                   s5_datalen := s5_datalen ctx + 1\<rparr>
      in if s5_datalen c1 = 128 then
           (let c2 = sha512_transform c1 (s5_data c1);
                lo = s5_bitlen0 c2 + 1024;
                hi = (if lo < 1024 then s5_bitlen1 c2 + 1 else s5_bitlen1 c2)
            in c2\<lparr>s5_bitlen0 := lo, s5_bitlen1 := hi, s5_datalen := 0\<rparr>)
         else c1)"

definition sha512_update :: "sha512_ctx \<Rightarrow> u8 list \<Rightarrow> sha512_ctx" where
  "sha512_update ctx data = foldl sha512_update_byte ctx data"

definition sha512_bytes :: "u64 \<Rightarrow> u8 list" where
  "sha512_bytes s = [ucast (drop_bit 56 s), ucast (drop_bit 48 s), ucast (drop_bit 40 s),
                     ucast (drop_bit 32 s), ucast (drop_bit 24 s), ucast (drop_bit 16 s),
                     ucast (drop_bit 8 s), ucast s]"

definition sha512_final :: "sha512_ctx \<Rightarrow> u8 list" where
  "sha512_final ctx =
     (let i = s5_datalen ctx;
          lo = s5_bitlen0 ctx + word_of_nat (s5_datalen ctx) * 8;
          hi = (if lo < s5_bitlen0 ctx then s5_bitlen1 ctx + 1 else s5_bitlen1 ctx);
          d0 = (s5_data ctx)[i := 0x80];
          c1 = (if s5_datalen ctx < 112 then ctx\<lparr>s5_data := zero_fill d0 (i + 1) 112\<rparr>
                else (let d1 = zero_fill d0 (i + 1) 128;
                          c = sha512_transform (ctx\<lparr>s5_data := d1\<rparr>) d1
                      in c\<lparr>s5_data := zero_fill (s5_data c) 0 112\<rparr>));
          d2 = put_be64 (put_be64 (s5_data c1) 120 lo) 112 hi;
          c2 = sha512_transform (c1\<lparr>s5_data := d2\<rparr>) d2
      in concat (map (\<lambda>i. sha512_bytes (s5_state c2 ! i)) [0..<8]))"

definition sha512_hash :: "sha512_ctx \<Rightarrow> u8 list \<Rightarrow> u8 list" where
  "sha512_hash ctx data = sha512_final (sha512_update (sha512_init ctx) data)"

definition sha384_final :: "sha512_ctx \<Rightarrow> u8 list" where
  "sha384_final ctx = map (\<lambda>i. sha512_final ctx ! i) [0..<48]"

definition sha384_hash :: "sha512_ctx \<Rightarrow> u8 list \<Rightarrow> u8 list" where
  "sha384_hash ctx data = sha384_final (sha512_update (sha384_init ctx) data)"


subsection \<open>SHA-2 as the standard states it\<close>

definition Sigma0_256 :: "u32 \<Rightarrow> u32" where
  "Sigma0_256 x = word_rotr 2 x XOR word_rotr 13 x XOR word_rotr 22 x"
definition Sigma1_256 :: "u32 \<Rightarrow> u32" where
  "Sigma1_256 x = word_rotr 6 x XOR word_rotr 11 x XOR word_rotr 25 x"
definition sigma0_256 :: "u32 \<Rightarrow> u32" where
  "sigma0_256 x = word_rotr 7 x XOR word_rotr 18 x XOR drop_bit 3 x"
definition sigma1_256 :: "u32 \<Rightarrow> u32" where
  "sigma1_256 x = word_rotr 17 x XOR word_rotr 19 x XOR drop_bit 10 x"
definition Sigma0_512 :: "u64 \<Rightarrow> u64" where
  "Sigma0_512 x = word_rotr 28 x XOR word_rotr 34 x XOR word_rotr 39 x"
definition Sigma1_512 :: "u64 \<Rightarrow> u64" where
  "Sigma1_512 x = word_rotr 14 x XOR word_rotr 18 x XOR word_rotr 41 x"
definition sigma0_512 :: "u64 \<Rightarrow> u64" where
  "sigma0_512 x = word_rotr 1 x XOR word_rotr 8 x XOR drop_bit 7 x"
definition sigma1_512 :: "u64 \<Rightarrow> u64" where
  "sigma1_512 x = word_rotr 19 x XOR word_rotr 61 x XOR drop_bit 6 x"

text \<open>
  The message schedule by recursion on the round number; m t is word t of the block.
\<close>

fun sha_W :: "('w::plus \<Rightarrow> 'w) \<Rightarrow> ('w \<Rightarrow> 'w) \<Rightarrow> (nat \<Rightarrow> 'w) \<Rightarrow> nat \<Rightarrow> 'w" where
  "sha_W s0 s1 m t =
     (if t < 16 then m t
      else s1 (sha_W s0 s1 m (t - 2)) + sha_W s0 s1 m (t - 7) +
           s0 (sha_W s0 s1 m (t - 15)) + sha_W s0 s1 m (t - 16))"

declare sha_W.simps [simp del]

fun vars_list :: "'w vars \<Rightarrow> 'w list" where
  "vars_list (a, b, c, d, e, f, g, h) = [a, b, c, d, e, f, g, h]"

definition list_vars :: "'w list \<Rightarrow> 'w vars" where
  "list_vars x = (x ! 0, x ! 1, x ! 2, x ! 3, x ! 4, x ! 5, x ! 6, x ! 7)"

text \<open>
  The logical functions and the round of the standard (4.1.2, 4.1.3, 6.2.2, 6.4.2), written
  apart from the macros of the sources.
\<close>

definition fips_Ch :: "'a::len word \<Rightarrow> 'a word \<Rightarrow> 'a word \<Rightarrow> 'a word" where
  "fips_Ch x y z = (x AND y) XOR (NOT x AND z)"

definition fips_Maj :: "'a::len word \<Rightarrow> 'a word \<Rightarrow> 'a word \<Rightarrow> 'a word" where
  "fips_Maj x y z = (x AND y) XOR (x AND z) XOR (y AND z)"

fun fips_sha_round ::
    "('a::len word \<Rightarrow> 'a word) \<Rightarrow> ('a word \<Rightarrow> 'a word) \<Rightarrow> 'a word \<Rightarrow> 'a word \<Rightarrow> 'a word vars \<Rightarrow> 'a word vars"
  where
  "fips_sha_round S0 S1 K W (a, b, c, d, e, f, g, h) =
     (let T1 = h + S1 e + fips_Ch e f g + K + W;
          T2 = S0 a + fips_Maj a b c
      in (T1 + T2, a, b, c, d + T1, e, f, g))"

text \<open>
  The constants of the standard are given by what they are: the first 32 or 64 bits of the
  fractional parts of the cube roots of the first 64 or 80 primes (4.2.2, 4.2.3), and, for
  the initial hash values, of the square roots of the first eight primes and, for SHA-384,
  of the ninth to the sixteenth (5.3.3 to 5.3.5).
\<close>

definition first_primes :: "nat list" where
  "first_primes =
     [2, 3, 5, 7, 11, 13, 17, 19, 23, 29, 31, 37, 41, 43, 47, 53,
      59, 61, 67, 71, 73, 79, 83, 89, 97, 101, 103, 107, 109, 113, 127, 131,
      137, 139, 149, 151, 157, 163, 167, 173, 179, 181, 191, 193, 197, 199, 211, 223,
      227, 229, 233, 239, 241, 251, 257, 263, 269, 271, 277, 281, 283, 293, 307, 311,
      313, 317, 331, 337, 347, 349, 353, 359, 367, 373, 379, 383, 389, 397, 401, 409]"

definition fraction_bits :: "real \<Rightarrow> 'a::len word" where
  "fraction_bits x = word_of_int \<lfloor>frac x * 2 ^ LENGTH('a)\<rfloor>"

definition fips_K :: "nat \<Rightarrow> 'a::len word" where
  "fips_K t = fraction_bits (root 3 (real (first_primes ! t)))"

definition H256 :: "u32 list" where
  "H256 = map (\<lambda>p. fraction_bits (sqrt (real p))) (take 8 first_primes)"

definition H512 :: "u64 list" where
  "H512 = map (\<lambda>p. fraction_bits (sqrt (real p))) (take 8 first_primes)"

definition H384 :: "u64 list" where
  "H384 = map (\<lambda>p. fraction_bits (sqrt (real p))) (take 8 (drop 8 first_primes))"

definition fips_compress256 :: "u32 list \<Rightarrow> u8 list \<Rightarrow> u32 list" where
  "fips_compress256 H blk =
     (let m = (\<lambda>t. word_of_nat (be_val (take 4 (drop (4 * t) blk))));
          v = foldl (\<lambda>v t. fips_sha_round Sigma0_256 Sigma1_256 (fips_K t)
                       (sha_W sigma0_256 sigma1_256 m t) v) (list_vars H) [0..<64]
      in map2 (+) H (vars_list v))"

definition fips_compress512 :: "u64 list \<Rightarrow> u8 list \<Rightarrow> u64 list" where
  "fips_compress512 H blk =
     (let m = (\<lambda>t. word_of_nat (be_val (take 8 (drop (8 * t) blk))));
          v = foldl (\<lambda>v t. fips_sha_round Sigma0_512 Sigma1_512 (fips_K t)
                       (sha_W sigma0_512 sigma1_512 m t) v) (list_vars H) [0..<80]
      in map2 (+) H (vars_list v))"

definition fips_sha256 :: "u8 list \<Rightarrow> u8 list" where
  "fips_sha256 msg =
     concat (map (\<lambda>w. be_bytes 4 (unat w)) (md_digest 64 8 fips_compress256 H256 msg))"

definition fips_sha512 :: "u8 list \<Rightarrow> u8 list" where
  "fips_sha512 msg =
     concat (map (\<lambda>w. be_bytes 8 (unat w)) (md_digest 128 16 fips_compress512 H512 msg))"

definition fips_sha384 :: "u8 list \<Rightarrow> u8 list" where
  "fips_sha384 msg =
     take 48 (concat (map (\<lambda>w. be_bytes 8 (unat w)) (md_digest 128 16 fips_compress512 H384 msg)))"

subsection \<open>The compression functions agree\<close>

lemma ROTR_word_rotr:
  assumes "0 < n" and "n < LENGTH('a)"
  shows "ROTR (x :: 'a::len word) n = word_rotr n x"
proof (rule bit_word_eqI)
  fix i assume i: "i < LENGTH('a)"
  show "bit (ROTR x n) i = bit (word_rotr n x) i"
  proof (cases "n + i < LENGTH('a)")
    case True
    then have "(n + i) mod LENGTH('a) = n + i" by simp
    with True i assms show ?thesis
      by (auto simp: ROTR_def bit_simps ac_simps)
  next
    case False
    with i assms have "(n + i) mod LENGTH('a) = n + i - LENGTH('a)"
      by (simp add: mod_if)
    moreover have "\<not> bit x (n + i)" using False by (metis bit_imp_le_length)
    ultimately show ?thesis using False i assms
      by (auto simp: ROTR_def bit_simps ac_simps)
  qed
qed

lemma sha_functions:
  "EP0 = Sigma0_256" "EP1 = Sigma1_256" "SIG0 = sigma0_256" "SIG1 = sigma1_256"
  "EP064 = Sigma0_512" "EP164 = Sigma1_512" "SIG064 = sigma0_512" "SIG164 = sigma1_512"
  by (rule ext; simp add: EP0_def EP1_def SIG0_def SIG1_def EP064_def EP164_def SIG064_def SIG164_def
      Sigma0_256_def Sigma1_256_def sigma0_256_def sigma1_256_def
      Sigma0_512_def Sigma1_512_def sigma0_512_def sigma1_512_def ROTR_word_rotr)+

text \<open>
  The bits of a root are found over the integers: n is the integer part of the k-th root of
  p, scaled by two to the word length, exactly when the k-th powers of n and of its
  successor enclose the scaled p.
\<close>

lemma floor_scaled_root:
  fixes n :: int
  assumes "0 < k" and "0 \<le> n" and lo: "n ^ k \<le> int p * 2 ^ (k * w)" and hi: "int p * 2 ^ (k * w) < (n + 1) ^ k"
  shows "\<lfloor>root k (real p) * 2 ^ w\<rfloor> = n"
proof -
  have x: "(root k (real p) * 2 ^ w) ^ k = real_of_int (int p * 2 ^ (k * w))"
    using assms(1) by (simp add: power_mult_distrib real_root_pow_pos2 mult.commute flip: power_mult)
  have "real_of_int n ^ k \<le> (root k (real p) * 2 ^ w) ^ k"
    using lo unfolding x by (simp only: of_int_le_iff flip: of_int_power)
  then have "real_of_int n \<le> root k (real p) * 2 ^ w"
    using assms(1) by (simp add: power_mono_iff assms(2))
  moreover have "real_of_int (int p * 2 ^ (k * w)) < real_of_int ((n + 1) ^ k)"
    using hi by (simp only: of_int_less_iff)
  then have "(root k (real p) * 2 ^ w) ^ k < (real_of_int n + 1) ^ k"
    unfolding x by simp
  then have "root k (real p) * 2 ^ w < real_of_int n + 1"
    by (rule power_less_imp_less_base) (use assms(2) in simp)
  ultimately show ?thesis by (simp add: floor_eq_iff)
qed

lemma fraction_bits_scaled: "(fraction_bits x :: 'a::len word) = word_of_int \<lfloor>x * 2 ^ LENGTH('a)\<rfloor>"
proof -
  have "frac x * 2 ^ LENGTH('a) = x * 2 ^ LENGTH('a) - real_of_int (\<lfloor>x\<rfloor> * 2 ^ LENGTH('a))"
    by (simp add: frac_def left_diff_distrib)
  then have "\<lfloor>frac x * 2 ^ LENGTH('a)\<rfloor> = \<lfloor>x * 2 ^ LENGTH('a)\<rfloor> - \<lfloor>x\<rfloor> * 2 ^ LENGTH('a)"
    by (simp only: floor_diff_of_int)
  moreover have "word_of_int (\<lfloor>x\<rfloor> * 2 ^ LENGTH('a)) = (0 :: 'a word)"
    by (simp only: word_of_int_eq_0_iff dvd_triv_right)
  ultimately show ?thesis by (simp add: fraction_bits_def)
qed

definition int_root :: "nat \<Rightarrow> nat \<Rightarrow> int" where
  "int_root k p = int (length (takeWhile (\<lambda>q. q ^ k \<le> p) [1..<21]))"

definition root_bits :: "nat \<Rightarrow> nat \<Rightarrow> nat \<Rightarrow> int \<Rightarrow> bool" where
  "root_bits k w p v \<longleftrightarrow>
     (let n = int_root k p * 2 ^ w + v
      in 0 \<le> n \<and> n ^ k \<le> int p * 2 ^ (k * w) \<and> int p * 2 ^ (k * w) < (n + 1) ^ k)"

lemma root_bits_fraction:
  assumes "root_bits k LENGTH('a) p (uint v)" and "0 < k"
  shows "fraction_bits (root k (real p)) = (v :: 'a::len word)"
proof -
  have "\<lfloor>root k (real p) * 2 ^ LENGTH('a)\<rfloor> = int_root k p * 2 ^ LENGTH('a) + uint v"
    using assms unfolding root_bits_def Let_def by (intro floor_scaled_root) blast+
  moreover have "word_of_int (int_root k p * 2 ^ LENGTH('a)) = (0 :: 'a word)"
    by (simp only: word_of_int_eq_0_iff dvd_triv_right)
  ultimately show ?thesis
    by (simp add: fraction_bits_scaled)
qed

lemma sha256_K_bits: "list_all2 (\<lambda>p k. root_bits 3 32 p (uint k)) (take 64 first_primes) sha256_K"
  by code_simp

lemma sha512_K_bits: "list_all2 (\<lambda>p k. root_bits 3 64 p (uint k)) first_primes sha512_K"
  by code_simp

lemma sha256_K_fips:
  assumes "t < 64"
  shows "sha256_K ! t = fips_K t"
proof -
  have "length first_primes = 80" by (simp add: first_primes_def)
  then have "root_bits 3 32 (take 64 first_primes ! t) (uint (sha256_K ! t))"
    using assms by (intro list_all2_nthD [OF sha256_K_bits]) simp
  then show ?thesis
    using assms root_bits_fraction [where 'a = 32, of 3 "first_primes ! t" "sha256_K ! t"]
    by (simp add: fips_K_def)
qed

lemma sha512_K_fips:
  assumes "t < 80"
  shows "sha512_K ! t = fips_K t"
proof -
  have "length first_primes = 80" by (simp add: first_primes_def)
  then have "root_bits 3 64 (first_primes ! t) (uint (sha512_K ! t))"
    using assms by (intro list_all2_nthD [OF sha512_K_bits]) simp
  then show ?thesis
    using root_bits_fraction [where 'a = 64, of 3 "first_primes ! t" "sha512_K ! t"]
    by (simp add: fips_K_def)
qed

lemma roots_of_primes:
  assumes "list_all2 (\<lambda>p v. root_bits 2 LENGTH('a) p (uint v)) ps (vs :: 'a::len word list)"
  shows "map (\<lambda>p. fraction_bits (sqrt (real p))) ps = vs"
  using assms by (induction rule: list_all2_induct) (simp_all add: root_bits_fraction sqrt_def)

lemma H256_values:
  "H256 = [0x6a09e667, 0xbb67ae85, 0x3c6ef372, 0xa54ff53a, 0x510e527f, 0x9b05688c, 0x1f83d9ab, 0x5be0cd19]"
  unfolding H256_def by (rule roots_of_primes) code_simp

lemma H512_values:
  "H512 = [0x6a09e667f3bcc908, 0xbb67ae8584caa73b, 0x3c6ef372fe94f82b, 0xa54ff53a5f1d36f1,
           0x510e527fade682d1, 0x9b05688c2b3e6c1f, 0x1f83d9abfb41bd6b, 0x5be0cd19137e2179]"
  unfolding H512_def by (rule roots_of_primes) code_simp

lemma H384_values:
  "H384 = [0xcbbb9d5dc1059ed8, 0x629a292a367cd507, 0x9159015a3070dd17, 0x152fecd8f70e5939,
           0x67332667ffc00b31, 0x8eb44a8768581511, 0xdb0c2e0d64f98fa7, 0x47b5481dbefa4fa4]"
  unfolding H384_def by (rule roots_of_primes) code_simp

lemma sha2_round_fips: "sha2_round = fips_sha_round"
proof (rule ext)+
  fix S0 S1 :: "'a word \<Rightarrow> 'a word" and K W :: "'a word" and v :: "'a word vars"
  obtain a b c d e f g h where "v = (a, b, c, d, e, f, g, h)" by (cases v) auto
  then show "sha2_round S0 S1 K W v = fips_sha_round S0 S1 K W v"
    by (simp add: CH_def MAJ_def fips_Ch_def fips_Maj_def)
qed

lemma sha2_extend_schedule:
  "16 \<le> k \<Longrightarrow> sha2_extend s0 s1 n (map (sha_W s0 s1 m) [0..<k]) = map (sha_W s0 s1 m) [0..<k + n]"
proof (induction n arbitrary: k)
  case 0
  then show ?case by simp
next
  case (Suc n)
  then have "sha_W s0 s1 m k = s1 (sha_W s0 s1 m (k - 2)) + sha_W s0 s1 m (k - 7) +
      s0 (sha_W s0 s1 m (k - 15)) + sha_W s0 s1 m (k - 16)"
    by (subst sha_W.simps) simp
  with Suc show ?case
    using Suc.IH [of "Suc k"] by (simp add: Let_def)
qed


lemma or_byte: "push_bit 8 (word_of_nat v :: 'a::len word) OR ucast (b :: u8) = word_of_nat (unat b + 256 * v)"
proof -
  have "push_bit 8 (word_of_nat v :: 'a word) OR ucast b = push_bit 8 (word_of_nat v) + ucast b"
    by (rule disjunctive_add [symmetric])
       (auto simp: bit_simps dest: bit_imp_le_length)
  also have "\<dots> = word_of_nat (unat b + 256 * v)"
    by (simp add: push_bit_eq_mult)
  finally show ?thesis .
qed

lemma be_val_snoc: "be_val (bs @ [b]) = unat b + 256 * be_val bs"
  by (simp add: be_val_def)

lemma be_word32:
  "push_bit 24 (ucast a) OR push_bit 16 (ucast b) OR push_bit 8 (ucast c) OR ucast (d :: u8) =
   (word_of_nat (be_val [a, b, c, d]) :: u32)"
proof -
  have "push_bit 24 (ucast a) OR push_bit 16 (ucast b) OR push_bit 8 (ucast c) OR ucast d =
      push_bit 8 (push_bit 8 (push_bit 8 (push_bit 8 (word_of_nat 0) OR ucast a) OR ucast b) OR ucast c)
        OR (ucast d :: u32)"
    by (simp add: push_bit_or or.assoc)
  also have "\<dots> = word_of_nat (be_val ([] @ [a] @ [b] @ [c] @ [d]))"
    by (simp only: or_byte append_assoc [symmetric] be_val_snoc) (simp add: be_val_def)
  finally show ?thesis by simp
qed

lemma be_word64:
  "push_bit 56 (ucast a) OR push_bit 48 (ucast b) OR push_bit 40 (ucast c) OR push_bit 32 (ucast d) OR
   push_bit 24 (ucast e) OR push_bit 16 (ucast f) OR push_bit 8 (ucast g) OR ucast (h :: u8) =
   (word_of_nat (be_val [a, b, c, d, e, f, g, h]) :: u64)"
proof -
  have "push_bit 56 (ucast a) OR push_bit 48 (ucast b) OR push_bit 40 (ucast c) OR push_bit 32 (ucast d) OR
      push_bit 24 (ucast e) OR push_bit 16 (ucast f) OR push_bit 8 (ucast g) OR ucast h =
      push_bit 8 (push_bit 8 (push_bit 8 (push_bit 8 (push_bit 8 (push_bit 8 (push_bit 8 (push_bit 8
        (word_of_nat 0) OR ucast a) OR ucast b) OR ucast c) OR ucast d) OR ucast e) OR ucast f) OR ucast g)
        OR (ucast h :: u64)"
    by (simp add: push_bit_or or.assoc)
  also have "\<dots> = word_of_nat (be_val ([] @ [a] @ [b] @ [c] @ [d] @ [e] @ [f] @ [g] @ [h]))"
    by (simp only: or_byte append_assoc [symmetric] be_val_snoc) (simp add: be_val_def)
  finally show ?thesis by simp
qed

lemma take_drop_4:
  assumes "i + 4 \<le> length xs"
  shows "take 4 (drop i xs) = [xs ! i, xs ! (i + 1), xs ! (i + 2), xs ! (i + 3)]"
proof (rule nth_equalityI)
  show "length (take 4 (drop i xs)) = length [xs ! i, xs ! (i + 1), xs ! (i + 2), xs ! (i + 3)]"
    using assms by simp
  fix j assume "j < length (take 4 (drop i xs))"
  then have "j = 0 \<or> j = 1 \<or> j = 2 \<or> j = 3" by auto
  with assms show "take 4 (drop i xs) ! j = [xs ! i, xs ! (i + 1), xs ! (i + 2), xs ! (i + 3)] ! j"
    by auto
qed

lemma take_drop_8:
  assumes "i + 8 \<le> length xs"
  shows "take 8 (drop i xs) = [xs ! i, xs ! (i + 1), xs ! (i + 2), xs ! (i + 3),
    xs ! (i + 4), xs ! (i + 5), xs ! (i + 6), xs ! (i + 7)]"
proof -
  have "take 8 (drop i xs) = take 4 (drop i xs) @ take 4 (drop (i + 4) xs)"
    using take_add [of 4 4 "drop i xs"] by (simp add: add.commute)
  with assms show ?thesis by (simp add: take_drop_4 add.commute [of _ i] add.assoc)
qed

lemma sha256_load_words:
  assumes "length blk = 64"
  shows "sha256_load blk = map (\<lambda>t. word_of_nat (be_val (take 4 (drop (4 * t) blk)))) [0..<16]"
  unfolding sha256_load_def be_word32
  using assms by (intro map_cong refl) (simp add: take_drop_4 mult.commute)

lemma sha512_load_words:
  assumes "length blk = 128"
  shows "sha512_load blk = map (\<lambda>t. word_of_nat (be_val (take 8 (drop (8 * t) blk)))) [0..<16]"
  unfolding sha512_load_def be_word64
  using assms by (intro map_cong refl) (simp add: take_drop_8 mult.commute)

lemma schedule_from_block:
  "sha2_extend s0 s1 n (map m [0..<16]) = map (sha_W s0 s1 m) [0..<16 + n]"
proof -
  have "map m [0..<16] = map (sha_W s0 s1 m) [0..<16]"
    by (intro map_cong refl) (simp add: sha_W.simps)
  then show ?thesis using sha2_extend_schedule [of 16 s0 s1 n m] by (simp only: order_refl)
qed

lemma ucast_add_u64: "(ucast ((x :: u64) + z) :: u32) = ucast x + ucast z"
proof -
  have "(ucast (x + z) :: u32) = word_of_nat (unat (x + z))" by (rule of_nat_unat [symmetric])
  also have "unat (x + z) = (unat x + unat z) mod 2 ^ 64" by (simp add: unat_word_ariths)
  also have "(word_of_nat ((unat x + unat z) mod 2 ^ 64) :: u32) = word_of_nat (unat x + unat z)"
    by (rule word_unat_eq_iff [THEN iffD2]) (simp add: unat_of_nat mod_mod_cancel del: of_nat_add)
  finally show ?thesis by simp
qed

lemma ucast_u64_u32 [simp]: "(ucast (ucast (y :: u32) :: u64) :: u32) = y"
  by (rule bit_word_eqI) (simp add: bit_simps)

lemma list8: "length xs = 8 \<Longrightarrow> xs = [xs ! 0, xs ! 1, xs ! 2, xs ! 3, xs ! 4, xs ! 5, xs ! 6, xs ! 7]"
  by (auto simp: numeral_eq_Suc length_Suc_conv)

definition chain256 :: "sha256_ctx \<Rightarrow> u32 list" where
  "chain256 c = map ucast (s2_state c)"

lemma sha256_transform_compress:
  assumes "length (s2_state c) = 8" and "length blk = 64"
  shows "chain256 (sha256_transform c blk) = fips_compress256 (chain256 c) blk"
proof -
  let ?m = "\<lambda>t. word_of_nat (be_val (take 4 (drop (4 * t) blk))) :: u32"
  let ?w = "sha2_extend SIG0 SIG1 48 (sha256_load blk)"
  let ?v0 = "list_vars (chain256 c)"
  have w: "?w ! i = sha_W sigma0_256 sigma1_256 ?m i" if "i < 64" for i
    using that by (simp add: sha_functions sha256_load_words assms schedule_from_block)
  define v where "v = foldl (\<lambda>v i. fips_sha_round Sigma0_256 Sigma1_256 (fips_K i)
      (sha_W sigma0_256 sigma1_256 ?m i) v) ?v0 [0..<64]"
  have v: "foldl (\<lambda>v i. sha2_round EP0 EP1 (sha256_K ! i) (?w ! i) v) ?v0 [0..<64] = v"
    unfolding v_def
    by (rule foldl_cong) (simp_all add: w [unfolded sha_functions] sha_functions sha2_round_fips sha256_K_fips)
  have v0: "?v0 = (ucast (s2_state c ! 0), ucast (s2_state c ! 1), ucast (s2_state c ! 2),
      ucast (s2_state c ! 3), ucast (s2_state c ! 4), ucast (s2_state c ! 5),
      ucast (s2_state c ! 6), ucast (s2_state c ! 7))"
    using assms(1) by (simp add: list_vars_def chain256_def)
  obtain a b d e f g h i where vv: "v = (a, b, d, e, f, g, h, i)" by (cases v) auto
  have "chain256 (sha256_transform c blk) =
      map2 (+) (map ucast [s2_state c ! 0, s2_state c ! 1, s2_state c ! 2, s2_state c ! 3,
        s2_state c ! 4, s2_state c ! 5, s2_state c ! 6, s2_state c ! 7]) (vars_list v)"
    using v [unfolded v0] vv by (simp add: sha256_transform_def chain256_def ucast_add_u64 Let_def)
  also have "\<dots> = fips_compress256 (chain256 c) blk"
    using list8 [OF assms(1)] by (simp add: fips_compress256_def v_def chain256_def Let_def)
  finally show ?thesis .
qed

lemma sha512_transform_compress:
  assumes "length (s5_state c) = 8" and "length blk = 128"
  shows "s5_state (sha512_transform c blk) = fips_compress512 (s5_state c) blk"
proof -
  let ?m = "\<lambda>t. word_of_nat (be_val (take 8 (drop (8 * t) blk))) :: u64"
  let ?w = "sha2_extend SIG064 SIG164 64 (sha512_load blk)"
  let ?v0 = "list_vars (s5_state c)"
  have w: "?w ! i = sha_W sigma0_512 sigma1_512 ?m i" if "i < 80" for i
    using that by (simp add: sha_functions sha512_load_words assms schedule_from_block)
  define v where "v = foldl (\<lambda>v i. fips_sha_round Sigma0_512 Sigma1_512 (fips_K i)
      (sha_W sigma0_512 sigma1_512 ?m i) v) ?v0 [0..<80]"
  have v: "foldl (\<lambda>v i. sha2_round EP064 EP164 (sha512_K ! i) (?w ! i) v) ?v0 [0..<80] = v"
    unfolding v_def
    by (rule foldl_cong) (simp_all add: w [unfolded sha_functions] sha_functions sha2_round_fips sha512_K_fips)
  obtain a b d e f g h i where vv: "v = (a, b, d, e, f, g, h, i)" by (cases v) auto
  have "s5_state (sha512_transform c blk) =
      map2 (+) [s5_state c ! 0, s5_state c ! 1, s5_state c ! 2, s5_state c ! 3,
        s5_state c ! 4, s5_state c ! 5, s5_state c ! 6, s5_state c ! 7] (vars_list v)"
    using v vv by (simp add: sha512_transform_def list_vars_def Let_def)
  also have "\<dots> = fips_compress512 (s5_state c) blk"
    using list8 [OF assms(1)] by (simp add: fips_compress512_def v_def Let_def)
  finally show ?thesis .
qed


subsection \<open>The contexts buffer as the interface asks\<close>

lemma sha256_transform_frame [simp]:
  "s2_data (sha256_transform c b) = s2_data c"
  "s2_datalen (sha256_transform c b) = s2_datalen c"
  "s2_bitlen (sha256_transform c b) = s2_bitlen c"
  "length (s2_state (sha256_transform c b)) = 8"
  by (simp_all add: sha256_transform_def Let_def split: prod.split)

lemma sha512_transform_frame [simp]:
  "s5_data (sha512_transform c b) = s5_data c"
  "s5_datalen (sha512_transform c b) = s5_datalen c"
  "s5_bitlen0 (sha512_transform c b) = s5_bitlen0 c"
  "s5_bitlen1 (sha512_transform c b) = s5_bitlen1 c"
  "length (s5_state (sha512_transform c b)) = 8"
  by (simp_all add: sha512_transform_def Let_def split: prod.split)

lemma chain256_update [simp]:
  "chain256 (c\<lparr>s2_data := d\<rparr>) = chain256 c" "chain256 (c\<lparr>s2_datalen := n\<rparr>) = chain256 c"
  "chain256 (c\<lparr>s2_bitlen := t\<rparr>) = chain256 c"
  by (simp_all add: chain256_def)

definition invar256 :: "sha256_ctx \<Rightarrow> bool" where
  "invar256 c \<longleftrightarrow> length (s2_data c) = 64 \<and> s2_datalen c < 64 \<and> length (s2_state c) = 8"

definition invar512 :: "sha512_ctx \<Rightarrow> bool" where
  "invar512 c \<longleftrightarrow> length (s5_data c) = 128 \<and> s5_datalen c < 128 \<and> length (s5_state c) = 8"

definition bits512 :: "sha512_ctx \<Rightarrow> nat" where
  "bits512 c = unat (s5_bitlen0 c) + 2 ^ 64 * unat (s5_bitlen1 c)"

definition out256 :: "u32 list \<Rightarrow> u8 list" where
  "out256 h = concat (map (\<lambda>w. be_bytes 4 (unat w)) h)"

definition out512 :: "u64 list \<Rightarrow> u8 list" where
  "out512 h = concat (map (\<lambda>w. be_bytes 8 (unat w)) h)"

lemma sha256_bytes_be: "sha256_bytes s = be_bytes 4 (unat (ucast s :: u32))"
proof -
  have m: "(ucast (x AND 0xff :: u64) :: u8) = ucast x" for x :: u64
  proof -
    have e: "(0xff :: u64) = mask 8" by (simp add: mask_eq_exp_minus_1)
    have "(ucast (x AND mask 8) :: u8) = ucast x" by (intro bit_word_eqI) (auto simp: bit_simps)
    then show ?thesis by (simp only: e)
  qed
  have d: "(ucast (drop_bit n s) :: u8) = ucast (drop_bit n (ucast s :: u32))" if "n \<le> 24" for n
    using that by (intro bit_word_eqI) (simp add: bit_simps)
  have "sha256_bytes s = [ucast (drop_bit 24 (ucast s :: u32)), ucast (drop_bit 16 (ucast s :: u32)),
      ucast (drop_bit 8 (ucast s :: u32)), ucast (drop_bit 0 (ucast s :: u32))]"
    using d [of 24] d [of 16] d [of 8] d [of 0] by (simp add: sha256_bytes_def m)
  then show ?thesis by (simp only: byte_of_drop_bit be_bytes_4) simp
qed

lemma sha512_bytes_be: "sha512_bytes s = be_bytes 8 (unat s)"
  by (simp add: sha512_bytes_def be_bytes_8 byte_of_drop_bit)

lemma upt_8: "[0..<8] = [0, 1, 2, 3, 4, 5, 6, 7 :: nat]"
  by (simp add: upt_rec)

lemma out256_state:
  assumes "length (s2_state c) = 8"
  shows "concat (map (\<lambda>i. sha256_bytes (s2_state c ! i)) [0..<8]) = out256 (chain256 c)"
proof -
  have "map (\<lambda>i. sha256_bytes (s2_state c ! i)) [0..<8] = map sha256_bytes (s2_state c)"
    using assms by (metis map_nth map_map comp_apply map_cong)
  then have "concat (map (\<lambda>i. sha256_bytes (s2_state c ! i)) [0..<8]) = concat (map sha256_bytes (s2_state c))"
    by (simp only:)
  moreover have "sha256_bytes = (\<lambda>s. be_bytes 4 (unat (ucast s :: u32)))"
    by (rule ext) (rule sha256_bytes_be)
  ultimately show ?thesis by (simp add: out256_def chain256_def comp_def)
qed

lemma out512_state:
  assumes "length (s5_state c) = 8"
  shows "concat (map (\<lambda>i. sha512_bytes (s5_state c ! i)) [0..<8]) = out512 (s5_state c)"
proof -
  have "map (\<lambda>i. sha512_bytes (s5_state c ! i)) [0..<8] = map sha512_bytes (s5_state c)"
    using assms by (metis map_nth map_map comp_apply map_cong)
  then have "concat (map (\<lambda>i. sha512_bytes (s5_state c ! i)) [0..<8]) = concat (map sha512_bytes (s5_state c))"
    by (simp only:)
  moreover have "sha512_bytes = (\<lambda>s. be_bytes 8 (unat s))"
    by (rule ext) (rule sha512_bytes_be)
  ultimately show ?thesis by (simp add: out512_def)
qed


lemma absorb256_part:
  assumes "invar256 s" and "Suc (s2_datalen s) < 64"
  shows "sha256_update_byte s b = s\<lparr>s2_data := (s2_data s)[s2_datalen s := b], s2_datalen := Suc (s2_datalen s)\<rparr>"
  using assms by (simp add: sha256_update_byte_def Let_def)

lemma absorb256_block:
  assumes "invar256 s" and "Suc (s2_datalen s) = 64"
  shows "s2_datalen (sha256_update_byte s b) = 0" and
    "chain256 (sha256_update_byte s b) = fips_compress256 (chain256 s) (take (s2_datalen s) (s2_data s) @ [b])" and
    "unat (s2_bitlen (sha256_update_byte s b)) = (unat (s2_bitlen s) + 512) mod 2 ^ 64"
proof -
  have "(s2_data s)[s2_datalen s := b] = take (s2_datalen s) (s2_data s) @ [b]"
    using assms take_Suc_update [of "s2_datalen s" "s2_data s" b] by (simp add: invar256_def)
  then show "chain256 (sha256_update_byte s b) =
      fips_compress256 (chain256 s) (take (s2_datalen s) (s2_data s) @ [b])"
    using assms by (simp add: sha256_update_byte_def Let_def sha256_transform_compress invar256_def)
qed (use assms in \<open>simp_all add: sha256_update_byte_def Let_def unat_word_ariths\<close>)

lemma pad_start:
  assumes "i < n" and "n \<le> length d"
  shows "zero_fill (d[i := v]) (Suc i) n = take i d @ [v] @ replicate (n - 1 - i) 0 @ drop n d"
  using assms by (simp add: zero_fill_eq take_Suc_update)

lemma final256_short:
  assumes "invar256 s" and "s2_datalen s < 56"
  shows "sha256_final s = out256 (fips_compress256 (chain256 s)
    (take (s2_datalen s) (s2_data s) @ [0x80] @ replicate (55 - s2_datalen s) 0 @
     be_bytes 8 ((unat (s2_bitlen s) + 8 * s2_datalen s) mod 2 ^ 64)))"
proof -
  let ?t = "s2_bitlen s + word_of_nat (s2_datalen s * 8)"
  let ?d = "take (s2_datalen s) (s2_data s) @ [0x80] @ replicate (55 - s2_datalen s) 0 @
     be_bytes 8 (unat ?t)"
  have fill: "zero_fill ((s2_data s)[s2_datalen s := 0x80]) (s2_datalen s + 1) 56 =
      take (s2_datalen s) (s2_data s) @ [0x80] @ replicate (55 - s2_datalen s) 0 @ drop 56 (s2_data s)"
    using assms by (simp add: pad_start invar256_def)
  define p where "p = take (s2_datalen s) (s2_data s) @ [0x80] @ replicate (55 - s2_datalen s) 0"
  have "length p = 56" using assms by (simp add: p_def invar256_def)
  then have "put_be64 (p @ drop 56 (s2_data s)) 56 ?t = p @ be_bytes 8 (unat ?t)"
    using assms by (simp add: put_be64_eq invar256_def)
  then have "put_be64 (zero_fill ((s2_data s)[s2_datalen s := 0x80]) (s2_datalen s + 1) 56) 56 ?t = ?d"
    unfolding fill by (simp add: p_def)
  moreover have "unat ?t = (unat (s2_bitlen s) + 8 * s2_datalen s) mod 2 ^ 64"
    by (simp add: unat_word_ariths unat_of_nat mod_simps mult.commute)
  moreover have "length ?d = 64" using assms by (simp add: invar256_def)
  ultimately show ?thesis
    using assms by (simp add: sha256_final_def Let_def out256_state sha256_transform_compress invar256_def)
qed

lemma final256_long:
  assumes "invar256 s" and "56 \<le> s2_datalen s"
  shows "sha256_final s = out256 (fips_compress256
    (fips_compress256 (chain256 s)
       (take (s2_datalen s) (s2_data s) @ [0x80] @ replicate (63 - s2_datalen s) 0))
    (replicate 56 0 @ be_bytes 8 ((unat (s2_bitlen s) + 8 * s2_datalen s) mod 2 ^ 64)))"
proof -
  let ?t = "s2_bitlen s + word_of_nat (s2_datalen s * 8)"
  let ?d = "take (s2_datalen s) (s2_data s) @ [0x80] @ replicate (63 - s2_datalen s) 0"
  have fill: "zero_fill ((s2_data s)[s2_datalen s := 0x80]) (s2_datalen s + 1) 64 = ?d"
    using assms by (simp add: pad_start invar256_def)
  have len: "length ?d = 64" using assms by (simp add: invar256_def)
  have "put_be64 (zero_fill ?d 0 56) 56 ?t = replicate 56 0 @ be_bytes 8 (unat ?t)"
    using len by (simp add: zero_fill_eq put_be64_eq)
  moreover have "unat ?t = (unat (s2_bitlen s) + 8 * s2_datalen s) mod 2 ^ 64"
    by (simp add: unat_word_ariths unat_of_nat mod_simps mult.commute)
  ultimately show ?thesis
    using assms fill len
    by (simp add: sha256_final_def Let_def out256_state sha256_transform_compress invar256_def)
qed

lemma length_sha256_final: "length (sha256_final s) = 32"
  by (simp add: sha256_final_def Let_def length_concat sha256_bytes_def comp_def upt_8)

lemma invar256_absorb: "invar256 s \<Longrightarrow> invar256 (sha256_update_byte s b)"
  by (auto simp: invar256_def sha256_update_byte_def Let_def)

interpretation md256: md_stream 64 8 "2 ^ 64" fips_compress256 H256 out256 invar256 s2_data s2_datalen
  chain256 "\<lambda>c. unat (s2_bitlen c)" sha256_update_byte sha256_final
proof unfold_locales
  fix s b assume inv: "invar256 s" and lt: "Suc (s2_datalen s) < 64"
  then show "take (Suc (s2_datalen s)) (s2_data (sha256_update_byte s b)) =
      take (s2_datalen s) (s2_data s) @ [b] \<and>
      s2_datalen (sha256_update_byte s b) = Suc (s2_datalen s) \<and>
      chain256 (sha256_update_byte s b) = chain256 s \<and>
      unat (s2_bitlen (sha256_update_byte s b)) = unat (s2_bitlen s)"
    by (simp add: absorb256_part take_Suc_update invar256_def chain256_def)
qed (simp_all add: invar256_absorb absorb256_block final256_short final256_long,
     simp_all add: invar256_def)

definition ready256 :: "sha256_ctx \<Rightarrow> bool" where
  "ready256 c \<longleftrightarrow> length (s2_data c) = 64"

interpretation h256: stream_hash ready256 sha256_init sha256_update sha256_final fips_sha256 md256.absorbed
proof unfold_locales
  fix c assume "ready256 c"
  then show "md256.absorbed (sha256_init c) []"
    by (intro md256.absorbed_start)
       (simp_all add: sha256_init_def invar256_def chain256_def H256_values ready256_def)
next
  fix s m assume "md256.absorbed s m"
  then show "md256.absorbed (sha256_update s d) (m @ d)" for d
    unfolding sha256_update_def by (rule md256.absorbed_foldl)
next
  fix s m assume "md256.absorbed s m"
  then show "sha256_final s = fips_sha256 m"
    by (simp add: md256.absorbed_finish fips_sha256_def out256_def)
qed


lemma absorb512_part:
  assumes "invar512 s" and "Suc (s5_datalen s) < 128"
  shows "sha512_update_byte s b = s\<lparr>s5_data := (s5_data s)[s5_datalen s := b], s5_datalen := Suc (s5_datalen s)\<rparr>"
  using assms by (simp add: sha512_update_byte_def Let_def)

text \<open>The two-word bit counter: a carry into the high word exactly on wrap-around.\<close>

lemma two_word_add:
  fixes lo hi :: u64 and n :: nat
  assumes "n < 2 ^ 64"
  shows "unat (lo + word_of_nat n) + 2 ^ 64 * unat (if lo + word_of_nat n < word_of_nat n then hi + 1 else hi) =
    (unat lo + 2 ^ 64 * unat hi + n) mod 2 ^ 128"
proof -
  have lo: "unat lo < 2 ^ 64" and hi: "unat hi < 2 ^ 64"
    using unsigned_less [of lo] unsigned_less [of hi] by simp_all
  have n: "unat (word_of_nat n :: u64) = n" using assms by (simp add: unat_of_nat)
  have sum: "unat (lo + word_of_nat n) = (unat lo + n) mod 2 ^ 64"
    by (simp add: unat_word_ariths n)
  show ?thesis
  proof (cases "unat lo + n < 2 ^ 64")
    case True
    then have s: "unat (lo + word_of_nat n) = unat lo + n" by (simp only: sum mod_less)
    then have "\<not> lo + word_of_nat n < word_of_nat n" by (simp add: word_less_nat_alt n)
    moreover have "(unat lo + 2 ^ 64 * unat hi + n) < 2 ^ 128" using True hi by simp
    ultimately show ?thesis using s by simp
  next
    case False
    then have s: "unat (lo + word_of_nat n) = unat lo + n - 2 ^ 64"
      using lo assms unfolding sum by (subst mod_if) simp
    then have c: "lo + word_of_nat n < word_of_nat n"
      using lo False by (simp add: word_less_nat_alt n)
    show ?thesis
    proof (cases "unat hi + 1 < 2 ^ 64")
      case True
      then have "unat (hi + 1) = unat hi + 1" by (simp add: unat_word_ariths)
      moreover have "(unat lo + 2 ^ 64 * unat hi + n) < 2 ^ 128" using True lo assms by simp
      ultimately show ?thesis using s c False by simp
    next
      case top: False
      with hi have h: "unat hi = 2 ^ 64 - 1" by simp
      then have "unat (hi + 1) = 0" by (simp add: unat_word_ariths)
      moreover have "unat lo + 2 ^ 64 * unat hi + n = 2 ^ 128 + (unat lo + n - 2 ^ 64)"
        using h False by simp
      moreover have "(2 ^ 128 + (unat lo + n - 2 ^ 64)) mod 2 ^ 128 = unat lo + n - 2 ^ 64"
        using lo assms by simp
      ultimately show ?thesis using s c by (simp only: if_True)
    qed
  qed
qed

lemma wrap_sym: "(lo :: 'a::len word) + n < lo \<longleftrightarrow> lo + n < n"
  using olen_add_eqv [of lo n] olen_add_eqv [of n lo] by (simp only: add.commute not_le [symmetric])

lemma absorb512_block:
  assumes "invar512 s" and "Suc (s5_datalen s) = 128"
  shows "s5_datalen (sha512_update_byte s b) = 0" and
    "s5_state (sha512_update_byte s b) = fips_compress512 (s5_state s) (take (s5_datalen s) (s5_data s) @ [b])" and
    "bits512 (sha512_update_byte s b) = (bits512 s + 1024) mod 2 ^ 128"
proof -
  have "(s5_data s)[s5_datalen s := b] = take (s5_datalen s) (s5_data s) @ [b]"
    using assms take_Suc_update [of "s5_datalen s" "s5_data s" b] by (simp add: invar512_def)
  then show "s5_state (sha512_update_byte s b) =
      fips_compress512 (s5_state s) (take (s5_datalen s) (s5_data s) @ [b])"
    using assms by (simp add: sha512_update_byte_def Let_def sha512_transform_compress invar512_def)
  have "s5_bitlen0 (sha512_update_byte s b) = s5_bitlen0 s + 1024"
    and "s5_bitlen1 (sha512_update_byte s b) =
      (if s5_bitlen0 s + 1024 < 1024 then s5_bitlen1 s + 1 else s5_bitlen1 s)"
    using assms by (simp_all add: sha512_update_byte_def Let_def)
  then show "bits512 (sha512_update_byte s b) = (bits512 s + 1024) mod 2 ^ 128"
    using two_word_add [of 1024 "s5_bitlen0 s" "s5_bitlen1 s"]
    by (simp add: bits512_def split del: if_split)
qed (use assms in \<open>simp_all add: sha512_update_byte_def Let_def\<close>)

definition len512 :: "sha512_ctx \<Rightarrow> u64 \<times> u64" where
  "len512 s = (let lo = s5_bitlen0 s + word_of_nat (s5_datalen s) * 8
     in (lo, if lo < s5_bitlen0 s then s5_bitlen1 s + 1 else s5_bitlen1 s))"

lemma len512_bytes:
  assumes "invar512 s" and "len512 s = (lo, hi)"
  shows "be_bytes 8 (unat hi) @ be_bytes 8 (unat lo) = be_bytes 16 ((bits512 s + 8 * s5_datalen s) mod 2 ^ 128)"
proof -
  have n: "8 * s5_datalen s < 2 ^ 64" using assms(1) by (simp add: invar512_def)
  define w where "w = (word_of_nat (8 * s5_datalen s) :: u64)"
  have "word_of_nat (s5_datalen s) * 8 = w" by (simp add: w_def)
  with assms(2) have "lo = s5_bitlen0 s + w"
    and "hi = (if s5_bitlen0 s + w < w then s5_bitlen1 s + 1 else s5_bitlen1 s)"
    by (auto simp: len512_def Let_def wrap_sym)
  then have "unat lo + 2 ^ 64 * unat hi = (bits512 s + 8 * s5_datalen s) mod 2 ^ 128"
    using two_word_add [OF n, of "s5_bitlen0 s" "s5_bitlen1 s"] by (simp only: w_def bits512_def)
  moreover have "unat lo < 2 ^ 64" using unsigned_less [of lo] by simp
  ultimately show ?thesis using be_bytes_16 by metis
qed

lemma put_len512:
  assumes "length p = 112" and "length q = 16"
  shows "put_be64 (put_be64 (p @ q) 120 lo) 112 hi = p @ be_bytes 8 (unat hi) @ be_bytes 8 (unat lo)"
proof -
  have "put_be64 (p @ q) 120 lo = (p @ take 8 q) @ be_bytes 8 (unat lo)"
    using assms by (simp add: put_be64_eq)
  also have "put_be64 \<dots> 112 hi = p @ be_bytes 8 (unat hi) @ be_bytes 8 (unat lo)"
    using assms by (simp add: put_be64_eq)
  finally show ?thesis .
qed

lemma final512_short:
  assumes "invar512 s" and "s5_datalen s < 112"
  shows "sha512_final s = out512 (fips_compress512 (s5_state s)
    (take (s5_datalen s) (s5_data s) @ [0x80] @ replicate (111 - s5_datalen s) 0 @
     be_bytes 16 ((bits512 s + 8 * s5_datalen s) mod 2 ^ 128)))"
proof -
  define p where "p = take (s5_datalen s) (s5_data s) @ [0x80] @ replicate (111 - s5_datalen s) (0 :: u8)"
  obtain lo hi where l: "len512 s = (lo, hi)" by force
  then have lh: "s5_bitlen0 s + word_of_nat (s5_datalen s) * 8 = lo"
    "(if lo < s5_bitlen0 s then s5_bitlen1 s + 1 else s5_bitlen1 s) = hi"
    by (auto simp: len512_def Let_def)
  have lp: "length p = 112" using assms by (simp add: p_def invar512_def)
  have fill: "zero_fill ((s5_data s)[s5_datalen s := 0x80]) (s5_datalen s + 1) 112 =
      p @ drop 112 (s5_data s)"
    using assms by (simp add: pad_start invar512_def p_def)
  have "put_be64 (put_be64 (p @ drop 112 (s5_data s)) 120 lo) 112 hi =
      p @ be_bytes 16 ((bits512 s + 8 * s5_datalen s) mod 2 ^ 128)" (is "?l = p @ ?b")
    using assms lp put_len512 [of p "drop 112 (s5_data s)" lo hi] len512_bytes [OF assms(1) l]
    by (simp add: invar512_def)
  then have "sha512_final s = out512 (fips_compress512 (s5_state s) (p @ ?b))"
    using assms fill lp lh
    by (simp add: sha512_final_def Let_def out512_state sha512_transform_compress invar512_def split del: if_split)
  then show ?thesis by (simp add: p_def)
qed

lemma length_compress512 [simp]:
  fixes c :: sha512_ctx
  shows "length (s5_state c) = 8 \<Longrightarrow> length blk = 128 \<Longrightarrow> length (fips_compress512 (s5_state c) blk) = 8"
  using sha512_transform_compress [of c blk] sha512_transform_frame(5) [of c blk] by simp

lemma final512_long:
  assumes "invar512 s" and "112 \<le> s5_datalen s"
  shows "sha512_final s = out512 (fips_compress512
    (fips_compress512 (s5_state s)
       (take (s5_datalen s) (s5_data s) @ [0x80] @ replicate (127 - s5_datalen s) 0))
    (replicate 112 0 @ be_bytes 16 ((bits512 s + 8 * s5_datalen s) mod 2 ^ 128)))"
proof -
  define d where "d = take (s5_datalen s) (s5_data s) @ [0x80] @ replicate (127 - s5_datalen s) (0 :: u8)"
  obtain lo hi where l: "len512 s = (lo, hi)" by force
  then have lh: "s5_bitlen0 s + word_of_nat (s5_datalen s) * 8 = lo"
    "(if lo < s5_bitlen0 s then s5_bitlen1 s + 1 else s5_bitlen1 s) = hi"
    by (auto simp: len512_def Let_def)
  have fill: "zero_fill ((s5_data s)[s5_datalen s := 0x80]) (s5_datalen s + 1) 128 = d"
    using assms by (simp add: pad_start invar512_def d_def)
  have len: "length d = 128" using assms by (simp add: d_def invar512_def)
  have "put_be64 (put_be64 (zero_fill d 0 112) 120 lo) 112 hi =
      replicate 112 0 @ be_bytes 16 ((bits512 s + 8 * s5_datalen s) mod 2 ^ 128)" (is "_ = ?b")
    using len put_len512 [of "replicate 112 0" "drop 112 d" lo hi] len512_bytes [OF assms(1) l]
    by (simp add: zero_fill_eq)
  then have "sha512_final s = out512 (fips_compress512 (fips_compress512 (s5_state s) d) ?b)"
    using assms fill len lh
    by (simp add: sha512_final_def Let_def out512_state sha512_transform_compress invar512_def split del: if_split)
  then show ?thesis by (simp add: d_def)
qed

lemma length_sha512_final: "length (sha512_final s) = 64"
  by (simp add: sha512_final_def Let_def length_concat sha512_bytes_def comp_def upt_8)

lemma invar512_absorb: "invar512 s \<Longrightarrow> invar512 (sha512_update_byte s b)"
  by (auto simp: invar512_def sha512_update_byte_def Let_def)

lemma md512_laws:
  "md_stream 128 16 (2 ^ 128) fips_compress512 out512 invar512 s5_data s5_datalen
     s5_state bits512 sha512_update_byte sha512_final"
proof unfold_locales
  fix s b assume inv: "invar512 s" and lt: "Suc (s5_datalen s) < 128"
  then show "take (Suc (s5_datalen s)) (s5_data (sha512_update_byte s b)) =
      take (s5_datalen s) (s5_data s) @ [b] \<and>
      s5_datalen (sha512_update_byte s b) = Suc (s5_datalen s) \<and>
      s5_state (sha512_update_byte s b) = s5_state s \<and>
      bits512 (sha512_update_byte s b) = bits512 s"
    by (simp add: absorb512_part take_Suc_update invar512_def bits512_def)
qed (simp_all add: invar512_absorb absorb512_block final512_short final512_long,
     simp_all add: invar512_def)

interpretation md512: md_stream 128 16 "2 ^ 128" fips_compress512 H512 out512 invar512 s5_data s5_datalen
  s5_state bits512 sha512_update_byte sha512_final
  by (rule md512_laws)

interpretation md384: md_stream 128 16 "2 ^ 128" fips_compress512 H384 out512 invar512 s5_data s5_datalen
  s5_state bits512 sha512_update_byte sha512_final
  by (rule md512_laws)

definition ready512 :: "sha512_ctx \<Rightarrow> bool" where
  "ready512 c \<longleftrightarrow> length (s5_data c) = 128"

interpretation h512: stream_hash ready512 sha512_init sha512_update sha512_final fips_sha512 md512.absorbed
proof unfold_locales
  fix c assume "ready512 c"
  then show "md512.absorbed (sha512_init c) []"
    by (intro md512.absorbed_start)
       (simp_all add: sha512_init_def invar512_def bits512_def H512_values ready512_def)
next
  fix s m assume "md512.absorbed s m"
  then show "md512.absorbed (sha512_update s d) (m @ d)" for d
    unfolding sha512_update_def by (rule md512.absorbed_foldl)
next
  fix s m assume "md512.absorbed s m"
  then show "sha512_final s = fips_sha512 m"
    by (simp add: md512.absorbed_finish fips_sha512_def out512_def)
qed

interpretation h384: stream_hash ready512 sha384_init sha512_update sha384_final fips_sha384 md384.absorbed
proof unfold_locales
  fix c assume "ready512 c"
  then show "md384.absorbed (sha384_init c) []"
    by (intro md384.absorbed_start)
       (simp_all add: sha384_init_def invar512_def bits512_def H384_values ready512_def)
next
  fix s m assume "md384.absorbed s m"
  then show "md384.absorbed (sha512_update s d) (m @ d)" for d
    unfolding sha512_update_def by (rule md384.absorbed_foldl)
next
  fix s m assume a: "md384.absorbed s m"
  have "sha384_final s = take 48 (sha512_final s)"
    unfolding sha384_final_def by (intro nth_equalityI) (simp_all add: length_sha512_final)
  then show "sha384_final s = fips_sha384 m"
    using md384.absorbed_finish [OF a] by (simp add: fips_sha384_def out512_def)
qed


subsection \<open>Correctness of the hash functions\<close>

text \<open>
  C22. The streaming SHA-256 of sha256.c, which keeps the chaining value in 64-bit words and
  never reduces them, computes the SHA-256 of FIPS 180-4 on the message, for every message
  and however the message is cut into update calls, whatever the context held before.
\<close>

theorem sha256_correct:
  assumes "length (s2_data ctx) = 64"
  shows "sha256_final (foldl sha256_update (sha256_init ctx) ds) = fips_sha256 (concat ds)"
  by (rule h256.final_updates) (simp add: ready256_def assms)

text \<open>Two update calls on a zeroed context; the digest is that of the joined message.\<close>

theorem sha256_correct_witness:
  "sha256_final (foldl sha256_update
      (sha256_init \<lparr>s2_data = replicate 64 0, s2_datalen = 7, s2_bitlen = 3, s2_state = []\<rparr>) [[0x61, 0x62], [0x63]]) =
    fips_sha256 [0x61, 0x62, 0x63]"
  using sha256_correct [of "\<lparr>s2_data = replicate 64 0, s2_datalen = 7, s2_bitlen = 3, s2_state = []\<rparr>"
      "[[0x61, 0x62], [0x63]]"] by simp

text \<open>
  C10. SHA-512 and SHA-384 of sha512.c likewise compute the functions of FIPS 180-4 on every
  message and every division of it into update calls; the length goes through the
  two-word bit counter with its explicit carry.
\<close>

theorem sha512_correct:
  assumes "length (s5_data ctx) = 128"
  shows "sha512_final (foldl sha512_update (sha512_init ctx) ds) = fips_sha512 (concat ds) \<and>
    sha384_final (foldl sha512_update (sha384_init ctx) ds) = fips_sha384 (concat ds)"
  using h512.final_updates [of ctx ds] h384.final_updates [of ctx ds] assms
  by (simp add: ready512_def)

theorem sha512_correct_witness:
  "sha512_final (foldl sha512_update
      (sha512_init \<lparr>s5_data = replicate 128 0, s5_datalen = 1, s5_bitlen0 = 2, s5_bitlen1 = 3, s5_state = []\<rparr>)
      [[1, 2], [], [3]]) = fips_sha512 [1, 2, 3]"
  using sha512_correct [of "\<lparr>s5_data = replicate 128 0, s5_datalen = 1, s5_bitlen0 = 2, s5_bitlen1 = 3, s5_state = []\<rparr>"
      "[[1, 2], [], [3]]"] by simp

end
