(* ===== verification/Hmac.thy ===== *)
theory Hmac
  imports Sha2
begin

text \<open>
  kernel/crypto/hmac.c: HMAC over the two streaming hashes and the constant-time
  comparison. The keyed hash of RFC 2104 and the fact that the code computes it are stated
  once over an arbitrary streaming hash, and obtained for SHA-256 and SHA-512 by
  interpretation. The local contexts of the C functions start with arbitrary contents, and
  so does the context at the second initialisation; they are arguments.
\<close>

unbundle bit_operations_syntax

definition hmac_pad :: "nat \<Rightarrow> u8 \<Rightarrow> u8 list \<Rightarrow> u8 list" where
  "hmac_pad n x key = map (\<lambda>i. if i < length key then key ! i XOR x else x) [0..<n]"

definition hmac_sha256 ::
    "sha256_ctx \<Rightarrow> sha256_ctx \<Rightarrow> sha256_ctx \<Rightarrow> u8 list \<Rightarrow> u8 list \<Rightarrow> u8 list" where
  "hmac_sha256 c0 c1 c2 key0 data =
     (let key = (if length key0 > 64 then sha256_hash c0 key0 else key0);
          k_ipad = hmac_pad 64 0x36 key;
          k_opad = hmac_pad 64 0x5c key;
          out = sha256_final (sha256_update (sha256_update (sha256_init c1) k_ipad) data)
      in sha256_final (sha256_update (sha256_update (sha256_init c2) k_opad) (take 32 out)))"

definition hmac_sha512 ::
    "sha512_ctx \<Rightarrow> sha512_ctx \<Rightarrow> sha512_ctx \<Rightarrow> u8 list \<Rightarrow> u8 list \<Rightarrow> u8 list" where
  "hmac_sha512 c0 c1 c2 key0 data =
     (let key = (if length key0 > 128 then sha512_hash c0 key0 else key0);
          k_ipad = hmac_pad 128 0x36 key;
          k_opad = hmac_pad 128 0x5c key;
          out = sha512_final (sha512_update (sha512_update (sha512_init c1) k_ipad) data)
      in sha512_final (sha512_update (sha512_update (sha512_init c2) k_opad) (take 64 out)))"

primrec compare_from :: "u8 \<Rightarrow> (u8 \<times> u8) list \<Rightarrow> u8" where
  "compare_from result [] = result"
| "compare_from result (p # ps) = compare_from (result OR (fst p XOR snd p)) ps"

definition crypto_constant_compare :: "u8 list \<Rightarrow> u8 list \<Rightarrow> nat \<Rightarrow> int" where
  "crypto_constant_compare a b len =
     (if compare_from 0 (map (\<lambda>i. (a ! i, b ! i)) [0..<len]) = 0 then 0 else -1)"

subsection \<open>The keyed hash of RFC 2104\<close>

definition hmac_key :: "(u8 list \<Rightarrow> u8 list) \<Rightarrow> nat \<Rightarrow> u8 list \<Rightarrow> u8 list" where
  "hmac_key h B key = (let k = (if length key > B then h key else key) in k @ replicate (B - length k) 0)"

definition rfc_hmac :: "(u8 list \<Rightarrow> u8 list) \<Rightarrow> nat \<Rightarrow> u8 list \<Rightarrow> u8 list \<Rightarrow> u8 list" where
  "rfc_hmac h B key data =
     h (map (\<lambda>b. b XOR 0x5c) (hmac_key h B key) @ h (map (\<lambda>b. b XOR 0x36) (hmac_key h B key) @ data))"

lemma hmac_pad_key:
  assumes "length k \<le> n"
  shows "hmac_pad n x k = map (\<lambda>b. b XOR x) (k @ replicate (n - length k) 0)"
  using assms by (intro nth_equalityI) (auto simp: hmac_pad_def nth_append)

text \<open>A hash with a digest of a fixed size not above its block size.\<close>

locale keyed_hash = stream_hash ready hinit hupdate hfinal digest holds
  for ready :: "'s \<Rightarrow> bool" and hinit hupdate hfinal digest holds +
  fixes B D :: nat
  assumes digest_length: "length (digest m) = D"
    and digest_fits: "D \<le> B"
begin

lemma hmac_two_passes:
  assumes "ready c0" "ready c1" "ready c2"
    and key: "key = (if length key0 > B then hfinal (hupdate (hinit c0) key0) else key0)"
  shows "hfinal (hupdate (hupdate (hinit c2) (hmac_pad B 0x5c key))
      (take D (hfinal (hupdate (hupdate (hinit c1) (hmac_pad B 0x36 key)) data)))) =
    rfc_hmac digest B key0 data"
proof -
  have k: "hmac_key digest B key0 = key @ replicate (B - length key) 0" and "length key \<le> B"
    using assms by (simp_all add: hmac_key_def final_one digest_length digest_fits)
  then have "hmac_pad B x key = map (\<lambda>b. b XOR x) (hmac_key digest B key0)" for x
    by (simp add: hmac_pad_key)
  then show ?thesis
    using assms by (simp add: final_two rfc_hmac_def digest_length)
qed

end

interpretation k256: keyed_hash ready256 sha256_init sha256_update sha256_final fips_sha256
  md256.absorbed 64 32
proof unfold_locales
  fix m
  have "ready256 \<lparr>s2_data = replicate 64 0, s2_datalen = 0, s2_bitlen = 0, s2_state = []\<rparr>"
    by (simp add: ready256_def)
  from h256.final_one [OF this, of m] show "length (fips_sha256 m) = 32"
    using length_sha256_final by metis
qed simp

interpretation k512: keyed_hash ready512 sha512_init sha512_update sha512_final fips_sha512
  md512.absorbed 128 64
proof unfold_locales
  fix m
  have "ready512 \<lparr>s5_data = replicate 128 0, s5_datalen = 0, s5_bitlen0 = 0, s5_bitlen1 = 0, s5_state = []\<rparr>"
    by (simp add: ready512_def)
  from h512.final_one [OF this, of m] show "length (fips_sha512 m) = 64"
    using length_sha512_final by metis
qed simp

text \<open>
  C15. hmac\_sha256 and hmac\_sha512 compute the HMAC of RFC 2104 over the SHA-256 and
  SHA-512 of FIPS 180-4, for keys below, at and above the block size.
\<close>

theorem hmac_correct:
  assumes "length (s2_data c0) = 64" "length (s2_data c1) = 64" "length (s2_data c2) = 64"
    and "length (s5_data d0) = 128" "length (s5_data d1) = 128" "length (s5_data d2) = 128"
  shows "hmac_sha256 c0 c1 c2 key data = rfc_hmac fips_sha256 64 key data \<and>
    hmac_sha512 d0 d1 d2 key data = rfc_hmac fips_sha512 128 key data"
  using assms unfolding hmac_sha256_def hmac_sha512_def Let_def sha256_hash_def sha512_hash_def
  by (intro conjI k256.hmac_two_passes [OF _ _ _ refl] k512.hmac_two_passes [OF _ _ _ refl])
     (simp_all add: ready256_def ready512_def)

theorem hmac_correct_witness:
  "let c = \<lparr>s2_data = replicate 64 0, s2_datalen = 0, s2_bitlen = 0, s2_state = []\<rparr>;
       d = \<lparr>s5_data = replicate 128 0, s5_datalen = 0, s5_bitlen0 = 0, s5_bitlen1 = 0, s5_state = []\<rparr>
   in hmac_sha256 c c c (replicate 70 1) [2] = rfc_hmac fips_sha256 64 (replicate 70 1) [2] \<and>
      hmac_sha512 d d d (replicate 70 1) [2] = rfc_hmac fips_sha512 128 (replicate 70 1) [2]"
  unfolding Let_def by (rule hmac_correct) simp_all

lemma xor_eq_0: "(a :: 'a::len word) XOR b = 0 \<longleftrightarrow> a = b"
proof
  assume "a XOR b = 0"
  then have "(a XOR b) XOR b = b" by simp
  then show "a = b" by (simp add: xor.assoc)
qed simp

lemma compare_from_0: "compare_from r ps = 0 \<longleftrightarrow> r = 0 \<and> (\<forall>p\<in>set ps. fst p = snd p)"
  by (induction ps arbitrary: r) (auto simp: or_eq_0_iff xor_eq_0)

text \<open>
  crypto\_constant\_compare answers 0 exactly when the first len bytes agree and -1
  otherwise, although it has no data-dependent exit.
\<close>

theorem constant_compare_correct:
  assumes "len \<le> length a" and "len \<le> length b"
  shows "crypto_constant_compare a b len = (if take len a = take len b then 0 else -1)"
proof -
  have "take len a = take len b \<longleftrightarrow> (\<forall>i<len. a ! i = b ! i)"
    using assms by (auto simp: list_eq_iff_nth_eq)
  then show ?thesis by (auto simp: crypto_constant_compare_def compare_from_0)
qed

theorem constant_compare_correct_witness:
  "crypto_constant_compare [1, 2, 3] [1, 2, 4] 2 = 0 \<and> crypto_constant_compare [1, 2, 3] [1, 2, 4] 3 = -1"
  using constant_compare_correct [of 2 "[1, 2, 3]" "[1, 2, 4]"]
    constant_compare_correct [of 3 "[1, 2, 3]" "[1, 2, 4]"] by simp

end
