(* ===== verification/Rng.thy ===== *)
theory Rng
  imports Sha2
begin

text \<open>
  kernel/crypto/rng.c: the kernel's random number generator, a ChaCha20 key stream that is
  rekeyed from eight SHA-256 entropy pools. Everything the code reads from the machine (the
  time-stamp counter, the timer, the clock, cpuid, rdseed and rdrand) comes from a record of
  functions of a step number that every read advances, so each function takes the step and
  returns the next one. The generator lock and the interrupt flag make each entry point
  run alone; the entry points are modelled as whole steps. The flag rng\_initializing is
  written and never read, and is left out; so is the final clearing of local buffers.
\<close>

unbundle bit_operations_syntax

abbreviation RNG_ENTROPY_POOL_SIZE :: nat where "RNG_ENTROPY_POOL_SIZE \<equiv> 256"
abbreviation RNG_NUM_POOLS :: nat where "RNG_NUM_POOLS \<equiv> 8"
abbreviation RNG_RESEED_THRESHOLD :: u32 where "RNG_RESEED_THRESHOLD \<equiv> 1024"
abbreviation RNG_JITTER_SAMPLES :: nat where "RNG_JITTER_SAMPLES \<equiv> 64"
abbreviation RNG_OUTPUT_BUF_SIZE :: nat where "RNG_OUTPUT_BUF_SIZE \<equiv> 256"

record chacha20_ctx =
  cc_state :: "u32 list"
  cc_key :: "u32 list"
  cc_counter :: u32
  cc_nonce :: "u32 list"

record entropy_pool =
  pool_data :: "u8 list"
  pool_count :: u32

record rng_state =
  chacha :: chacha20_ctx
  pools :: "entropy_pool list"
  pool_index :: u32
  reseed_counter :: u32
  generation_counter :: u32
  output_buf :: "u8 list"
  output_pos :: nat
  initialized :: bool

record machine =
  hw_tsc :: "nat \<Rightarrow> u64"
  hw_pit :: "nat \<Rightarrow> u64"
  hw_rtc :: "nat \<Rightarrow> u64"
  hw_cpuid :: "u32 \<Rightarrow> u32 \<times> u32 \<times> u32 \<times> u32"
  hw_rdseed :: "nat \<Rightarrow> bool \<times> u64"
  hw_rdrand :: "nat \<Rightarrow> bool \<times> u64"
  hw_stack :: u64
  hw_ctx :: sha256_ctx

text \<open>
  hw\_stack is the address of a local variable and hw\_ctx the uninitialised contents of a
  local hash context.
\<close>

definition mem64 :: "u64 \<Rightarrow> u8 list" where "mem64 v = le_bytes 8 (unat v)"
definition mem32 :: "u32 \<Rightarrow> u8 list" where "mem32 v = le_bytes 4 (unat v)"

subsection \<open>Hardware entropy\<close>

definition read_tsc :: "machine \<Rightarrow> nat \<Rightarrow> u64 \<times> nat" where
  "read_tsc M t = (hw_tsc M t, Suc t)"

definition rng_cpu_has_rdseed :: "machine \<Rightarrow> bool" where
  "rng_cpu_has_rdseed M =
     (if fst (hw_cpuid M 0) < 7 then False
      else fst (snd (hw_cpuid M 7)) AND push_bit 18 1 \<noteq> 0)"

definition rng_cpu_has_rdrand :: "machine \<Rightarrow> bool" where
  "rng_cpu_has_rdrand M = (fst (snd (snd (hw_cpuid M 1))) AND push_bit 30 1 \<noteq> 0)"

primrec rd_retry :: "nat \<Rightarrow> (nat \<Rightarrow> bool \<times> u64) \<Rightarrow> nat \<Rightarrow> u64 option \<times> nat" where
  "rd_retry 0 rd t = (None, t)"
| "rd_retry (Suc n) rd t =
     (if fst (rd t) then (Some (snd (rd t)), Suc t) else rd_retry n rd (Suc t))"

definition rng_rdseed64 :: "machine \<Rightarrow> nat \<Rightarrow> u64 option \<times> nat" where
  "rng_rdseed64 M t = (if \<not> rng_cpu_has_rdseed M then (None, t) else rd_retry 32 (hw_rdseed M) t)"

definition rng_rdrand64 :: "machine \<Rightarrow> nat \<Rightarrow> u64 option \<times> nat" where
  "rng_rdrand64 M t = (if \<not> rng_cpu_has_rdrand M then (None, t) else rd_retry 10 (hw_rdrand M) t)"

definition rng_cpu_entropy64 :: "machine \<Rightarrow> nat \<Rightarrow> u64 option \<times> nat" where
  "rng_cpu_entropy64 M t =
     (case rng_rdseed64 M t of (Some v, t') \<Rightarrow> (Some v, t') | (None, t') \<Rightarrow> rng_rdrand64 M t')"

text \<open>The loop that offers n words of CPU entropy to a hash context.\<close>

primrec cpu_feed :: "machine \<Rightarrow> nat \<Rightarrow> sha256_ctx \<Rightarrow> nat \<Rightarrow> sha256_ctx \<times> nat" where
  "cpu_feed M 0 ctx t = (ctx, t)"
| "cpu_feed M (Suc n) ctx t =
     (case rng_cpu_entropy64 M t of
        (Some v, t') \<Rightarrow> cpu_feed M n (sha256_update ctx (mem64 v)) t'
      | (None, t') \<Rightarrow> cpu_feed M n ctx t')"

primrec fallback_bytes :: "nat \<Rightarrow> nat \<Rightarrow> u64 \<Rightarrow> u8 list" where
  "fallback_bytes 0 i x = []"
| "fallback_bytes (Suc n) i x =
     (let x1 = x XOR push_bit 13 x; x2 = x1 XOR drop_bit 7 x1; x3 = x2 XOR push_bit 17 x2
      in ucast (drop_bit ((i mod 8) * 8) x3) # fallback_bytes n (Suc i) x3)"

definition rng_fallback_fill :: "machine \<Rightarrow> u64 \<Rightarrow> nat \<Rightarrow> nat \<Rightarrow> u8 list \<times> nat" where
  "rng_fallback_fill M buf len t =
     (let (c, t1) = read_tsc M t;
          x = c XOR push_bit 32 (hw_pit M t1) XOR buf
      in (fallback_bytes len 0 x, Suc t1))"

subsection \<open>ChaCha20\<close>

definition rotl32 :: "u32 \<Rightarrow> nat \<Rightarrow> u32" where
  "rotl32 x n = push_bit n x OR drop_bit (32 - n) x"

fun chacha_quarter_round :: "u32 \<times> u32 \<times> u32 \<times> u32 \<Rightarrow> u32 \<times> u32 \<times> u32 \<times> u32" where
  "chacha_quarter_round (a0, b0, c0, d0) =
     (let a1 = a0 + b0; d1 = rotl32 (d0 XOR a1) 16;
          c1 = c0 + d1; b1 = rotl32 (b0 XOR c1) 12;
          a2 = a1 + b1; d2 = rotl32 (d1 XOR a2) 8;
          c2 = c1 + d2; b2 = rotl32 (b1 XOR c2) 7
      in (a2, b2, c2, d2))"

definition qr_at :: "u32 list \<Rightarrow> nat \<times> nat \<times> nat \<times> nat \<Rightarrow> u32 list" where
  "qr_at out ix = (case ix of (i, j, k, l) \<Rightarrow>
     (case chacha_quarter_round (out ! i, out ! j, out ! k, out ! l) of (a, b, c, d) \<Rightarrow>
        out[i := a, j := b, k := c, l := d]))"

definition chacha_double_round :: "u32 list \<Rightarrow> u32 list" where
  "chacha_double_round out =
     foldl qr_at out [(0, 4, 8, 12), (1, 5, 9, 13), (2, 6, 10, 14), (3, 7, 11, 15),
                      (0, 5, 10, 15), (1, 6, 11, 12), (2, 7, 8, 13), (3, 4, 9, 14)]"

definition chacha20_block :: "chacha20_ctx \<Rightarrow> u32 list" where
  "chacha20_block ctx =
     (let out = (chacha_double_round ^^ 10) (cc_state ctx)
      in map (\<lambda>i. out ! i + cc_state ctx ! i) [0..<16])"

definition le_word :: "u8 list \<Rightarrow> nat \<Rightarrow> u32" where
  "le_word key i = ucast (key ! (i * 4)) OR push_bit 8 (ucast (key ! (i * 4 + 1))) OR
     push_bit 16 (ucast (key ! (i * 4 + 2))) OR push_bit 24 (ucast (key ! (i * 4 + 3)))"

definition chacha20_init :: "u8 list \<Rightarrow> u8 list \<Rightarrow> chacha20_ctx" where
  "chacha20_init key nonce =
     (let ks = map (le_word key) [0..<8]; ns = map (le_word nonce) [0..<3]
      in \<lparr>cc_state = [0x61707865, 0x3320646e, 0x79622d32, 0x6b206574] @ ks @ [0] @ ns,
          cc_key = ks, cc_counter = 0, cc_nonce = ns\<rparr>)"

definition block_bytes :: "u32 list \<Rightarrow> u8 list" where
  "block_bytes ws = concat (map mem32 ws)"

function chacha20_generate :: "chacha20_ctx \<Rightarrow> nat \<Rightarrow> u8 list \<times> chacha20_ctx" where
  "chacha20_generate ctx len =
     (if len > 0 then
        (let ctx1 = ctx\<lparr>cc_state := (cc_state ctx)[12 := cc_counter ctx]\<rparr>;
             block = chacha20_block ctx1;
             ctx2 = ctx1\<lparr>cc_counter := cc_counter ctx1 + 1\<rparr>;
             chunk = (if len < 64 then len else 64);
             (rest, ctx3) = chacha20_generate ctx2 (len - chunk)
         in (take chunk (block_bytes block) @ rest, ctx3))
      else ([], ctx))"
  by pat_completeness auto
termination
  by (relation "measure snd") auto

declare chacha20_generate.simps [simp del]

subsection \<open>Entropy\<close>

definition jitter_collect_one :: "machine \<Rightarrow> nat \<Rightarrow> u64 \<times> nat" where
  "jitter_collect_one M t =
     (let (t1, s1) = read_tsc M t; (t2, s2) = read_tsc M s1; (t3, s3) = read_tsc M s2
      in ((t2 - t1) XOR push_bit 16 (t3 - t2) XOR (t3 - t1), s3))"

primrec jitter_feed :: "machine \<Rightarrow> nat \<Rightarrow> sha256_ctx \<Rightarrow> nat \<Rightarrow> sha256_ctx \<times> nat" where
  "jitter_feed M 0 ctx t = (ctx, t)"
| "jitter_feed M (Suc n) ctx t =
     (let (sample, t1) = jitter_collect_one M t
      in jitter_feed M n (sha256_update ctx (mem64 sample)) t1)"

function jitter_harvest :: "machine \<Rightarrow> nat \<Rightarrow> nat \<Rightarrow> u8 list \<times> nat" where
  "jitter_harvest M len t =
     (if len = 0 then ([], t)
      else (let (ctx, t1) = jitter_feed M RNG_JITTER_SAMPLES (sha256_init (hw_ctx M)) t;
                hash = sha256_final ctx;
                chunk = (if len > 32 then 32 else len);
                (rest, t2) = jitter_harvest M (len - chunk) t1
            in (take chunk hash @ rest, t2)))"
  by pat_completeness auto
termination
  by (relation "measure (\<lambda>(M, len, t). len)") auto

declare jitter_harvest.simps [simp del]

definition pool_add :: "machine \<Rightarrow> entropy_pool \<Rightarrow> u8 list \<Rightarrow> entropy_pool" where
  "pool_add M pool data =
     (let hash = sha256_final (sha256_update (sha256_update (sha256_init (hw_ctx M)) (pool_data pool)) data)
      in pool\<lparr>pool_data := hash, pool_count := pool_count pool + 1\<rparr>)"

primrec jitter_vals :: "machine \<Rightarrow> nat \<Rightarrow> nat \<Rightarrow> u8 list \<times> nat" where
  "jitter_vals M 0 t = ([], t)"
| "jitter_vals M (Suc n) t =
     (let (v, t1) = jitter_collect_one M t; (vs, t2) = jitter_vals M n t1 in (mem64 v @ vs, t2))"

function collect_boot_entropy :: "machine \<Rightarrow> nat \<Rightarrow> nat \<Rightarrow> u8 list \<times> nat" where
  "collect_boot_entropy M len t =
     (if len = 0 then ([], t)
      else (let (tsc1, t1) = read_tsc M t;
                c1 = sha256_update (sha256_init (hw_ctx M)) (mem64 tsc1);
                c2 = sha256_update c1 (mem32 (ucast (hw_pit M t1)));
                c3 = sha256_update c2 (mem32 (ucast (hw_rtc M (t1 + 1))));
                c4 = sha256_update c3 (mem32 (ucast (hw_stack M)));
                (js, t2) = jitter_vals M 8 (t1 + 2);
                c5 = sha256_update c4 js;
                (c6, t3) = cpu_feed M 4 c5 t2;
                (tsc2, t4) = read_tsc M t3;
                c7 = sha256_update c6 (mem64 tsc2);
                c8 = sha256_update c7 (mem32 (ucast (hw_pit M t4)));
                hash = sha256_final c8;
                chunk = (if len > 32 then 32 else len);
                (rest, t5) = collect_boot_entropy M (len - chunk) (t4 + 1)
            in (take chunk hash @ rest, t5)))"
  by pat_completeness auto
termination
  by (relation "measure (\<lambda>(M, len, t). len)") auto

declare collect_boot_entropy.simps [simp del]

subsection \<open>The generator\<close>

definition pool_due :: "u32 \<Rightarrow> nat \<Rightarrow> bool" where
  "pool_due counter i \<longleftrightarrow> counter AND (push_bit i 1 - 1) = 0"

definition pools_feed :: "rng_state \<Rightarrow> sha256_ctx \<Rightarrow> sha256_ctx" where
  "pools_feed g ctx =
     foldl (\<lambda>c i. if pool_due (reseed_counter g) i then sha256_update c (pool_data (pools g ! i)) else c)
       ctx [0..<RNG_NUM_POOLS]"

definition rng_do_reseed :: "machine \<Rightarrow> rng_state \<Rightarrow> nat \<Rightarrow> rng_state \<times> nat" where
  "rng_do_reseed M g t =
     (let c1 = pools_feed g (sha256_init (hw_ctx M));
          (tsc1, t1) = read_tsc M t;
          c2 = sha256_update c1 (mem64 tsc1);
          c3 = sha256_update c2 (mem32 (ucast (hw_pit M t1)));
          (jitter_buf, t2) = jitter_harvest M 32 (t1 + 1);
          c4 = sha256_update c3 jitter_buf;
          (c5, t3) = cpu_feed M 8 c4 t2;
          c6 = sha256_update c5 (mem32 (reseed_counter g));
          hash = sha256_final c6;
          d1 = sha256_update (sha256_init (hw_ctx M)) hash;
          (tsc2, t4) = read_tsc M t3;
          hash2 = sha256_final (sha256_update d1 (mem64 tsc2));
          seed_material = hash @ take 12 hash2
      in (g\<lparr>chacha := chacha20_init seed_material (drop 32 seed_material),
            reseed_counter := reseed_counter g + 1,
            output_pos := RNG_OUTPUT_BUF_SIZE\<rparr>, t4))"

definition rng_fill_buffer :: "machine \<Rightarrow> rng_state \<Rightarrow> nat \<Rightarrow> rng_state \<times> nat" where
  "rng_fill_buffer M g t =
     (let (out, ctx) = chacha20_generate (chacha g) RNG_OUTPUT_BUF_SIZE;
          g1 = g\<lparr>chacha := ctx, output_buf := out, output_pos := 0,
                 generation_counter := generation_counter g + word_of_nat RNG_OUTPUT_BUF_SIZE\<rparr>
      in if generation_counter g1 \<ge> RNG_RESEED_THRESHOLD
         then rng_do_reseed M (g1\<lparr>generation_counter := 0\<rparr>) t
         else (g1, t))"

lemma rng_do_reseed_frame:
  "rng_do_reseed M g t = (g', t') \<Longrightarrow>
   output_pos g' = RNG_OUTPUT_BUF_SIZE \<and> generation_counter g' = generation_counter g \<and>
   pools g' = pools g \<and> pool_index g' = pool_index g \<and> initialized g' = initialized g \<and>
   output_buf g' = output_buf g \<and> reseed_counter g' = reseed_counter g + 1"
  by (auto simp: rng_do_reseed_def Let_def split: prod.splits)

lemma rng_fill_buffer_progress:
  "rng_fill_buffer M g t = (g', t') \<Longrightarrow>
   (generation_counter g + 256 \<ge> 1024 \<and> output_pos g' = 256 \<and> generation_counter g' = 0) \<or>
   (generation_counter g + 256 < 1024 \<and> output_pos g' = 0 \<and>
    generation_counter g' = generation_counter g + 256)"
  by (auto simp: rng_fill_buffer_def Let_def dest: rng_do_reseed_frame split: prod.splits if_splits)

text \<open>
  The copying loop. A fill that crosses the reseed threshold leaves the buffer marked as
  used up, so an iteration can deliver nothing; the second component of the measure counts
  that, since the fill after a reseed starts from a cleared generation counter.
\<close>

function rng_extract :: "machine \<Rightarrow> rng_state \<Rightarrow> nat \<Rightarrow> nat \<Rightarrow> u8 list \<times> rng_state \<times> nat" where
  "rng_extract M g len t =
     (if len > 0 then
        (let (g1, t1) = (if output_pos g \<ge> RNG_OUTPUT_BUF_SIZE then rng_fill_buffer M g t else (g, t));
             avail = RNG_OUTPUT_BUF_SIZE - output_pos g1;
             chunk = (if len < avail then len else avail);
             (rest, g3, t3) = rng_extract M (g1\<lparr>output_pos := output_pos g1 + chunk\<rparr>) (len - chunk) t1
         in (take chunk (drop (output_pos g1) (output_buf g1)) @ rest, g3, t3))
      else ([], g, t))"
  by pat_completeness auto
termination
proof (relation "measures [\<lambda>(M, g, len, t). len,
    \<lambda>(M, g, len, t). if generation_counter g + 256 \<ge> 1024 then 1 else 0]", goal_cases)
  case (2 M g len t x g1 t1 avail chunk)
  then show ?case
    using rng_fill_buffer_progress [of M g t g1 t1] by (auto split: if_splits)
qed simp

declare rng_extract.simps [simp del]

definition zero_pool :: entropy_pool where
  "zero_pool = \<lparr>pool_data = replicate 32 0, pool_count = 0\<rparr>"

definition zero_rng :: rng_state where
  "zero_rng = \<lparr>chacha = \<lparr>cc_state = replicate 16 0, cc_key = replicate 8 0, cc_counter = 0,
                        cc_nonce = replicate 3 0\<rparr>,
     pools = replicate RNG_NUM_POOLS zero_pool, pool_index = 0, reseed_counter = 0,
     generation_counter = 0, output_buf = replicate RNG_OUTPUT_BUF_SIZE 0, output_pos = 0,
     initialized = False\<rparr>"

definition rng_init :: "machine \<Rightarrow> rng_state \<Rightarrow> nat \<Rightarrow> rng_state \<times> nat" where
  "rng_init M g t =
     (if initialized g then (g, t)
      else (let g0 = zero_rng\<lparr>output_pos := RNG_OUTPUT_BUF_SIZE\<rparr>;
                (boot_entropy, t1) = collect_boot_entropy M RNG_ENTROPY_POOL_SIZE t;
                sz = RNG_ENTROPY_POOL_SIZE div RNG_NUM_POOLS;
                ps = map (\<lambda>i. pool_add M (pools g0 ! i) (take sz (drop (i * sz) boot_entropy)))
                       [0..<RNG_NUM_POOLS];
                (initial_key, t2) = jitter_harvest M 32 t1;
                (initial_nonce, t3) = jitter_harvest M 12 t2;
                g1 = g0\<lparr>pools := ps, chacha := chacha20_init initial_key initial_nonce,
                        reseed_counter := 1\<rparr>;
                (g2, t4) = rng_do_reseed M g1 t3
            in (g2\<lparr>initialized := True\<rparr>, t4)))"

definition rng_add_entropy :: "machine \<Rightarrow> rng_state \<Rightarrow> u8 list option \<Rightarrow> nat \<Rightarrow> rng_state \<times> nat" where
  "rng_add_entropy M g data t =
     (case data of None \<Rightarrow> (g, t)
      | Some d \<Rightarrow>
        if d = [] then (g, t)
        else if \<not> initialized g then (g, t)
        else (let (tsc_val, t1) = read_tsc M t;
                  idx = unat (pool_index g) mod RNG_NUM_POOLS;
                  p1 = pool_add M (pools g ! idx) d;
                  p2 = pool_add M p1 (mem64 tsc_val)
              in (g\<lparr>pools := (pools g)[idx := p2], pool_index := pool_index g + 1\<rparr>, t1)))"

definition rng_reseed :: "machine \<Rightarrow> rng_state \<Rightarrow> nat \<Rightarrow> rng_state \<times> nat" where
  "rng_reseed M g t = (if \<not> initialized g then (g, t) else rng_do_reseed M g t)"

text \<open>
  rng\_fill on a non-null buffer at address buf: the bytes it stores, and the state.
\<close>

definition rng_fill :: "machine \<Rightarrow> rng_state \<Rightarrow> u64 \<Rightarrow> nat \<Rightarrow> nat \<Rightarrow> u8 list \<times> rng_state \<times> nat" where
  "rng_fill M g buf len t =
     (if buf = 0 \<or> len = 0 then ([], g, t)
      else if \<not> initialized g then
        (let (bytes, t1) = rng_fallback_fill M buf len t in (bytes, g, t1))
      else rng_extract M g len t)"

definition rng_get :: "nat \<Rightarrow> machine \<Rightarrow> rng_state \<Rightarrow> nat \<Rightarrow> nat \<times> rng_state \<times> nat" where
  "rng_get n M g t = (let (bytes, g1, t1) = rng_fill M g (hw_stack M) n t in (le_val bytes, g1, t1))"

definition rng_get_u8 :: "machine \<Rightarrow> rng_state \<Rightarrow> nat \<Rightarrow> u8 \<times> rng_state \<times> nat" where
  "rng_get_u8 M g t = (case rng_get 1 M g t of (v, r) \<Rightarrow> (word_of_nat v, r))"
definition rng_get_u16 :: "machine \<Rightarrow> rng_state \<Rightarrow> nat \<Rightarrow> u16 \<times> rng_state \<times> nat" where
  "rng_get_u16 M g t = (case rng_get 2 M g t of (v, r) \<Rightarrow> (word_of_nat v, r))"
definition rng_get_u32 :: "machine \<Rightarrow> rng_state \<Rightarrow> nat \<Rightarrow> u32 \<times> rng_state \<times> nat" where
  "rng_get_u32 M g t = (case rng_get 4 M g t of (v, r) \<Rightarrow> (word_of_nat v, r))"
definition rng_get_u64 :: "machine \<Rightarrow> rng_state \<Rightarrow> nat \<Rightarrow> u64 \<times> rng_state \<times> nat" where
  "rng_get_u64 M g t = (case rng_get 8 M g t of (v, r) \<Rightarrow> (word_of_nat v, r))"

subsection \<open>ChaCha20 as the standard states it\<close>

text \<open>
  ChaCha20 as RFC 8439 and its vector implementations present it: the state is four rows of
  four words, a round works on whole rows, and the diagonal round is a column round on
  rotated rows.
\<close>

type_synonym rows = "u32 list \<times> u32 list \<times> u32 list \<times> u32 list"

fun row_round :: "rows \<Rightarrow> rows" where
  "row_round (a, b, c, d) =
     (let a = map2 (+) a b; d = map (word_rotl 16) (map2 (XOR) d a);
          c = map2 (+) c d; b = map (word_rotl 12) (map2 (XOR) b c);
          a = map2 (+) a b; d = map (word_rotl 8) (map2 (XOR) d a);
          c = map2 (+) c d; b = map (word_rotl 7) (map2 (XOR) b c)
      in (a, b, c, d))"

fun diagonalise :: "rows \<Rightarrow> rows" where
  "diagonalise (a, b, c, d) = (a, rotate 1 b, rotate 2 c, rotate 3 d)"

fun undiagonalise :: "rows \<Rightarrow> rows" where
  "undiagonalise (a, b, c, d) = (a, rotate 3 b, rotate 2 c, rotate 1 d)"

definition rows_double_round :: "rows \<Rightarrow> rows" where
  "rows_double_round s = undiagonalise (row_round (diagonalise (row_round s)))"

fun rows_list :: "rows \<Rightarrow> u32 list" where
  "rows_list (a, b, c, d) = a @ b @ c @ d"

definition list_rows :: "u32 list \<Rightarrow> rows" where
  "list_rows s = (take 4 s, take 4 (drop 4 s), take 4 (drop 8 s), take 4 (drop 12 s))"

definition rfc_chacha20_block :: "u32 list \<Rightarrow> u32 list" where
  "rfc_chacha20_block s = map2 (+) (rows_list ((rows_double_round ^^ 10) (list_rows s))) s"

lemma rotl32_word_rotl:
  assumes "0 < n" and "n < 32"
  shows "rotl32 x n = word_rotl n x"
proof (rule bit_word_eqI)
  fix i assume i: "i < LENGTH(32)"
  show "bit (rotl32 x n) i = bit (word_rotl n x) i"
  proof (cases "i < n")
    case True
    have "32 - n + i = i + 32 - n" using assms by simp
    with True assms i show ?thesis by (auto simp: rotl32_def bit_simps)
  next
    case False
    with assms i have "(i + 32 - n) mod 32 = i - n" by (simp add: mod_if)
    moreover have "\<not> bit x (32 + i - n)"
      using False bit_imp_le_length [of x "32 + i - n"] by auto
    ultimately show ?thesis using False i assms
      by (auto simp: rotl32_def bit_simps)
  qed
qed

lemma list16:
  assumes "length (s :: 'a list) = 16"
  obtains a b c d e f g h i j k l m n p q where "s = [a, b, c, d, e, f, g, h, i, j, k, l, m, n, p, q]"
  using assms by (auto simp: numeral_eq_Suc length_Suc_conv)

definition q1 where "q1 x = fst (chacha_quarter_round x)"
definition q2 where "q2 x = fst (snd (chacha_quarter_round x))"
definition q3 where "q3 x = fst (snd (snd (chacha_quarter_round x)))"
definition q4 where "q4 x = snd (snd (snd (chacha_quarter_round x)))"

lemma row_round_columns:
  "row_round ([a0, a1, a2, a3], [b0, b1, b2, b3], [c0, c1, c2, c3], [d0, d1, d2, d3]) =
    (map q1 [(a0, b0, c0, d0), (a1, b1, c1, d1), (a2, b2, c2, d2), (a3, b3, c3, d3)],
     map q2 [(a0, b0, c0, d0), (a1, b1, c1, d1), (a2, b2, c2, d2), (a3, b3, c3, d3)],
     map q3 [(a0, b0, c0, d0), (a1, b1, c1, d1), (a2, b2, c2, d2), (a3, b3, c3, d3)],
     map q4 [(a0, b0, c0, d0), (a1, b1, c1, d1), (a2, b2, c2, d2), (a3, b3, c3, d3)])"
  by (simp add: q1_def q2_def q3_def q4_def Let_def rotl32_word_rotl)

lemma qr_at_columns:
  "qr_at out (i, j, k, l) =
    (let x = (out ! i, out ! j, out ! k, out ! l)
     in out[i := q1 x, j := q2 x, k := q3 x, l := q4 x])"
  by (simp add: qr_at_def q1_def q2_def q3_def q4_def split: prod.split)

lemma double_round_rows:
  assumes "length s = 16"
  shows "list_rows (chacha_double_round s) = rows_double_round (list_rows s)"
    and "length (chacha_double_round s) = 16"
  using assms
  by (auto elim!: list16 simp: list_rows_def rows_double_round_def row_round_columns
      chacha_double_round_def qr_at_columns Let_def rotate_drop_take simp del: row_round.simps)

lemma rows_list_rows: "length s = 16 \<Longrightarrow> rows_list (list_rows s) = s"
  by (auto elim!: list16 simp: list_rows_def)

lemma double_rounds:
  assumes "length s = 16"
  shows "length ((chacha_double_round ^^ n) s) = 16 \<and>
    list_rows ((chacha_double_round ^^ n) s) = (rows_double_round ^^ n) (list_rows s)"
  using assms by (induction n) (simp_all add: double_round_rows)

lemma chacha20_block_rfc:
  assumes "length (cc_state ctx) = 16"
  shows "chacha20_block ctx = rfc_chacha20_block (cc_state ctx)"
proof -
  let ?o = "(chacha_double_round ^^ 10) (cc_state ctx)"
  have o: "length ?o = 16" "rows_list (list_rows ?o) = ?o" "list_rows ?o = (rows_double_round ^^ 10) (list_rows (cc_state ctx))"
    using double_rounds [OF assms, of 10] rows_list_rows [of ?o] by simp_all
  have "chacha20_block ctx = map2 (+) ?o (cc_state ctx)"
    unfolding chacha20_block_def Let_def using o assms by (intro nth_equalityI) auto
  with o show ?thesis by (simp only: rfc_chacha20_block_def)
qed

primrec keystream :: "u32 list \<Rightarrow> u32 \<Rightarrow> nat \<Rightarrow> u8 list" where
  "keystream s c 0 = []"
| "keystream s c (Suc n) = block_bytes (rfc_chacha20_block (s[12 := c])) @ keystream s (c + 1) n"

lemma keystream_update [simp]: "keystream (s[12 := x]) c n = keystream s c n"
  by (induction n arbitrary: c) simp_all

lemma length_block_bytes: "length (block_bytes ws) = 4 * length ws"
  by (induction ws) (simp_all add: block_bytes_def mem32_def)

lemma length_rfc_block: "length s = 16 \<Longrightarrow> length (rfc_chacha20_block s) = 16"
  using chacha20_block_rfc [of "\<lparr>cc_state = s, cc_key = [], cc_counter = 0, cc_nonce = []\<rparr>", symmetric]
  by (simp add: chacha20_block_def Let_def)

lemma length_keystream: "length s = 16 \<Longrightarrow> length (keystream s c n) = 64 * n"
  by (induction n arbitrary: c) (simp_all add: length_block_bytes length_rfc_block)

definition blocks_of :: "nat \<Rightarrow> nat" where
  "blocks_of len = (len + 63) div 64"

lemma blocks_of_simps:
  "blocks_of 0 = 0" "0 < len \<Longrightarrow> len \<le> 64 \<Longrightarrow> blocks_of len = 1"
  "64 \<le> len \<Longrightarrow> blocks_of len = Suc (blocks_of (len - 64))"
proof -
  assume "64 \<le> len"
  then have "len + 63 = 64 + (len - 64 + 63)" by simp
  then show "blocks_of len = Suc (blocks_of (len - 64))" 
    unfolding blocks_of_def by (metis One_nat_def add.commute div_add_self1 plus_1_eq_Suc zero_neq_numeral)
qed (auto simp: blocks_of_def div_if)

lemma chacha20_generate_keystream:
  assumes "length (cc_state ctx) = 16"
  shows "fst (chacha20_generate ctx len) = take len (keystream (cc_state ctx) (cc_counter ctx) (blocks_of len)) \<and>
    cc_counter (snd (chacha20_generate ctx len)) = cc_counter ctx + word_of_nat (blocks_of len) \<and>
    length (cc_state (snd (chacha20_generate ctx len))) = 16 \<and>
    (\<forall>i. i \<noteq> 12 \<longrightarrow> cc_state (snd (chacha20_generate ctx len)) ! i = cc_state ctx ! i)"
  using assms
proof (induction ctx len rule: chacha20_generate.induct)
  case (1 ctx len)
  show ?case
  proof (cases "len = 0")
    case True
    then show ?thesis using 1(2) by (simp add: chacha20_generate.simps [of ctx 0] blocks_of_simps)
  next
    case False
    define ctx1 where "ctx1 = ctx\<lparr>cc_state := (cc_state ctx)[12 := cc_counter ctx]\<rparr>"
    define ctx2 where "ctx2 = ctx1\<lparr>cc_counter := cc_counter ctx1 + 1\<rparr>"
    define chunk where "chunk = (if len < 64 then len else 64)"
    have IH: "length (cc_state ctx2) = 16 \<Longrightarrow> fst (chacha20_generate ctx2 (len - chunk)) =
        take (len - chunk) (keystream (cc_state ctx2) (cc_counter ctx2) (blocks_of (len - chunk))) \<and>
      cc_counter (snd (chacha20_generate ctx2 (len - chunk))) =
        cc_counter ctx2 + word_of_nat (blocks_of (len - chunk)) \<and>
      length (cc_state (snd (chacha20_generate ctx2 (len - chunk)))) = 16 \<and>
      (\<forall>i. i \<noteq> 12 \<longrightarrow> cc_state (snd (chacha20_generate ctx2 (len - chunk))) ! i = cc_state ctx2 ! i)"
      using 1(1) [OF _ ctx1_def refl ctx2_def chunk_def] False by simp
    have c2: "length (cc_state ctx2) = 16" "cc_counter ctx2 = cc_counter ctx + 1"
      "cc_state ctx2 = (cc_state ctx)[12 := cc_counter ctx]"
      using 1(2) by (simp_all add: ctx1_def ctx2_def)
    have gen: "chacha20_generate ctx len =
        (take chunk (block_bytes (chacha20_block ctx1)) @ fst (chacha20_generate ctx2 (len - chunk)),
         snd (chacha20_generate ctx2 (len - chunk)))"
      using False by (subst chacha20_generate.simps)
        (simp add: Let_def ctx1_def ctx2_def chunk_def split: prod.split)
    have blk: "chacha20_block ctx1 = rfc_chacha20_block ((cc_state ctx)[12 := cc_counter ctx])"
      using 1(2) by (simp add: chacha20_block_rfc ctx1_def)
    have l64: "length (block_bytes (rfc_chacha20_block ((cc_state ctx)[12 := cc_counter ctx]))) = 64"
      using 1(2) by (simp add: length_block_bytes length_rfc_block)
    have b: "blocks_of len = Suc (blocks_of (len - chunk))"
      using False by (auto simp: chunk_def blocks_of_simps)
    show ?thesis using IH [OF c2(1)] False
      by (auto simp: gen b blk c2 chunk_def l64 take_append list_update_swap algebra_simps blocks_of_simps)
  qed
qed

subsection \<open>Key epochs\<close>

text \<open>
  Between two reseeds the generator walks through the key stream of one key. stream\_pos is
  the position in it of the next byte to hand out. The invariant: the block counter never
  runs ahead of the generation counter, which stays below the reseed threshold, and the
  unread part of the buffer is the key stream just below the block counter.
\<close>

definition same_key :: "u32 list \<Rightarrow> u32 list \<Rightarrow> bool" where
  "same_key s s' \<longleftrightarrow> length s = length s' \<and> (\<forall>i. i \<noteq> 12 \<longrightarrow> s' ! i = s ! i)"

definition stream_pos :: "rng_state \<Rightarrow> nat" where
  "stream_pos g = 64 * unat (cc_counter (chacha g)) - (RNG_OUTPUT_BUF_SIZE - output_pos g)"

definition epoch_stream :: "rng_state \<Rightarrow> u8 list" where
  "epoch_stream g = keystream (cc_state (chacha g)) 0 12"

definition epoch_left :: "rng_state \<Rightarrow> nat" where
  "epoch_left g = (RNG_OUTPUT_BUF_SIZE - output_pos g) + (768 - unat (generation_counter g))"

definition rng_ok :: "rng_state \<Rightarrow> bool" where
  "rng_ok g \<longleftrightarrow> length (cc_state (chacha g)) = 16 \<and> length (pools g) = 8 \<and>
     (\<forall>p\<in>set (pools g). length (pool_data p) = 32) \<and>
     output_pos g \<le> 256 \<and> unat (generation_counter g) \<le> 768 \<and>
     256 dvd unat (generation_counter g) \<and>
     64 * unat (cc_counter (chacha g)) \<le> unat (generation_counter g) \<and>
     (output_pos g < 256 \<longrightarrow> 4 \<le> unat (cc_counter (chacha g)) \<and>
       output_buf g = take 256 (drop (64 * unat (cc_counter (chacha g)) - 256) (epoch_stream g)))"

lemma keystream_same_key: "same_key s s' \<Longrightarrow> keystream s' c n = keystream s c n"
proof (induction n arbitrary: c)
  case (Suc n)
  have "s'[12 := c] = s[12 := c]"
  proof (rule nth_equalityI)
    fix i assume "i < length (s'[12 := c])"
    then show "s'[12 := c] ! i = s[12 := c] ! i"
      using Suc.prems by (cases "i = 12") (simp_all add: same_key_def)
  qed (use Suc.prems in \<open>simp add: same_key_def\<close>)
  with Suc show ?case by simp
qed simp

lemma keystream_add: "keystream s c (m + n) = keystream s c m @ keystream s (c + word_of_nat m) n"
  by (induction m arbitrary: c) (simp_all add: add.assoc)

lemma keystream_slice:
  assumes "length s = 16" and "k + m \<le> n"
  shows "take (64 * m) (drop (64 * k) (keystream s 0 n)) = keystream s (word_of_nat k) m"
proof -
  from assms(2) have "n = k + (m + (n - k - m))" by simp
  then have "keystream s 0 n = keystream s 0 k @ keystream s (word_of_nat k) m @
      keystream s (word_of_nat k + word_of_nat m) (n - k - m)"
    by (metis add.left_neutral keystream_add)
  with assms(1) show ?thesis by (simp add: length_keystream)
qed

lemma fill_buffer_ok:
  assumes ok: "rng_ok g" and pos: "output_pos g = 256" and gc: "unat (generation_counter g) < 768"
    and fb: "rng_fill_buffer M g t = (g1, t1)"
  shows "t1 = t \<and> rng_ok g1 \<and> output_pos g1 = 0 \<and> stream_pos g1 = stream_pos g \<and>
    epoch_stream g1 = epoch_stream g \<and> epoch_left g1 = epoch_left g \<and>
    initialized g1 = initialized g \<and> reseed_counter g1 = reseed_counter g \<and> pools g1 = pools g"
proof -
  let ?c = "cc_counter (chacha g)" and ?s = "cc_state (chacha g)"
  obtain out ctx where gen: "chacha20_generate (chacha g) 256 = (out, ctx)" by force
  from ok have l: "length ?s = 16" by (simp add: rng_ok_def)
  have b4: "blocks_of 256 = 4" by (simp add: blocks_of_def)
  have s: "out = take 256 (keystream ?s ?c 4)" "cc_counter ctx = ?c + 4" "same_key ?s (cc_state ctx)"
    using chacha20_generate_keystream [OF l, of 256] gen l by (simp_all add: b4 same_key_def)
  have gu: "unat (generation_counter g) \<le> 512"
    using gc ok by (auto simp: rng_ok_def elim!: dvdE)
  have g256: "unat (generation_counter g + 256) = unat (generation_counter g) + 256"
    using gu by (simp add: unat_word_ariths)
  then have lt: "\<not> generation_counter g + 256 \<ge> 1024"
    using gu by (simp add: word_le_nat_alt)
  have cu: "64 * unat ?c \<le> 512" using ok gu by (auto simp: rng_ok_def)
  then have c4: "unat (?c + 4) = unat ?c + 4" by (simp add: unat_word_ariths)
  have out: "out = take 256 (drop (64 * unat ?c) (keystream ?s 0 12))"
    using keystream_slice [OF l, of "unat ?c" 4 12] cu s(1) l by (simp add: length_keystream)
  have g1: "t1 = t" "g1 = g\<lparr>chacha := ctx, output_buf := out, output_pos := 0,
      generation_counter := generation_counter g + 256\<rparr>"
    using fb lt by (simp_all add: rng_fill_buffer_def gen Let_def)
  have ep: "epoch_stream g1 = epoch_stream g"
    using keystream_same_key [OF s(3)] by (simp add: g1 epoch_stream_def)
  have "256 dvd unat (generation_counter g) + 256" using ok by (simp add: rng_ok_def)
  then have "rng_ok g1"
    using ok s(2,3) g256 gu cu c4 out ep
    by (auto simp: rng_ok_def g1 epoch_stream_def same_key_def)
  moreover have "epoch_left g1 = epoch_left g"
    using pos g256 gu by (simp add: g1 epoch_left_def)
  moreover have "stream_pos g1 = stream_pos g"
    using pos c4 s(2) by (simp add: g1 stream_pos_def)
  ultimately show ?thesis using ep g1 by simp
qed

lemma extract_step:
  "0 < len \<Longrightarrow> (if output_pos g \<ge> 256 then rng_fill_buffer M g t else (g, t)) = (g1, t1) \<Longrightarrow>
   chunk = (if len < 256 - output_pos g1 then len else 256 - output_pos g1) \<Longrightarrow>
   rng_extract M g len t = 
     (case rng_extract M (g1\<lparr>output_pos := output_pos g1 + chunk\<rparr>) (len - chunk) t1 of (rest, g3, t3) \<Rightarrow>
        (take chunk (drop (output_pos g1) (output_buf g1)) @ rest, g3, t3))"
  by (subst rng_extract.simps) (simp add: Let_def)

lemma consume_ok:
  assumes "rng_ok g" and "n \<le> 256 - output_pos g" and "output_pos g < 256"
  shows "rng_ok (g\<lparr>output_pos := output_pos g + n\<rparr>)"
    and "stream_pos (g\<lparr>output_pos := output_pos g + n\<rparr>) = stream_pos g + n"
    and "epoch_left (g\<lparr>output_pos := output_pos g + n\<rparr>) + n = epoch_left g"
    and "take n (drop (output_pos g) (output_buf g)) = take n (drop (stream_pos g) (epoch_stream g))"
  using assms by (auto simp: rng_ok_def stream_pos_def epoch_left_def epoch_stream_def
      drop_take min_def add.commute)

lemma extract_epoch:
  "rng_ok g \<Longrightarrow> len \<le> epoch_left g \<Longrightarrow> rng_extract M g len t = (out, g', t') \<Longrightarrow>
   out = take len (drop (stream_pos g) (epoch_stream g)) \<and> stream_pos g' = stream_pos g + len \<and>
   epoch_stream g' = epoch_stream g \<and> rng_ok g' \<and> epoch_left g' + len = epoch_left g \<and> t' = t"
proof (induction M g len t arbitrary: out g' t' rule: rng_extract.induct)
  case (1 M g len t)
  show ?case
  proof (cases "len = 0")
    case True
    then show ?thesis using 1(2-4) by (simp add: rng_extract.simps)
  next
    case False
    obtain g1 t1 where f: "(if output_pos g \<ge> 256 then rng_fill_buffer M g t else (g, t)) = (g1, t1)"
      by force
    have g1: "t1 = t" "rng_ok g1" "output_pos g1 < 256" "stream_pos g1 = stream_pos g"
      "epoch_stream g1 = epoch_stream g" "epoch_left g1 = epoch_left g"
    proof -
      have "t1 = t \<and> rng_ok g1 \<and> output_pos g1 < 256 \<and> stream_pos g1 = stream_pos g \<and>
        epoch_stream g1 = epoch_stream g \<and> epoch_left g1 = epoch_left g"
      proof (cases "output_pos g \<ge> 256")
        case True
        then have p: "output_pos g = 256" using 1(2) by (simp add: rng_ok_def)
        then have "unat (generation_counter g) < 768" using False 1(3) by (simp add: epoch_left_def)
        from fill_buffer_ok [OF 1(2) p this, of M t g1 t1] show ?thesis using f True by simp
      qed (use f 1(2) in auto)
      then show "t1 = t" "rng_ok g1" "output_pos g1 < 256" "stream_pos g1 = stream_pos g"
        "epoch_stream g1 = epoch_stream g" "epoch_left g1 = epoch_left g" by simp_all
    qed
    define chunk where "chunk = (if len < 256 - output_pos g1 then len else 256 - output_pos g1)"
    let ?g2 = "g1\<lparr>output_pos := output_pos g1 + chunk\<rparr>"
    obtain rest g3 t3 where r: "rng_extract M ?g2 (len - chunk) t1 = (rest, g3, t3)"
      by (metis prod_cases3)
    have o: "out = take chunk (drop (output_pos g1) (output_buf g1)) @ rest" "g' = g3" "t' = t3"
      using extract_step [OF _ f chunk_def] False r 1(4) by simp_all
    have n: "chunk \<le> 256 - output_pos g1" "chunk \<le> len" by (simp_all add: chunk_def)
    note c = consume_ok [OF g1(2) n(1) g1(3)]
    have "len - chunk \<le> epoch_left ?g2" using c(3) g1(6) 1(3) by linarith
    then have IH: "rest = take (len - chunk) (drop (stream_pos ?g2) (epoch_stream ?g2)) \<and>
      stream_pos g3 = stream_pos ?g2 + (len - chunk) \<and> epoch_stream g3 = epoch_stream ?g2 \<and> rng_ok g3 \<and>
      epoch_left g3 + (len - chunk) = epoch_left ?g2 \<and> t3 = t1"
      using 1(1) [OF _ f [symmetric] refl refl chunk_def c(1) _ r] False by simp
    have e: "epoch_stream ?g2 = epoch_stream g1" by (simp add: epoch_stream_def)
    have "take chunk (drop p KS) @ take (len - chunk) (drop (p + chunk) KS) = take len (drop p KS)"
      for p and KS :: "u8 list"
      using n(2) take_add [of chunk "len - chunk" "drop p KS"] by (simp add: add.commute)
    moreover have "epoch_left g3 + len = epoch_left g" using IH c(3) g1(6) n(2) by linarith
    ultimately show ?thesis
      using IH o c g1 n e by simp
  qed
qed


subsection \<open>Reachable states\<close>

lemma chacha20_init_simps [simp]:
  "length (cc_state (chacha20_init k n)) = 16" "cc_counter (chacha20_init k n) = 0"
  by (simp_all add: chacha20_init_def Let_def)

lemma pool_add_length [simp]: "length (pool_data (pool_add M p d)) = 32"
  by (simp add: pool_add_def Let_def length_sha256_final)

lemma reseed_chacha:
  "rng_do_reseed M g t = (g', t') \<Longrightarrow> length (cc_state (chacha g')) = 16 \<and> cc_counter (chacha g') = 0"
  by (auto simp: rng_do_reseed_def Let_def split: prod.splits)

lemma reseed_ok:
  assumes "rng_do_reseed M g t = (g', t')" and "length (pools g) = 8"
    and "\<forall>p\<in>set (pools g). length (pool_data p) = 32"
    and "unat (generation_counter g) \<le> 768" and "256 dvd unat (generation_counter g)"
  shows "rng_ok g'"
  using assms reseed_chacha [OF assms(1)] rng_do_reseed_frame [OF assms(1)]
  by (auto simp: rng_ok_def)

lemma fill_buffer_any_ok:
  assumes "rng_ok g" and "output_pos g = 256" and "rng_fill_buffer M g t = (g', t')"
  shows "rng_ok g' \<and> initialized g' = initialized g \<and> pools g' = pools g"
proof (cases "unat (generation_counter g) < 768")
  case True
  from fill_buffer_ok [OF assms(1,2) this assms(3)] show ?thesis by simp
next
  case False
  then have "unat (generation_counter g) = 768" using assms(1) by (simp add: rng_ok_def)
  then have "generation_counter g + 256 \<ge> 1024" by (simp add: word_le_nat_alt unat_word_ariths)
  moreover obtain out ctx where "chacha20_generate (chacha g) 256 = (out, ctx)" by force
  ultimately have r: "rng_do_reseed M (g\<lparr>chacha := ctx, output_buf := out, output_pos := 0,
      generation_counter := 0\<rparr>) t = (g', t')"
    using assms(3) by (simp add: rng_fill_buffer_def Let_def)
  from reseed_ok [OF r] rng_do_reseed_frame [OF r] assms(1) show ?thesis by (simp add: rng_ok_def)
qed

lemma extract_ok:
  "rng_ok g \<Longrightarrow> rng_extract M g len t = (out, g', t') \<Longrightarrow>
   length out = len \<and> rng_ok g' \<and> initialized g' = initialized g \<and> pools g' = pools g"
proof (induction M g len t arbitrary: out g' t' rule: rng_extract.induct)
  case (1 M g len t)
  show ?case
  proof (cases "len = 0")
    case True
    then show ?thesis using 1(2,3) by (simp add: rng_extract.simps)
  next
    case False
    obtain g1 t1 where f: "(if output_pos g \<ge> 256 then rng_fill_buffer M g t else (g, t)) = (g1, t1)"
      by force
    have g1: "rng_ok g1" "initialized g1 = initialized g" "pools g1 = pools g"
      using f fill_buffer_any_ok [OF 1(2), of M t g1 t1] 1(2)
      by (auto simp: rng_ok_def split: if_splits)
    define chunk where "chunk = (if len < 256 - output_pos g1 then len else 256 - output_pos g1)"
    let ?g2 = "g1\<lparr>output_pos := output_pos g1 + chunk\<rparr>"
    obtain rest g3 t3 where r: "rng_extract M ?g2 (len - chunk) t1 = (rest, g3, t3)"
      by (metis prod_cases3)
    have o: "out = take chunk (drop (output_pos g1) (output_buf g1)) @ rest" "g' = g3"
      using extract_step [OF _ f chunk_def] False r 1(3) by simp_all
    have n: "chunk \<le> 256 - output_pos g1" "chunk \<le> len" by (simp_all add: chunk_def)
    have "rng_ok ?g2 \<and> length (take chunk (drop (output_pos g1) (output_buf g1))) = chunk"
    proof (cases "output_pos g1 < 256")
      case True
      then have "length (output_buf g1) = 256"
        using g1(1) by (auto simp: rng_ok_def epoch_stream_def length_keystream)
      with consume_ok(1) [OF g1(1) n(1) True] n show ?thesis by simp
    next
      case False
      then have "chunk = 0" using n by simp
      then show ?thesis using g1(1) by simp
    qed
    with 1(1) [OF _ f [symmetric] refl refl chunk_def _ r] False o g1 n show ?thesis by auto
  qed
qed

inductive rng_reach :: "machine \<Rightarrow> rng_state \<Rightarrow> nat \<Rightarrow> bool" for M where
  boot: "rng_reach M zero_rng t"
| init: "rng_reach M g t \<Longrightarrow> rng_init M g t = (g', t') \<Longrightarrow> rng_reach M g' t'"
| add_entropy: "rng_reach M g t \<Longrightarrow> rng_add_entropy M g d t = (g', t') \<Longrightarrow> rng_reach M g' t'"
| reseed: "rng_reach M g t \<Longrightarrow> rng_reseed M g t = (g', t') \<Longrightarrow> rng_reach M g' t'"
| fill: "rng_reach M g t \<Longrightarrow> rng_fill M g buf len t = (out, g', t') \<Longrightarrow> rng_reach M g' t'"
| later: "rng_reach M g t \<Longrightarrow> rng_reach M g (t + n)"

lemma rng_init_ok: "rng_init M g t = (g', t') \<Longrightarrow> \<not> initialized g \<Longrightarrow> rng_ok g' \<and> initialized g'"
proof -
  assume i: "rng_init M g t = (g', t')" "\<not> initialized g"
  obtain be t1 where be: "collect_boot_entropy M 256 t = (be, t1)" by force
  obtain ik t2 where ik: "jitter_harvest M 32 t1 = (ik, t2)" by force
  obtain jn t3 where jn: "jitter_harvest M 12 t2 = (jn, t3)" by force
  define ps where "ps = map (\<lambda>i. pool_add M (replicate 8 zero_pool ! i) (take 32 (drop (i * 32) be))) [0..<8]"
  define g1 where "g1 = zero_rng\<lparr>output_pos := 256, pools := ps, chacha := chacha20_init ik jn, reseed_counter := 1\<rparr>"
  obtain g2 t4 where r: "rng_do_reseed M g1 t3 = (g2, t4)" by force
  have g': "g' = g2\<lparr>initialized := True\<rparr>"
    using i r by (simp add: rng_init_def be ik jn Let_def zero_rng_def ps_def [symmetric] g1_def)
  have "rng_ok g2"
    by (rule reseed_ok [OF r]) (auto simp: g1_def ps_def zero_rng_def)
  then show "rng_ok g' \<and> initialized g'" by (simp add: g' rng_ok_def epoch_stream_def)
qed

lemma rng_add_entropy_eq:
  assumes "initialized g" and "x \<noteq> []"
  shows "rng_add_entropy M g (Some x) t =
    (let i = unat (pool_index g) mod 8 in
     (g\<lparr>pools := (pools g)[i := pool_add M (pool_add M (pools g ! i) x) (mem64 (hw_tsc M t))],
        pool_index := pool_index g + 1\<rparr>, Suc t))"
  using assms by (simp add: rng_add_entropy_def read_tsc_def Let_def)

lemma rng_reach_ok: "rng_reach M g t \<Longrightarrow> initialized g \<Longrightarrow> rng_ok g"
proof (induction rule: rng_reach.induct)
  case (boot t)
  then show ?case by (simp add: zero_rng_def)
next
  case (init g t g' t')
  have "initialized g \<Longrightarrow> rng_init M g t = (g, t)" by (simp add: rng_init_def)
  with init rng_init_ok [of M g t g' t'] show ?case by (cases "initialized g") simp_all
next
  case (add_entropy g t d g' t')
  show ?case
  proof (cases "initialized g \<and> d \<noteq> None \<and> d \<noteq> Some []")
    case True
    then obtain x where x: "d = Some x" "x \<noteq> []" by auto
    from True add_entropy have "rng_ok g" by simp
    with add_entropy(2) rng_add_entropy_eq [of g x M t] True x show ?thesis
      by (auto simp: Let_def rng_ok_def epoch_stream_def dest!: set_update_subset_insert [THEN subsetD])
  next
    case False
    then have "g' = g" using add_entropy(2) by (auto simp: rng_add_entropy_def split: option.splits if_splits)
    with add_entropy show ?thesis by simp
  qed
next
  case (reseed g t g' t')
  then have r: "initialized g \<Longrightarrow> rng_do_reseed M g t = (g', t')" by (simp add: rng_reseed_def)
  with reseed have "initialized g" by (cases "initialized g") (auto simp: rng_reseed_def)
  with reseed r have ok: "rng_ok g" "rng_do_reseed M g t = (g', t')" by simp_all
  show ?case by (rule reseed_ok [OF ok(2)]) (use ok(1) in \<open>simp_all add: rng_ok_def\<close>)
next
  case (fill g t buf len out g' t')
  then have "initialized g"
    using extract_ok [of g M len t out g' t']
    by (cases "initialized g") (auto simp: rng_fill_def Let_def split: if_splits prod.splits)
  with fill extract_ok [of g M len t out g' t'] show ?case
    by (auto simp: rng_fill_def split: if_splits)
qed


subsection \<open>Splitting a request\<close>

lemma extract_zero [simp]: "rng_extract M g 0 t = ([], g, t)"
  by (simp add: rng_extract.simps)

definition and_then :: "u8 list \<times> rng_state \<times> nat \<Rightarrow> (rng_state \<Rightarrow> nat \<Rightarrow> u8 list \<times> rng_state \<times> nat) \<Rightarrow>
    u8 list \<times> rng_state \<times> nat" where
  "and_then r k = (case r of (out, g, t) \<Rightarrow> case k g t of (out', g', t') \<Rightarrow> (out @ out', g', t'))"

lemma and_then_assoc: "and_then (and_then r k) l = and_then r (\<lambda>g t. and_then (k g t) l)"
  by (simp add: and_then_def split: prod.split)

lemma extract_and_then:
  assumes "0 < len" and "(if output_pos g \<ge> 256 then rng_fill_buffer M g t else (g, t)) = (g1, t1)"
    and "chunk = (if len < 256 - output_pos g1 then len else 256 - output_pos g1)"
  shows "rng_extract M g len t = and_then
    (take chunk (drop (output_pos g1) (output_buf g1)), g1\<lparr>output_pos := output_pos g1 + chunk\<rparr>, t1)
    (\<lambda>g t. rng_extract M g (len - chunk) t)"
  using extract_step [OF assms] by (simp add: and_then_def)

lemma extract_split: "rng_extract M g (m + n) t = and_then (rng_extract M g m t) (\<lambda>g t. rng_extract M g n t)"
proof (induction M g m t rule: rng_extract.induct)
  case (1 M g m t)
  show ?case
  proof (cases "m = 0")
    case True
    then show ?thesis by (simp add: and_then_def split: prod.split)
  next
    case False
    obtain g1 t1 where f: "(if output_pos g \<ge> 256 then rng_fill_buffer M g t else (g, t)) = (g1, t1)"
      by force
    let ?a = "256 - output_pos g1" and ?p = "output_pos g1"
    show ?thesis
    proof (cases "m < ?a")
      case True
      let ?g2 = "g1\<lparr>output_pos := ?p + m\<rparr>" and ?b = "drop ?p (output_buf g1)"
      have em: "rng_extract M g m t = (take m ?b, ?g2, t1)"
        using extract_and_then [OF _ f refl, of m] False True by (simp add: and_then_def)
      show ?thesis
      proof (cases "n = 0")
        case True
        then show ?thesis using em by (simp add: and_then_def)
      next
        case n: False
        define c where "c = (if m + n < ?a then m + n else ?a)"
        define d where "d = (if n < 256 - output_pos ?g2 then n else 256 - output_pos ?g2)"
        have cd: "c = m + d" "m + n - c = n - d" using True by (auto simp: c_def d_def)
        have "(if output_pos ?g2 \<ge> 256 then rng_fill_buffer M ?g2 t1 else (?g2, t1)) = (?g2, t1)"
          using True by auto
        from extract_and_then [OF _ this d_def] n
        have "rng_extract M ?g2 n t1 = and_then (take d (drop m ?b), g1\<lparr>output_pos := ?p + c\<rparr>, t1)
            (\<lambda>g t. rng_extract M g (n - d) t)"
          by (simp add: cd(1) add.commute add.left_commute)
        moreover have "rng_extract M g (m + n) t = and_then (take c ?b, g1\<lparr>output_pos := ?p + c\<rparr>, t1)
            (\<lambda>g t. rng_extract M g (m + n - c) t)"
          using extract_and_then [OF _ f c_def] False by simp
        moreover have "take c ?b = take m ?b @ take d (drop m ?b)"
          unfolding cd(1) by (rule take_add)
        ultimately show ?thesis
          unfolding em cd(2) by (simp add: and_then_def split: prod.split)
      qed
    next
      case a: False
      then have c: "?a = (if m < ?a then m else ?a)" "?a = (if m + n < ?a then m + n else ?a)" by auto
      have m: "m + n - ?a = (m - ?a) + n" using a by simp
      have IH: "rng_extract M (g1\<lparr>output_pos := ?p + ?a\<rparr>) (m - ?a + n) t1 =
          and_then (rng_extract M (g1\<lparr>output_pos := ?p + ?a\<rparr>) (m - ?a) t1) (\<lambda>g t. rng_extract M g n t)"
        using 1 [OF _ f [symmetric] refl refl c(1)] False by simp
      show ?thesis
        using extract_and_then [OF _ f c(2)] extract_and_then [OF _ f c(1)] False IH
        unfolding m by (simp add: and_then_def split: prod.split)
    qed
  qed
qed

subsection \<open>What a reseed hashes\<close>

primrec cpu_words :: "machine \<Rightarrow> nat \<Rightarrow> nat \<Rightarrow> u8 list" where
  "cpu_words M 0 t = []"
| "cpu_words M (Suc n) t =
     (case rng_cpu_entropy64 M t of (Some v, t') \<Rightarrow> mem64 v @ cpu_words M n t' | (None, t') \<Rightarrow> cpu_words M n t')"

definition reseed_input :: "machine \<Rightarrow> rng_state \<Rightarrow> nat \<Rightarrow> u8 list" where
  "reseed_input M g t =
     concat (map (\<lambda>i. pool_data (pools g ! i)) (filter (\<lambda>i. 2 ^ i dvd unat (reseed_counter g)) [0..<8])) @
     mem64 (hw_tsc M t) @ mem32 (ucast (hw_pit M (t + 1))) @ fst (jitter_harvest M 32 (t + 2)) @
     cpu_words M 8 (snd (jitter_harvest M 32 (t + 2))) @ mem32 (reseed_counter g)"

lemma pool_due_iff:
  assumes "i < 32"
  shows "pool_due c i \<longleftrightarrow> 2 ^ i dvd unat c"
proof -
  have "push_bit i 1 - 1 = (mask i :: u32)" by (simp add: mask_eq_exp_minus_1 push_bit_of_1)
  then have "pool_due c i \<longleftrightarrow> take_bit i c = 0" by (simp add: pool_due_def take_bit_eq_mask)
  also have "\<dots> \<longleftrightarrow> take_bit i (unat c) = 0"
    by (metis unsigned_0 unsigned_take_bit_eq word_unat_eq_iff)
  finally show ?thesis by (simp add: take_bit_eq_mod dvd_eq_mod_eq_0)
qed

lemma cpu_feed_absorbed:
  "md256.absorbed c m \<Longrightarrow> md256.absorbed (fst (cpu_feed M n c t)) (m @ cpu_words M n t)"
proof (induction n arbitrary: c m t)
  case (Suc n)
  obtain r t' where r: "rng_cpu_entropy64 M t = (r, t')" by force
  show ?case
  proof (cases r)
    case None
    then show ?thesis using Suc r by simp
  next
    case (Some v)
    from Suc.IH [OF h256.holds_update [OF Suc.prems, of "mem64 v"], of t'] show ?thesis
      using r Some by simp
  qed
qed simp

lemma pools_feed_absorbed:
  "md256.absorbed c m \<Longrightarrow> md256.absorbed (pools_feed g c)
     (m @ concat (map (\<lambda>i. pool_data (pools g ! i)) (filter (\<lambda>i. 2 ^ i dvd unat (reseed_counter g)) [0..<8])))"
proof -
  have "\<forall>i\<in>set is. i < 32 \<Longrightarrow> md256.absorbed c m \<Longrightarrow>
    md256.absorbed (foldl (\<lambda>c i. if pool_due (reseed_counter g) i then sha256_update c (pool_data (pools g ! i)) else c) c is)
     (m @ concat (map (\<lambda>i. pool_data (pools g ! i)) (filter (\<lambda>i. 2 ^ i dvd unat (reseed_counter g)) is)))"
    for "is" c m
  proof (induction "is" arbitrary: c m)
    case (Cons i "is")
    then show ?case
      using Cons.IH [OF _ h256.holds_update [OF Cons.prems(2), of "pool_data (pools g ! i)"]] Cons.IH [of c m]
      by (simp add: pool_due_iff)
  qed simp
  from this [of "[0..<8]" c m] show "md256.absorbed c m \<Longrightarrow> ?thesis" by (simp add: pools_feed_def)
qed

lemma reseed_key:
  assumes "length (s2_data (hw_ctx M)) = 64" and "rng_do_reseed M g t = (g', t')"
  shows "cc_key (chacha g') = map (le_word (fips_sha256 (reseed_input M g t))) [0..<8]"
proof -
  obtain jb t2 where j: "jitter_harvest M 32 (t + 2) = (jb, t2)" by force
  define c4 where "c4 = sha256_update (sha256_update (sha256_update (pools_feed g (sha256_init (hw_ctx M)))
      (mem64 (hw_tsc M t))) (mem32 (ucast (hw_pit M (t + 1))))) jb"
  obtain c5 t3 where c5: "cpu_feed M 8 c4 t2 = (c5, t3)" by force
  define hash where "hash = sha256_final (sha256_update c5 (mem32 (reseed_counter g)))"
  have "ready256 (hw_ctx M)" using assms(1) by (simp add: ready256_def)
  note a0 = h256.holds_init [OF this]
  note a4 = h256.holds_update [OF h256.holds_update [OF h256.holds_update [OF pools_feed_absorbed [OF a0]]]]
  have "md256.absorbed c4 (concat (map (\<lambda>i. pool_data (pools g ! i))
      (filter (\<lambda>i. 2 ^ i dvd unat (reseed_counter g)) [0..<8])) @
      mem64 (hw_tsc M t) @ mem32 (ucast (hw_pit M (t + 1))) @ jb)"
    using a4 [of g "mem64 (hw_tsc M t)" "mem32 (ucast (hw_pit M (t + 1)))" jb] unfolding c4_def by simp
  from h256.holds_final [OF h256.holds_update [OF cpu_feed_absorbed [OF this, of M 8 t2], of "mem32 (reseed_counter g)"]]
  have h: "hash = fips_sha256 (reseed_input M g t)"
    unfolding hash_def using c5 j by (simp add: reseed_input_def)
  have "length hash = 32" by (simp add: hash_def length_sha256_final)
  moreover have "chacha g' = chacha20_init (hash @ take 12 (sha256_final (sha256_update (sha256_update
      (sha256_init (hw_ctx M)) hash) (mem64 (hw_tsc M t3))))) (drop 32 (hash @ take 12 (sha256_final
      (sha256_update (sha256_update (sha256_init (hw_ctx M)) hash) (mem64 (hw_tsc M t3))))))"
    using assms(2) c5 j by (auto simp: rng_do_reseed_def read_tsc_def Let_def hash_def c4_def)
  ultimately show ?thesis
    by (auto simp: h [symmetric] chacha20_init_def Let_def le_word_def nth_append)
qed


subsection \<open>Correctness of the generator\<close>

text \<open>A machine without rdseed and rdrand whose time-stamp counter ticks at every read.\<close>

definition plain_machine :: machine where
  "plain_machine = \<lparr>hw_tsc = word_of_nat, hw_pit = (\<lambda>t. 5), hw_rtc = (\<lambda>t. 6), hw_cpuid = (\<lambda>l. (1, 0, 0, 0)),
     hw_rdseed = (\<lambda>t. (False, 0)), hw_rdrand = (\<lambda>t. (False, 0)), hw_stack = 0x8000,
     hw_ctx = \<lparr>s2_data = replicate 64 0, s2_datalen = 0, s2_bitlen = 0, s2_state = []\<rparr>\<rparr>"

definition plain_start :: "rng_state \<times> nat" where
  "plain_start = rng_init plain_machine zero_rng 0"

lemma plain_start:
  "rng_reach plain_machine (fst plain_start) (snd plain_start)" "initialized (fst plain_start)"
  "epoch_left (fst plain_start) = 768"
proof -
  obtain g t where i: "rng_init plain_machine zero_rng 0 = (g, t)" by force
  have z: "\<not> initialized zero_rng" by (simp add: zero_rng_def)
  show "rng_reach plain_machine (fst plain_start) (snd plain_start)"
    using rng_reach.init [OF rng_reach.boot i] by (simp add: plain_start_def i)
  show "initialized (fst plain_start)" using rng_init_ok [OF i z] by (simp add: plain_start_def i)
  have "output_pos g = 256 \<and> generation_counter g = 0"
    using i z rng_do_reseed_frame unfolding rng_init_def
    by (fastforce simp: Let_def zero_rng_def split: prod.splits)
  then show "epoch_left (fst plain_start) = 768"
    by (simp add: plain_start_def i epoch_left_def)
qed

text \<open>
  chacha20\_generate delivers the first len bytes of the RFC 8439 key stream that starts
  at the context's block counter, block by block, advances the counter by the number of
  blocks begun and changes no other word of the state.
\<close>

theorem chacha20_generate_rfc:
  assumes "length (cc_state ctx) = 16"
  shows "fst (chacha20_generate ctx len) = take len (keystream (cc_state ctx) (cc_counter ctx) (blocks_of len)) \<and>
    cc_counter (snd (chacha20_generate ctx len)) = cc_counter ctx + word_of_nat (blocks_of len) \<and>
    length (cc_state (snd (chacha20_generate ctx len))) = 16 \<and>
    (\<forall>i. i \<noteq> 12 \<longrightarrow> cc_state (snd (chacha20_generate ctx len)) ! i = cc_state ctx ! i)"
  by (rule chacha20_generate_keystream [OF assms])

theorem chacha20_generate_rfc_witness:
  "cc_counter (snd (chacha20_generate (chacha20_init (replicate 32 1) (replicate 12 2)) 130)) = 3"
  using chacha20_generate_rfc [of "chacha20_init (replicate 32 1) (replicate 12 2)" 130]
  by (simp add: blocks_of_def)

text \<open>
  C23. In every reachable initialised state, a request for len bytes returns with exactly len
  bytes and leaves the generator initialised and the entropy pools untouched; the ChaCha20
  block counter is at most 12 and covers no more than the bytes counted since the last
  rekeying, so it never wraps and no block of a key stream is produced twice.
\<close>

theorem rng_fill_safe:
  assumes "rng_reach M g t" and "initialized g" and "buf \<noteq> 0" and "rng_fill M g buf len t = (out, g', t')"
  shows "length out = len \<and> initialized g' \<and> pools g' = pools g \<and>
    unat (cc_counter (chacha g')) \<le> 12 \<and>
    64 * unat (cc_counter (chacha g')) \<le> unat (generation_counter g') \<and>
    unat (generation_counter g') < 1024"
proof -
  have ok: "rng_ok g" using assms by (simp add: rng_reach_ok)
  have "len = 0 \<Longrightarrow> out = [] \<and> g' = g" "len \<noteq> 0 \<Longrightarrow> rng_extract M g len t = (out, g', t')"
    using assms by (auto simp: rng_fill_def)
  then have "length out = len \<and> rng_ok g' \<and> initialized g' = initialized g \<and> pools g' = pools g"
    using extract_ok [OF ok, of M len t out g' t'] ok by (cases "len = 0") auto
  with assms(2) show ?thesis by (auto simp: rng_ok_def)
qed

theorem rng_fill_safe_witness:
  "let r = rng_fill plain_machine (fst plain_start) 64 1000 (snd plain_start) in
   length (fst r) = 1000 \<and> unat (cc_counter (chacha (fst (snd r)))) \<le> 12"
  using rng_fill_safe [OF plain_start(1,2), of 64 1000] by (simp add: Let_def) (metis prod.collapse)

text \<open>
  C11. Within one key, what rng\_fill hands out is the key stream of that key read on from the
  current position: the bytes are the next len bytes of the RFC 8439 stream, and the
  position moves on by exactly len, so no byte is handed out twice and none is skipped.
\<close>

theorem rng_fill_reads_stream:
  assumes "rng_reach M g t" and "initialized g" and "buf \<noteq> 0" and "len \<le> epoch_left g"
    and "rng_fill M g buf len t = (out, g', t')"
  shows "out = take len (drop (stream_pos g) (epoch_stream g)) \<and>
    stream_pos g' = stream_pos g + len \<and> epoch_stream g' = epoch_stream g \<and>
    epoch_left g' + len = epoch_left g"
proof -
  have ok: "rng_ok g" using assms by (simp add: rng_reach_ok)
  show ?thesis
  proof (cases "len = 0")
    case False
    then have "rng_extract M g len t = (out, g', t')" using assms by (simp add: rng_fill_def)
    from extract_epoch [OF ok assms(4) this] show ?thesis by simp
  qed (use assms in \<open>auto simp: rng_fill_def\<close>)
qed

theorem rng_fill_reads_stream_witness:
  "let (g, t) = plain_start; (out, g', t') = rng_fill plain_machine g 64 300 t in
   out = take 300 (drop (stream_pos g) (epoch_stream g)) \<and> epoch_left g' = 468"
  using rng_fill_reads_stream [OF plain_start(1,2), of 64 300] plain_start(3)
  by (simp add: Let_def split_beta) (metis prod.collapse add_diff_cancel_right' diff_numeral_special)

text \<open>
  Requests compose: asking for m + n bytes gives the bytes and the state of asking for m
  and then for n, across buffer refills and reseeds.
\<close>

theorem rng_extract_compose:
  "rng_extract M g (m + n) t =
    (let (out1, g1, t1) = rng_extract M g m t; (out2, g2, t2) = rng_extract M g1 n t1
     in (out1 @ out2, g2, t2))"
  using extract_split [of M g m n t] by (simp add: and_then_def)

text \<open>
  A reseed keys ChaCha20 with the SHA-256 of the pools that are due, the hardware
  samples and the reseed counter; pool i is due exactly when 2 to the i divides the reseed
  counter.
\<close>

theorem rng_reseed_schedule:
  assumes "length (s2_data (hw_ctx M)) = 64" and "rng_do_reseed M g t = (g', t')"
  shows "cc_key (chacha g') = map (le_word (fips_sha256 (reseed_input M g t))) [0..<8] \<and>
    cc_counter (chacha g') = 0 \<and> output_pos g' = RNG_OUTPUT_BUF_SIZE \<and>
    reseed_counter g' = reseed_counter g + 1"
  using reseed_key [OF assms] reseed_chacha [OF assms(2)] rng_do_reseed_frame [OF assms(2)] by simp

theorem rng_reseed_schedule_witness:
  "cc_key (chacha (fst (rng_do_reseed plain_machine zero_rng 3))) =
     map (le_word (fips_sha256 (reseed_input plain_machine zero_rng 3))) [0..<8]"
  using rng_reseed_schedule [of plain_machine zero_rng 3, OF _ surjective_pairing]
  by (simp add: plain_machine_def)

text \<open>
  Entropy offered to an initialised generator replaces the data of the pool whose turn it
  is by the SHA-256 of the old data, the offered bytes and a time stamp, in two steps;
  every other pool is kept and the turn passes on.
\<close>

theorem rng_add_entropy_correct:
  assumes "length (s2_data (hw_ctx M)) = 64" and "initialized g" and "d \<noteq> []" and "length (pools g) = 8"
    and "i = unat (pool_index g) mod 8"
  shows "\<exists>g'. rng_add_entropy M g (Some d) t = (g', Suc t) \<and> pool_index g' = pool_index g + 1 \<and>
    pool_data (pools g' ! i) = fips_sha256 (fips_sha256 (pool_data (pools g ! i) @ d) @ mem64 (hw_tsc M t)) \<and>
    (\<forall>j<8. j \<noteq> i \<longrightarrow> pools g' ! j = pools g ! j)"
proof -
  have "ready256 (hw_ctx M)" using assms(1) by (simp add: ready256_def)
  note f = h256.final_two [OF this]
  have "i < 8" using assms(5) by simp
  with assms f show ?thesis
    by (simp add: rng_add_entropy_eq pool_add_def Let_def)
qed

theorem rng_add_entropy_correct_witness:
  "\<exists>g'. rng_add_entropy plain_machine (zero_rng\<lparr>initialized := True, pool_index := 9\<rparr>) (Some [7]) 2 = (g', 3) \<and>
    pool_data (pools g' ! 1) = fips_sha256 (fips_sha256 (replicate 32 0 @ [7]) @ mem64 2)"
proof -
  have "length (s2_data (hw_ctx plain_machine)) = 64" "hw_tsc plain_machine 2 = 2"
    by (simp_all add: plain_machine_def)
  with rng_add_entropy_correct [of plain_machine "zero_rng\<lparr>initialized := True, pool_index := 9\<rparr>" "[7]" 1 2]
  show ?thesis by (auto simp: zero_rng_def zero_pool_def)
qed

end
