(* ===== verification/Creds.thy ===== *)
theory Creds
  imports Prelude
begin

text \<open>
  kernel/arch/x86_64/syscalls/syscall_ids.c: user and group identities, capabilities,
  system-call masks, no\_new\_privs, process groups and sessions, and their inheritance.
  A task carries its identities twice: in the task structure, which the rest of the kernel
  reads, and in a credentials block that is allocated on first use.

  The current task is an optional task; the functions that look at other tasks take the
  task list in the order of all\_tasks\_head. C int arguments are integers, and their
  conversion to uint64\_t is word\_of\_int. The outcomes of the kmalloc calls of one
  operation are a function from the number of the call. User memory is a record of the
  bytes a copy from it gives, if it succeeds, and of the ranges a copy to it reaches; what
  an operation stores in user memory is returned as a list of addresses and bytes. The
  pointer from a task to its group array and the pointer from its credentials to the same
  array are values here, so freeing has no counterpart.
\<close>

unbundle bit_operations_syntax

abbreviation EPERM :: int where "EPERM \<equiv> 1"
abbreviation ESRCH :: int where "ESRCH \<equiv> 3"
abbreviation ENOMEM :: int where "ENOMEM \<equiv> 12"
abbreviation EFAULT :: int where "EFAULT \<equiv> 14"
abbreviation EINVAL :: int where "EINVAL \<equiv> 22"
abbreviation EOVERFLOW :: int where "EOVERFLOW \<equiv> 75"

abbreviation CAP_FULL_SET :: u64 where "CAP_FULL_SET \<equiv> 0x0000003FFFFFFFFF"
abbreviation CAP_VERSION_3 :: u32 where "CAP_VERSION_3 \<equiv> 0x20080522"
abbreviation KERNEL_VMA :: u64 where "KERNEL_VMA \<equiv> 0xFFFFFFFF80000000"
abbreviation SIZE_MAX :: nat where "SIZE_MAX \<equiv> 2 ^ 64 - 1"
abbreviation NR_SYSCALLS :: nat where "NR_SYSCALLS \<equiv> 300"

record task_creds =
  c_uid :: u64
  c_gid :: u64
  c_euid :: u64
  c_egid :: u64
  c_suid :: u64
  c_sgid :: u64
  c_fsuid :: u64
  c_fsgid :: u64
  c_groups :: "u64 list option"
  c_ngroups :: int
  c_umask :: u64
  c_pgid :: int
  c_sid :: int
  cap_effective :: u64
  cap_permitted :: u64
  cap_inheritable :: u64
  syscall_mask :: "u64 list option"
  syscall_mask_words :: nat
  syscall_mask_default_allow :: bool
  no_new_privs :: bool
  syscall_filter_mode :: int
  dumpable :: int

record task =
  t_pid :: int
  t_ppid :: int
  t_uid :: u64
  t_gid :: u64
  t_euid :: u64
  t_egid :: u64
  t_suid :: u64
  t_sgid :: u64
  t_fsuid :: u64
  t_fsgid :: u64
  t_groups :: "u64 list option"
  t_ngroups :: int
  t_pgid :: int
  t_sid :: int
  t_creds :: "task_creds option"

record user_memory =
  um_read :: "u64 \<Rightarrow> nat \<Rightarrow> u8 list option"
  um_writable :: "u64 \<Rightarrow> nat \<Rightarrow> bool"

type_synonym user_writes = "(u64 \<times> u8 list) list"
type_synonym allocs = "nat \<Rightarrow> bool"

definition zero_creds :: task_creds where
  "zero_creds = \<lparr>c_uid = 0, c_gid = 0, c_euid = 0, c_egid = 0, c_suid = 0, c_sgid = 0, c_fsuid = 0,
     c_fsgid = 0, c_groups = None, c_ngroups = 0, c_umask = 0, c_pgid = 0, c_sid = 0,
     cap_effective = 0, cap_permitted = 0, cap_inheritable = 0, syscall_mask = None,
     syscall_mask_words = 0, syscall_mask_default_allow = False, no_new_privs = False,
     syscall_filter_mode = 0, dumpable = 0\<rparr>"

subsection \<open>Credentials on first use\<close>

text \<open>
  get\_task\_creds for the current task t: the credentials, or None when an allocation
  fails, and the task.
\<close>

definition fresh_creds :: "task \<Rightarrow> u64 list option \<Rightarrow> task_creds" where
  "fresh_creds t gs =
     zero_creds\<lparr>c_uid := t_uid t, c_euid := t_euid t, c_suid := t_suid t, c_gid := t_gid t,
       c_egid := t_egid t, c_sgid := t_sgid t, c_fsuid := t_fsuid t, c_fsgid := t_fsgid t,
       c_groups := gs, c_ngroups := t_ngroups t, c_umask := 18,
       c_pgid := (if t_pgid t \<noteq> 0 then t_pgid t else t_pid t),
       c_sid := (if t_sid t \<noteq> 0 then t_sid t else t_pid t),
       cap_effective := (if t_euid t = 0 then CAP_FULL_SET else 0),
       cap_permitted := (if t_euid t = 0 then CAP_FULL_SET else 0),
       dumpable := 1\<rparr>"

definition get_task_creds :: "allocs \<Rightarrow> task \<Rightarrow> task_creds option \<times> task" where
  "get_task_creds al t =
     (case t_creds t of Some c \<Rightarrow> (Some c, t)
      | None \<Rightarrow>
        if \<not> al 0 then (None, t)
        else if t_groups t \<noteq> None \<and> t_ngroups t > 0 then
          (if nat (t_ngroups t) > SIZE_MAX div 8 then (None, t)
           else if \<not> al 1 then (None, t)
           else (let c = fresh_creds t (map_option (take (nat (t_ngroups t))) (t_groups t))
                 in (Some c, t\<lparr>t_creds := Some c\<rparr>)))
        else (let c = fresh_creds t None in (Some c, t\<lparr>t_creds := Some c\<rparr>)))"

definition sys_getuid :: "task option \<Rightarrow> int" where
  "sys_getuid ct = (case ct of Some t \<Rightarrow> sint (ucast (t_uid t) :: 32 word) | None \<Rightarrow> 0)"
definition sys_getgid :: "task option \<Rightarrow> int" where
  "sys_getgid ct = (case ct of Some t \<Rightarrow> sint (ucast (t_gid t) :: 32 word) | None \<Rightarrow> 0)"
definition sys_geteuid :: "task option \<Rightarrow> int" where
  "sys_geteuid ct = (case ct of Some t \<Rightarrow> sint (ucast (t_euid t) :: 32 word) | None \<Rightarrow> 0)"
definition sys_getegid :: "task option \<Rightarrow> int" where
  "sys_getegid ct = (case ct of Some t \<Rightarrow> sint (ucast (t_egid t) :: 32 word) | None \<Rightarrow> 0)"

text \<open>
  sync\_creds\_to\_task for the current task t and its credentials c, stored back into t.
\<close>

definition sync_caps :: "u64 \<Rightarrow> task_creds \<Rightarrow> task_creds" where
  "sync_caps old_euid c =
     (let c1 = (if old_euid = 0 \<and> c_euid c \<noteq> 0 then c\<lparr>cap_effective := 0\<rparr>
                else if old_euid \<noteq> 0 \<and> c_euid c = 0 then c\<lparr>cap_effective := cap_permitted c\<rparr>
                else c)
      in if c_uid c1 \<noteq> 0 \<and> c_euid c1 \<noteq> 0 \<and> c_suid c1 \<noteq> 0
         then c1\<lparr>cap_effective := 0, cap_permitted := 0\<rparr> else c1)"

definition sync_fs :: "task \<Rightarrow> task_creds \<Rightarrow> task_creds" where
  "sync_fs t c =
     (let c1 = (if c_euid c \<noteq> t_euid t then c\<lparr>c_fsuid := c_euid c\<rparr> else c)
      in if c_egid c1 \<noteq> t_egid t then c1\<lparr>c_fsgid := c_egid c1\<rparr> else c1)"

definition sync_creds_to_task :: "task_creds \<Rightarrow> task \<Rightarrow> task" where
  "sync_creds_to_task c0 t =
     (let c = sync_fs t (sync_caps (t_euid t) c0)
      in t\<lparr>t_creds := Some c, t_uid := c_uid c, t_euid := c_euid c, t_suid := c_suid c,
           t_gid := c_gid c, t_egid := c_egid c, t_sgid := c_sgid c,
           t_fsuid := c_fsuid c, t_fsgid := c_fsgid c, t_groups := c_groups c,
           t_ngroups := c_ngroups c, t_pgid := c_pgid c, t_sid := c_sid c\<rparr>)"

text \<open>
  creds\_apply\_exec\_ids for a task; its only caller passes the current task, for which
  missing credentials are allocated when the identities change.
\<close>

definition creds_apply_exec_ids :: "allocs \<Rightarrow> task \<Rightarrow> u64 \<Rightarrow> u64 \<Rightarrow> task" where
  "creds_apply_exec_ids al t euid0 egid0 =
     (let nnp = (case t_creds t of Some c \<Rightarrow> no_new_privs c | None \<Rightarrow> False);
          euid = (if nnp then t_euid t else euid0);
          egid = (if nnp then t_egid t else egid0);
          changed = (euid \<noteq> t_euid t \<or> egid \<noteq> t_egid t);
          (cr, t1) = (if t_creds t = None \<and> changed then get_task_creds al t else (t_creds t, t));
          t2 = t1\<lparr>t_euid := euid, t_suid := euid, t_fsuid := euid,
                  t_egid := egid, t_sgid := egid, t_fsgid := egid\<rparr>
      in case cr of None \<Rightarrow> t2
         | Some c \<Rightarrow>
           (let c1 = c\<lparr>dumpable := (if changed then 0 else 1), c_euid := euid, c_suid := euid,
                       c_fsuid := euid, c_egid := egid, c_sgid := egid, c_fsgid := egid\<rparr>;
                c2 = (if euid = 0 then c1\<lparr>cap_effective := CAP_FULL_SET, cap_permitted := CAP_FULL_SET\<rparr>
                      else if t_uid t2 \<noteq> 0 \<and> t_suid t2 \<noteq> 0 then c1\<lparr>cap_effective := 0, cap_permitted := 0\<rparr>
                      else c1\<lparr>cap_effective := 0\<rparr>)
            in t2\<lparr>t_creds := Some c2\<rparr>))"

subsection \<open>Changing identities\<close>

definition sys_setuid :: "int \<Rightarrow> task option \<Rightarrow> int \<times> task option" where
  "sys_setuid n ct =
     (let uid = word_of_int n in
      case ct of None \<Rightarrow> (- ESRCH, None)
      | Some t \<Rightarrow>
        (case t_creds t of
           None \<Rightarrow>
             if t_euid t = 0 then
               (0, Some (t\<lparr>t_uid := uid, t_euid := uid, t_suid := uid, t_fsuid := uid\<rparr>))
             else if uid = t_uid t \<or> uid = t_suid t then
               (0, Some (t\<lparr>t_euid := uid, t_fsuid := uid\<rparr>))
             else (- EPERM, ct)
         | Some c \<Rightarrow>
             if c_euid c = 0 then
               (0, Some (sync_creds_to_task (c\<lparr>c_uid := uid, c_euid := uid, c_suid := uid\<rparr>) t))
             else if uid = c_uid c \<or> uid = c_suid c then
               (0, Some (sync_creds_to_task (c\<lparr>c_euid := uid\<rparr>) t))
             else (- EPERM, ct)))"

definition sys_setgid :: "int \<Rightarrow> task option \<Rightarrow> int \<times> task option" where
  "sys_setgid n ct =
     (let gid = word_of_int n in
      case ct of None \<Rightarrow> (- ESRCH, None)
      | Some t \<Rightarrow>
        (case t_creds t of
           None \<Rightarrow>
             if t_euid t = 0 then
               (0, Some (t\<lparr>t_gid := gid, t_egid := gid, t_sgid := gid, t_fsgid := gid\<rparr>))
             else if gid = t_gid t \<or> gid = t_sgid t then
               (0, Some (t\<lparr>t_egid := gid, t_fsgid := gid\<rparr>))
             else (- EPERM, ct)
         | Some c \<Rightarrow>
             if c_euid c = 0 then
               (0, Some (sync_creds_to_task (c\<lparr>c_gid := gid, c_egid := gid, c_sgid := gid\<rparr>) t))
             else if gid = c_gid c \<or> gid = c_sgid c then
               (0, Some (sync_creds_to_task (c\<lparr>c_egid := gid\<rparr>) t))
             else (- EPERM, ct)))"

definition sys_seteuid :: "int \<Rightarrow> task option \<Rightarrow> int \<times> task option" where
  "sys_seteuid n ct =
     (let euid = word_of_int n in
      case ct of None \<Rightarrow> (- ESRCH, None)
      | Some t \<Rightarrow>
        (case t_creds t of
           None \<Rightarrow>
             if t_euid t = 0 \<or> euid = t_uid t \<or> euid = t_suid t then
               (0, Some (t\<lparr>t_euid := euid, t_fsuid := euid\<rparr>))
             else (- EPERM, ct)
         | Some c \<Rightarrow>
             if c_euid c = 0 \<or> euid = c_uid c \<or> euid = c_suid c then
               (0, Some (sync_creds_to_task (c\<lparr>c_euid := euid\<rparr>) t))
             else (- EPERM, ct)))"

definition sys_setegid :: "int \<Rightarrow> task option \<Rightarrow> int \<times> task option" where
  "sys_setegid n ct =
     (let egid = word_of_int n in
      case ct of None \<Rightarrow> (- ESRCH, None)
      | Some t \<Rightarrow>
        (case t_creds t of
           None \<Rightarrow>
             if t_euid t = 0 \<or> egid = t_gid t \<or> egid = t_sgid t then
               (0, Some (t\<lparr>t_egid := egid, t_fsgid := egid\<rparr>))
             else (- EPERM, ct)
         | Some c \<Rightarrow>
             if c_euid c = 0 \<or> egid = c_gid c \<or> egid = c_sgid c then
               (0, Some (sync_creds_to_task (c\<lparr>c_egid := egid\<rparr>) t))
             else (- EPERM, ct)))"

text \<open>
  The calls that start with get\_task\_creds: the error when there is no current task or no
  memory, or the rest of the call on the task and its credentials.
\<close>

definition with_creds ::
    "int \<Rightarrow> allocs \<Rightarrow> task option \<Rightarrow> (task \<Rightarrow> task_creds \<Rightarrow> int \<times> task) \<Rightarrow> int \<times> task option" where
  "with_creds err al ct f =
     (case ct of None \<Rightarrow> (- err, None)
      | Some t \<Rightarrow>
        (case get_task_creds al t of
           (None, t1) \<Rightarrow> (- err, Some t1)
         | (Some c, t1) \<Rightarrow> (case f t1 c of (r, t2) \<Rightarrow> (r, Some t2))))"

definition reuid_store :: "int \<Rightarrow> int \<Rightarrow> task_creds \<Rightarrow> task_creds" where
  "reuid_store ruid euid c =
     (let c1 = (if ruid \<noteq> -1 then c\<lparr>c_uid := word_of_int ruid\<rparr> else c);
          c2 = (if euid \<noteq> -1 then c1\<lparr>c_euid := word_of_int euid\<rparr> else c1)
      in if ruid \<noteq> -1 \<or> (euid \<noteq> -1 \<and> word_of_int euid \<noteq> c_uid c)
         then c2\<lparr>c_suid := c_euid c2\<rparr> else c2)"

definition sys_setreuid :: "allocs \<Rightarrow> int \<Rightarrow> int \<Rightarrow> task option \<Rightarrow> int \<times> task option" where
  "sys_setreuid al ruid euid ct = with_creds ESRCH al ct (\<lambda>t c.
     if c_euid c = 0 then (0, sync_creds_to_task (reuid_store ruid euid c) t)
     else if ruid \<noteq> -1 \<and> word_of_int ruid \<noteq> c_uid c \<and> word_of_int ruid \<noteq> c_euid c then (- EPERM, t)
     else if euid \<noteq> -1 \<and> word_of_int euid \<noteq> c_uid c \<and> word_of_int euid \<noteq> c_euid c \<and>
             word_of_int euid \<noteq> c_suid c then (- EPERM, t)
     else (0, sync_creds_to_task (reuid_store ruid euid c) t))"

definition regid_store :: "int \<Rightarrow> int \<Rightarrow> task_creds \<Rightarrow> task_creds" where
  "regid_store rgid egid c =
     (let c1 = (if rgid \<noteq> -1 then c\<lparr>c_gid := word_of_int rgid\<rparr> else c);
          c2 = (if egid \<noteq> -1 then c1\<lparr>c_egid := word_of_int egid\<rparr> else c1)
      in if rgid \<noteq> -1 \<or> (egid \<noteq> -1 \<and> word_of_int egid \<noteq> c_gid c)
         then c2\<lparr>c_sgid := c_egid c2\<rparr> else c2)"

definition sys_setregid :: "allocs \<Rightarrow> int \<Rightarrow> int \<Rightarrow> task option \<Rightarrow> int \<times> task option" where
  "sys_setregid al rgid egid ct = with_creds ESRCH al ct (\<lambda>t c.
     if c_euid c = 0 then (0, sync_creds_to_task (regid_store rgid egid c) t)
     else if rgid \<noteq> -1 \<and> word_of_int rgid \<noteq> c_gid c \<and> word_of_int rgid \<noteq> c_egid c then (- EPERM, t)
     else if egid \<noteq> -1 \<and> word_of_int egid \<noteq> c_gid c \<and> word_of_int egid \<noteq> c_egid c \<and>
             word_of_int egid \<noteq> c_sgid c then (- EPERM, t)
     else (0, sync_creds_to_task (regid_store rgid egid c) t))"

definition uid_among :: "int \<Rightarrow> task_creds \<Rightarrow> bool" where
  "uid_among n c \<longleftrightarrow> n = -1 \<or> word_of_int n = c_uid c \<or> word_of_int n = c_euid c \<or> word_of_int n = c_suid c"

definition gid_among :: "int \<Rightarrow> task_creds \<Rightarrow> bool" where
  "gid_among n c \<longleftrightarrow> n = -1 \<or> word_of_int n = c_gid c \<or> word_of_int n = c_egid c \<or> word_of_int n = c_sgid c"

definition resuid_store :: "int \<Rightarrow> int \<Rightarrow> int \<Rightarrow> task_creds \<Rightarrow> task_creds" where
  "resuid_store ruid euid suid c =
     (let c1 = (if ruid \<noteq> -1 then c\<lparr>c_uid := word_of_int ruid\<rparr> else c);
          c2 = (if euid \<noteq> -1 then c1\<lparr>c_euid := word_of_int euid\<rparr> else c1)
      in if suid \<noteq> -1 then c2\<lparr>c_suid := word_of_int suid\<rparr> else c2)"

definition sys_setresuid :: "allocs \<Rightarrow> int \<Rightarrow> int \<Rightarrow> int \<Rightarrow> task option \<Rightarrow> int \<times> task option" where
  "sys_setresuid al ruid euid suid ct = with_creds ESRCH al ct (\<lambda>t c.
     if c_euid c \<noteq> 0 \<and> \<not> uid_among ruid c then (- EPERM, t)
     else if c_euid c \<noteq> 0 \<and> \<not> uid_among euid c then (- EPERM, t)
     else if c_euid c \<noteq> 0 \<and> \<not> uid_among suid c then (- EPERM, t)
     else (0, sync_creds_to_task (resuid_store ruid euid suid c) t))"

definition resgid_store :: "int \<Rightarrow> int \<Rightarrow> int \<Rightarrow> task_creds \<Rightarrow> task_creds" where
  "resgid_store rgid egid sgid c =
     (let c1 = (if rgid \<noteq> -1 then c\<lparr>c_gid := word_of_int rgid\<rparr> else c);
          c2 = (if egid \<noteq> -1 then c1\<lparr>c_egid := word_of_int egid\<rparr> else c1)
      in if sgid \<noteq> -1 then c2\<lparr>c_sgid := word_of_int sgid\<rparr> else c2)"

definition sys_setresgid :: "allocs \<Rightarrow> int \<Rightarrow> int \<Rightarrow> int \<Rightarrow> task option \<Rightarrow> int \<times> task option" where
  "sys_setresgid al rgid egid sgid ct = with_creds ESRCH al ct (\<lambda>t c.
     if c_euid c \<noteq> 0 \<and> \<not> gid_among rgid c then (- EPERM, t)
     else if c_euid c \<noteq> 0 \<and> \<not> gid_among egid c then (- EPERM, t)
     else if c_euid c \<noteq> 0 \<and> \<not> gid_among sgid c then (- EPERM, t)
     else (0, sync_creds_to_task (resgid_store rgid egid sgid c) t))"

text \<open>Stores of 32-bit values at the non-null addresses among three, stopping at a fault.\<close>

fun put_ids :: "user_memory \<Rightarrow> (u64 \<times> u64) list \<Rightarrow> int \<times> user_writes" where
  "put_ids um [] = (0, [])"
| "put_ids um ((addr, v) # rest) =
     (if addr = 0 then put_ids um rest
      else if \<not> um_writable um addr 4 then (- EFAULT, [])
      else (case put_ids um rest of (r, ws) \<Rightarrow> (r, (addr, le_bytes 4 (unat (ucast v :: u32))) # ws)))"

definition sys_getresuid :: "user_memory \<Rightarrow> u64 \<Rightarrow> u64 \<Rightarrow> u64 \<Rightarrow> task option \<Rightarrow> int \<times> user_writes" where
  "sys_getresuid um r_addr e_addr s_addr ct =
     (case ct of None \<Rightarrow> (- ESRCH, [])
      | Some t \<Rightarrow> put_ids um [(r_addr, t_uid t), (e_addr, t_euid t), (s_addr, t_suid t)])"

definition sys_getresgid :: "user_memory \<Rightarrow> u64 \<Rightarrow> u64 \<Rightarrow> u64 \<Rightarrow> task option \<Rightarrow> int \<times> user_writes" where
  "sys_getresgid um r_addr e_addr s_addr ct =
     (case ct of None \<Rightarrow> (- ESRCH, [])
      | Some t \<Rightarrow> put_ids um [(r_addr, t_gid t), (e_addr, t_egid t), (s_addr, t_sgid t)])"

definition sys_setfsuid :: "allocs \<Rightarrow> int \<Rightarrow> task option \<Rightarrow> int \<times> task option" where
  "sys_setfsuid al n ct = with_creds ESRCH al ct (\<lambda>t c.
     (let old = c_fsuid c; fsuid = word_of_int n in
      (sint (ucast old :: 32 word),
       if c_euid c = 0 \<or> fsuid = c_uid c \<or> fsuid = c_euid c \<or> fsuid = c_suid c \<or> fsuid = c_fsuid c
       then sync_creds_to_task (c\<lparr>c_fsuid := fsuid\<rparr>) t else t)))"

definition sys_setfsgid :: "allocs \<Rightarrow> int \<Rightarrow> task option \<Rightarrow> int \<times> task option" where
  "sys_setfsgid al n ct = with_creds ESRCH al ct (\<lambda>t c.
     (let old = c_fsgid c; fsgid = word_of_int n in
      (sint (ucast old :: 32 word),
       if c_euid c = 0 \<or> fsgid = c_gid c \<or> fsgid = c_egid c \<or> fsgid = c_sgid c \<or> fsgid = c_fsgid c
       then sync_creds_to_task (c\<lparr>c_fsgid := fsgid\<rparr>) t else t)))"

subsection \<open>Supplementary groups\<close>

definition bad_user_addr :: "u64 \<Rightarrow> bool" where
  "bad_user_addr addr \<longleftrightarrow> addr = 0 \<or> addr \<ge> KERNEL_VMA \<or> addr < 0x1000"

fun put_groups :: "user_memory \<Rightarrow> u64 \<Rightarrow> nat \<Rightarrow> u64 list \<Rightarrow> int \<times> user_writes" where
  "put_groups um addr i [] = (0, [])"
| "put_groups um addr i (g # gs) =
     (if g > 0xFFFFFFFF then (- EOVERFLOW, [])
      else if \<not> um_writable um (addr + word_of_nat (i * 4)) 4 then (- EFAULT, [])
      else (case put_groups um addr (Suc i) gs of (r, ws) \<Rightarrow>
              (r, (addr + word_of_nat (i * 4), le_bytes 4 (unat (ucast g :: u32))) # ws)))"

text \<open>sys\_getgroups; None stands for the fault of reading through a null group array.\<close>

definition sys_getgroups :: "user_memory \<Rightarrow> int \<Rightarrow> u64 \<Rightarrow> task option \<Rightarrow> (int \<times> user_writes) option" where
  "sys_getgroups um sz addr ct =
     (case ct of None \<Rightarrow> Some (- ESRCH, [])
      | Some t \<Rightarrow>
        if sz = 0 then Some (t_ngroups t, [])
        else if sz < 0 \<or> sz < t_ngroups t then Some (- EINVAL, [])
        else if t_ngroups t = 0 then Some (0, [])
        else if bad_user_addr addr then Some (- EFAULT, [])
        else (case t_groups t of
                None \<Rightarrow> None
              | Some gs \<Rightarrow>
                (case put_groups um addr 0 (take (nat (t_ngroups t)) gs) of
                   (r, ws) \<Rightarrow> Some (if r = 0 then t_ngroups t else r, ws))))"

primrec get_groups :: "user_memory \<Rightarrow> u64 \<Rightarrow> nat \<Rightarrow> nat \<Rightarrow> u64 list option" where
  "get_groups um addr i 0 = Some []"
| "get_groups um addr i (Suc n) =
     (case um_read um (addr + word_of_nat (i * 4)) 4 of
        None \<Rightarrow> None
      | Some bs \<Rightarrow>
        (case get_groups um addr (Suc i) n of
           None \<Rightarrow> None
         | Some gs \<Rightarrow> Some (word_of_nat (le_val bs) # gs)))"

definition set_groups :: "u64 list option \<Rightarrow> int \<Rightarrow> task_creds \<Rightarrow> task \<Rightarrow> int \<times> task" where
  "set_groups gs sz c t = (0, sync_creds_to_task (c\<lparr>c_groups := gs, c_ngroups := sz\<rparr>) t)"

definition sys_setgroups :: "user_memory \<Rightarrow> allocs \<Rightarrow> int \<Rightarrow> u64 \<Rightarrow> task option \<Rightarrow> int \<times> task option" where
  "sys_setgroups um al sz addr ct = with_creds ESRCH al ct (\<lambda>t c.
     if c_euid c \<noteq> 0 then (- EPERM, t)
     else if sz < 0 then (- EINVAL, t)
     else if sz > 0 then
       (if bad_user_addr addr then (- EFAULT, t)
        else if nat sz > SIZE_MAX div 8 then (- EINVAL, t)
        else if \<not> al 2 then (- ENOMEM, t)
        else (case get_groups um addr 0 (nat sz) of
                None \<Rightarrow> (- EFAULT, t)
              | Some gs \<Rightarrow> set_groups (Some gs) sz c t))
     else set_groups None sz c t)"

subsection \<open>Process groups and sessions\<close>

definition task_find :: "task list \<Rightarrow> int \<Rightarrow> task option" where
  "task_find ts pid = find (\<lambda>t. t_pid t = pid) ts"

text \<open>
  The task list holds every task, the current one too; cur is the pid of the current task,
  if there is one. upd\_task replaces the task with the pid of its argument.
\<close>

definition upd_task :: "task \<Rightarrow> task list \<Rightarrow> task list" where
  "upd_task t ts = map (\<lambda>x. if t_pid x = t_pid t then t else x) ts"

definition self_or :: "int option \<Rightarrow> int \<Rightarrow> int" where
  "self_or cur pid = (if pid = 0 then (case cur of Some p \<Rightarrow> p | None \<Rightarrow> 0) else pid)"

definition sys_getpgid :: "task list \<Rightarrow> int option \<Rightarrow> int \<Rightarrow> int" where
  "sys_getpgid ts cur pid =
     (case task_find ts (self_or cur pid) of
        None \<Rightarrow> - ESRCH
      | Some t \<Rightarrow> (case t_creds t of None \<Rightarrow> t_pgid t | Some c \<Rightarrow> c_pgid c))"

definition sys_setpgid :: "task list \<Rightarrow> int option \<Rightarrow> int \<Rightarrow> int \<Rightarrow> int \<times> task list" where
  "sys_setpgid ts cur pid0 pgid0 =
     (case Option.bind cur (task_find ts) of
        None \<Rightarrow> (- ESRCH, ts)
      | Some me \<Rightarrow>
        (let pid = (if pid0 = 0 then t_pid me else pid0);
             pgid = (if pgid0 = 0 then pid else pgid0)
         in if pid \<le> 0 \<or> pgid \<le> 0 then (- EINVAL, ts)
            else (case task_find ts pid of
                    None \<Rightarrow> (- ESRCH, ts)
                  | Some t \<Rightarrow>
                    if t_pid t = t_sid t then (- EPERM, ts)
                    else if t_euid me \<noteq> 0 \<and> t_pid t \<noteq> t_pid me \<and> t_ppid t \<noteq> t_pid me then (- EPERM, ts)
                    else if t_euid me \<noteq> 0 \<and> t_sid t \<noteq> t_sid me then (- EPERM, ts)
                    else if pgid \<noteq> t_pid t \<and> \<not> (\<exists>x\<in>set ts. t_pgid x = pgid \<and> t_sid x = t_sid t)
                         then (- EPERM, ts)
                    else (0, upd_task (t\<lparr>t_creds := map_option (\<lambda>c. c\<lparr>c_pgid := pgid\<rparr>) (t_creds t),
                                        t_pgid := pgid\<rparr>) ts))))"

definition sys_getpgrp :: "task list \<Rightarrow> int option \<Rightarrow> int" where
  "sys_getpgrp ts cur = sys_getpgid ts cur 0"

definition sys_setsid :: "task option \<Rightarrow> int \<times> task option" where
  "sys_setsid ct =
     (case ct of None \<Rightarrow> (- ESRCH, None)
      | Some t \<Rightarrow>
        (let pid = t_pid t in
         if (case t_creds t of Some c \<Rightarrow> c_pgid c = pid | None \<Rightarrow> t_pgid t = pid) then (- EPERM, ct)
         else (pid, Some (t\<lparr>t_creds := map_option (\<lambda>c. c\<lparr>c_sid := pid, c_pgid := pid\<rparr>) (t_creds t),
                           t_sid := pid, t_pgid := pid\<rparr>))))"

definition sys_getsid :: "task list \<Rightarrow> int option \<Rightarrow> int \<Rightarrow> int" where
  "sys_getsid ts cur pid =
     (case task_find ts (self_or cur pid) of
        None \<Rightarrow> - ESRCH
      | Some t \<Rightarrow> (case t_creds t of None \<Rightarrow> t_sid t | Some c \<Rightarrow> c_sid c))"

definition sys_getppid :: "task option \<Rightarrow> int" where
  "sys_getppid ct = (case ct of Some t \<Rightarrow> t_ppid t | None \<Rightarrow> 0)"
definition sys_getpid_impl :: "task option \<Rightarrow> int" where
  "sys_getpid_impl ct = (case ct of Some t \<Rightarrow> t_pid t | None \<Rightarrow> 0)"
definition sys_gettid :: "task option \<Rightarrow> int" where
  "sys_gettid ct = (case ct of Some t \<Rightarrow> t_pid t | None \<Rightarrow> 0)"

definition creds_get_pgid :: "task list \<Rightarrow> int option \<Rightarrow> int \<Rightarrow> int" where
  "creds_get_pgid ts cur pid0 =
     (let pid = self_or cur pid0 in
      if pid = 0 then 0
      else (case task_find ts pid of
              None \<Rightarrow> 0
            | Some t \<Rightarrow> (case t_creds t of None \<Rightarrow> t_pgid t | Some c \<Rightarrow> c_pgid c)))"

definition creds_get_sid :: "task list \<Rightarrow> int option \<Rightarrow> int \<Rightarrow> int" where
  "creds_get_sid ts cur pid0 =
     (let pid = self_or cur pid0 in
      if pid = 0 then 0
      else (case task_find ts pid of
              None \<Rightarrow> 0
            | Some t \<Rightarrow> (case t_creds t of None \<Rightarrow> t_sid t | Some c \<Rightarrow> c_sid c)))"

subsection \<open>Life cycle\<close>

definition creds_init_task :: "task \<Rightarrow> task" where
  "creds_init_task t =
     t\<lparr>t_uid := 0, t_gid := 0, t_euid := 0, t_egid := 0, t_suid := 0, t_sgid := 0, t_fsuid := 0,
       t_fsgid := 0, t_groups := None, t_ngroups := 0, t_pgid := t_pid t, t_sid := t_pid t,
       t_creds := None\<rparr>"

definition creds_release_task :: "task \<Rightarrow> task" where
  "creds_release_task t = t\<lparr>t_creds := None\<rparr>"

definition ids_from :: "task \<Rightarrow> task \<Rightarrow> task" where
  "ids_from p child =
     child\<lparr>t_uid := t_uid p, t_euid := t_euid p, t_suid := t_suid p, t_gid := t_gid p,
       t_egid := t_egid p, t_sgid := t_sgid p, t_fsuid := t_fsuid p, t_fsgid := t_fsgid p,
       t_groups := None, t_ngroups := t_ngroups p,
       t_pgid := (if t_pgid p \<noteq> 0 then t_pgid p else t_pid child),
       t_sid := (if t_sid p \<noteq> 0 then t_sid p else t_pid child), t_ppid := t_pid p\<rparr>"

text \<open>
  creds\_copy\_task: allocation 0 is the child's credentials block, 1 the mask, 2 the groups.
\<close>

definition creds_copy_task :: "allocs \<Rightarrow> task \<Rightarrow> task \<Rightarrow> int \<times> task" where
  "creds_copy_task al p child0 =
     (let child = ids_from p child0 in
      case t_creds p of
        None \<Rightarrow> (0, child\<lparr>t_creds := None\<rparr>)
      | Some pc \<Rightarrow>
        if t_creds child = None \<and> \<not> al 0 then (-1, child)
        else (let cc = (case t_creds child of None \<Rightarrow> zero_creds | Some c \<Rightarrow> c);
                  child1 = child\<lparr>t_creds := Some cc\<rparr>
              in if syscall_mask pc \<noteq> None \<and> \<not> al 1 then (-1, child1)
                 else if c_groups pc \<noteq> None \<and> c_ngroups pc > 0 \<and>
                         (nat (c_ngroups pc) > SIZE_MAX div 8 \<or> \<not> al 2) then (-1, child1)
                 else (let gs = (if c_groups pc \<noteq> None \<and> c_ngroups pc > 0
                                 then map_option (take (nat (c_ngroups pc))) (c_groups pc) else None);
                           cmask = map_option (take (syscall_mask_words pc)) (syscall_mask pc);
                           c = pc\<lparr>syscall_mask := cmask, c_groups := gs\<rparr>
                       in (0, child1\<lparr>t_creds := Some c, t_groups := gs, t_uid := c_uid c, t_euid := c_euid c,
                               t_suid := c_suid c, t_gid := c_gid c, t_egid := c_egid c, t_sgid := c_sgid c,
                               t_fsuid := c_fsuid c, t_fsgid := c_fsgid c, t_ngroups := c_ngroups c,
                               t_pgid := c_pgid c, t_sid := c_sid c, t_ppid := t_pid p\<rparr>))))"

subsection \<open>System-call masks, no\_new\_privs, dumpability\<close>

definition creds_syscall_allowed :: "task option \<Rightarrow> int \<Rightarrow> bool" where
  "creds_syscall_allowed ct n =
     (case ct of None \<Rightarrow> False
      | Some t \<Rightarrow>
        if n < 0 then False
        else (case t_creds t of
                None \<Rightarrow> True
              | Some c \<Rightarrow>
                (case syscall_mask c of
                   None \<Rightarrow> True
                 | Some m \<Rightarrow>
                   (let word = nat n div 64; b = nat n mod 64 in
                    if word \<ge> syscall_mask_words c then syscall_mask_default_allow c
                    else m ! word AND push_bit b 1 \<noteq> 0))))"

definition mask_word :: "u64 list \<Rightarrow> nat \<Rightarrow> bool \<Rightarrow> nat \<Rightarrow> u64" where
  "mask_word m words dflt i = (if i < words then m ! i else if dflt then -1 else 0)"

definition existing_word :: "task_creds \<Rightarrow> nat \<Rightarrow> u64" where
  "existing_word c i =
     (case syscall_mask c of None \<Rightarrow> -1
      | Some m \<Rightarrow> mask_word m (syscall_mask_words c) (syscall_mask_default_allow c) i)"

text \<open>
  creds\_set\_syscall\_mask\_ex as its callers use it, on the current task; None is the null
  mask pointer.
\<close>

definition creds_set_syscall_mask_ex ::
    "allocs \<Rightarrow> task option \<Rightarrow> u64 list option \<Rightarrow> nat \<Rightarrow> int \<Rightarrow> int \<times> task option" where
  "creds_set_syscall_mask_ex al ct umask word_count default_allow =
     (case umask of None \<Rightarrow> (- EINVAL, ct)
      | Some m \<Rightarrow>
        if ct = None \<or> word_count = 0 \<or> default_allow < 0 \<or> default_allow > 1 then (- EINVAL, ct)
        else if word_count > SIZE_MAX div 8 then (- EINVAL, ct)
        else with_creds ENOMEM al ct (\<lambda>t c.
          (let output_words = (if syscall_mask_words c > word_count then syscall_mask_words c
                               else word_count)
           in if output_words > SIZE_MAX div 8 then (- EINVAL, t)
              else if \<not> al 2 then (- ENOMEM, t)
              else (let new_mask = map (\<lambda>i. mask_word m word_count (default_allow = 1) i AND
                                            existing_word c i) [0..<output_words];
                        c1 = c\<lparr>syscall_mask := Some new_mask, syscall_mask_words := output_words,
                               syscall_mask_default_allow :=
                                 (default_allow = 1 \<and>
                                  (syscall_filter_mode c = 0 \<or> syscall_mask_default_allow c)),
                               syscall_filter_mode := 2\<rparr>
                    in (0, t\<lparr>t_creds := Some c1\<rparr>)))))"

definition creds_set_syscall_mask ::
    "allocs \<Rightarrow> task option \<Rightarrow> u64 list option \<Rightarrow> nat \<Rightarrow> int \<times> task option" where
  "creds_set_syscall_mask al ct umask word_count = creds_set_syscall_mask_ex al ct umask word_count 0"

definition strict_mask :: "u64 list" where
  "strict_mask =
     foldl (\<lambda>m n. m[n div 64 := m ! (n div 64) OR push_bit (n mod 64) 1])
       (replicate ((NR_SYSCALLS + 63) div 64) 0) [0, 3, 1, 218, 125]"

definition creds_set_strict_syscalls :: "allocs \<Rightarrow> task option \<Rightarrow> int \<times> task option" where
  "creds_set_strict_syscalls al ct =
     (if ct = None then (- EINVAL, ct)
      else (case creds_set_syscall_mask al ct (Some strict_mask) ((NR_SYSCALLS + 63) div 64) of
              (result, ct1) \<Rightarrow>
                (result,
                 if result = 0 then
                   map_option (\<lambda>t. t\<lparr>t_creds := map_option (\<lambda>c. c\<lparr>syscall_filter_mode := 1\<rparr>) (t_creds t)\<rparr>) ct1
                 else ct1)))"

definition creds_set_no_new_privs :: "allocs \<Rightarrow> task option \<Rightarrow> int \<times> task option" where
  "creds_set_no_new_privs al ct =
     (if ct = None then (- EINVAL, ct)
      else with_creds ENOMEM al ct (\<lambda>t c. (0, t\<lparr>t_creds := Some (c\<lparr>no_new_privs := True\<rparr>)\<rparr>)))"

definition creds_get_no_new_privs :: "task option \<Rightarrow> bool" where
  "creds_get_no_new_privs ct =
     (case ct of None \<Rightarrow> False
      | Some t \<Rightarrow> (case t_creds t of None \<Rightarrow> False | Some c \<Rightarrow> no_new_privs c))"

definition creds_get_syscall_filter_mode :: "task option \<Rightarrow> int" where
  "creds_get_syscall_filter_mode ct =
     (case ct of None \<Rightarrow> 0
      | Some t \<Rightarrow> (case t_creds t of None \<Rightarrow> 0 | Some c \<Rightarrow> syscall_filter_mode c))"

definition creds_set_dumpable :: "allocs \<Rightarrow> task option \<Rightarrow> int \<Rightarrow> int \<times> task option" where
  "creds_set_dumpable al ct d =
     (if ct = None \<or> (d \<noteq> 0 \<and> d \<noteq> 1) then (- EINVAL, ct)
      else with_creds ENOMEM al ct (\<lambda>t c. (0, t\<lparr>t_creds := Some (c\<lparr>dumpable := d\<rparr>)\<rparr>)))"

definition creds_get_dumpable :: "task option \<Rightarrow> int" where
  "creds_get_dumpable ct =
     (case ct of None \<Rightarrow> 0
      | Some t \<Rightarrow> (case t_creds t of None \<Rightarrow> 1 | Some c \<Rightarrow> dumpable c))"

subsection \<open>Capabilities\<close>

definition creds_has_capability :: "task option \<Rightarrow> int \<Rightarrow> bool" where
  "creds_has_capability ct capability =
     (case ct of None \<Rightarrow> False
      | Some t \<Rightarrow>
        if capability < 0 \<or> capability \<ge> 38 then False
        else (case t_creds t of
                None \<Rightarrow> t_euid t = 0
              | Some c \<Rightarrow> cap_effective c AND push_bit (nat capability) 1 \<noteq> 0))"

text \<open>
  The structures cap\_header\_t (version and pid) and two cap\_data\_t as they lie in memory.
\<close>

definition read32 :: "u8 list \<Rightarrow> nat \<Rightarrow> u32" where
  "read32 bs i = word_of_nat (le_val (take 4 (drop (4 * i) bs)))"

definition cap_bytes :: "u64 \<Rightarrow> u64 \<Rightarrow> u64 \<Rightarrow> u8 list" where
  "cap_bytes e p i =
     concat (map (\<lambda>w. le_bytes 4 (unat w))
       [ucast e :: u32, ucast p, ucast i, ucast (drop_bit 32 e), ucast (drop_bit 32 p), ucast (drop_bit 32 i)])"

definition sys_capget :: "user_memory \<Rightarrow> u64 \<Rightarrow> u64 \<Rightarrow> task option \<Rightarrow> int \<times> user_writes" where
  "sys_capget um header data ct =
     (case ct of None \<Rightarrow> (- EFAULT, [])
      | Some t \<Rightarrow>
        if header = 0 \<or> data = 0 then (- EFAULT, [])
        else (case um_read um header 8 of
                None \<Rightarrow> (- EFAULT, [])
              | Some h \<Rightarrow>
                if read32 h 0 \<noteq> CAP_VERSION_3 then (- EINVAL, [])
                else if read32 h 1 \<noteq> 0 \<and> sint (read32 h 1) \<noteq> t_pid t then (- EPERM, [])
                else (let full = (if t_euid t = 0 then CAP_FULL_SET else 0);
                          e = (case t_creds t of Some c \<Rightarrow> cap_effective c | None \<Rightarrow> full);
                          p = (case t_creds t of Some c \<Rightarrow> cap_permitted c | None \<Rightarrow> full);
                          i = (case t_creds t of Some c \<Rightarrow> cap_inheritable c | None \<Rightarrow> 0)
                      in if \<not> um_writable um data 24 then (- EFAULT, [])
                         else (0, [(data, cap_bytes e p i)]))))"

definition cap_word :: "u8 list \<Rightarrow> nat \<Rightarrow> u64" where
  "cap_word d i = ucast (read32 d i) OR push_bit 32 (ucast (read32 d (3 + i)))"

definition sys_capset :: "user_memory \<Rightarrow> allocs \<Rightarrow> u64 \<Rightarrow> u64 \<Rightarrow> task option \<Rightarrow> int \<times> task option" where
  "sys_capset um al header data ct =
     (case ct of None \<Rightarrow> (- EFAULT, ct)
      | Some t \<Rightarrow>
        if header = 0 \<or> data = 0 then (- EFAULT, ct)
        else (case (um_read um header 8, um_read um data 24) of
                (Some h, Some d) \<Rightarrow>
                  if read32 h 0 \<noteq> CAP_VERSION_3 then (- EINVAL, ct)
                  else if read32 h 1 \<noteq> 0 \<and> sint (read32 h 1) \<noteq> t_pid t then (- EPERM, ct)
                  else (let effective = cap_word d 0; permitted = cap_word d 1; inheritable = cap_word d 2
                        in if effective AND NOT permitted \<noteq> 0 \<or>
                              (effective OR permitted OR inheritable) AND NOT CAP_FULL_SET \<noteq> 0
                           then (- EPERM, ct)
                           else with_creds ENOMEM al ct (\<lambda>t c.
                             if permitted AND NOT (cap_permitted c) \<noteq> 0 then (- EPERM, t)
                             else (0, t\<lparr>t_creds := Some (c\<lparr>cap_effective := effective,
                                          cap_permitted := permitted, cap_inheritable := inheritable\<rparr>)\<rparr>)))
              | _ \<Rightarrow> (- EFAULT, ct)))"

subsection \<open>The calls of a task and its life\<close>

datatype call = Setuid int | Setgid int | Seteuid int | Setegid int
  | Setreuid int int | Setregid int int | Setresuid int int int | Setresgid int int int
  | Setfsuid int | Setfsgid int | Setgroups int u64 | Setsid
  | Set_mask "u64 list option" nat int | Set_strict | Set_no_new_privs | Set_dumpable int
  | Capset u64 u64

fun do_call :: "user_memory \<Rightarrow> allocs \<Rightarrow> call \<Rightarrow> task \<Rightarrow> int \<times> task option" where
  "do_call um al (Setuid a) t = sys_setuid a (Some t)"
| "do_call um al (Setgid a) t = sys_setgid a (Some t)"
| "do_call um al (Seteuid a) t = sys_seteuid a (Some t)"
| "do_call um al (Setegid a) t = sys_setegid a (Some t)"
| "do_call um al (Setreuid a b) t = sys_setreuid al a b (Some t)"
| "do_call um al (Setregid a b) t = sys_setregid al a b (Some t)"
| "do_call um al (Setresuid a b c) t = sys_setresuid al a b c (Some t)"
| "do_call um al (Setresgid a b c) t = sys_setresgid al a b c (Some t)"
| "do_call um al (Setfsuid a) t = sys_setfsuid al a (Some t)"
| "do_call um al (Setfsgid a) t = sys_setfsgid al a (Some t)"
| "do_call um al (Setgroups n p) t = sys_setgroups um al n p (Some t)"
| "do_call um al Setsid t = sys_setsid (Some t)"
| "do_call um al (Set_mask m n d) t = creds_set_syscall_mask_ex al (Some t) m n d"
| "do_call um al Set_strict t = creds_set_strict_syscalls al (Some t)"
| "do_call um al Set_no_new_privs t = creds_set_no_new_privs al (Some t)"
| "do_call um al (Set_dumpable d) t = creds_set_dumpable al (Some t) d"
| "do_call um al (Capset h d) t = sys_capset um al h d (Some t)"

text \<open>
  One step of a task: a system call, an exec that asks for the identities of a set-id file,
  a fork, after which the step continues in the child, or a setpgid of any task cur of the
  task list, which may move the task with the pid p, itself or another one.
\<close>

inductive cred_step :: "task \<Rightarrow> task \<Rightarrow> bool" where
  call: "do_call um al c t = (r, Some t') \<Longrightarrow> cred_step t t'"
| exec: "cred_step t (creds_apply_exec_ids al t euid egid)"
| fork: "t_creds child = None \<Longrightarrow> creds_copy_task al t child = (0, t') \<Longrightarrow> cred_step t t'"
| setpgid: "task_find ts p = Some t \<Longrightarrow> sys_setpgid ts cur pid pgid = (r, ts') \<Longrightarrow>
    task_find ts' p = Some t' \<Longrightarrow> cred_step t t'"

subsection \<open>Well-formed credentials\<close>

definition groups_ok :: "u64 list option \<Rightarrow> int \<Rightarrow> bool" where
  "groups_ok gs n \<longleftrightarrow> (case gs of None \<Rightarrow> n = 0 | Some l \<Rightarrow> 0 < n \<and> length l = nat n)"

definition mask_ok :: "task_creds \<Rightarrow> bool" where
  "mask_ok c \<longleftrightarrow> (case syscall_mask c of
     None \<Rightarrow> syscall_filter_mode c = 0 \<and> syscall_mask_words c = 0
   | Some m \<Rightarrow> syscall_filter_mode c \<noteq> 0 \<and> length m = syscall_mask_words c)"

definition creds_ok :: "task_creds \<Rightarrow> bool" where
  "creds_ok c \<longleftrightarrow> groups_ok (c_groups c) (c_ngroups c) \<and> mask_ok c \<and>
     cap_effective c AND NOT (cap_permitted c) = 0"

definition mirrors :: "task_creds \<Rightarrow> task \<Rightarrow> bool" where
  "mirrors c t \<longleftrightarrow> c_uid c = t_uid t \<and> c_euid c = t_euid t \<and> c_suid c = t_suid t \<and>
     c_gid c = t_gid t \<and> c_egid c = t_egid t \<and> c_sgid c = t_sgid t \<and>
     c_fsuid c = t_fsuid t \<and> c_fsgid c = t_fsgid t \<and>
     c_groups c = t_groups t \<and> c_ngroups c = t_ngroups t \<and> c_pgid c = t_pgid t \<and> c_sid c = t_sid t"

definition root_like :: "task \<Rightarrow> bool" where
  "root_like t \<longleftrightarrow> t_uid t = 0 \<or> t_euid t = 0 \<or> t_suid t = 0"

definition task_ok :: "task \<Rightarrow> bool" where
  "task_ok t \<longleftrightarrow> (case t_creds t of
     None \<Rightarrow> t_groups t = None \<and> t_ngroups t = 0 \<and>
       (t_pgid t = 0 \<longrightarrow> t_pid t = 0) \<and> (t_sid t = 0 \<longrightarrow> t_pid t = 0)
   | Some c \<Rightarrow> creds_ok c \<and> mirrors c t \<and> (root_like t \<or> cap_permitted c = 0))"

lemmas task_ok_defs = task_ok_def creds_ok_def mirrors_def root_like_def groups_ok_def mask_ok_def

lemma sync_parts [simp]:
  "c_uid (sync_caps e c) = c_uid c" "c_euid (sync_caps e c) = c_euid c" "c_suid (sync_caps e c) = c_suid c"
  "c_gid (sync_caps e c) = c_gid c" "c_egid (sync_caps e c) = c_egid c" "c_sgid (sync_caps e c) = c_sgid c"
  "c_groups (sync_caps e c) = c_groups c" "c_ngroups (sync_caps e c) = c_ngroups c"
  "c_pgid (sync_caps e c) = c_pgid c" "c_sid (sync_caps e c) = c_sid c"
  "syscall_mask (sync_caps e c) = syscall_mask c" "syscall_mask_words (sync_caps e c) = syscall_mask_words c"
  "syscall_mask_default_allow (sync_caps e c) = syscall_mask_default_allow c"
  "syscall_filter_mode (sync_caps e c) = syscall_filter_mode c" "no_new_privs (sync_caps e c) = no_new_privs c"
  "c_uid (sync_fs t c) = c_uid c" "c_euid (sync_fs t c) = c_euid c" "c_suid (sync_fs t c) = c_suid c"
  "c_gid (sync_fs t c) = c_gid c" "c_egid (sync_fs t c) = c_egid c" "c_sgid (sync_fs t c) = c_sgid c"
  "c_groups (sync_fs t c) = c_groups c" "c_ngroups (sync_fs t c) = c_ngroups c"
  "c_pgid (sync_fs t c) = c_pgid c" "c_sid (sync_fs t c) = c_sid c"
  "syscall_mask (sync_fs t c) = syscall_mask c" "syscall_mask_words (sync_fs t c) = syscall_mask_words c"
  "syscall_mask_default_allow (sync_fs t c) = syscall_mask_default_allow c"
  "syscall_filter_mode (sync_fs t c) = syscall_filter_mode c" "no_new_privs (sync_fs t c) = no_new_privs c"
  "cap_effective (sync_fs t c) = cap_effective c" "cap_permitted (sync_fs t c) = cap_permitted c"
  "c_fsuid (sync_caps e c) = c_fsuid c" "c_fsgid (sync_caps e c) = c_fsgid c"
  "c_fsuid (sync_fs t c) = (if c_euid c \<noteq> t_euid t then c_euid c else c_fsuid c)"
  "c_fsgid (sync_fs t c) = (if c_egid c \<noteq> t_egid t then c_egid c else c_fsgid c)"
  by (simp_all add: sync_caps_def sync_fs_def Let_def)

lemma sync_simps [simp]:
  "t_creds (sync_creds_to_task c t) = Some (sync_fs t (sync_caps (t_euid t) c))"
  "t_uid (sync_creds_to_task c t) = c_uid c" "t_euid (sync_creds_to_task c t) = c_euid c"
  "t_suid (sync_creds_to_task c t) = c_suid c" "t_gid (sync_creds_to_task c t) = c_gid c"
  "t_egid (sync_creds_to_task c t) = c_egid c" "t_sgid (sync_creds_to_task c t) = c_sgid c"
  "t_groups (sync_creds_to_task c t) = c_groups c" "t_ngroups (sync_creds_to_task c t) = c_ngroups c"
  "t_pid (sync_creds_to_task c t) = t_pid t"
  "t_pgid (sync_creds_to_task c t) = c_pgid c" "t_sid (sync_creds_to_task c t) = c_sid c"
  "t_fsuid (sync_creds_to_task c t) = (if c_euid c \<noteq> t_euid t then c_euid c else c_fsuid c)"
  "t_fsgid (sync_creds_to_task c t) = (if c_egid c \<noteq> t_egid t then c_egid c else c_fsgid c)"
  by (simp_all add: sync_creds_to_task_def Let_def)

lemma sync_mirrors: "mirrors (sync_fs t (sync_caps (t_euid t) c)) (sync_creds_to_task c t)"
  by (simp add: mirrors_def)

lemma sync_caps_ok:
  assumes "cap_effective c AND NOT (cap_permitted c) = 0"
  shows "cap_effective (sync_caps e c) AND NOT (cap_permitted (sync_caps e c)) = 0"
    and "c_uid c \<noteq> 0 \<Longrightarrow> c_euid c \<noteq> 0 \<Longrightarrow> c_suid c \<noteq> 0 \<Longrightarrow> cap_permitted (sync_caps e c) = 0"
  using assms by (simp_all add: sync_caps_def Let_def)

lemma mask_ok_cong:
  "syscall_mask c' = syscall_mask c \<Longrightarrow> syscall_mask_words c' = syscall_mask_words c \<Longrightarrow>
   syscall_filter_mode c' = syscall_filter_mode c \<Longrightarrow> mask_ok c' = mask_ok c"
  by (simp add: mask_ok_def cong: option.case_cong)

lemma sync_ok: "creds_ok c \<Longrightarrow> task_ok (sync_creds_to_task c t)"
  using sync_mirrors [of t c] sync_caps_ok [of c "t_euid t"]
    mask_ok_cong [of "sync_fs t (sync_caps (t_euid t) c)" c]
  by (auto simp: task_ok_def creds_ok_def root_like_def)

lemma get_task_creds_ok:
  assumes "task_ok t" and "get_task_creds al t = (Some c, t1)"
  shows "task_ok t1 \<and> t_creds t1 = Some c \<and> creds_ok c \<and> t1 = t\<lparr>t_creds := Some c\<rparr> \<and>
    (t_creds t = Some c \<or> t_creds t = None \<and> c = fresh_creds t None)"
proof (cases "t_creds t")
  case None
  with assms have t1: "c = fresh_creds t None" "t1 = t\<lparr>t_creds := Some c\<rparr>"
    by (auto simp: get_task_creds_def task_ok_def Let_def split: if_splits)
  moreover from None assms(1) have "t_groups t = None" "t_ngroups t = 0" "t_pgid t = 0 \<longrightarrow> t_pid t = 0"
    "t_sid t = 0 \<longrightarrow> t_pid t = 0" by (simp_all add: task_ok_def)
  ultimately show ?thesis using None
    by (simp add: task_ok_defs fresh_creds_def zero_creds_def)
next
  case (Some d)
  then show ?thesis using assms by (auto simp: get_task_creds_def task_ok_def)
qed

lemma get_task_creds_none: "get_task_creds al t = (None, t1) \<Longrightarrow> t1 = t"
  by (auto simp: get_task_creds_def Let_def split: option.splits if_splits)

text \<open>
  The rule for the calls that begin with get\_task\_creds: they leave the task as it was, or
  act on it with its credentials in place.
\<close>

lemma with_creds_cases:
  assumes "with_creds err al (Some t) f = (r, Some t')" and "task_ok t"
  obtains "t' = t" "r = - err"
  | c t1 where "get_task_creds al t = (Some c, t1)" "task_ok t1" "t_creds t1 = Some c" "creds_ok c"
      "t1 = t\<lparr>t_creds := Some c\<rparr>" "t_creds t = Some c \<or> t_creds t = None \<and> c = fresh_creds t None"
      "f t1 c = (r, t')"
proof (cases "get_task_creds al t")
  case (Pair co t1)
  show ?thesis
  proof (cases co)
    case None
    with Pair assms(1) that(1) get_task_creds_none [of al t t1] show ?thesis by (auto simp: with_creds_def)
  next
    case (Some c)
    with Pair assms(1) get_task_creds_ok [OF assms(2), of al c t1] that(2) [of c t1] show ?thesis
      by (auto simp: with_creds_def split: prod.splits)
  qed
qed


subsection \<open>What one step may do\<close>

definition mask_bit :: "u64 list \<Rightarrow> nat \<Rightarrow> bool \<Rightarrow> nat \<Rightarrow> bool" where
  "mask_bit m words dflt n = (if n div 64 < words then bit (m ! (n div 64)) (n mod 64) else dflt)"

definition mask_allows :: "task_creds \<Rightarrow> nat \<Rightarrow> bool" where
  "mask_allows c n = (case syscall_mask c of None \<Rightarrow> True
     | Some m \<Rightarrow> mask_bit m (syscall_mask_words c) (syscall_mask_default_allow c) n)"

lemma allowed_mask:
  "creds_syscall_allowed (Some t) n \<longleftrightarrow>
   0 \<le> n \<and> (case t_creds t of None \<Rightarrow> True | Some c \<Rightarrow> mask_allows c (nat n))"
  by (auto simp: creds_syscall_allowed_def mask_allows_def mask_bit_def Let_def bit_iff_and_push_bit_not_eq_0
      split: option.split)

lemma mask_allows_cong:
  "syscall_mask c' = syscall_mask c \<Longrightarrow> syscall_mask_words c' = syscall_mask_words c \<Longrightarrow>
   syscall_mask_default_allow c' = syscall_mask_default_allow c \<Longrightarrow> mask_allows c' = mask_allows c"
  by (rule ext) (simp add: mask_allows_def cong: option.case_cong)

definition restricts :: "task \<Rightarrow> task \<Rightarrow> bool" where
  "restricts t t' \<longleftrightarrow> task_ok t' \<and>
     (\<forall>n. creds_syscall_allowed (Some t') n \<longrightarrow> creds_syscall_allowed (Some t) n) \<and>
     (creds_get_no_new_privs (Some t) \<longrightarrow> creds_get_no_new_privs (Some t'))"

definition uid_set :: "task \<Rightarrow> u64 set" where
  "uid_set t = {t_uid t, t_euid t, t_suid t}"

definition gid_set :: "task \<Rightarrow> u64 set" where
  "gid_set t = {t_gid t, t_egid t, t_sgid t}"

definition within :: "task \<Rightarrow> task \<Rightarrow> bool" where
  "within t t' \<longleftrightarrow> uid_set t' \<subseteq> uid_set t \<and> t_fsuid t' \<in> insert (t_fsuid t) (uid_set t) \<and>
     gid_set t' \<subseteq> gid_set t \<and> t_fsgid t' \<in> insert (t_fsgid t) (gid_set t) \<and> t_groups t' = t_groups t"

definition no_gain :: "task \<Rightarrow> task \<Rightarrow> bool" where
  "no_gain t t' \<longleftrightarrow> (\<not> root_like t \<longrightarrow> within t t')"

lemmas within_defs = within_def uid_set_def gid_set_def

definition safe :: "task \<Rightarrow> task \<Rightarrow> bool" where
  "safe t t' \<longleftrightarrow> restricts t t' \<and> no_gain t t'"

lemma root_like_uid_set: "root_like t \<longleftrightarrow> 0 \<in> uid_set t"
  by (auto simp: root_like_def uid_set_def)

lemma within_refl [simp]: "within t t"
  by (simp add: within_def)

lemma within_trans: "within a b \<Longrightarrow> within b c \<Longrightarrow> within a c"
  unfolding within_def by auto

lemma safe_refl: "task_ok t \<Longrightarrow> safe t t"
  by (simp add: safe_def restricts_def no_gain_def)

lemma no_gain_trans: "no_gain a b \<Longrightarrow> no_gain b c \<Longrightarrow> no_gain a c"
  unfolding no_gain_def root_like_uid_set by (metis within_trans within_def subsetD)

lemma safe_trans: "safe a b \<Longrightarrow> safe b c \<Longrightarrow> safe a c"
  unfolding safe_def restricts_def by (meson no_gain_trans)

lemma fresh_simps [simp]:
  "c_uid (fresh_creds t g) = t_uid t" "c_euid (fresh_creds t g) = t_euid t" "c_suid (fresh_creds t g) = t_suid t"
  "syscall_mask (fresh_creds t g) = None" "no_new_privs (fresh_creds t g) = False"
  "syscall_mask_words (fresh_creds t g) = 0" "syscall_filter_mode (fresh_creds t g) = 0"
  by (simp_all add: fresh_creds_def zero_creds_def)

lemma safe_get:
  assumes "task_ok t" and "get_task_creds al t = (Some c, t1)"
  shows "safe t t1"
  using get_task_creds_ok [OF assms]
  by (auto simp: safe_def restricts_def no_gain_def within_defs allowed_mask mask_allows_def creds_get_no_new_privs_def
      split: if_splits)

text \<open>Credentials that differ in identities and groups only, by an admissible change.\<close>

definition id_change :: "task_creds \<Rightarrow> task_creds \<Rightarrow> bool" where
  "id_change c c' \<longleftrightarrow> syscall_mask c' = syscall_mask c \<and> syscall_mask_words c' = syscall_mask_words c \<and>
     syscall_mask_default_allow c' = syscall_mask_default_allow c \<and>
     syscall_filter_mode c' = syscall_filter_mode c \<and> no_new_privs c' = no_new_privs c \<and>
     cap_effective c' = cap_effective c \<and> cap_permitted c' = cap_permitted c \<and>
     groups_ok (c_groups c') (c_ngroups c') \<and>
     (c_euid c = 0 \<or>
       {c_uid c', c_euid c', c_suid c'} \<subseteq> {c_uid c, c_euid c, c_suid c} \<and>
       c_fsuid c' \<in> {c_uid c, c_euid c, c_suid c, c_fsuid c} \<and>
       {c_gid c', c_egid c', c_sgid c'} \<subseteq> {c_gid c, c_egid c, c_sgid c} \<and>
       c_fsgid c' \<in> {c_gid c, c_egid c, c_sgid c, c_fsgid c} \<and> c_groups c' = c_groups c)"

lemma within_sync:
  assumes "task_ok t" "t_creds t = Some c" and ch: "id_change c c'" and "\<not> root_like t"
  shows "within t (sync_creds_to_task c' t)"
proof -
  define U where "U = {c_uid c, c_euid c, c_suid c}"
  define G where "G = {c_gid c, c_egid c, c_sgid c}"
  have m: "mirrors c t" using assms(1,2) by (simp add: task_ok_def)
  then have "c_euid c \<noteq> 0" using assms(4) by (simp add: root_like_def mirrors_def)
  with ch have "c_uid c' \<in> U" "c_euid c' \<in> U" "c_suid c' \<in> U" "c_fsuid c' \<in> insert (c_fsuid c) U"
    "c_gid c' \<in> G" "c_egid c' \<in> G" "c_sgid c' \<in> G" "c_fsgid c' \<in> insert (c_fsgid c) G" "c_groups c' = c_groups c"
    unfolding U_def G_def id_change_def by (simp_all only: insert_subset insert_iff) blast+
  moreover have "uid_set t = U" "gid_set t = G" "t_fsuid t = c_fsuid c" "t_fsgid t = c_fsgid c" "t_groups t = c_groups c"
    using m by (simp_all add: U_def G_def uid_set_def gid_set_def mirrors_def)
  ultimately show ?thesis
    by (simp add: within_def uid_set_def [of "sync_creds_to_task c' t"] gid_set_def [of "sync_creds_to_task c' t"])
qed

lemma safe_sync:
  assumes ok: "task_ok t" "t_creds t = Some c" and ch: "id_change c c'"
  shows "safe t (sync_creds_to_task c' t)"
proof -
  from ok ch have "creds_ok c'" using mask_ok_cong [of c' c] by (simp add: task_ok_def creds_ok_def id_change_def)
  then have "task_ok (sync_creds_to_task c' t)" by (rule sync_ok)
  moreover have "no_gain t (sync_creds_to_task c' t)"
    unfolding no_gain_def using within_sync [OF ok ch] by blast
  moreover have "creds_syscall_allowed (Some (sync_creds_to_task c' t)) n = creds_syscall_allowed (Some t) n" for n
    using ok ch mask_allows_cong [of "sync_fs t (sync_caps (t_euid t) c')" c]
    by (simp add: allowed_mask id_change_def)
  moreover have "creds_get_no_new_privs (Some (sync_creds_to_task c' t)) = creds_get_no_new_privs (Some t)"
    using ok ch by (simp add: creds_get_no_new_privs_def id_change_def)
  ultimately show ?thesis by (simp add: safe_def restricts_def)
qed

lemma safe_with_sync:
  assumes "with_creds err al (Some t) f = (r, Some t')" and "task_ok t"
    and "\<And>t1 c r t'. t_creds t1 = Some c \<Longrightarrow> creds_ok c \<Longrightarrow> f t1 c = (r, t') \<Longrightarrow>
      t' = t1 \<or> (\<exists>c'. id_change c c' \<and> t' = sync_creds_to_task c' t1)"
  shows "safe t t'"
  using assms(1,2)
proof (cases rule: with_creds_cases)
  case 1
  then show ?thesis using assms(2) by (simp add: safe_refl)
next
  case (2 c t1)
  have "safe t1 t'" using assms(3) [OF 2(3,4,7)] 2 by (auto simp: safe_refl intro: safe_sync)
  with safe_get [OF assms(2) 2(1)] show ?thesis by (rule safe_trans)
qed

lemma creds_ok_groups: "creds_ok c \<Longrightarrow> groups_ok (c_groups c) (c_ngroups c)"
  by (simp add: creds_ok_def)

lemma setreuid_safe:
  assumes "sys_setreuid al a b (Some t) = (r, Some t')" and "task_ok t"
  shows "safe t t'"
  using assms unfolding sys_setreuid_def
proof (rule safe_with_sync, goal_cases)
  case (1 t1 c r t')
  have "id_change c (reuid_store a b c)"
    if "c_euid c = 0 \<or> (a = -1 \<or> word_of_int a = c_uid c \<or> word_of_int a = c_euid c) \<and>
      (b = -1 \<or> word_of_int b = c_uid c \<or> word_of_int b = c_euid c \<or> word_of_int b = c_suid c)"
    using that 1(2) by (auto simp: id_change_def reuid_store_def Let_def creds_ok_groups)
  with 1(3) show ?case by (auto split: if_splits)
qed

lemma setregid_safe:
  assumes "sys_setregid al a b (Some t) = (r, Some t')" and "task_ok t"
  shows "safe t t'"
  using assms unfolding sys_setregid_def
proof (rule safe_with_sync, goal_cases)
  case (1 t1 c r t')
  have "id_change c (regid_store a b c)"
    if "c_euid c = 0 \<or> (a = -1 \<or> word_of_int a = c_gid c \<or> word_of_int a = c_egid c) \<and>
      (b = -1 \<or> word_of_int b = c_gid c \<or> word_of_int b = c_egid c \<or> word_of_int b = c_sgid c)"
    using that 1(2) by (auto simp: id_change_def regid_store_def Let_def creds_ok_groups)
  with 1(3) show ?case by (auto split: if_splits)
qed

lemma setresuid_safe:
  assumes "sys_setresuid al a b d (Some t) = (r, Some t')" and "task_ok t"
  shows "safe t t'"
  using assms unfolding sys_setresuid_def
proof (rule safe_with_sync, goal_cases)
  case (1 t1 c r t')
  have "id_change c (resuid_store a b d c)" if "c_euid c = 0 \<or> uid_among a c \<and> uid_among b c \<and> uid_among d c"
    using that 1(2) by (auto simp: id_change_def resuid_store_def uid_among_def Let_def creds_ok_groups)
  with 1(3) show ?case by (auto split: if_splits)
qed

lemma setresgid_safe:
  assumes "sys_setresgid al a b d (Some t) = (r, Some t')" and "task_ok t"
  shows "safe t t'"
  using assms unfolding sys_setresgid_def
proof (rule safe_with_sync, goal_cases)
  case (1 t1 c r t')
  have "id_change c (resgid_store a b d c)" if "c_euid c = 0 \<or> gid_among a c \<and> gid_among b c \<and> gid_among d c"
    using that 1(2) by (auto simp: id_change_def resgid_store_def gid_among_def Let_def creds_ok_groups)
  with 1(3) show ?case by (auto split: if_splits)
qed

lemma setfsuid_safe:
  assumes "sys_setfsuid al a (Some t) = (r, Some t')" and "task_ok t"
  shows "safe t t'"
  using assms unfolding sys_setfsuid_def
  by (rule safe_with_sync) (auto simp: Let_def id_change_def creds_ok_groups split: if_splits
      intro!: exI [of _ "_\<lparr>c_fsuid := word_of_int a\<rparr>"])

lemma setfsgid_safe:
  assumes "sys_setfsgid al a (Some t) = (r, Some t')" and "task_ok t"
  shows "safe t t'"
  using assms unfolding sys_setfsgid_def
  by (rule safe_with_sync) (auto simp: Let_def id_change_def creds_ok_groups split: if_splits
      intro!: exI [of _ "_\<lparr>c_fsgid := word_of_int a\<rparr>"])

lemma length_get_groups: "get_groups um addr i n = Some gs \<Longrightarrow> length gs = n"
  by (induction n arbitrary: i gs) (auto split: option.splits)

lemma setgroups_safe:
  assumes "sys_setgroups um al n p (Some t) = (r, Some t')" and "task_ok t"
  shows "safe t t'"
  using assms unfolding sys_setgroups_def
proof (rule safe_with_sync, goal_cases)
  case (1 t1 c r t')
  have g: "id_change c (c\<lparr>c_groups := gs, c_ngroups := n\<rparr>)" if "groups_ok gs n" and "c_euid c = 0" for gs
    using that by (simp add: id_change_def)
  show ?case
  proof (cases "t' = t1")
    case False
    with 1(3) have root: "c_euid c = 0" by (auto split: if_splits)
    from False 1(3) consider gs where "n > 0" "get_groups um p 0 (nat n) = Some gs" "(r, t') = set_groups (Some gs) n c t1"
      | "n = 0" "(r, t') = set_groups None n c t1"
      by (auto split: if_splits option.splits)
    then show ?thesis
    proof cases
      case (1 gs)
      then have "groups_ok (Some gs) n" using length_get_groups by (simp add: groups_ok_def)
      with 1 g root show ?thesis by (auto simp: set_groups_def)
    next
      case 2
      then have "groups_ok None n" by (simp add: groups_ok_def)
      with 2 g root show ?thesis by (auto simp: set_groups_def)
    qed
  qed simp
qed


subsection \<open>The calls on tasks without credentials\<close>

lemma safe_bare:
  assumes "task_ok t'" and "t_creds t = None" and "t_creds t' = None" and "\<not> root_like t \<Longrightarrow> within t t'"
  shows "safe t t'"
  using assms by (simp add: safe_def restricts_def no_gain_def allowed_mask creds_get_no_new_privs_def)

lemma setuid_safe:
  assumes "sys_setuid a (Some t) = (r, Some t')" and "task_ok t"
  shows "safe t t'"
proof (cases "t_creds t")
  case None
  have "t' = t \<or> safe t t'"
    using assms None
    by (auto simp: sys_setuid_def Let_def root_like_def within_defs task_ok_def split: if_splits intro!: safe_bare)
  then show ?thesis using assms(2) by (auto intro: safe_refl)
next
  case (Some c)
  have "groups_ok (c_groups c) (c_ngroups c)" using Some assms(2) by (simp add: task_ok_def creds_ok_def)
  then show ?thesis
    using assms Some by (auto simp: sys_setuid_def Let_def id_change_def split: if_splits
        intro!: safe_sync [OF assms(2) Some] safe_refl)
qed

lemma setgid_safe:
  assumes "sys_setgid a (Some t) = (r, Some t')" and "task_ok t"
  shows "safe t t'"
proof (cases "t_creds t")
  case None
  have "t' = t \<or> safe t t'"
    using assms None
    by (auto simp: sys_setgid_def Let_def root_like_def within_defs task_ok_def split: if_splits intro!: safe_bare)
  then show ?thesis using assms(2) by (auto intro: safe_refl)
next
  case (Some c)
  have "groups_ok (c_groups c) (c_ngroups c)" using Some assms(2) by (simp add: task_ok_def creds_ok_def)
  then show ?thesis
    using assms Some by (auto simp: sys_setgid_def Let_def id_change_def split: if_splits
        intro!: safe_sync [OF assms(2) Some] safe_refl)
qed

lemma seteuid_safe:
  assumes "sys_seteuid a (Some t) = (r, Some t')" and "task_ok t"
  shows "safe t t'"
proof (cases "t_creds t")
  case None
  have "t' = t \<or> safe t t'"
    using assms None
    by (auto simp: sys_seteuid_def Let_def root_like_def within_defs task_ok_def split: if_splits intro!: safe_bare)
  then show ?thesis using assms(2) by (auto intro: safe_refl)
next
  case (Some c)
  have "groups_ok (c_groups c) (c_ngroups c)" using Some assms(2) by (simp add: task_ok_def creds_ok_def)
  then show ?thesis
    using assms Some by (auto simp: sys_seteuid_def Let_def id_change_def split: if_splits
        intro!: safe_sync [OF assms(2) Some] safe_refl)
qed

lemma setegid_safe:
  assumes "sys_setegid a (Some t) = (r, Some t')" and "task_ok t"
  shows "safe t t'"
proof (cases "t_creds t")
  case None
  have "t' = t \<or> safe t t'"
    using assms None
    by (auto simp: sys_setegid_def Let_def root_like_def within_defs task_ok_def split: if_splits intro!: safe_bare)
  then show ?thesis using assms(2) by (auto intro: safe_refl)
next
  case (Some c)
  have "groups_ok (c_groups c) (c_ngroups c)" using Some assms(2) by (simp add: task_ok_def creds_ok_def)
  then show ?thesis
    using assms Some by (auto simp: sys_setegid_def Let_def id_change_def split: if_splits
        intro!: safe_sync [OF assms(2) Some] safe_refl)
qed

subsection \<open>The calls that change masks, flags and capability sets\<close>

text \<open>Credentials that differ in the mask, the flags and the capability sets, restrictively.\<close>

definition flag_change :: "task_creds \<Rightarrow> task_creds \<Rightarrow> bool" where
  "flag_change c c' \<longleftrightarrow> mask_ok c' \<and> (\<forall>n. mask_allows c' n \<longrightarrow> mask_allows c n) \<and>
     (no_new_privs c \<longrightarrow> no_new_privs c') \<and> cap_effective c' AND NOT (cap_permitted c') = 0 \<and>
     cap_permitted c' AND NOT (cap_permitted c) = 0 \<and>
     c_uid c' = c_uid c \<and> c_euid c' = c_euid c \<and> c_suid c' = c_suid c \<and> c_gid c' = c_gid c \<and>
     c_egid c' = c_egid c \<and> c_sgid c' = c_sgid c \<and> c_fsuid c' = c_fsuid c \<and> c_fsgid c' = c_fsgid c \<and>
     c_groups c' = c_groups c \<and> c_ngroups c' = c_ngroups c"

lemma flag_change_same:
  assumes "creds_ok c" and "mask_ok c'" and "mask_allows c' = mask_allows c" and "no_new_privs c \<longrightarrow> no_new_privs c'"
    and "cap_effective c' = cap_effective c" "cap_permitted c' = cap_permitted c"
    and "c_uid c' = c_uid c" "c_euid c' = c_euid c" "c_suid c' = c_suid c" "c_gid c' = c_gid c"
     "c_egid c' = c_egid c" "c_sgid c' = c_sgid c" "c_fsuid c' = c_fsuid c" "c_fsgid c' = c_fsgid c"
     "c_groups c' = c_groups c" "c_ngroups c' = c_ngroups c"
  shows "flag_change c c'"
  using assms by (simp add: flag_change_def creds_ok_def)

lemma safe_flags:
  assumes "task_ok t" and "t_creds t = Some c" and "flag_change c c'" and "t_creds t' = Some c'"
    and "t_uid t' = t_uid t" "t_euid t' = t_euid t" "t_suid t' = t_suid t" "t_gid t' = t_gid t"
     "t_egid t' = t_egid t" "t_sgid t' = t_sgid t" "t_fsuid t' = t_fsuid t" "t_fsgid t' = t_fsgid t"
     "t_groups t' = t_groups t" "t_ngroups t' = t_ngroups t" and "c_pgid c' = t_pgid t'" "c_sid c' = t_sid t'"
  shows "safe t t'"
proof -
  have r: "root_like t' = root_like t" "within t t'"
    using assms by (simp_all add: root_like_def within_defs)
  have "cap_permitted c' = 0" if "cap_permitted c = 0"
    using that assms(3) by (simp add: flag_change_def)
  then have "task_ok t'"
    using assms r by (auto simp: task_ok_def creds_ok_def mirrors_def flag_change_def)
  then show ?thesis
    using assms r by (simp add: safe_def restricts_def no_gain_def allowed_mask creds_get_no_new_privs_def flag_change_def)
qed

lemma safe_with_flags:
  assumes "with_creds err al (Some t) f = (r, Some t')" and "task_ok t"
    and "\<And>t1 c r t'. t_creds t1 = Some c \<Longrightarrow> creds_ok c \<Longrightarrow> f t1 c = (r, t') \<Longrightarrow>
      t' = t1 \<or> (\<exists>c'. flag_change c c' \<and> c_pgid c' = c_pgid c \<and> c_sid c' = c_sid c \<and> t' = t1\<lparr>t_creds := Some c'\<rparr>)"
  shows "safe t t'"
  using assms(1,2)
proof (cases rule: with_creds_cases)
  case 1
  then show ?thesis using assms(2) by (simp add: safe_refl)
next
  case (2 c t1)
  have "c_pgid c = t_pgid t1" "c_sid c = t_sid t1" using 2(2,3) by (simp_all add: task_ok_def mirrors_def)
  then have "safe t1 t'" if "t' = t1\<lparr>t_creds := Some c'\<rparr>" "flag_change c c'" "c_pgid c' = c_pgid c" "c_sid c' = c_sid c" for c'
    using that by (intro safe_flags [OF 2(2,3) that(2)]) simp_all
  then have "safe t1 t'" using assms(3) [OF 2(3,4,7)] safe_refl [OF 2(2)] by blast
  with safe_get [OF assms(2) 2(1)] show ?thesis by (rule safe_trans)
qed

lemma mask_bit_word:
  "bit (mask_word m words dflt i) b = (if i < words then bit (m ! i) b else dflt)" if "b < 64"
  using that by (simp add: mask_word_def bit_minus_1_iff)

text \<open>
  Installing a mask intersects it with the one in force: word by word up to the longer of
  the two, and by the default beyond.
\<close>

definition masked :: "task_creds \<Rightarrow> u64 list \<Rightarrow> nat \<Rightarrow> bool \<Rightarrow> task_creds" where
  "masked c m wc d =
     (let ow = (if syscall_mask_words c > wc then syscall_mask_words c else wc)
      in c\<lparr>syscall_mask := Some (map (\<lambda>i. mask_word m wc d i AND existing_word c i) [0..<ow]),
           syscall_mask_words := ow,
           syscall_mask_default_allow := (d \<and> (syscall_filter_mode c = 0 \<or> syscall_mask_default_allow c)),
           syscall_filter_mode := 2\<rparr>)"

lemma mask_allows_masked:
  assumes "mask_ok c" and "0 < wc"
  shows "mask_allows (masked c m wc d) n \<longleftrightarrow> mask_allows c n \<and> mask_bit m wc d n"
proof (cases "syscall_mask c")
  case None
  then have "syscall_filter_mode c = 0" "syscall_mask_words c = 0" using assms(1) by (simp_all add: mask_ok_def)
  with None show ?thesis
    by (simp add: masked_def mask_allows_def existing_word_def mask_bit_def bit_and_iff mask_bit_word bit_minus_1_iff Let_def)
next
  case (Some e)
  then have "syscall_filter_mode c \<noteq> 0" using assms(1) by (simp add: mask_ok_def)
  with Some show ?thesis
    by (auto simp: masked_def mask_allows_def existing_word_def mask_bit_def bit_and_iff mask_bit_word Let_def)
qed

lemma flag_change_masked:
  assumes "creds_ok c" and "0 < wc"
  shows "flag_change c (masked c m wc d)"
proof -
  have "mask_ok (masked c m wc d)" by (simp add: mask_ok_def masked_def Let_def)
  moreover have "\<forall>n. mask_allows (masked c m wc d) n \<longrightarrow> mask_allows c n"
    using assms by (simp add: mask_allows_masked creds_ok_def)
  ultimately show ?thesis using assms(1)
    by (simp add: flag_change_def creds_ok_def) (simp add: masked_def Let_def)
qed

lemma set_mask_cases:
  assumes "creds_set_syscall_mask_ex al (Some t) um wc d = (r, Some t')" and "task_ok t"
  shows "r \<noteq> 0 \<and> (t' = t \<or> (\<exists>c. get_task_creds al t = (Some c, t'))) \<or>
    (\<exists>m c t1. r = 0 \<and> um = Some m \<and> 0 < wc \<and> (d = 0 \<or> d = 1) \<and> get_task_creds al t = (Some c, t1) \<and>
       t' = t1\<lparr>t_creds := Some (masked c m wc (d = 1))\<rparr>)"
proof (cases um)
  case None
  then show ?thesis using assms by (simp add: creds_set_syscall_mask_ex_def)
next
  case (Some m)
  show ?thesis
  proof (cases "wc = 0 \<or> d < 0 \<or> d > 1 \<or> wc > SIZE_MAX div 8")
    case True
    then have "r = - EINVAL \<and> t' = t" using assms(1) Some
      by (cases "wc = 0 \<or> d < 0 \<or> d > 1") (auto simp: creds_set_syscall_mask_ex_def)
    then show ?thesis by simp
  next
    case False
    then have "with_creds ENOMEM al (Some t) (\<lambda>t c.
          (let output_words = (if syscall_mask_words c > wc then syscall_mask_words c else wc)
           in if output_words > SIZE_MAX div 8 then (- EINVAL, t)
              else if \<not> al 2 then (- ENOMEM, t)
              else (0, t\<lparr>t_creds := Some (masked c m wc (d = 1))\<rparr>))) = (r, Some t')"
      using assms(1) Some unfolding creds_set_syscall_mask_ex_def masked_def Let_def by simp
    from this assms(2) show ?thesis
    proof (cases rule: with_creds_cases)
      case 1
      then show ?thesis by simp
    next
      case (2 c t1)
      moreover have "d = 0 \<or> d = 1" "0 < wc" using False by auto
      ultimately show ?thesis using Some by (auto simp: Let_def split: if_splits)
    qed
  qed
qed

lemma set_mask_safe:
  assumes "creds_set_syscall_mask_ex al (Some t) um wc d = (r, Some t')" and "task_ok t"
  shows "safe t t'"
proof -
  consider "t' = t" | c where "get_task_creds al t = (Some c, t')"
    | m c t1 where "0 < wc" "get_task_creds al t = (Some c, t1)" "t' = t1\<lparr>t_creds := Some (masked c m wc (d = 1))\<rparr>"
    using set_mask_cases [OF assms] by blast
  then show ?thesis
  proof cases
    case (3 m c t1)
    from get_task_creds_ok [OF assms(2) 3(2)] have ok: "task_ok t1" "t_creds t1 = Some c" "creds_ok c" by auto
    have "mirrors c t1" using ok(1,2) by (simp add: task_ok_def)
    then have "safe t1 t'" unfolding 3(3)
      by (intro safe_flags [OF ok(1,2) flag_change_masked [OF ok(3) 3(1)]]) (simp_all add: mirrors_def masked_def Let_def)
    with safe_get [OF assms(2) 3(2)] show ?thesis by (rule safe_trans)
  qed (use assms(2) in \<open>auto intro: safe_refl safe_get\<close>)
qed

lemma strict_safe:
  assumes "creds_set_strict_syscalls al (Some t) = (r, Some t')" and "task_ok t"
  shows "safe t t'"
proof -
  obtain t1 where s: "creds_set_syscall_mask_ex al (Some t) (Some strict_mask) 5 0 = (r, Some t1)"
    and t': "t' = (if r = 0 then t1\<lparr>t_creds := map_option (\<lambda>c. c\<lparr>syscall_filter_mode := 1\<rparr>) (t_creds t1)\<rparr> else t1)"
    using assms(1) by (auto simp: creds_set_strict_syscalls_def creds_set_syscall_mask_def split: prod.splits if_splits)
  note s1 = set_mask_safe [OF s assms(2)]
  show ?thesis
  proof (cases "r = 0")
    case True
    with set_mask_cases [OF s assms(2)] obtain c where c: "t_creds t1 = Some (masked c strict_mask 5 False)"
      by auto
    have ok: "task_ok t1" using s1 by (simp add: safe_def restricts_def)
    let ?c = "masked c strict_mask 5 False"
    have "creds_ok ?c" using ok c by (simp add: task_ok_def)
    moreover have "mask_ok (?c\<lparr>syscall_filter_mode := 1\<rparr>)" using \<open>creds_ok ?c\<close>
      by (simp add: creds_ok_def mask_ok_def masked_def Let_def)
    moreover have "mask_allows (?c\<lparr>syscall_filter_mode := 1\<rparr>) = mask_allows ?c" by (rule mask_allows_cong) simp_all
    ultimately have "flag_change ?c (?c\<lparr>syscall_filter_mode := 1\<rparr>)" by (intro flag_change_same) simp_all
    moreover have "c_pgid ?c = t_pgid t1" "c_sid ?c = t_sid t1" using ok c by (simp_all add: task_ok_def mirrors_def)
    ultimately have "safe t1 t'" using True t' c
      by (intro safe_flags [OF ok c, where c' = "?c\<lparr>syscall_filter_mode := 1\<rparr>"]) simp_all
    with s1 show ?thesis by (rule safe_trans)
  qed (use s1 t' in simp)
qed

lemma flag_change_simple:
  assumes "creds_ok c"
  shows "flag_change c (c\<lparr>no_new_privs := True\<rparr>)" and "flag_change c (c\<lparr>dumpable := d\<rparr>)"
    and "flag_change c (c\<lparr>c_sid := p, c_pgid := q\<rparr>)"
proof -
  have "mask_ok (c\<lparr>no_new_privs := True\<rparr>)" "mask_ok (c\<lparr>dumpable := d\<rparr>)" "mask_ok (c\<lparr>c_sid := p, c_pgid := q\<rparr>)"
    using assms by (auto simp: creds_ok_def intro: mask_ok_cong [where c = c, THEN iffD2])
  moreover have "mask_allows (c\<lparr>no_new_privs := True\<rparr>) = mask_allows c" "mask_allows (c\<lparr>dumpable := d\<rparr>) = mask_allows c"
     "mask_allows (c\<lparr>c_sid := p, c_pgid := q\<rparr>) = mask_allows c"
    by (rule mask_allows_cong, simp_all)+
  ultimately show "flag_change c (c\<lparr>no_new_privs := True\<rparr>)" "flag_change c (c\<lparr>dumpable := d\<rparr>)"
    "flag_change c (c\<lparr>c_sid := p, c_pgid := q\<rparr>)"
    by (auto intro!: flag_change_same simp: assms)
qed

lemma no_new_privs_safe:
  assumes "creds_set_no_new_privs al (Some t) = (r, Some t')" and "task_ok t"
  shows "safe t t'"
  using assms(1)
  by (simp add: creds_set_no_new_privs_def)
     (erule safe_with_flags [OF _ assms(2)], use flag_change_simple(1) in fastforce)

lemma dumpable_safe:
  assumes "creds_set_dumpable al (Some t) d = (r, Some t')" and "task_ok t"
  shows "safe t t'"
proof (cases "d \<noteq> 0 \<and> d \<noteq> 1")
  case True
  then show ?thesis using assms by (simp add: creds_set_dumpable_def safe_refl)
next
  case False
  with assms(1) have w: "with_creds ENOMEM al (Some t) (\<lambda>t c. (0, t\<lparr>t_creds := Some (c\<lparr>dumpable := d\<rparr>)\<rparr>)) = (r, Some t')"
    by (simp add: creds_set_dumpable_def)
  show ?thesis by (rule safe_with_flags [OF w assms(2)]) (use flag_change_simple(2) in fastforce)
qed

lemma setsid_safe:
  assumes "sys_setsid (Some t) = (r, Some t')" and "task_ok t"
  shows "safe t t'"
proof (cases "t_creds t")
  case None
  let ?u = "t\<lparr>t_creds := None, t_sid := t_pid t, t_pgid := t_pid t\<rparr>"
  have "safe t ?u"
    using assms(2) None by (intro safe_bare) (simp_all add: task_ok_def within_defs)
  moreover have "t' = t \<or> t' = ?u"
    using assms(1) None by (auto simp: sys_setsid_def Let_def split: if_splits)
  ultimately show ?thesis using assms(2) by (auto intro: safe_refl)
next
  case (Some c)
  have "creds_ok c" using Some assms(2) by (simp add: task_ok_def)
  then show ?thesis
    using assms Some by (auto simp: sys_setsid_def Let_def split: if_splits
        intro!: safe_flags [OF assms(2) Some flag_change_simple(3)] safe_refl)
qed

lemma capset_safe:
  assumes "sys_capset um al h d (Some t) = (r, Some t')" and "task_ok t"
  shows "safe t t'"
proof -
  consider "t' = t" | e p i where "e AND NOT p = 0" "with_creds ENOMEM al (Some t) (\<lambda>t c.
      if p AND NOT (cap_permitted c) \<noteq> 0 then (- EPERM, t)
      else (0, t\<lparr>t_creds := Some (c\<lparr>cap_effective := e, cap_permitted := p, cap_inheritable := i\<rparr>)\<rparr>)) = (r, Some t')"
    using assms(1) by (auto simp: sys_capset_def Let_def split: if_splits option.splits)
  then show ?thesis
  proof cases
    case 1
    then show ?thesis using assms(2) by (simp add: safe_refl)
  next
    case (2 e p i)
    show ?thesis
    proof (rule safe_with_flags [OF 2(2) assms(2)], goal_cases)
      case (1 t1 c r t')
      have "flag_change c (c\<lparr>cap_effective := e, cap_permitted := p, cap_inheritable := i\<rparr>)"
        if "p AND NOT (cap_permitted c) = 0"
      proof -
        let ?c = "c\<lparr>cap_effective := e, cap_permitted := p, cap_inheritable := i\<rparr>"
        have "mask_ok ?c" using 1(2) by (auto simp: creds_ok_def intro: mask_ok_cong [where c = c, THEN iffD2])
        moreover have "mask_allows ?c = mask_allows c" by (rule mask_allows_cong) simp_all
        ultimately show ?thesis using that 2(1) by (simp add: flag_change_def)
      qed
      with 1(3) show ?case by (auto split: if_splits)
    qed
  qed
qed


subsection \<open>Every call, exec and fork\<close>

lemma do_call_safe: "do_call um al c t = (r, Some t') \<Longrightarrow> task_ok t \<Longrightarrow> safe t t'"
  by (cases c)
     (auto intro: setuid_safe setgid_safe seteuid_safe setegid_safe setreuid_safe setregid_safe setresuid_safe
        setresgid_safe setfsuid_safe setfsgid_safe setgroups_safe setsid_safe set_mask_safe strict_safe
        no_new_privs_safe dumpable_safe capset_safe)

text \<open>The credentials an exec leaves, from those it found or made.\<close>

definition exec_creds :: "u64 \<Rightarrow> u64 \<Rightarrow> bool \<Rightarrow> u64 \<Rightarrow> task_creds \<Rightarrow> task_creds" where
  "exec_creds euid egid changed uid c =
     (let c1 = c\<lparr>dumpable := (if changed then 0 else 1), c_euid := euid, c_suid := euid,
                 c_fsuid := euid, c_egid := egid, c_sgid := egid, c_fsgid := egid\<rparr>
      in if euid = 0 then c1\<lparr>cap_effective := CAP_FULL_SET, cap_permitted := CAP_FULL_SET\<rparr>
         else if uid \<noteq> 0 then c1\<lparr>cap_effective := 0, cap_permitted := 0\<rparr>
         else c1\<lparr>cap_effective := 0\<rparr>)"

lemma exec_creds_simps [simp]:
  "c_uid (exec_creds e g ch u c) = c_uid c" "c_euid (exec_creds e g ch u c) = e"
  "c_suid (exec_creds e g ch u c) = e" "c_fsuid (exec_creds e g ch u c) = e"
  "c_gid (exec_creds e g ch u c) = c_gid c" "c_egid (exec_creds e g ch u c) = g"
  "c_sgid (exec_creds e g ch u c) = g" "c_fsgid (exec_creds e g ch u c) = g"
  "c_groups (exec_creds e g ch u c) = c_groups c" "c_ngroups (exec_creds e g ch u c) = c_ngroups c"
  "c_pgid (exec_creds e g ch u c) = c_pgid c" "c_sid (exec_creds e g ch u c) = c_sid c"
  "syscall_mask (exec_creds e g ch u c) = syscall_mask c"
  "syscall_mask_words (exec_creds e g ch u c) = syscall_mask_words c"
  "syscall_mask_default_allow (exec_creds e g ch u c) = syscall_mask_default_allow c"
  "syscall_filter_mode (exec_creds e g ch u c) = syscall_filter_mode c"
  "no_new_privs (exec_creds e g ch u c) = no_new_privs c"
  by (simp_all add: exec_creds_def Let_def)

lemma exec_creds_caps:
  "e = 0 \<Longrightarrow> cap_effective (exec_creds e g ch u c) = CAP_FULL_SET \<and> cap_permitted (exec_creds e g ch u c) = CAP_FULL_SET"
  "e \<noteq> 0 \<Longrightarrow> cap_effective (exec_creds e g ch u c) = 0"
  "e \<noteq> 0 \<Longrightarrow> u \<noteq> 0 \<Longrightarrow> cap_permitted (exec_creds e g ch u c) = 0"
  by (simp_all add: exec_creds_def Let_def)

definition exec_ids :: "u64 \<Rightarrow> u64 \<Rightarrow> task \<Rightarrow> task" where
  "exec_ids euid egid t = t\<lparr>t_euid := euid, t_suid := euid, t_fsuid := euid,
     t_egid := egid, t_sgid := egid, t_fsgid := egid\<rparr>"

lemma exec_with_creds:
  assumes "t_creds t = Some c"
  obtains euid egid ch where
    "creds_apply_exec_ids al t euid0 egid0 = (exec_ids euid egid t)\<lparr>t_creds := Some (exec_creds euid egid ch (t_uid t) c)\<rparr>"
    and "no_new_privs c \<Longrightarrow> euid = t_euid t \<and> egid = t_egid t"
    and "\<not> no_new_privs c \<Longrightarrow> euid = euid0 \<and> egid = egid0"
proof -
  define euid where "euid = (if no_new_privs c then t_euid t else euid0)"
  define egid where "egid = (if no_new_privs c then t_egid t else egid0)"
  define ch where "ch = (euid \<noteq> t_euid t \<or> egid \<noteq> t_egid t)"
  have "creds_apply_exec_ids al t euid0 egid0 =
      (exec_ids euid egid t)\<lparr>t_creds := Some (exec_creds euid egid ch (t_uid t) c)\<rparr>"
    unfolding euid_def egid_def ch_def
    using assms by (simp add: creds_apply_exec_ids_def Let_def exec_ids_def exec_creds_def)
  then show ?thesis by (rule that) (simp_all add: euid_def egid_def)
qed

lemma exec_creds_ok:
  assumes "task_ok t" and "t_creds t = Some c"
  shows "task_ok ((exec_ids euid egid t)\<lparr>t_creds := Some (exec_creds euid egid ch (t_uid t) c)\<rparr>)" (is "task_ok ?t")
proof -
  have "mask_ok (exec_creds euid egid ch (t_uid t) c) = mask_ok c" by (rule mask_ok_cong) simp_all
  then show ?thesis
    using assms exec_creds_caps [where e = euid and g = egid and ch = ch and u = "t_uid t" and c = c]
    by (cases "euid = 0") (auto simp: task_ok_def creds_ok_def mirrors_def exec_ids_def root_like_def)
qed


lemma exec_restricts:
  assumes "task_ok t"
  shows "restricts t (creds_apply_exec_ids al t euid0 egid0)"
    and "creds_get_no_new_privs (Some t) \<Longrightarrow> no_gain t (creds_apply_exec_ids al t euid0 egid0)"
proof -
  have with_c: "restricts t (creds_apply_exec_ids al t euid0 egid0) \<and>
      (no_new_privs c \<longrightarrow> no_gain t (creds_apply_exec_ids al t euid0 egid0))"
    if ok: "task_ok t" and c: "t_creds t = Some c" for t c
  proof (rule exec_with_creds [OF c, of al euid0 egid0])
    fix euid egid ch
    assume e: "creds_apply_exec_ids al t euid0 egid0 =
        (exec_ids euid egid t)\<lparr>t_creds := Some (exec_creds euid egid ch (t_uid t) c)\<rparr>"
      and n: "no_new_privs c \<Longrightarrow> euid = t_euid t \<and> egid = t_egid t"
    have "mask_allows (exec_creds euid egid ch (t_uid t) c) = mask_allows c" by (rule mask_allows_cong) simp_all
    then show ?thesis
      using exec_creds_ok [OF ok c, of euid egid ch] c n
      by (auto simp: e restricts_def no_gain_def within_defs allowed_mask creds_get_no_new_privs_def exec_ids_def)
  qed
  show "restricts t (creds_apply_exec_ids al t euid0 egid0)"
  proof (cases "t_creds t")
    case (Some c)
    with with_c [OF assms] show ?thesis by simp
  next
    case None
    show ?thesis
    proof (cases "(euid0 \<noteq> t_euid t \<or> egid0 \<noteq> t_egid t) \<and> fst (get_task_creds al t) \<noteq> None")
      case True
      then obtain c t1 where g: "get_task_creds al t = (Some c, t1)" by (cases "get_task_creds al t") auto
      note ok = get_task_creds_ok [OF assms g]
      have "creds_apply_exec_ids al t1 euid0 egid0 = creds_apply_exec_ids al t euid0 egid0"
        using ok True g None by (simp add: creds_apply_exec_ids_def Let_def)
      moreover have "restricts t t1" using safe_get [OF assms g] by (simp add: safe_def)
      moreover have "restricts t1 (creds_apply_exec_ids al t1 euid0 egid0)" using with_c ok by auto
      ultimately show ?thesis by (auto simp: restricts_def)
    next
      case False
      then have "creds_apply_exec_ids al t euid0 egid0 = exec_ids euid0 egid0 t"
        using None get_task_creds_none [of al t]
        by (cases "get_task_creds al t") (auto simp: creds_apply_exec_ids_def Let_def exec_ids_def)
      then show ?thesis
        using None assms by (simp add: restricts_def task_ok_def exec_ids_def allowed_mask creds_get_no_new_privs_def)
    qed
  qed
  show "no_gain t (creds_apply_exec_ids al t euid0 egid0)" if "creds_get_no_new_privs (Some t)"
    using that with_c [OF assms] by (auto simp: creds_get_no_new_privs_def split: option.splits)
qed

text \<open>
  A successful fork gives the child the credentials of its parent, whatever the child
  structure held before.
\<close>

lemma copy_with_creds:
  assumes "t_creds p = Some pc" and "creds_copy_task al p child = (0, t')" and "creds_ok pc"
  shows "t_creds t' = Some pc" and "mirrors pc t'"
proof -
  have g: "(if c_groups pc \<noteq> None \<and> c_ngroups pc > 0
      then map_option (take (nat (c_ngroups pc))) (c_groups pc) else None) = c_groups pc"
    using assms(3) by (auto simp: creds_ok_def groups_ok_def split: option.splits)
  have m: "map_option (take (syscall_mask_words pc)) (syscall_mask pc) = syscall_mask pc"
    using assms(3) by (auto simp: creds_ok_def mask_ok_def split: option.splits)
  have "t_creds t' = Some pc \<and> mirrors pc t'"
    using assms(1,2) g m
    by (auto simp: creds_copy_task_def Let_def mirrors_def split: if_splits)
  then show "t_creds t' = Some pc" "mirrors pc t'" by simp_all
qed

lemma copy_without_creds:
  assumes "t_creds p = None"
  shows "creds_copy_task al p child = (0, (ids_from p child)\<lparr>t_creds := None\<rparr>)"
  using assms by (simp add: creds_copy_task_def Let_def)

lemma fork_safe:
  assumes "task_ok p" and "creds_copy_task al p child = (0, t')"
  shows "safe p t'"
proof (cases "t_creds p")
  case None
  then have "t' = (ids_from p child)\<lparr>t_creds := None\<rparr>" using assms(2) by (simp add: copy_without_creds)
  then show ?thesis using None assms(1)
    by (intro safe_bare) (simp_all add: ids_from_def within_defs task_ok_def)
next
  case (Some pc)
  then have ok: "creds_ok pc" "mirrors pc p" using assms(1) by (simp_all add: task_ok_def)
  note c = copy_with_creds [OF Some assms(2) ok(1)]
  have "within p t'" "root_like t' = root_like p"
    using c(2) ok(2) by (simp_all add: within_defs root_like_def mirrors_def)
  then show ?thesis using c Some assms(1)
    by (simp add: safe_def restricts_def no_gain_def task_ok_def allowed_mask creds_get_no_new_privs_def)
qed

text \<open>setpgid leaves every task as it was, or changes its process group only, in both places.\<close>

lemma task_find_upd:
  "task_find (upd_task u ts) p = (if t_pid u = p then map_option (\<lambda>_. u) (task_find ts p) else task_find ts p)"
  by (induction ts) (auto simp: task_find_def upd_task_def)

lemma task_find_pid: "task_find ts p = Some t \<Longrightarrow> t_pid t = p"
  by (auto simp: task_find_def find_Some_iff)

lemma setpgid_cases:
  assumes "sys_setpgid ts cur pid0 pgid0 = (r, ts')"
  obtains "ts' = ts" "r \<noteq> 0"
  | me pid pgid u where "r = 0" "Option.bind cur (task_find ts) = Some me" "pid = (if pid0 = 0 then t_pid me else pid0)"
      "pgid = (if pgid0 = 0 then pid else pgid0)" "0 < pgid" "task_find ts pid = Some u"
      "ts' = upd_task (u\<lparr>t_creds := map_option (\<lambda>c. c\<lparr>c_pgid := pgid\<rparr>) (t_creds u), t_pgid := pgid\<rparr>) ts"
proof (cases "ts' = ts \<and> r \<noteq> 0")
  case False
  then obtain me where me: "Option.bind cur (task_find ts) = Some me"
    using assms by (cases "Option.bind cur (task_find ts)") (auto simp: sys_setpgid_def)
  define pid where "pid = (if pid0 = 0 then t_pid me else pid0)"
  define pgid where "pgid = (if pgid0 = 0 then pid else pgid0)"
  note a = assms [unfolded sys_setpgid_def me option.case Let_def, folded pid_def, folded pgid_def]
  have "0 < pgid" using a False by (auto split: if_splits)
  moreover obtain u where u: "task_find ts pid = Some u"
    using a False by (cases "task_find ts pid") (auto split: if_splits)
  moreover have "r = 0 \<and> ts' = upd_task (u\<lparr>t_creds := map_option (\<lambda>c. c\<lparr>c_pgid := pgid\<rparr>) (t_creds u), t_pgid := pgid\<rparr>) ts"
    using a False unfolding u option.case by (simp split: if_splits)
  ultimately show ?thesis using me pid_def pgid_def by (intro that(2)) simp_all
qed (use that(1) in blast)

lemma setpgid_changes:
  assumes "task_find ts p = Some t" and "sys_setpgid ts cur pid0 pgid0 = (r, ts')" and "task_find ts' p = Some t'"
  shows "t' = t \<or> (\<exists>pgid > 0. t' = t\<lparr>t_creds := map_option (\<lambda>c. c\<lparr>c_pgid := pgid\<rparr>) (t_creds t), t_pgid := pgid\<rparr>)"
  using assms(2)
proof (cases rule: setpgid_cases)
  case (2 me pid pgid u)
  then show ?thesis using assms(1,3) task_find_pid [OF 2(6)]
    by (cases "pid = p") (auto simp: task_find_upd)
qed (use assms in simp)

lemma setpgid_safe:
  assumes "task_find ts p = Some t" and "sys_setpgid ts cur pid0 pgid0 = (r, ts')" and "task_find ts' p = Some t'"
    and ok: "task_ok t"
  shows "safe t t'"
proof (cases "t' = t")
  case False
  with setpgid_changes [OF assms(1-3)] obtain q where
    q: "0 < q" "t' = t\<lparr>t_creds := map_option (\<lambda>c. c\<lparr>c_pgid := q\<rparr>) (t_creds t), t_pgid := q\<rparr>" by blast
  show ?thesis
  proof (cases "t_creds t")
    case None
    then show ?thesis using q ok by (auto simp: task_ok_def within_defs intro!: safe_bare)
  next
    case (Some c)
    then have "creds_ok c" and sid: "c_sid c = t_sid t" using ok by (simp_all add: task_ok_def mirrors_def)
    then have "flag_change c (c\<lparr>c_sid := c_sid c, c_pgid := q\<rparr>)" by (intro flag_change_simple(3))
    then have f: "flag_change c (c\<lparr>c_pgid := q\<rparr>)" by simp
    show ?thesis using q Some sid by (intro safe_flags [OF ok Some f]) simp_all
  qed
qed (use ok in \<open>simp add: safe_refl\<close>)

lemma step_restricts: "cred_step t t' \<Longrightarrow> task_ok t \<Longrightarrow> restricts t t'"
  by (induction rule: cred_step.induct)
     (auto dest: do_call_safe fork_safe exec_restricts(1) setpgid_safe simp: safe_def)

lemma step_no_gain:
  "cred_step t t' \<Longrightarrow> task_ok t \<Longrightarrow> creds_get_no_new_privs (Some t) \<Longrightarrow> no_gain t t'"
  by (induction rule: cred_step.induct)
     (auto dest: do_call_safe fork_safe exec_restricts(2) setpgid_safe simp: safe_def)

text \<open>
  Runs of a task: masks and no\_new\_privs only tighten; and under no\_new\_privs no user id is
  gained either.
\<close>

interpretation runs: monotone_system cred_step task_ok restricts
  by unfold_locales (auto simp: restricts_def dest: step_restricts)

interpretation confined: monotone_system cred_step
  "\<lambda>t. task_ok t \<and> creds_get_no_new_privs (Some t)" safe
  by unfold_locales
     (auto simp: safe_refl dest: step_restricts step_no_gain intro: safe_trans, auto simp: safe_def restricts_def dest: step_restricts step_no_gain)

lemma init_ok: "task_ok (creds_init_task t)"
  by (simp add: task_ok_def creds_init_task_def)

subsection \<open>Correctness of the credentials\<close>

definition cred_reachable :: "task \<Rightarrow> bool" where
  "cred_reachable t \<longleftrightarrow> (\<exists>t0. cred_step\<^sup>*\<^sup>* (creds_init_task t0) t)"

lemma reachable_ok: "cred_reachable t \<Longrightarrow> task_ok t"
  using runs.run_ok init_ok by (auto simp: cred_reachable_def)

lemma reachable_run: "cred_reachable t \<Longrightarrow> cred_step\<^sup>*\<^sup>* t t' \<Longrightarrow> cred_reachable t'"
  by (auto simp: cred_reachable_def intro: rtranclp_trans)

lemma reachable_call: "cred_reachable t \<Longrightarrow> do_call um al c t = (r, Some t') \<Longrightarrow> cred_reachable t'"
  using reachable_run [of t t'] cred_step.call [of um al c t r t'] by blast

lemma no_capability:
  assumes "task_ok t" and "\<not> root_like t"
  shows "\<not> creds_has_capability (Some t) k"
proof (cases "t_creds t")
  case None
  then show ?thesis using assms(2) by (simp add: creds_has_capability_def root_like_def)
next
  case (Some c)
  with assms have p: "cap_permitted c = 0" and "cap_effective c AND NOT (cap_permitted c) = 0"
    by (auto simp: task_ok_def creds_ok_def)
  then have "cap_effective c AND NOT 0 = 0" by (simp only: p)
  then have "cap_effective c = 0" by simp
  with Some show ?thesis by (simp add: creds_has_capability_def)
qed

text \<open>Two tasks for the examples: a fresh one, and one that became user 1000 for good.\<close>

definition demo_root :: task where
  "demo_root = creds_init_task \<lparr>t_pid = 7, t_ppid = 1, t_uid = 0, t_gid = 0, t_euid = 0, t_egid = 0, t_suid = 0,
     t_sgid = 0, t_fsuid = 0, t_fsgid = 0, t_groups = None, t_ngroups = 0, t_pgid = 0, t_sid = 0, t_creds = None\<rparr>"

definition demo_um :: user_memory where
  "demo_um = \<lparr>um_read = (\<lambda>a n. Some (replicate n 1)), um_writable = (\<lambda>a n. True)\<rparr>"

definition demo_user :: task where
  "demo_user = the (snd (do_call demo_um (\<lambda>_. True) Set_no_new_privs
     (the (snd (do_call demo_um (\<lambda>_. True) (Setresuid 1000 1000 1000) demo_root)))))"

lemma demo_tasks_reachable: "cred_reachable demo_root" "cred_reachable demo_user"
proof -
  show r: "cred_reachable demo_root" unfolding cred_reachable_def demo_root_def by blast
  have s: "snd (do_call demo_um (\<lambda>_. True) (Setresuid 1000 1000 1000) demo_root) \<noteq> None"
    by (simp add: sys_setresuid_def with_creds_def get_task_creds_def demo_root_def creds_init_task_def
        fresh_creds_def zero_creds_def Let_def)
  then obtain x t1 where t1: "do_call demo_um (\<lambda>_. True) (Setresuid 1000 1000 1000) demo_root = (x, Some t1)"
    by (metis option.exhaust prod.exhaust_sel)
  have "snd (do_call demo_um (\<lambda>_. True) Set_no_new_privs t1) \<noteq> None"
    by (simp add: creds_set_no_new_privs_def with_creds_def split: prod.splits option.splits)
  then obtain y t2 where "do_call demo_um (\<lambda>_. True) Set_no_new_privs t1 = (y, Some t2)"
    by (metis option.exhaust prod.exhaust_sel)
  moreover from this t1 have "demo_user = t2" unfolding demo_user_def by (simp only: snd_conv option.sel)
  ultimately show "cred_reachable demo_user" using reachable_call [OF reachable_call [OF r t1]] by blast
qed

lemma demo_user_simps:
  "t_uid demo_user = 1000" "t_euid demo_user = 1000" "t_suid demo_user = 1000"
  "creds_get_no_new_privs (Some demo_user)" "creds_syscall_allowed (Some demo_user) 5"
  by (simp_all add: demo_user_def sys_setresuid_def with_creds_def get_task_creds_def demo_root_def creds_init_task_def
        fresh_creds_def zero_creds_def Let_def sync_creds_to_task_def sync_fs_def sync_caps_def resuid_store_def
        creds_set_no_new_privs_def creds_get_no_new_privs_def creds_syscall_allowed_def)

text \<open>
  C25. In every state a task reaches by identity, group, capability, mask and session calls,
  setpgid of any task, execs and forks, the credentials block agrees with the task structure
  on all twelve mirrored fields (the eight identities, the groups and their number, the
  process group and the session), and its effective capabilities are permitted ones. Whatever
  the block holds, sync\_creds\_to\_task makes the task agree with it on all twelve, and alters
  of these in the block the file-system ids only, when the effective ids changed.
\<close>

theorem creds_agree:
  assumes "cred_reachable t" and "t_creds t = Some c"
  shows "c_uid c = t_uid t \<and> c_euid c = t_euid t \<and> c_suid c = t_suid t \<and> c_gid c = t_gid t \<and>
    c_egid c = t_egid t \<and> c_sgid c = t_sgid t \<and> c_fsuid c = t_fsuid t \<and> c_fsgid c = t_fsgid t \<and>
    c_groups c = t_groups t \<and> c_ngroups c = t_ngroups t \<and> c_pgid c = t_pgid t \<and> c_sid c = t_sid t \<and>
    cap_effective c AND NOT (cap_permitted c) = 0 \<and>
    (\<exists>c2. t_creds (sync_creds_to_task c1 t) = Some c2 \<and> mirrors c2 (sync_creds_to_task c1 t) \<and>
       c_uid c2 = c_uid c1 \<and> c_euid c2 = c_euid c1 \<and> c_suid c2 = c_suid c1 \<and> c_gid c2 = c_gid c1 \<and>
       c_egid c2 = c_egid c1 \<and> c_sgid c2 = c_sgid c1 \<and> c_groups c2 = c_groups c1 \<and>
       c_ngroups c2 = c_ngroups c1 \<and> c_pgid c2 = c_pgid c1 \<and> c_sid c2 = c_sid c1 \<and>
       c_fsuid c2 = (if c_euid c1 = t_euid t then c_fsuid c1 else c_euid c1) \<and>
       c_fsgid c2 = (if c_egid c1 = t_egid t then c_fsgid c1 else c_egid c1))"
proof -
  have "creds_ok c" "mirrors c t" using reachable_ok [OF assms(1)] assms(2) by (simp_all add: task_ok_def)
  then show ?thesis using sync_mirrors [of t c1] by (simp add: mirrors_def creds_ok_def)
qed

theorem creds_agree_witness: "\<exists>c. t_creds demo_user = Some c \<and> c_uid c = 1000"
proof -
  obtain c where "t_creds demo_user = Some c"
    using demo_user_simps(4) by (auto simp: creds_get_no_new_privs_def split: option.splits)
  with creds_agree [OF demo_tasks_reachable(2) this] demo_user_simps show ?thesis by simp
qed

text \<open>
  C5. A task with no\_new\_privs whose real, effective and saved user ids are all non-zero
  stays confined whatever it or its descendants do, exec of set-id files included: its user
  ids are among the three it had, and so are its group ids; its file-system ids are among
  those three and the one it had; its supplementary groups are the same; it has no
  capability, and no\_new\_privs stays set.
\<close>

theorem no_new_privs_confines:
  assumes "cred_reachable t" and "creds_get_no_new_privs (Some t)"
    and "t_uid t \<noteq> 0" "t_euid t \<noteq> 0" "t_suid t \<noteq> 0" and "cred_step\<^sup>*\<^sup>* t t'"
  shows "{t_uid t', t_euid t', t_suid t'} \<subseteq> {t_uid t, t_euid t, t_suid t} \<and>
    t_fsuid t' \<in> {t_uid t, t_euid t, t_suid t, t_fsuid t} \<and>
    {t_gid t', t_egid t', t_sgid t'} \<subseteq> {t_gid t, t_egid t, t_sgid t} \<and>
    t_fsgid t' \<in> {t_gid t, t_egid t, t_sgid t, t_fsgid t} \<and> t_groups t' = t_groups t \<and>
    creds_get_no_new_privs (Some t') \<and> \<not> creds_has_capability (Some t') k"
proof -
  note ok = reachable_ok [OF assms(1)]
  have "\<not> root_like t" using assms(3-5) by (simp add: root_like_def)
  then have w: "within t t'" using confined.run_rel [OF assms(6)] ok assms(2) by (simp add: safe_def no_gain_def)
  then have "\<not> root_like t'" using \<open>\<not> root_like t\<close> by (auto simp: root_like_uid_set within_def)
  with runs.run_rel [OF assms(6) ok] assms(2)
  have "creds_get_no_new_privs (Some t') \<and> \<not> creds_has_capability (Some t') k"
    by (simp add: restricts_def no_capability)
  with w show ?thesis unfolding within_defs by blast
qed

theorem no_new_privs_confines_witness:
  "\<forall>al. let t' = creds_apply_exec_ids al demo_user 0 0 in t_euid t' = 1000 \<and> \<not> creds_has_capability (Some t') 21"
proof (intro allI)
  fix al
  have "cred_step\<^sup>*\<^sup>* demo_user (creds_apply_exec_ids al demo_user 0 0)" by (blast intro: cred_step.exec)
  from no_new_privs_confines [OF demo_tasks_reachable(2) demo_user_simps(4) _ _ _ this, of 21] demo_user_simps
  show "let t' = creds_apply_exec_ids al demo_user 0 0 in t_euid t' = 1000 \<and> \<not> creds_has_capability (Some t') 21"
    by (simp add: Let_def)
qed

text \<open>
  C24. A system call that a task's mask denies stays denied to the task and to everything it
  forks or execs, whatever they do.
\<close>

theorem denied_stays_denied:
  assumes "cred_reachable t" and "\<not> creds_syscall_allowed (Some t) n" and "cred_step\<^sup>*\<^sup>* t t'"
  shows "\<not> creds_syscall_allowed (Some t') n"
  using runs.run_rel [OF assms(3) reachable_ok [OF assms(1)]] assms(2) by (auto simp: restricts_def)

theorem denied_stays_denied_witness:
  "\<exists>t. cred_reachable t \<and> \<not> creds_syscall_allowed (Some t) 2 \<and>
     (\<forall>al e g. \<not> creds_syscall_allowed (Some (creds_apply_exec_ids al t e g)) 2)"
proof -
  let ?r = "creds_set_syscall_mask_ex (\<lambda>_. True) (Some demo_root) (Some [1]) 1 0"
  obtain t where t: "?r = (0, Some t)" "\<not> creds_syscall_allowed (Some t) 2"
    by (simp add: creds_set_syscall_mask_ex_def with_creds_def get_task_creds_def demo_root_def creds_init_task_def
        fresh_creds_def zero_creds_def Let_def mask_word_def existing_word_def creds_syscall_allowed_def)
  have r: "cred_reachable t"
    using reachable_call [OF demo_tasks_reachable(1), of demo_um "\<lambda>_. True" "Set_mask (Some [1]) 1 0" 0 t] t(1) by simp
  have "\<not> creds_syscall_allowed (Some (creds_apply_exec_ids al t e g)) 2" for al e g
    by (rule denied_stays_denied [OF r t(2)]) (blast intro: cred_step.exec)
  with r t(2) show ?thesis by blast
qed

lemma set_mask_allowed:
  assumes "task_ok t" and "creds_set_syscall_mask_ex al (Some t) (Some m) wc d = (0, Some t')"
  shows "creds_syscall_allowed (Some t') n \<longleftrightarrow>
    creds_syscall_allowed (Some t) n \<and> mask_bit m wc (d = 1) (nat n)"
proof -
  from set_mask_cases [OF assms(2,1)] obtain c t1 where g: "get_task_creds al t = (Some c, t1)" "0 < wc"
    "t' = t1\<lparr>t_creds := Some (masked c m wc (d = 1))\<rparr>" by auto
  have c: "mask_ok c" "t_creds t = Some c \<or> t_creds t = None \<and> c = fresh_creds t None"
    using get_task_creds_ok [OF assms(1) g(1)] by (auto simp: creds_ok_def)
  have "mask_allows (fresh_creds t None) k" for k by (simp add: mask_allows_def)
  with c g show ?thesis by (auto simp: allowed_mask mask_allows_masked)
qed

lemma strict_mask_eq: "strict_mask = [0xb, 0x2000000000000000, 0, 0x4000000, 0]"
  by code_simp


lemma five: "k < 5 \<Longrightarrow> k = 0 \<or> k = 1 \<or> k = 2 \<or> k = 3 \<or> k = (4 :: nat)"
  by arith

lemma strict_bits: "mask_bit strict_mask 5 False n \<longleftrightarrow> n \<in> {0, 1, 3, 125, 218}"
proof -
  have b: "b < 64 \<Longrightarrow> bit (0xb :: u64) b \<longleftrightarrow> b \<in> {0, 1, 3}"
    "b < 64 \<Longrightarrow> bit (0x2000000000000000 :: u64) b \<longleftrightarrow> b = 61"
    "b < 64 \<Longrightarrow> bit (0x4000000 :: u64) b \<longleftrightarrow> b = 26" for b :: nat
  proof -
    have "(0xb :: u64) = push_bit 0 1 OR push_bit 1 1 OR push_bit 3 1"
      "(0x2000000000000000 :: u64) = push_bit 61 1" "(0x4000000 :: u64) = push_bit 26 1" by simp_all
    then show "b < 64 \<Longrightarrow> bit (0xb :: u64) b \<longleftrightarrow> b \<in> {0, 1, 3}"
      "b < 64 \<Longrightarrow> bit (0x2000000000000000 :: u64) b \<longleftrightarrow> b = 61"
      "b < 64 \<Longrightarrow> bit (0x4000000 :: u64) b \<longleftrightarrow> b = 26"
      by (simp_all only: bit_simps) auto
  qed
  have n: "n = 64 * (n div 64) + n mod 64" by simp
  show ?thesis
  proof (cases "n div 64 < 5")
    case True
    from five [OF True] show ?thesis
      using b(1) [of "n mod 64"] b(2) [of "n mod 64"] b(3) [of "n mod 64"]
      by (elim disjE; subst (2) n) (auto simp: mask_bit_def strict_mask_eq)
  next
    case False
    then have "n \<ge> 320" by (simp add: div_less_iff_less_mult not_less)
    then show ?thesis using False by (auto simp: mask_bit_def)
  qed
qed

text \<open>
  Installing a mask that succeeds allows exactly the calls that were allowed before and
  that the new mask allows, the calls beyond either mask by their defaults; strict mode
  leaves exactly exit, write, read, rt\_sigreturn and sigreturn of what was allowed.
\<close>

theorem mask_intersects:
  assumes "cred_reachable t" and "0 \<le> n"
  shows "(creds_set_syscall_mask_ex al (Some t) (Some m) wc d = (0, Some t') \<longrightarrow>
      (creds_syscall_allowed (Some t') n \<longleftrightarrow>
        creds_syscall_allowed (Some t) n \<and> mask_bit m wc (d = 1) (nat n))) \<and>
    (creds_set_strict_syscalls al (Some t) = (0, Some t') \<longrightarrow>
      (creds_syscall_allowed (Some t') n \<longleftrightarrow>
        creds_syscall_allowed (Some t) n \<and> n \<in> {0, 1, 3, 125, 218}))"
proof (intro conjI impI)
  note ok = reachable_ok [OF assms(1)]
  assume "creds_set_syscall_mask_ex al (Some t) (Some m) wc d = (0, Some t')"
  from set_mask_allowed [OF ok this] show "creds_syscall_allowed (Some t') n \<longleftrightarrow>
        creds_syscall_allowed (Some t) n \<and> mask_bit m wc (d = 1) (nat n)" .
next
  note ok = reachable_ok [OF assms(1)]
  assume "creds_set_strict_syscalls al (Some t) = (0, Some t')"
  then obtain t1 where s: "creds_set_syscall_mask_ex al (Some t) (Some strict_mask) 5 0 = (0, Some t1)"
    and t': "t' = t1\<lparr>t_creds := map_option (\<lambda>c. c\<lparr>syscall_filter_mode := 1\<rparr>) (t_creds t1)\<rparr>"
    by (auto simp: creds_set_strict_syscalls_def creds_set_syscall_mask_def split: prod.splits if_splits)
  have "mask_allows (c\<lparr>syscall_filter_mode := 1\<rparr>) = mask_allows c" for c by (rule mask_allows_cong) simp_all
  then have "creds_syscall_allowed (Some t') n = creds_syscall_allowed (Some t1) n"
    by (cases "t_creds t1") (simp_all add: t' allowed_mask)
  moreover have "nat n \<in> {0, 1, 3, 125, 218} \<longleftrightarrow> n \<in> {0, 1, 3, 125, 218}" using assms(2) by auto
  ultimately show "creds_syscall_allowed (Some t') n \<longleftrightarrow>
        creds_syscall_allowed (Some t) n \<and> n \<in> {0, 1, 3, 125, 218}"
    using set_mask_allowed [OF ok s, of n] strict_bits [of "nat n"] by simp
qed

theorem mask_intersects_witness:
  "\<exists>t'. creds_set_strict_syscalls (\<lambda>_. True) (Some demo_root) = (0, Some t') \<and>
     creds_syscall_allowed (Some t') 125 \<and> \<not> creds_syscall_allowed (Some t') 2"
proof -
  have "fst (creds_set_strict_syscalls (\<lambda>_. True) (Some demo_root)) = 0 \<and>
      snd (creds_set_strict_syscalls (\<lambda>_. True) (Some demo_root)) \<noteq> None"
    by (simp add: creds_set_strict_syscalls_def creds_set_syscall_mask_def creds_set_syscall_mask_ex_def with_creds_def
        get_task_creds_def demo_root_def creds_init_task_def fresh_creds_def zero_creds_def Let_def)
  then obtain t' where t': "creds_set_strict_syscalls (\<lambda>_. True) (Some demo_root) = (0, Some t')"
    by (metis option.exhaust prod.exhaust_sel)
  have "creds_syscall_allowed (Some demo_root) k" if "0 \<le> k" for k
    using that by (simp add: creds_syscall_allowed_def demo_root_def creds_init_task_def)
  with mask_intersects [OF demo_tasks_reachable(1), of 125 "\<lambda>_. True" "[]" 0 0 t']
    mask_intersects [OF demo_tasks_reachable(1), of 2 "\<lambda>_. True" "[]" 0 0 t'] t'
  show ?thesis by simp
qed


text \<open>
  A successful fork gives the child its parent's identities, groups, capabilities,
  system-call mask and no\_new\_privs flag, with its parent as parent.
\<close>

theorem fork_inherits_creds:
  assumes "cred_reachable p" and "creds_copy_task al p child = (0, t')"
  shows "t_uid t' = t_uid p \<and> t_euid t' = t_euid p \<and> t_suid t' = t_suid p \<and> t_gid t' = t_gid p \<and>
    t_egid t' = t_egid p \<and> t_sgid t' = t_sgid p \<and> t_fsuid t' = t_fsuid p \<and> t_fsgid t' = t_fsgid p \<and>
    t_groups t' = t_groups p \<and> t_ngroups t' = t_ngroups p \<and> t_ppid t' = t_pid p \<and> t_pid t' = t_pid child \<and>
    creds_has_capability (Some t') k = creds_has_capability (Some p) k \<and>
    creds_syscall_allowed (Some t') n = creds_syscall_allowed (Some p) n \<and>
    creds_get_no_new_privs (Some t') = creds_get_no_new_privs (Some p)"
proof (cases "t_creds p")
  case None
  then show ?thesis using assms(2) reachable_ok [OF assms(1)]
    by (auto simp: copy_without_creds ids_from_def task_ok_def creds_has_capability_def creds_syscall_allowed_def
        creds_get_no_new_privs_def)
next
  case (Some pc)
  have ok: "creds_ok pc" "mirrors pc p" using reachable_ok [OF assms(1)] Some by (simp_all add: task_ok_def)
  note c = copy_with_creds [OF Some assms(2) ok(1)]
  have "t_ppid t' = t_pid p \<and> t_pid t' = t_pid child"
    using assms(2) Some by (auto simp: creds_copy_task_def Let_def ids_from_def split: if_splits)
  then show ?thesis using c ok(2) Some
    by (simp add: mirrors_def creds_has_capability_def allowed_mask creds_get_no_new_privs_def)
qed

theorem fork_inherits_creds_witness:
  "\<exists>t'. creds_copy_task (\<lambda>_. True) demo_user demo_root = (0, t') \<and> t_euid t' = 1000 \<and>
     creds_get_no_new_privs (Some t')"
proof -
  have "fst (creds_copy_task (\<lambda>_. True) demo_user demo_root) = 0"
    by (simp add: demo_user_def sys_setresuid_def with_creds_def get_task_creds_def demo_root_def creds_init_task_def
        fresh_creds_def zero_creds_def Let_def sync_creds_to_task_def sync_fs_def sync_caps_def resuid_store_def
        creds_set_no_new_privs_def creds_copy_task_def ids_from_def)
  then obtain t' where t': "creds_copy_task (\<lambda>_. True) demo_user demo_root = (0, t')"
    by (metis prod.exhaust_sel)
  from fork_inherits_creds [OF demo_tasks_reachable(2) this, of 0 0] t' demo_user_simps show ?thesis by simp
qed

text \<open>
  C26. An exec by a task with effective user id 0 gives it the full capability sets again,
  even when it had given capabilities up with capset and had set no\_new\_privs.
\<close>

theorem exec_restores_root_capabilities:
  assumes "t_creds t = Some c" and "t_euid t = 0" and "no_new_privs c" and "0 \<le> k" and "k < 38"
  shows "creds_has_capability (Some (creds_apply_exec_ids al t euid egid)) k"
proof -
  obtain egid' ch where "creds_apply_exec_ids al t euid egid =
      (exec_ids 0 egid' t)\<lparr>t_creds := Some (exec_creds 0 egid' ch (t_uid t) c)\<rparr>"
    using exec_with_creds [OF assms(1), of al euid egid] assms(2,3) by metis
  moreover have "bit CAP_FULL_SET (nat k)"
  proof -
    have "CAP_FULL_SET = mask 38" by (simp add: mask_eq_exp_minus_1)
    moreover have "bit (mask 38 :: u64) (nat k)" using assms(4,5) by (simp add: bit_mask_iff nat_less_iff)
    ultimately show ?thesis by (simp only:)
  qed
  ultimately show ?thesis
    using assms exec_creds_caps(1) by (simp add: creds_has_capability_def bit_iff_and_push_bit_not_eq_0)
qed

theorem exec_restores_root_capabilities_witness:
  "let c = (fresh_creds demo_root None)\<lparr>no_new_privs := True, cap_effective := 0, cap_permitted := 0\<rparr>;
       t = demo_root\<lparr>t_creds := Some c\<rparr>
   in \<not> creds_has_capability (Some t) 21 \<and> creds_has_capability (Some (creds_apply_exec_ids (\<lambda>_. True) t 0 0)) 21"
  using exec_restores_root_capabilities [of "demo_root\<lparr>t_creds := Some ((fresh_creds demo_root None)
      \<lparr>no_new_privs := True, cap_effective := 0, cap_permitted := 0\<rparr>)\<rparr>" _ 21 "\<lambda>_. True" 0 0]
  by (simp add: Let_def creds_has_capability_def demo_root_def creds_init_task_def)

lemma cap_join_low: "(ucast ((ucast (a :: u32) :: u64) OR push_bit 32 (ucast (b :: u32))) :: u32) = a"
  by (rule bit_word_eqI) (auto simp: bit_simps)

lemma cap_join_high: "(ucast (drop_bit 32 ((ucast (a :: u32) :: u64) OR push_bit 32 (ucast (b :: u32)))) :: u32) = b"
  by (rule bit_word_eqI) (auto simp: bit_simps dest: bit_imp_le_length)

lemma cap_word_parts:
  "(ucast (cap_word d i) :: u32) = read32 d i" "(ucast (drop_bit 32 (cap_word d i)) :: u32) = read32 d (3 + i)"
  unfolding cap_word_def by (rule cap_join_low, rule cap_join_high)

lemma read32_bytes: "4 * i + 4 \<le> length d \<Longrightarrow> le_bytes 4 (unat (read32 d i)) = take 4 (drop (4 * i) d)"
proof -
  assume "4 * i + 4 \<le> length d"
  then have l: "length (take 4 (drop (4 * i) d)) = 4" by simp
  have "le_val (take 4 (drop (4 * i) d)) < 2 ^ 32"
    using le_val_bound [of "take 4 (drop (4 * i) d)"] l by simp
  then have "unat (read32 d i) = le_val (take 4 (drop (4 * i) d))"
    by (simp add: read32_def unat_of_nat)
  with le_bytes_le_val [of "take 4 (drop (4 * i) d)"] l show ?thesis by simp
qed

lemma cap_bytes_words:
  assumes "length d = 24"
  shows "cap_bytes (cap_word d 0) (cap_word d 1) (cap_word d 2) = d"
proof -
  have "cap_bytes (cap_word d 0) (cap_word d 1) (cap_word d 2) =
      take 4 d @ take 4 (drop 4 d) @ take 4 (drop 8 d) @ take 4 (drop 12 d) @ take 4 (drop 16 d) @ take 4 (drop 20 d)"
    using assms read32_bytes [of 0 d] read32_bytes [of 1 d] read32_bytes [of 2 d] read32_bytes [of 3 d]
      read32_bytes [of 4 d] read32_bytes [of 5 d]
    by (simp add: cap_bytes_def cap_word_parts)
  also have "\<dots> = d"
  proof -
    have "take (4 + m) xs = take 4 xs @ take m (drop 4 xs)" for m and xs :: "u8 list" by (rule take_add)
    from this [of 20 d] this [of 16 "drop 4 d"] this [of 12 "drop 8 d"] this [of 8 "drop 12 d"] this [of 4 "drop 16 d"]
    show ?thesis using assms by simp
  qed
  finally show ?thesis .
qed

text \<open>
  Capability sets survive the interface: after a capset that succeeds, capget stores at
  the given place exactly the bytes capset read.
\<close>

theorem capset_capget:
  assumes "sys_capset um al header data (Some t) = (0, Some t')"
    and "um_read um data 24 = Some d" and "length d = 24" and "out \<noteq> 0" and "um_writable um out 24"
  shows "sys_capget um header out (Some t') = (0, [(out, d)])"
proof -
  from assms(1,2) obtain h where h: "header \<noteq> 0" "um_read um header 8 = Some h" "read32 h 0 = CAP_VERSION_3"
    "read32 h 1 = 0 \<or> sint (read32 h 1) = t_pid t" and
    w: "with_creds ENOMEM al (Some t) (\<lambda>t c.
        if cap_word d 1 AND NOT (cap_permitted c) \<noteq> 0 then (- EPERM, t)
        else (0, t\<lparr>t_creds := Some (c\<lparr>cap_effective := cap_word d 0, cap_permitted := cap_word d 1,
           cap_inheritable := cap_word d 2\<rparr>)\<rparr>)) = (0, Some t')"
    by (auto simp: sys_capset_def Let_def simp del: One_nat_def split: if_splits option.splits)
  from w obtain c t1 where "get_task_creds al t = (Some c, t1)" and
    t': "t' = t1\<lparr>t_creds := Some (c\<lparr>cap_effective := cap_word d 0, cap_permitted := cap_word d 1,
           cap_inheritable := cap_word d 2\<rparr>)\<rparr>"
    by (auto simp: with_creds_def split: prod.splits option.splits if_splits)
  then have "t_pid t1 = t_pid t"
    by (auto simp: get_task_creds_def Let_def split: option.splits if_splits)
  with h t' assms(4,5) cap_bytes_words [OF assms(3)] show ?thesis
    by (auto simp: sys_capget_def Let_def)
qed

definition cap_um :: user_memory where
  "cap_um = \<lparr>um_read = (\<lambda>a n. if a = 0x1000 then Some ([0x22, 5, 8, 0x20, 0, 0, 0, 0])
       else Some ([3, 0, 0, 0, 7, 0, 0, 0, 0, 0, 0, 0, 0, 0, 0, 0, 0, 0, 0, 0, 0, 0, 0, 0])), um_writable = (\<lambda>a n. True)\<rparr>"

theorem capset_capget_witness:
  "\<exists>t'. sys_capset cap_um (\<lambda>_. True) 0x1000 0x2000 (Some demo_root) = (0, Some t') \<and>
     sys_capget cap_um 0x1000 0x3000 (Some t') = (0, [(0x3000, [3, 0, 0, 0, 7, 0, 0, 0, 0, 0, 0, 0, 0, 0, 0, 0, 0, 0, 0, 0, 0, 0, 0, 0])])"
proof -
  have "fst (sys_capset cap_um (\<lambda>_. True) 0x1000 0x2000 (Some demo_root)) = 0 \<and>
      snd (sys_capset cap_um (\<lambda>_. True) 0x1000 0x2000 (Some demo_root)) \<noteq> None"
    by (simp add: sys_capset_def cap_um_def read32_def cap_word_def with_creds_def get_task_creds_def
        demo_root_def creds_init_task_def fresh_creds_def zero_creds_def Let_def)
  then obtain t' where t': "sys_capset cap_um (\<lambda>_. True) 0x1000 0x2000 (Some demo_root) = (0, Some t')"
    by (metis option.exhaust prod.exhaust_sel)
  from capset_capget [OF t', of "[3, 0, 0, 0, 7, 0, 0, 0, 0, 0, 0, 0, 0, 0, 0, 0, 0, 0, 0, 0, 0, 0, 0, 0]" "0x3000"] t'
  show ?thesis by (simp add: cap_um_def)
qed


lemma group_bytes:
  assumes "length bs = 4"
  shows "\<not> (word_of_nat (le_val bs) :: u64) > 0xFFFFFFFF"
    and "le_bytes 4 (unat (ucast (word_of_nat (le_val bs) :: u64) :: u32)) = bs"
proof -
  have b: "le_val bs < 2 ^ 32" using le_val_bound [of bs] assms by simp
  then have u: "unat (word_of_nat (le_val bs) :: u64) = le_val bs" by (simp add: unat_of_nat)
  show "\<not> (word_of_nat (le_val bs) :: u64) > 0xFFFFFFFF" using b by (simp add: word_less_nat_alt u)
  have "(ucast (word_of_nat (le_val bs) :: u64) :: u32) = word_of_nat (unat (word_of_nat (le_val bs) :: u64))"
    by (rule of_nat_unat [symmetric])
  then have "unat (ucast (word_of_nat (le_val bs) :: u64) :: u32) = le_val bs mod 2 ^ 32"
    using b by (simp add: unat_of_nat)
  with b u le_bytes_le_val [of bs] assms
  show "le_bytes 4 (unat (ucast (word_of_nat (le_val bs) :: u64) :: u32)) = bs" by simp
qed

lemma get_put_groups:
  assumes "\<And>a n bs. um_read um a n = Some bs \<Longrightarrow> length bs = n"
    and "\<And>k. um_writable um' (q + word_of_nat (k * 4)) 4"
  shows "get_groups um p i n = Some gs \<Longrightarrow>
    put_groups um' q i gs = (0, map (\<lambda>k. (q + word_of_nat (k * 4), the (um_read um (p + word_of_nat (k * 4)) 4))) [i..<i + n])"
proof (induction n arbitrary: i gs)
  case 0
  then show ?case by simp
next
  case (Suc n)
  then obtain bs gs' where bs: "um_read um (p + word_of_nat (i * 4)) 4 = Some bs"
    and g: "get_groups um p (Suc i) n = Some gs'" and gs: "gs = word_of_nat (le_val bs) # gs'"
    by (auto split: option.splits)
  have "[i..<i + Suc n] = i # [Suc i..<Suc i + n]" by (simp add: upt_rec)
  with Suc.IH [OF g] group_bytes [OF assms(1) [OF bs]] assms(2) [of i] bs show ?case by (simp add: gs)
qed

text \<open>
  Supplementary groups survive the interface: after a setgroups that succeeds, getgroups
  with a buffer of that size returns the number of groups and stores at the i-th place the
  four bytes that setgroups read at its i-th place; it never reads through a null array.
\<close>

theorem setgroups_getgroups:
  assumes "sys_setgroups um al n p (Some t) = (0, Some t')" and "0 < n" and "\<not> bad_user_addr q"
    and "\<And>a m bs. um_read um a m = Some bs \<Longrightarrow> length bs = m"
    and "\<And>k. um_writable um' (q + word_of_nat (k * 4)) 4"
  shows "sys_getgroups um' n q (Some t') =
    Some (n, map (\<lambda>k. (q + word_of_nat (k * 4), the (um_read um (p + word_of_nat (k * 4)) 4))) [0..<nat n])"
proof -
  from assms(1,2) obtain gs c t1 where g: "get_groups um p 0 (nat n) = Some gs" and
    t': "t' = sync_creds_to_task (c\<lparr>c_groups := Some gs, c_ngroups := n\<rparr>) t1"
    by (auto simp: sys_setgroups_def with_creds_def set_groups_def split: prod.splits option.splits if_splits)
  have "put_groups um' q 0 gs = (0, map (\<lambda>k. (q + word_of_nat (k * 4), the (um_read um (p + word_of_nat (k * 4)) 4))) [0..<nat n])"
    using get_put_groups [OF _ _ g, of um' q] assms(4,5) by simp
  with length_get_groups [OF g] show ?thesis using assms(2,3) by (simp add: sys_getgroups_def t')
qed

theorem setgroups_getgroups_witness:
  "\<exists>t'. sys_setgroups demo_um (\<lambda>_. True) 2 0x5000 (Some demo_root) = (0, Some t') \<and>
     sys_getgroups demo_um 2 0x6000 (Some t') = Some (2, [(0x6000, [1, 1, 1, 1]), (0x6004, [1, 1, 1, 1])])"
proof -
  have "\<exists>gs. get_groups demo_um a i n = Some gs" for a i n
    by (induction n arbitrary: i) (auto simp: demo_um_def split: option.splits)
  then obtain gs where gs: "get_groups demo_um 0x5000 0 2 = Some gs" by blast
  have "fst (sys_setgroups demo_um (\<lambda>_. True) 2 0x5000 (Some demo_root)) = 0 \<and>
      snd (sys_setgroups demo_um (\<lambda>_. True) 2 0x5000 (Some demo_root)) \<noteq> None"
    using gs by (simp add: sys_setgroups_def with_creds_def get_task_creds_def demo_root_def creds_init_task_def
        fresh_creds_def zero_creds_def Let_def bad_user_addr_def set_groups_def)
  then obtain t' where t': "sys_setgroups demo_um (\<lambda>_. True) 2 0x5000 (Some demo_root) = (0, Some t')"
    by (metis option.exhaust prod.exhaust_sel)
  have "sys_getgroups demo_um 2 0x6000 (Some t') = Some (2, map (\<lambda>k. (0x6000 + word_of_nat (k * 4),
      the (um_read demo_um (0x5000 + word_of_nat (k * 4)) 4))) [0..<nat 2])"
    by (rule setgroups_getgroups [OF t']) (auto simp: bad_user_addr_def demo_um_def)
  then have "sys_getgroups demo_um 2 0x6000 (Some t') = Some (2, [(0x6000, replicate 4 1), (0x6004, replicate 4 1)])"
    by (simp add: demo_um_def numeral_2_eq_2)
  then show ?thesis using t' by (simp add: numeral_eq_Suc)
qed

definition plain_task :: "int \<Rightarrow> int \<Rightarrow> int \<Rightarrow> task" where
  "plain_task pid ppid pgid = \<lparr>t_pid = pid, t_ppid = ppid, t_uid = 0, t_gid = 0, t_euid = 0, t_egid = 0, t_suid = 0,
     t_sgid = 0, t_fsuid = 0, t_fsgid = 0, t_groups = None, t_ngroups = 0, t_pgid = pgid, t_sid = 1, t_creds = None\<rparr>"

text \<open>
  C27. setsid refuses a caller that leads its group but does not look for other members of a
  group with the caller's number: whenever a task p is moved by setpgid to another group
  while some other task q, of a session other than p, stays in the group numbered p (the one
  p founded), setsid of p succeeds, and the process group number p is then shared by tasks of
  two sessions.
\<close>

theorem setsid_splits_group:
  assumes "sys_setpgid ts (Some p) 0 g = (0, ts1)" and "g \<noteq> 0" "g \<noteq> p"
    and "task_find ts q = Some x" and "q \<noteq> p" "q \<noteq> 0"
    and "sys_getpgid ts (Some p) q = p" and "sys_getsid ts (Some p) q \<noteq> p"
  shows "\<exists>me. sys_setsid (task_find ts1 p) = (p, Some me) \<and>
    sys_getpgid (upd_task me ts1) (Some p) 0 = p \<and> sys_getpgid (upd_task me ts1) (Some p) q = p \<and>
    sys_getsid (upd_task me ts1) (Some p) 0 = p \<and> sys_getsid (upd_task me ts1) (Some p) q \<noteq> p"
  using assms(1)
proof (cases rule: setpgid_cases)
  case (2 me pid pgid u)
  then have "t_pid me = p" "pid = p" "pgid = g" using assms(2) by (simp_all add: task_find_pid)
  with 2 have u: "t_pid u = p" "task_find ts p = Some u" by (simp_all add: task_find_pid)
  let ?u = "u\<lparr>t_creds := map_option (\<lambda>c. c\<lparr>c_pgid := g\<rparr>) (t_creds u), t_pgid := g\<rparr>"
  let ?v = "?u\<lparr>t_creds := map_option (\<lambda>c. c\<lparr>c_sid := p, c_pgid := p\<rparr>) (t_creds ?u), t_sid := p, t_pgid := p\<rparr>"
  have ts1: "ts1 = upd_task ?u ts" using 2 \<open>pid = p\<close> \<open>pgid = g\<close> u by simp
  then have f: "task_find ts1 p = Some ?u" "task_find ts1 q = Some x"
    using u assms(4,5) by (simp_all add: task_find_upd)
  have "sys_setsid (task_find ts1 p) = (p, Some ?v)"
    using f(1) u assms(3) by (simp add: sys_setsid_def Let_def split: option.split)
  moreover have "task_find (upd_task ?v ts1) p = Some ?v" "task_find (upd_task ?v ts1) q = Some x"
    using f u assms(5) by (simp_all add: task_find_upd)
  ultimately show ?thesis
    using assms(4,6-8) by (intro exI [of _ ?v])
      (auto simp: sys_getpgid_def sys_getsid_def self_or_def split: option.splits)
qed simp

theorem setsid_splits_group_witness:
  "\<exists>ts1 ts2 ts3 me.
     sys_setpgid [plain_task 1 0 1, plain_task 2 1 1, plain_task 3 2 1] (Some 2) 0 0 = (0, ts1) \<and>
     sys_setpgid ts1 (Some 2) 3 2 = (0, ts2) \<and> sys_setpgid ts2 (Some 2) 0 1 = (0, ts3) \<and>
     sys_setsid (task_find ts3 2) = (2, Some me) \<and>
     sys_getpgid (upd_task me ts3) (Some 2) 0 = sys_getpgid (upd_task me ts3) (Some 2) 3 \<and>
     sys_getsid (upd_task me ts3) (Some 2) 0 \<noteq> sys_getsid (upd_task me ts3) (Some 2) 3"
proof -
  let ?ts = "[plain_task 1 0 1, plain_task 2 1 2, plain_task 3 2 2]"
  obtain ts3 where t3: "sys_setpgid ?ts (Some 2) 0 1 = (0, ts3)"
    by (simp add: sys_setpgid_def task_find_def upd_task_def plain_task_def Let_def)
  have "task_find ?ts 3 = Some (plain_task 3 2 2)" "sys_getpgid ?ts (Some 2) 3 = 2" "sys_getsid ?ts (Some 2) 3 \<noteq> 2"
    by (simp_all add: task_find_def plain_task_def sys_getpgid_def sys_getsid_def self_or_def)
  from setsid_splits_group [OF t3 _ _ this(1) _ _ this(2,3)] obtain me where
    "sys_setsid (task_find ts3 2) = (2, Some me)" "sys_getpgid (upd_task me ts3) (Some 2) 0 = 2"
    "sys_getpgid (upd_task me ts3) (Some 2) 3 = 2" "sys_getsid (upd_task me ts3) (Some 2) 0 = 2"
    "sys_getsid (upd_task me ts3) (Some 2) 3 \<noteq> 2" by auto
  moreover have "sys_setpgid [plain_task 1 0 1, plain_task 2 1 1, plain_task 3 2 1] (Some 2) 0 0 =
      (0, [plain_task 1 0 1, plain_task 2 1 2, plain_task 3 2 1])"
    "sys_setpgid [plain_task 1 0 1, plain_task 2 1 2, plain_task 3 2 1] (Some 2) 3 2 = (0, ?ts)"
    by (simp_all add: sys_setpgid_def task_find_def upd_task_def plain_task_def Let_def)
  ultimately show ?thesis using t3 by metis
qed

end
