(* ===== verification/Refht.thy ===== *)
theory Refht
  imports Prelude
begin

text \<open>
  The page reference counts of kernel/arch/x86_64/mem/pmm.c: a resizable hash table with
  chains, from page frame number to a 24-bit count, used for copy-on-write sharing.

  A bucket is the list of its nodes in chain order. The table is absent until the first
  insertion. Nodes taken out of the table wait on a deferred list and are used again before
  memory is asked for. The numbers of nodes are natural numbers. Each operation is split
  where the code drops the table lock: the two critical sections of refht\_resize, taking a
  node, and the lookup with its update are separate definitions, so that a section may meet
  a table that other processors changed since the section before. The outcomes of kcalloc
  and kmalloc are arguments.
\<close>

unbundle bit_operations_syntax

abbreviation REFHT_MIN_BITS :: nat where "REFHT_MIN_BITS \<equiv> 6"
abbreviation REFHT_MAX_REF :: "24 word" where "REFHT_MAX_REF \<equiv> 0xFFFFFF"

record refht_node =
  rn_page :: u64
  rn_ref :: "24 word"

record refht =
  ht_buckets :: "refht_node list list option"
  ht_bits :: nat
  ht_deferred :: "refht_node list"
  ht_active :: nat
  ht_deferred_count :: nat
  ht_initialized :: bool
  ht_entries :: nat
  ht_total :: nat

text \<open>
  ht\_total is total\_pages\_managed and ht\_entries is pfa\_refcount\_entries. The page number
  of a node is a 40-bit field.
\<close>

definition field40 :: "u64 \<Rightarrow> u64" where
  "field40 p = take_bit 40 p"

definition refht_init :: "refht \<Rightarrow> refht" where
  "refht_init h =
     (if ht_initialized h then h
      else h\<lparr>ht_buckets := None, ht_bits := 0, ht_deferred := [], ht_active := 0,
             ht_deferred_count := 0, ht_initialized := True\<rparr>)"

definition refht_bucket :: "nat \<Rightarrow> u64 \<Rightarrow> nat" where
  "refht_bucket bits page_idx = unat (drop_bit (64 - bits) (page_idx * 0x9E3779B97F4A7C15))"

text \<open>
  refht\_link walks along a chain: the nodes before the link it returns, and what the link
  points at, which is the end of the chain or the node sought and those after it.
\<close>

definition refht_link :: "u64 \<Rightarrow> refht_node list \<Rightarrow> refht_node list \<times> refht_node list" where
  "refht_link page_idx chain =
     (takeWhile (\<lambda>n. rn_page n \<noteq> page_idx) chain, dropWhile (\<lambda>n. rn_page n \<noteq> page_idx) chain)"

subsection \<open>Resizing\<close>

function grow_bits :: "nat \<Rightarrow> nat \<Rightarrow> nat" where
  "grow_bits cnt bits = (if 4 * 2 ^ bits < cnt then grow_bits cnt (Suc bits) else bits)"
  by pat_completeness auto
termination
proof (relation "measure (\<lambda>(cnt, bits). cnt - bits)", goal_cases)
  case (2 cnt bits)
  have "bits < (2 :: nat) ^ bits" by (rule less_exp)
  also have "\<dots> < cnt" using 2 by linarith
  finally show ?case by simp
qed simp

declare grow_bits.simps [simp del]

fun shrink_bits :: "nat \<Rightarrow> nat \<Rightarrow> nat" where
  "shrink_bits cnt 0 = 0"
| "shrink_bits cnt (Suc b) =
     (if Suc b > REFHT_MIN_BITS \<and> cnt < 2 ^ Suc b then shrink_bits cnt b else Suc b)"

definition refht_target_bits :: "refht \<Rightarrow> nat \<Rightarrow> nat" where
  "refht_target_bits h cnt =
     (if cnt = 0 \<and> ht_buckets h = None then 0
      else shrink_bits cnt (grow_bits cnt (if ht_bits h \<noteq> 0 then ht_bits h else REFHT_MIN_BITS)))"

definition push_node :: "nat \<Rightarrow> refht_node list list \<Rightarrow> refht_node \<Rightarrow> refht_node list list" where
  "push_node bits table n =
     (let k = refht_bucket bits (rn_page n) in table[k := n # table ! k])"

definition refht_rehash :: "nat \<Rightarrow> refht_node list list \<Rightarrow> refht_node list list" where
  "refht_rehash bits old = foldl (push_node bits) (replicate (2 ^ bits) []) (concat old)"

text \<open>
  The second critical section of refht\_resize, for a table of the planned size. A planned
  size of 0 bits has no table; it is planned only while there is none.
\<close>

definition refht_resize_commit :: "refht \<Rightarrow> nat \<Rightarrow> nat \<Rightarrow> refht" where
  "refht_resize_commit h extra bits =
     (if refht_target_bits h (ht_active h + extra) \<noteq> bits \<or> bits = ht_bits h then h
      else h\<lparr>ht_buckets := (if bits = 0 then None
               else Some (refht_rehash bits (case ht_buckets h of None \<Rightarrow> [] | Some old \<Rightarrow> old))),
             ht_bits := bits\<rparr>)"

definition refht_resize :: "bool \<Rightarrow> refht \<Rightarrow> nat \<Rightarrow> refht" where
  "refht_resize kcalloc_ok h extra =
     (let bits = refht_target_bits h (ht_active h + extra)
      in if bits = ht_bits h then h
         else if bits \<noteq> 0 \<and> \<not> kcalloc_ok then h
         else refht_resize_commit h extra bits)"

subsection \<open>Counting\<close>

definition refht_alloc_node :: "bool \<Rightarrow> refht \<Rightarrow> refht_node option \<times> refht" where
  "refht_alloc_node kmalloc_ok h =
     (case ht_deferred h of
        n # ns \<Rightarrow> (Some n, h\<lparr>ht_deferred := ns, ht_deferred_count := ht_deferred_count h - 1\<rparr>)
      | [] \<Rightarrow> (if kmalloc_ok then Some \<lparr>rn_page = 0, rn_ref = 0\<rparr> else None, h))"

definition pfa_ref_gc :: "bool \<Rightarrow> refht \<Rightarrow> refht" where
  "pfa_ref_gc kcalloc_ok h =
     (if \<not> ht_initialized h then h
      else refht_resize kcalloc_ok (h\<lparr>ht_deferred := [], ht_deferred_count := 0\<rparr>) 0)"

definition pfa_ref_active_nodes :: "refht \<Rightarrow> nat" where
  "pfa_ref_active_nodes h = (if \<not> ht_initialized h then 0 else ht_active h)"

definition pfa_ref_free_nodes :: "refht \<Rightarrow> nat" where
  "pfa_ref_free_nodes h = (if \<not> ht_initialized h then 0 else ht_deferred_count h)"

definition defer_node :: "refht_node \<Rightarrow> refht \<Rightarrow> refht" where
  "defer_node n h = h\<lparr>ht_deferred := n # ht_deferred h, ht_deferred_count := ht_deferred_count h + 1\<rparr>"

definition set_chain :: "nat \<Rightarrow> refht_node list \<Rightarrow> refht \<Rightarrow> refht" where
  "set_chain k chain h = h\<lparr>ht_buckets := map_option (\<lambda>bs. bs[k := chain]) (ht_buckets h)\<rparr>"

text \<open>The last critical section of refht\_add, with the node fetched before it.\<close>

definition refht_insert :: "refht \<Rightarrow> u64 \<Rightarrow> 24 word \<Rightarrow> refht_node option \<Rightarrow> int \<times> refht" where
  "refht_insert h idx initial fresh =
     (let keep = (\<lambda>h. case fresh of None \<Rightarrow> h | Some n \<Rightarrow> defer_node n h)
      in case ht_buckets h of
           None \<Rightarrow> (-1, keep h)
         | Some bs \<Rightarrow>
           (let k = refht_bucket (ht_bits h) idx
            in case refht_link idx (bs ! k) of
                 (before, n # after) \<Rightarrow>
                   if rn_ref n < REFHT_MAX_REF
                   then (0, keep (set_chain k (before @ n\<lparr>rn_ref := rn_ref n + 1\<rparr> # after) h))
                   else (-1, keep h)
               | (before, []) \<Rightarrow>
                   (case fresh of
                      None \<Rightarrow> (-1, h)
                    | Some n \<Rightarrow> (0, (set_chain k (before @ [\<lparr>rn_page = field40 idx, rn_ref = initial\<rparr>]) h)
                                      \<lparr>ht_active := ht_active h + 1\<rparr>))))"

definition refht_add :: "bool \<Rightarrow> bool \<Rightarrow> refht \<Rightarrow> u64 \<Rightarrow> 24 word \<Rightarrow> int \<times> refht" where
  "refht_add kcalloc_ok kmalloc_ok h0 phys_addr initial =
     (let h1 = refht_init h0; h2 = h1\<lparr>ht_entries := ht_total h1\<rparr>; idx = phys_addr div 4096
      in if unat idx \<ge> ht_total h2 then (-1, h2)
         else (let h3 = refht_resize kcalloc_ok h2 1; (fresh, h4) = refht_alloc_node kmalloc_ok h3
               in refht_insert h4 idx initial fresh))"

text \<open>
  refht\_release: the count that remains, whether the caller of the copy-on-write variant is
  to free the page, and the table.
\<close>

definition refht_drop :: "refht \<Rightarrow> nat \<Rightarrow> refht_node list \<Rightarrow> refht_node \<Rightarrow> refht_node list \<Rightarrow> refht" where
  "refht_drop h k before n after =
     defer_node n ((set_chain k (before @ after) h)\<lparr>ht_active := (if ht_active h > 0 then ht_active h - 1 else 0)\<rparr>)"

definition refht_release :: "refht \<Rightarrow> u64 \<Rightarrow> bool \<Rightarrow> u64 \<times> bool \<times> refht" where
  "refht_release h phys_addr cow =
     (if \<not> ht_initialized h then (0, cow, h)
      else (let idx = phys_addr div 4096 in
            if unat idx \<ge> ht_total h then (0, False, h)
            else (case ht_buckets h of
                    None \<Rightarrow> (0, cow, h)
                  | Some bs \<Rightarrow>
                    (let k = refht_bucket (ht_bits h) idx
                     in case refht_link idx (bs ! k) of
                          (before, []) \<Rightarrow> (0, cow, h)
                        | (before, n # after) \<Rightarrow>
                          if cow then
                            (if rn_ref n > 2 then
                               (let r = rn_ref n - 1
                                in (ucast r, False, set_chain k (before @ n\<lparr>rn_ref := r\<rparr> # after) h))
                             else (0, rn_ref n = 1, refht_drop h k before n after))
                          else
                            (let r = (if rn_ref n > 0 then rn_ref n - 1 else rn_ref n); n1 = n\<lparr>rn_ref := r\<rparr>
                             in if r = 0 then (ucast r, False, refht_drop h k before n1 after)
                                else (ucast r, False, set_chain k (before @ n1 # after) h))))))"

definition pfa_ref_init :: "refht \<Rightarrow> refht" where
  "pfa_ref_init h = refht_init (h\<lparr>ht_entries := ht_total h\<rparr>)"

definition pfa_ref_inc :: "bool \<Rightarrow> bool \<Rightarrow> refht \<Rightarrow> u64 \<Rightarrow> refht" where
  "pfa_ref_inc kc km h phys_addr = snd (refht_add kc km h phys_addr 1)"

definition pfa_ref_share :: "bool \<Rightarrow> bool \<Rightarrow> refht \<Rightarrow> u64 \<Rightarrow> int \<times> refht" where
  "pfa_ref_share kc km h phys_addr = refht_add kc km h phys_addr 2"

definition pfa_ref_dec :: "refht \<Rightarrow> u64 \<Rightarrow> u64 \<times> refht" where
  "pfa_ref_dec h phys_addr = (case refht_release h phys_addr False of (r, f, h') \<Rightarrow> (r, h'))"

definition pfa_ref_get :: "refht \<Rightarrow> u64 \<Rightarrow> u64" where
  "pfa_ref_get h phys_addr =
     (if \<not> ht_initialized h then 0
      else (let idx = phys_addr div 4096 in
            if unat idx \<ge> ht_total h then 0
            else (case ht_buckets h of
                    None \<Rightarrow> 0
                  | Some bs \<Rightarrow>
                    (case refht_link idx (bs ! refht_bucket (ht_bits h) idx) of
                       (before, []) \<Rightarrow> 0
                     | (before, n # after) \<Rightarrow> ucast (rn_ref n)))))"


subsection \<open>The table as a map\<close>

definition placed :: "nat \<Rightarrow> refht_node list list \<Rightarrow> bool" where
  "placed bits bs \<longleftrightarrow> (\<forall>i<length bs. \<forall>n\<in>set (bs ! i). refht_bucket bits (rn_page n) = i)"

definition table_ok :: "nat \<Rightarrow> nat \<Rightarrow> refht_node list list \<Rightarrow> bool" where
  "table_ok bits tot bs \<longleftrightarrow> REFHT_MIN_BITS \<le> bits \<and> bits \<le> 40 \<and> length bs = 2 ^ bits \<and> placed bits bs \<and>
     distinct (map rn_page (concat bs)) \<and> (\<forall>n\<in>set (concat bs). 0 < rn_ref n \<and> unat (rn_page n) < tot)"

definition ht_nodes :: "refht \<Rightarrow> refht_node list" where
  "ht_nodes h = (case ht_buckets h of None \<Rightarrow> [] | Some bs \<Rightarrow> concat bs)"

definition ht_ok :: "refht \<Rightarrow> bool" where
  "ht_ok h \<longleftrightarrow> ht_total h \<le> 2 ^ 40 \<and> ht_active h = length (ht_nodes h) \<and>
     ht_deferred_count h = length (ht_deferred h) \<and> (\<not> ht_initialized h \<longrightarrow> ht_buckets h = None) \<and>
     (case ht_buckets h of None \<Rightarrow> ht_bits h = 0 | Some bs \<Rightarrow> table_ok (ht_bits h) (ht_total h) bs)"

definition pairs :: "refht_node list \<Rightarrow> (u64 \<times> 24 word) list" where
  "pairs ns = map (\<lambda>n. (rn_page n, rn_ref n)) ns"

definition ht_map :: "refht \<Rightarrow> u64 \<rightharpoonup> 24 word" where
  "ht_map h = map_of (pairs (ht_nodes h))"

lemma map_fst_pairs [simp]: "map fst (pairs ns) = map rn_page ns"
  by (simp add: pairs_def comp_def)

lemma pairs_simps [simp]:
  "pairs [] = []" "pairs (n # ns) = (rn_page n, rn_ref n) # pairs ns" "pairs (xs @ ys) = pairs xs @ pairs ys"
  by (simp_all add: pairs_def)

lemma map_of_pairs_None: "p \<notin> rn_page ` set ns \<Longrightarrow> map_of (pairs ns) p = None"
  by (induction ns) auto

lemma bucket_less:
  assumes "bits \<le> 64" shows "refht_bucket bits p < 2 ^ bits"
proof -
  let ?w = "p * 0x9E3779B97F4A7C15"
  have "unat (drop_bit (64 - bits) ?w) = unat ?w div 2 ^ (64 - bits)"
    by (simp only: unat_drop_bit_eq) (simp only: drop_bit_eq_div)
  moreover have "unat ?w < 2 ^ (64 - bits) * 2 ^ bits"
    using unsigned_less [of ?w] assms by (simp flip: power_add)
  ultimately show ?thesis
    by (simp add: refht_bucket_def less_mult_imp_div_less mult.commute)
qed

text \<open>A bucket inside the concatenated table.\<close>

lemma concat_split:
  assumes "k < length bs"
  shows "concat bs = concat (take k bs) @ bs ! k @ concat (drop (Suc k) bs)"
    and "concat (bs[k := c]) = concat (take k bs) @ c @ concat (drop (Suc k) bs)"
proof -
  show "concat bs = concat (take k bs) @ bs ! k @ concat (drop (Suc k) bs)"
    using id_take_nth_drop [OF assms] by (metis concat.simps(2) concat_append)
  show "concat (bs[k := c]) = concat (take k bs) @ c @ concat (drop (Suc k) bs)"
    using upd_conv_take_nth_drop [OF assms, of c] by simp
qed

lemma placed_update:
  assumes "placed bits bs" and "k < length bs" and "\<forall>n\<in>set c. refht_bucket bits (rn_page n) = k"
  shows "placed bits (bs[k := c])"
  using assms by (auto simp: placed_def nth_list_update)

lemma placed_elsewhere:
  assumes "placed bits bs" and "p \<in> rn_page ` set (concat bs)"
  shows "p \<in> rn_page ` set (bs ! refht_bucket bits p)"
proof -
  from assms(2) obtain n b where n: "b \<in> set bs" "n \<in> set b" "p = rn_page n" by auto
  then obtain i where "i < length bs" "bs ! i = b" by (auto simp: in_set_conv_nth)
  with assms(1) n have "refht_bucket bits p = i" by (auto simp: placed_def)
  with \<open>bs ! i = b\<close> n show ?thesis by auto
qed

text \<open>What refht\_link finds.\<close>

lemma link_split:
  assumes "refht_link p ch = (a, b)"
  shows "ch = a @ b" and "p \<notin> rn_page ` set a" and "b = n # c \<Longrightarrow> rn_page n = p"
    and "b = [] \<longleftrightarrow> p \<notin> rn_page ` set ch"
proof -
  from assms have ab: "a = takeWhile (\<lambda>n. rn_page n \<noteq> p) ch" "b = dropWhile (\<lambda>n. rn_page n \<noteq> p) ch"
    by (simp_all add: refht_link_def)
  show "ch = a @ b" by (simp add: ab)
  show "p \<notin> rn_page ` set a" using set_takeWhileD by (fastforce simp: ab)
  show "b = n # c \<Longrightarrow> rn_page n = p" using hd_dropWhile [of "\<lambda>n. rn_page n \<noteq> p" ch] by (simp add: ab)
  show "b = [] \<longleftrightarrow> p \<notin> rn_page ` set ch" by (auto simp: ab dropWhile_eq_Nil_conv)
qed

lemma table_lookup:
  assumes "table_ok bits tot bs" and "refht_link p (bs ! refht_bucket bits p) = (a, b)"
  shows "refht_bucket bits p < length bs"
    and "map_of (pairs (concat bs)) p = (case b of [] \<Rightarrow> None | n # c \<Rightarrow> Some (rn_ref n))"
proof -
  let ?k = "refht_bucket bits p"
  show k: "?k < length bs" using assms(1) bucket_less [of bits p] by (simp add: table_ok_def)
  note l = link_split [OF assms(2)]
  show "map_of (pairs (concat bs)) p = (case b of [] \<Rightarrow> None | n # c \<Rightarrow> Some (rn_ref n))"
  proof (cases b)
    case Nil
    then have "p \<notin> rn_page ` set (concat bs)" using l(4) placed_elsewhere [of bits bs p] assms(1)
      by (auto simp: table_ok_def)
    with Nil show ?thesis by (simp add: map_of_pairs_None)
  next
    case (Cons n c)
    then have "n \<in> set (concat bs)" "rn_page n = p" using l(1,3) k concat_split(1) [OF k] by auto
    then have "(p, rn_ref n) \<in> set (pairs (concat bs))" by (auto simp: pairs_def)
    moreover have "distinct (map fst (pairs (concat bs)))" using assms(1) by (simp add: table_ok_def)
    ultimately show ?thesis using Cons by simp
  qed
qed

text \<open>The three ways a chain changes: a count, a node more, a node less.\<close>

lemma table_set_ref:
  assumes ok: "table_ok bits tot bs" and k: "k = refht_bucket bits p" and l: "refht_link p (bs ! k) = (a, n # c)" and r: "0 < r"
  shows "table_ok bits tot (bs[k := a @ n\<lparr>rn_ref := r\<rparr> # c])"
    and "map_of (pairs (concat (bs[k := a @ n\<lparr>rn_ref := r\<rparr> # c]))) = (map_of (pairs (concat bs)))(p \<mapsto> r)"
    and "length (concat (bs[k := a @ n\<lparr>rn_ref := r\<rparr> # c])) = length (concat bs)"
proof -
  have kl: "k < length bs" using table_lookup(1) [OF ok] l k by blast
  have ch: "bs ! k = a @ n # c" "rn_page n = p" using link_split(1,3) [OF l] by auto
  note cs = concat_split [OF kl]
  have pg: "map rn_page (concat (bs[k := a @ n\<lparr>rn_ref := r\<rparr> # c])) = map rn_page (concat bs)"
    unfolding cs by (simp add: ch)
  have "\<forall>x\<in>set (bs ! k). refht_bucket bits (rn_page x) = k" using ok kl by (simp add: table_ok_def placed_def)
  then have "placed bits (bs[k := a @ n\<lparr>rn_ref := r\<rparr> # c])"
    using ok kl by (intro placed_update) (auto simp: ch table_ok_def)
  moreover have "\<forall>x\<in>set (concat (bs[k := a @ n\<lparr>rn_ref := r\<rparr> # c])). 0 < rn_ref x \<and> unat (rn_page x) < tot"
    using ok r unfolding table_ok_def cs by (auto simp: ch)
  ultimately show "table_ok bits tot (bs[k := a @ n\<lparr>rn_ref := r\<rparr> # c])"
    using ok pg by (simp add: table_ok_def)
  have d: "distinct (map rn_page (concat bs))" using ok by (simp add: table_ok_def)
  show "map_of (pairs (concat (bs[k := a @ n\<lparr>rn_ref := r\<rparr> # c]))) = (map_of (pairs (concat bs)))(p \<mapsto> r)"
    using d unfolding cs by (auto simp: ch map_of_pairs_None map_add_def fun_eq_iff split: option.splits)
  show "length (concat (bs[k := a @ n\<lparr>rn_ref := r\<rparr> # c])) = length (concat bs)"
    unfolding cs by (simp add: ch)
qed

lemma table_append:
  assumes ok: "table_ok bits tot bs" and k: "k = refht_bucket bits p" and l: "refht_link p (bs ! k) = (a, [])"
    and r: "0 < r" and p: "unat p < tot"
  defines "m \<equiv> \<lparr>rn_page = p, rn_ref = r\<rparr>"
  shows "table_ok bits tot (bs[k := a @ [m]])"
    and "map_of (pairs (concat (bs[k := a @ [m]]))) = (map_of (pairs (concat bs)))(p \<mapsto> r)"
    and "length (concat (bs[k := a @ [m]])) = Suc (length (concat bs))"
proof -
  have kl: "k < length bs" using table_lookup(1) [OF ok] l k by blast
  have ch: "bs ! k = a" "p \<notin> rn_page ` set (bs ! k)" using link_split(1,4) [OF l] by auto
  note cs = concat_split [OF kl]
  have new: "p \<notin> rn_page ` set (concat bs)"
    using ch(2) placed_elsewhere [of bits bs p] ok by (auto simp: table_ok_def k)
  have "\<forall>x\<in>set (bs ! k). refht_bucket bits (rn_page x) = k" using ok kl by (simp add: table_ok_def placed_def)
  then have "\<forall>x\<in>set (a @ [m]). refht_bucket bits (rn_page x) = k"
    using ch(1) by (simp add: m_def k)
  then have "placed bits (bs[k := a @ [m]])"
    using ok kl by (intro placed_update) (simp_all add: table_ok_def)
  moreover have "\<forall>x\<in>set (concat (bs[k := a @ [m]])). 0 < rn_ref x \<and> unat (rn_page x) < tot"
    using ok r p unfolding table_ok_def cs by (auto simp: ch m_def)
  moreover have "distinct (map rn_page (concat (bs[k := a @ [m]])))"
    using ok new unfolding table_ok_def cs by (auto simp: ch m_def)
  ultimately show "table_ok bits tot (bs[k := a @ [m]])"
    using ok by (simp add: table_ok_def)
  show "map_of (pairs (concat (bs[k := a @ [m]]))) = (map_of (pairs (concat bs)))(p \<mapsto> r)"
    using new unfolding cs by (auto simp: ch m_def map_of_pairs_None map_add_def fun_eq_iff image_Un split: option.splits)
  show "length (concat (bs[k := a @ [m]])) = Suc (length (concat bs))"
    unfolding cs by (simp add: ch)
qed

lemma table_remove:
  assumes ok: "table_ok bits tot bs" and k: "k = refht_bucket bits p" and l: "refht_link p (bs ! k) = (a, n # c)"
  shows "table_ok bits tot (bs[k := a @ c])"
    and "map_of (pairs (concat (bs[k := a @ c]))) = (map_of (pairs (concat bs)))(p := None)"
    and "Suc (length (concat (bs[k := a @ c]))) = length (concat bs)"
proof -
  have kl: "k < length bs" using table_lookup(1) [OF ok] l k by blast
  have ch: "bs ! k = a @ n # c" "rn_page n = p" using link_split(1,3) [OF l] by auto
  note cs = concat_split [OF kl]
  have d: "distinct (map rn_page (concat bs))" using ok by (simp add: table_ok_def)
  have "\<forall>x\<in>set (bs ! k). refht_bucket bits (rn_page x) = k" using ok kl by (simp add: table_ok_def placed_def)
  then have "placed bits (bs[k := a @ c])"
    using ok kl by (intro placed_update) (auto simp: ch table_ok_def)
  moreover have "\<forall>x\<in>set (concat (bs[k := a @ c])). 0 < rn_ref x \<and> unat (rn_page x) < tot"
    using ok unfolding table_ok_def cs by (auto simp: ch)
  moreover have "distinct (map rn_page (concat (bs[k := a @ c])))"
    using d unfolding cs by (auto simp: ch)
  ultimately show "table_ok bits tot (bs[k := a @ c])"
    using ok by (simp add: table_ok_def)
  show "map_of (pairs (concat (bs[k := a @ c]))) = (map_of (pairs (concat bs)))(p := None)"
    using d unfolding cs by (auto simp: ch map_of_pairs_None map_add_def fun_eq_iff split: option.splits)
  show "Suc (length (concat (bs[k := a @ c]))) = length (concat bs)"
    unfolding cs by (simp add: ch)
qed

text \<open>A node pushed onto its bucket is one node more, wherever that bucket is.\<close>

lemma push_node_mset:
  assumes "length table = 2 ^ bits" and "bits \<le> 64"
  shows "set (concat (push_node bits table n)) = insert n (set (concat table))"
    and "length (concat (push_node bits table n)) = Suc (length (concat table))"
    and "distinct (map rn_page (concat (push_node bits table n))) \<longleftrightarrow>
           distinct (rn_page n # map rn_page (concat table))"
    and "placed bits table \<Longrightarrow> placed bits (push_node bits table n)"
    and "length (push_node bits table n) = 2 ^ bits"
proof -
  let ?k = "refht_bucket bits (rn_page n)"
  have kl: "?k < length table" using assms bucket_less by simp
  note cs = concat_split [OF kl]
  note pd = push_node_def Let_def
  show "set (concat (push_node bits table n)) = insert n (set (concat table))"
    unfolding pd cs(2) cs(1) by auto
  show "length (concat (push_node bits table n)) = Suc (length (concat table))"
    unfolding pd cs(2) cs(1) by simp
  show "distinct (map rn_page (concat (push_node bits table n))) \<longleftrightarrow>
           distinct (rn_page n # map rn_page (concat table))"
    unfolding pd cs(2) cs(1) by auto
  show "placed bits table \<Longrightarrow> placed bits (push_node bits table n)"
    using kl by (auto simp: pd placed_def nth_list_update)
  show "length (push_node bits table n) = 2 ^ bits" using assms by (simp add: pd)
qed

lemma push_nodes:
  assumes "length table = 2 ^ bits" and "bits \<le> 64" and "placed bits table"
    and "distinct (map rn_page (ns @ concat table))"
  defines "t \<equiv> foldl (push_node bits) table ns"
  shows "length t = 2 ^ bits \<and> placed bits t \<and> distinct (map rn_page (concat t)) \<and>
           set (concat t) = set ns \<union> set (concat table) \<and> length (concat t) = length ns + length (concat table)"
  using assms(1-4) unfolding t_def
proof (induction ns arbitrary: table)
  case (Cons n ns)
  note p = push_node_mset [OF Cons.prems(1,2), of n]
  have "distinct (map rn_page (ns @ concat (push_node bits table n)))"
    using Cons.prems(4) p(1,3) by (auto simp del: set_concat)
  with Cons.IH [of "push_node bits table n"] Cons.prems(2,3) p show ?case
    by (auto simp del: set_concat)
qed simp

lemma rehash_table:
  assumes "table_ok b0 tot old \<or> old = []" and "REFHT_MIN_BITS \<le> bits" and "bits \<le> 40"
  shows "table_ok bits tot (refht_rehash bits old)"
    and "map_of (pairs (concat (refht_rehash bits old))) = map_of (pairs (concat old))"
    and "length (concat (refht_rehash bits old)) = length (concat old)"
proof -
  have e: "concat (replicate (2 ^ bits) []) = ([] :: refht_node list)" by simp
  have d: "distinct (map rn_page (concat old))" using assms(1) by (auto simp: table_ok_def)
  have t: "length (refht_rehash bits old) = 2 ^ bits \<and> placed bits (refht_rehash bits old) \<and>
      distinct (map rn_page (concat (refht_rehash bits old))) \<and>
      set (concat (refht_rehash bits old)) = set (concat old) \<and>
      length (concat (refht_rehash bits old)) = length (concat old)"
    using push_nodes [of "replicate (2 ^ bits) []" bits "concat old"] assms(3) d
    by (simp add: refht_rehash_def placed_def e del: set_concat)
  then show "table_ok bits tot (refht_rehash bits old)" using assms
    by (auto simp: table_ok_def simp del: set_concat)
  have "set (pairs (concat (refht_rehash bits old))) = set (pairs (concat old))"
    using t by (simp add: pairs_def del: set_concat)
  then show "map_of (pairs (concat (refht_rehash bits old))) = map_of (pairs (concat old))"
    using t d by (intro map_of_inject_set [THEN iffD2]) simp_all
  show "length (concat (refht_rehash bits old)) = length (concat old)" using t by simp
qed

subsection \<open>Sizes\<close>

lemma grow_bits_bounds: "cnt \<le> 4 * 2 ^ b \<Longrightarrow> bits \<le> grow_bits cnt bits \<and> grow_bits cnt bits \<le> max bits b"
proof (induction cnt bits rule: grow_bits.induct)
  case (1 cnt bits)
  show ?case
  proof (cases "4 * 2 ^ bits < cnt")
    case True
    then have "(2 :: nat) ^ bits < 2 ^ b" using "1.prems" by linarith
    then have "bits < b" by simp
    with 1 True show ?thesis by (subst (1 2) grow_bits.simps) auto
  next
    case False
    then show ?thesis by (subst (1 2) grow_bits.simps) simp
  qed
qed

lemma shrink_bits_bounds:
  "shrink_bits cnt bits \<le> bits \<and> (REFHT_MIN_BITS \<le> bits \<longrightarrow> REFHT_MIN_BITS \<le> shrink_bits cnt bits)"
  by (induction cnt bits rule: shrink_bits.induct) auto

lemma active_le_total:
  assumes "ht_ok h" shows "ht_active h \<le> ht_total h"
proof (cases "ht_buckets h")
  case None
  with assms show ?thesis by (simp add: ht_ok_def ht_nodes_def)
next
  case (Some bs)
  let ?ns = "concat bs"
  have ok: "table_ok (ht_bits h) (ht_total h) bs" using assms Some by (simp add: ht_ok_def)
  then have "distinct (map (unat \<circ> rn_page) ?ns)"
    by (simp add: table_ok_def distinct_map inj_on_def word_unat_eq_iff del: set_concat)
  then have "length ?ns = card (set (map (unat \<circ> rn_page) ?ns))" by (metis distinct_card length_map)
  also have "\<dots> \<le> card {..<ht_total h}"
    using ok by (intro card_mono) (auto simp: table_ok_def)
  finally show ?thesis using assms Some by (simp add: ht_ok_def ht_nodes_def)
qed

lemma target_bits_bounds:
  assumes "ht_ok h" and "extra \<le> 1"
  shows "refht_target_bits h (ht_active h + extra) = 0 \<and> ht_buckets h = None \<and> ht_active h + extra = 0 \<or>
         REFHT_MIN_BITS \<le> refht_target_bits h (ht_active h + extra) \<and> refht_target_bits h (ht_active h + extra) \<le> 40"
proof -
  let ?c = "ht_active h + extra" and ?b = "if ht_bits h \<noteq> 0 then ht_bits h else REFHT_MIN_BITS"
  have b: "REFHT_MIN_BITS \<le> ?b" "?b \<le> 40" using assms(1) by (auto simp: ht_ok_def table_ok_def split: option.splits)
  have "?c \<le> 4 * 2 ^ 40" using active_le_total [OF assms(1)] assms by (simp add: ht_ok_def)
  from grow_bits_bounds [OF this, of ?b] b
  have "REFHT_MIN_BITS \<le> grow_bits ?c ?b" "grow_bits ?c ?b \<le> 40" by linarith+
  with shrink_bits_bounds [of ?c "grow_bits ?c ?b"] show ?thesis
    by (auto simp: refht_target_bits_def Let_def)
qed


subsection \<open>The critical sections\<close>

text \<open>The parts of the state no section touches, and the map a section leaves.\<close>

abbreviation keeps :: "refht \<Rightarrow> refht \<Rightarrow> bool" where
  "keeps h h' \<equiv> ht_total h' = ht_total h \<and> ht_initialized h' = ht_initialized h"

lemma commit_section:
  assumes "ht_ok h" and "extra \<le> 1" and "ht_initialized h"
  shows "ht_ok (refht_resize_commit h extra bits) \<and> ht_map (refht_resize_commit h extra bits) = ht_map h \<and>
         keeps h (refht_resize_commit h extra bits)"
proof (cases "refht_target_bits h (ht_active h + extra) \<noteq> bits \<or> bits = ht_bits h")
  case True
  with assms show ?thesis by (simp add: refht_resize_commit_def)
next
  case False
  let ?old = "case ht_buckets h of None \<Rightarrow> [] | Some old \<Rightarrow> old"
  have b: "REFHT_MIN_BITS \<le> bits" "bits \<le> 40"
    using target_bits_bounds [OF assms(1,2)] False assms(1) by (auto simp: ht_ok_def)
  have o: "table_ok (ht_bits h) (ht_total h) ?old \<or> ?old = []" and n: "ht_nodes h = concat ?old"
    using assms(1) by (auto simp: ht_ok_def ht_nodes_def split: option.splits)
  have e: "refht_resize_commit h extra bits = h\<lparr>ht_buckets := Some (refht_rehash bits ?old), ht_bits := bits\<rparr>"
    using False b by (simp add: refht_resize_commit_def)
  from rehash_table [OF o b] assms(1,3) n show ?thesis
    by (auto simp: e ht_ok_def ht_map_def ht_nodes_def)
qed

lemma resize_keeps:
  assumes "ht_ok h" and "extra \<le> 1" and "ht_initialized h"
  shows "ht_ok (refht_resize kc h extra) \<and> ht_map (refht_resize kc h extra) = ht_map h \<and>
         keeps h (refht_resize kc h extra)"
  using commit_section [OF assms] assms(1) by (simp add: refht_resize_def Let_def)

lemma ht_ok_Some:
  assumes "ht_ok h" and "ht_buckets h = Some bs"
  shows "table_ok (ht_bits h) (ht_total h) bs" "ht_map h = map_of (pairs (concat bs))" "ht_initialized h"
    "ht_active h = length (concat bs)"
  using assms by (auto simp: ht_ok_def ht_map_def ht_nodes_def)

lemma ht_map_None: "ht_buckets h = None \<Longrightarrow> ht_map h = Map.empty"
  by (simp add: ht_map_def ht_nodes_def)

lemma ht_lookup:
  assumes "ht_ok h" and "ht_buckets h = Some bs" and "refht_link p (bs ! refht_bucket (ht_bits h) p) = (a, b)"
  shows "ht_map h p = (case b of [] \<Rightarrow> None | n # c \<Rightarrow> Some (rn_ref n))"
  using table_lookup(2) [OF ht_ok_Some(1) [OF assms(1,2)] assms(3)] ht_ok_Some(2) [OF assms(1,2)] by simp

lemma defer_section [simp]:
  "ht_ok (defer_node n h) = ht_ok h" "ht_map (defer_node n h) = ht_map h"
  "ht_total (defer_node n h) = ht_total h" "ht_initialized (defer_node n h) = ht_initialized h"
  by (simp_all add: defer_node_def ht_ok_def ht_map_def ht_nodes_def cong: option.case_cong)

lemma alloc_node_section:
  assumes "refht_alloc_node km h = (fresh, h')"
  shows "ht_ok h \<Longrightarrow> ht_ok h'" "ht_map h' = ht_map h" "keeps h h'"
    "fresh = None \<longleftrightarrow> \<not> km \<and> ht_deferred h = []" "ht_buckets h' = ht_buckets h"
  using assms by (auto simp: refht_alloc_node_def ht_ok_def ht_map_def ht_nodes_def
    split: list.splits if_splits cong: option.case_cong)

text \<open>A new chain in its bucket, with the number of nodes brought up to date.\<close>

lemma ht_update:
  assumes "ht_ok h" and "ht_buckets h = Some bs" and "table_ok (ht_bits h) (ht_total h) (bs[k := c])"
    and "map_of (pairs (concat (bs[k := c]))) = m" and "a = length (concat (bs[k := c]))"
  shows "ht_ok ((set_chain k c h)\<lparr>ht_active := a\<rparr>) \<and> ht_map ((set_chain k c h)\<lparr>ht_active := a\<rparr>) = m \<and>
         keeps h ((set_chain k c h)\<lparr>ht_active := a\<rparr>)"
  using assms by (simp add: set_chain_def ht_ok_def ht_map_def ht_nodes_def)

lemma set_chain_active: "(set_chain k c h)\<lparr>ht_active := ht_active h\<rparr> = set_chain k c h"
  by (simp add: set_chain_def)

lemma set_ref_section:
  assumes "ht_ok h" and "ht_buckets h = Some bs" and "refht_link p (bs ! refht_bucket (ht_bits h) p) = (a, n # c)" and "0 < r"
  shows "ht_ok (set_chain (refht_bucket (ht_bits h) p) (a @ n\<lparr>rn_ref := r\<rparr> # c) h) \<and>
    ht_map (set_chain (refht_bucket (ht_bits h) p) (a @ n\<lparr>rn_ref := r\<rparr> # c) h) = (ht_map h)(p \<mapsto> r) \<and>
    keeps h (set_chain (refht_bucket (ht_bits h) p) (a @ n\<lparr>rn_ref := r\<rparr> # c) h)"
proof -
  note t = table_set_ref [OF ht_ok_Some(1) [OF assms(1,2)] refl assms(3,4)]
  have "ht_active h = length (concat (bs[refht_bucket (ht_bits h) p := a @ n\<lparr>rn_ref := r\<rparr> # c]))"
    by (simp only: t(3) ht_ok_Some(4) [OF assms(1,2)])
  from ht_update [OF assms(1,2) t(1,2) this] show ?thesis
    unfolding set_chain_active ht_ok_Some(2) [OF assms(1,2)] .
qed

lemma append_section:
  assumes "ht_ok h" and "ht_buckets h = Some bs" and "refht_link p (bs ! refht_bucket (ht_bits h) p) = (a, [])" and "0 < r"
    and "unat p < ht_total h"
  shows "ht_ok ((set_chain (refht_bucket (ht_bits h) p) (a @ [\<lparr>rn_page = p, rn_ref = r\<rparr>]) h)\<lparr>ht_active := ht_active h + 1\<rparr>) \<and>
    ht_map ((set_chain (refht_bucket (ht_bits h) p) (a @ [\<lparr>rn_page = p, rn_ref = r\<rparr>]) h)\<lparr>ht_active := ht_active h + 1\<rparr>) =
      (ht_map h)(p \<mapsto> r) \<and>
    keeps h ((set_chain (refht_bucket (ht_bits h) p) (a @ [\<lparr>rn_page = p, rn_ref = r\<rparr>]) h)\<lparr>ht_active := ht_active h + 1\<rparr>)"
proof -
  note t = table_append [OF ht_ok_Some(1) [OF assms(1,2)] refl assms(3,4,5)]
  show ?thesis unfolding ht_ok_Some(2) [OF assms(1,2)]
    by (rule ht_update [OF assms(1,2) t(1,2)]) (simp only: t(3) ht_ok_Some(4) [OF assms(1,2)] Suc_eq_plus1)
qed

lemma drop_section:
  assumes "ht_ok h" and "ht_buckets h = Some bs" and "refht_link p (bs ! refht_bucket (ht_bits h) p) = (a, n # c)"
  shows "ht_ok (refht_drop h (refht_bucket (ht_bits h) p) a m c) \<and>
    ht_map (refht_drop h (refht_bucket (ht_bits h) p) a m c) = (ht_map h)(p := None) \<and>
    keeps h (refht_drop h (refht_bucket (ht_bits h) p) a m c)"
proof -
  note t = table_remove [OF ht_ok_Some(1) [OF assms(1,2)] refl assms(3)]
  have a: "(if ht_active h > 0 then ht_active h - 1 else 0) = length (concat (bs[refht_bucket (ht_bits h) p := a @ c]))"
    unfolding ht_ok_Some(4) [OF assms(1,2)] t(3) [symmetric] by (simp only: zero_less_Suc if_True diff_Suc_1)
  show ?thesis unfolding refht_drop_def defer_section ht_ok_Some(2) [OF assms(1,2)]
    by (rule ht_update [OF assms(1,2) t(1,2) a])
qed


subsection \<open>The abstract counts\<close>

text \<open>What the operations promise: a finite map of counts, without buckets, nodes or sizes.\<close>

definition counts_add :: "(u64 \<rightharpoonup> 24 word) \<Rightarrow> u64 \<Rightarrow> 24 word \<Rightarrow> u64 \<rightharpoonup> 24 word" where
  "counts_add m p initial = m(p \<mapsto> (case m p of None \<Rightarrow> initial | Some c \<Rightarrow> c + 1))"

definition counts_release :: "(u64 \<rightharpoonup> 24 word) \<Rightarrow> u64 \<Rightarrow> bool \<Rightarrow> u64 \<times> bool \<times> (u64 \<rightharpoonup> 24 word)" where
  "counts_release m p cow =
     (case m p of
        None \<Rightarrow> (0, cow, m)
      | Some c \<Rightarrow>
          if cow then (if c > 2 then (ucast (c - 1), False, m(p \<mapsto> c - 1)) else (0, c = 1, m(p := None)))
          else (ucast (c - 1), False, if c = 1 then m(p := None) else m(p \<mapsto> c - 1)))"

lemma field40_small:
  assumes "unat p < t" and "t \<le> 2 ^ 40" shows "field40 p = p"
proof -
  have "unat p < 2 ^ 40" using assms by linarith
  then show ?thesis by (intro word_unat_eq_iff [THEN iffD2]) (simp add: field40_def unsigned_take_bit_eq take_bit_nat_eq_self)
qed

lemma word_succ_pos: "c < REFHT_MAX_REF \<Longrightarrow> 0 < c + 1"
  using word_less_nat_alt [of c REFHT_MAX_REF] by (simp add: word_less_nat_alt unat_word_ariths)

lemma insert_counts:
  assumes ok: "ht_ok h" and p: "unat p < ht_total h" and i: "0 < initial" and r: "refht_insert h p initial fresh = (r, h')"
  shows "ht_ok h' \<and> keeps h h' \<and> r = (if ht_buckets h \<noteq> None \<and> (case ht_map h p of None \<Rightarrow> fresh \<noteq> None | Some c \<Rightarrow> c < REFHT_MAX_REF)
         then 0 else -1) \<and> ht_map h' = (if r = 0 then counts_add (ht_map h) p initial else ht_map h)"
proof (cases "ht_buckets h")
  case None
  with ok r show ?thesis by (auto simp: refht_insert_def split: option.splits)
next
  case (Some bs)
  let ?k = "refht_bucket (ht_bits h) p"
  obtain a b where l: "refht_link p (bs ! ?k) = (a, b)" by force
  note look = ht_lookup [OF ok Some l]
  have tot: "ht_total h \<le> 2 ^ 40" using ok by (simp add: ht_ok_def)
  show ?thesis
  proof (cases b)
    case Nil
    note s = append_section [OF ok Some l [unfolded Nil] i p]
    show ?thesis using r look s Some Nil ok l
      by (auto simp: refht_insert_def field40_small [OF p tot] counts_add_def split: option.splits)
  next
    case (Cons n c)
    note s = set_ref_section [OF ok Some l [unfolded Cons] word_succ_pos]
    show ?thesis using r look s Some Cons ok l
      by (auto simp: refht_insert_def counts_add_def Let_def split: option.splits if_splits)
  qed
qed

lemma release_counts:
  assumes ok: "ht_ok h" and p: "unat (pa div 4096) < ht_total h" and r: "refht_release h pa cow = (r, f, h')"
  shows "ht_ok h' \<and> keeps h h' \<and> counts_release (ht_map h) (pa div 4096) cow = (r, f, ht_map h')"
proof (cases "ht_buckets h")
  case None
  then have "h' = h" "r = 0" "f = cow" using r p by (auto simp: refht_release_def Let_def split: if_splits)
  with None ok show ?thesis by (simp add: counts_release_def ht_map_None)
next
  case (Some bs)
  let ?p = "pa div 4096" let ?k = "refht_bucket (ht_bits h) ?p"
  obtain a b where l: "refht_link ?p (bs ! ?k) = (a, b)" by force
  note look = ht_lookup [OF ok Some l]
  have init: "ht_initialized h" by (rule ht_ok_Some(3) [OF ok Some])
  show ?thesis
  proof (cases b)
    case Nil
    then have "h' = h" "r = 0" "f = cow" using r p l init Some by (auto simp: refht_release_def Let_def)
    with Nil look ok show ?thesis by (simp add: counts_release_def)
  next
    case (Cons n c)
    note d = drop_section [OF ok Some l [unfolded Cons]]
    note s = set_ref_section [OF ok Some l [unfolded Cons]]
    have "n \<in> set (concat bs)" 
      using link_split(1) [OF l] concat_split(1) [of ?k bs] table_lookup(1) [OF ht_ok_Some(1) [OF ok Some] l] Cons by auto
    then have pos: "0 < rn_ref n" using ht_ok_Some(1) [OF ok Some] by (auto simp: table_ok_def)
    have one: "rn_ref n - 1 = 0 \<longleftrightarrow> rn_ref n = 1" by simp
    have dec: "rn_ref n > 2 \<Longrightarrow> 0 < rn_ref n - 1" "rn_ref n \<noteq> 1 \<Longrightarrow> 0 < rn_ref n - 1"
      by (auto simp: word_greater_zero_iff)
    show ?thesis
    proof (cases cow)
      case True
      then show ?thesis using r look p init Some Cons l d [of n] s [OF dec(1)]
        by (auto simp: refht_release_def counts_release_def Let_def split: if_splits)
    next
      case False
      then show ?thesis using r look p init Some Cons l pos one d [of "n\<lparr>rn_ref := 0\<rparr>"] s [OF dec(2)]
        by (auto simp: refht_release_def counts_release_def Let_def split: if_splits)
    qed
  qed
qed


lemma init_section [simp]:
  assumes "ht_ok h"
  shows "ht_ok (refht_init h)" "ht_map (refht_init h) = ht_map h" "ht_total (refht_init h) = ht_total h"
    "ht_initialized (refht_init h)"
  using assms by (auto simp: refht_init_def ht_ok_def ht_map_def ht_nodes_def cong: option.case_cong)

lemma entries_section [simp]:
  "ht_ok (h\<lparr>ht_entries := e\<rparr>) = ht_ok h" "ht_map (h\<lparr>ht_entries := e\<rparr>) = ht_map h"
  by (auto simp: ht_ok_def ht_map_def ht_nodes_def cong: option.case_cong)

lemma resize_provides_table:
  assumes "ht_ok h" shows "ht_buckets (refht_resize True h 1) \<noteq> None"
proof -
  have t: "refht_target_bits h (ht_active h + 1) \<noteq> 0"
    using target_bits_bounds [OF assms, of 1] by auto
  show ?thesis using t assms
    by (auto simp: refht_resize_def refht_resize_commit_def Let_def ht_ok_def split: option.splits)
qed

text \<open>
  Sharing a page either adds one to its count and succeeds, or reports failure and leaves
  every count alone; with memory at hand it fails only at the greatest count.
\<close>

lemma add_counts:
  assumes ok: "ht_ok h" and p: "unat (pa div 4096) < ht_total h" and i: "0 < initial"
    and r: "refht_add kc km h pa initial = (r, h')"
  shows "ht_ok h' \<and> ht_total h' = ht_total h \<and> r \<in> {0, -1} \<and>
         ht_map h' = (if r = 0 then counts_add (ht_map h) (pa div 4096) initial else ht_map h)"
    and "r = 0 \<Longrightarrow> ht_map h (pa div 4096) = Some c \<Longrightarrow> c < REFHT_MAX_REF"
    and "kc \<Longrightarrow> km \<Longrightarrow> (case ht_map h (pa div 4096) of None \<Rightarrow> True | Some c \<Rightarrow> c < REFHT_MAX_REF) \<Longrightarrow> r = 0"
proof -
  let ?p = "pa div 4096" and ?h2 = "(refht_init h)\<lparr>ht_entries := ht_total (refht_init h)\<rparr>"
  obtain fresh h4 where a: "refht_alloc_node km (refht_resize kc ?h2 1) = (fresh, h4)" by force
  have e: "refht_insert h4 ?p initial fresh = (r, h')"
    using r p ok a by (simp add: refht_add_def Let_def)
  have o2: "ht_ok ?h2" "ht_map ?h2 = ht_map h" "ht_total ?h2 = ht_total h" "ht_initialized ?h2" using ok by simp_all
  note rs = resize_keeps [OF o2(1) _ o2(4), of 1 kc]
  note al = alloc_node_section [OF a]
  have o4: "ht_ok h4" "ht_map h4 = ht_map h" "ht_total h4 = ht_total h" using rs al o2 by simp_all
  note ins = insert_counts [OF o4(1) _ i e]
  show "ht_ok h' \<and> ht_total h' = ht_total h \<and> r \<in> {0, -1} \<and>
         ht_map h' = (if r = 0 then counts_add (ht_map h) (pa div 4096) initial else ht_map h)"
    using ins p o4 by auto
  show "r = 0 \<Longrightarrow> ht_map h (pa div 4096) = Some c \<Longrightarrow> c < REFHT_MAX_REF"
    using ins p o4 by (auto split: if_splits)
  show "kc \<Longrightarrow> km \<Longrightarrow> (case ht_map h (pa div 4096) of None \<Rightarrow> True | Some c \<Rightarrow> c < REFHT_MAX_REF) \<Longrightarrow> r = 0"
    using ins p o4 al resize_provides_table [OF o2(1)] by (auto split: option.splits)
qed


subsection \<open>Owners of a page\<close>

text \<open>
  A page in use that has no entry has one owner, so that the owners of a page are counted
  by its entry or by its absence. A history is a sequence of successful and failed shares
  and of releases; the flag of a logged release says whether it told its caller to free
  the page.
\<close>

datatype ('e, 'p) own_event = Share 'e 'p | Release 'p

fun history :: "('e \<Rightarrow> 's \<Rightarrow> 'p \<Rightarrow> bool \<times> 's) \<Rightarrow> ('s \<Rightarrow> 'p \<Rightarrow> bool \<times> 's) \<Rightarrow> 's \<Rightarrow> ('e, 'p) own_event list \<Rightarrow>
    (('e, 'p) own_event \<times> bool) list \<times> 's" where
  "history share release s [] = ([], s)"
| "history share release s (ev # evs) =
     (let (b, s1) = (case ev of Share e p \<Rightarrow> share e s p | Release p \<Rightarrow> release s p);
          (log, s2) = history share release s1 evs
      in ((ev, b) # log, s2))"

fun event_page :: "('e, 'p) own_event \<Rightarrow> 'p" where
  "event_page (Share e p) = p"
| "event_page (Release p) = p"

definition shares :: "('p \<Rightarrow> 'f) \<Rightarrow> 'f \<Rightarrow> (('e, 'p) own_event \<times> bool) list \<Rightarrow> nat" where
  "shares fr f log = length (filter (\<lambda>(ev, b). case ev of Share e p \<Rightarrow> b \<and> fr p = f | Release p \<Rightarrow> False) log)"

definition releases :: "('p \<Rightarrow> 'f) \<Rightarrow> 'f \<Rightarrow> (('e, 'p) own_event \<times> bool) list \<Rightarrow> nat" where
  "releases fr f log = length (filter (\<lambda>(ev, b). case ev of Share e p \<Rightarrow> False | Release p \<Rightarrow> fr p = f) log)"

definition frees :: "('p \<Rightarrow> 'f) \<Rightarrow> 'f \<Rightarrow> (('e, 'p) own_event \<times> bool) list \<Rightarrow> nat" where
  "frees fr f log = length (filter (\<lambda>(ev, b). case ev of Share e p \<Rightarrow> False | Release p \<Rightarrow> b \<and> fr p = f) log)"

locale page_owners =
  fixes ok :: "'s \<Rightarrow> bool" and valid :: "'s \<Rightarrow> 'p \<Rightarrow> bool" and fr :: "'p \<Rightarrow> 'f" and own :: "'s \<Rightarrow> 'f \<Rightarrow> nat"
    and share :: "'e \<Rightarrow> 's \<Rightarrow> 'p \<Rightarrow> bool \<times> 's" and release :: "'s \<Rightarrow> 'p \<Rightarrow> bool \<times> 's"
  assumes share_ok: "ok s \<Longrightarrow> valid s p \<Longrightarrow> share e s p = (b, s') \<Longrightarrow> ok s' \<and> (\<forall>q. valid s' q = valid s q)"
    and release_ok: "ok s \<Longrightarrow> valid s p \<Longrightarrow> release s p = (b, s') \<Longrightarrow> ok s' \<and> (\<forall>q. valid s' q = valid s q)"
    and share_own: "ok s \<Longrightarrow> valid s p \<Longrightarrow> share e s p = (b, s') \<Longrightarrow>
          own s' f = own s f + (if b \<and> f = fr p then 1 else 0)"
    and release_own: "ok s \<Longrightarrow> valid s p \<Longrightarrow> release s p = (b, s') \<Longrightarrow>
          own s' f = (if f = fr p \<and> own s f \<noteq> 1 then own s f - 1 else own s f)"
    and release_last: "ok s \<Longrightarrow> valid s p \<Longrightarrow> release s p = (b, s') \<Longrightarrow> b \<longleftrightarrow> own s (fr p) = 1"
    and own_pos: "ok s \<Longrightarrow> 0 < own s f"
begin

lemma history_step:
  assumes "ok s" and "valid s (event_page ev)" 
    and "(case ev of Share e p \<Rightarrow> share e s p | Release p \<Rightarrow> release s p) = (b, s1)"
  shows "ok s1 \<and> (\<forall>q. valid s1 q = valid s q)"
    and "own s1 f + releases fr f [(ev, b)] = own s f + shares fr f [(ev, b)] + frees fr f [(ev, b)]"
proof -
  have "ok s1 \<and> (\<forall>q. valid s1 q = valid s q) \<and>
        own s1 f + releases fr f [(ev, b)] = own s f + shares fr f [(ev, b)] + frees fr f [(ev, b)]"
  proof (cases ev)
    case (Share e p)
    then show ?thesis using assms share_ok [of s p e b s1] share_own [of s p e b s1 f]
      by (auto simp: shares_def releases_def frees_def)
  next
    case (Release p)
    then show ?thesis using assms release_ok [of s p b s1] release_own [of s p b s1 f] release_last [of s p b s1]
        own_pos [of s f]
      by (auto simp: shares_def releases_def frees_def)
  qed
  then show "ok s1 \<and> (\<forall>q. valid s1 q = valid s q)"
    "own s1 f + releases fr f [(ev, b)] = own s f + shares fr f [(ev, b)] + frees fr f [(ev, b)]" by auto
qed

lemma tally_Cons:
  "shares fr f (x # log) = shares fr f [x] + shares fr f log"
  "releases fr f (x # log) = releases fr f [x] + releases fr f log"
  "frees fr f (x # log) = frees fr f [x] + frees fr f log"
  by (simp_all add: shares_def releases_def frees_def)

text \<open>Every release takes an owner away, unless it is the last one, which frees the page.\<close>

lemma balance:
  assumes "ok s" and "\<forall>ev\<in>set evs. valid s (event_page ev)" and "history share release s evs = (log, s')"
  shows "ok s' \<and> (\<forall>q. valid s' q = valid s q) \<and> own s' f + releases fr f log = own s f + shares fr f log + frees fr f log"
  using assms
proof (induction evs arbitrary: s log)
  case Nil
  then show ?case by (auto simp: shares_def releases_def frees_def)
next
  case (Cons ev evs)
  obtain b s1 where s1: "(case ev of Share e p \<Rightarrow> share e s p | Release p \<Rightarrow> release s p) = (b, s1)" by force
  obtain log1 where l: "history share release s1 evs = (log1, s')" "log = (ev, b) # log1"
    using Cons.prems(3) s1 by (auto simp: split: prod.splits)
  have v: "valid s (event_page ev)" using Cons.prems(2) by simp
  note st = history_step(1) [OF Cons.prems(1) v s1] history_step(2) [OF Cons.prems(1) v s1, of f]
  have v': "\<forall>ev\<in>set evs. valid s1 (event_page ev)" using st(1) Cons.prems(2) by simp
  note ih = Cons.IH [OF _ v' l(1)]
  have o: "ok s1" using st(1) by blast
  show ?case
    using ih [OF o] st unfolding l(2) tally_Cons [of f "(ev, b)" log1] by simp
qed

lemma last_owner:
  assumes "ok s" and "\<forall>ev\<in>set evs. valid s (event_page ev)" and "valid s p"
    and "history share release s evs = (log, s1)" and "frees fr (fr p) log = 0" and "release s1 p = (b, s2)"
  shows "b \<longleftrightarrow> own s (fr p) + shares fr (fr p) log = Suc (releases fr (fr p) log)"
  using balance [OF assms(1,2,4), of "fr p"] release_last [of s1 p b s2] assms(3,5,6) by auto

end


definition own :: "refht \<Rightarrow> u64 \<Rightarrow> nat" where
  "own h p = (case ht_map h p of None \<Rightarrow> 1 | Some c \<Rightarrow> unat c)"

definition page_valid :: "refht \<Rightarrow> u64 \<Rightarrow> bool" where
  "page_valid h pa \<longleftrightarrow> unat (pa div 4096) < ht_total h"

definition page_share :: "bool \<times> bool \<Rightarrow> refht \<Rightarrow> u64 \<Rightarrow> bool \<times> refht" where
  "page_share e h pa = (case pfa_ref_share (fst e) (snd e) h pa of (r, h') \<Rightarrow> (r = 0, h'))"

definition page_release :: "refht \<Rightarrow> u64 \<Rightarrow> bool \<times> refht" where
  "page_release h pa = (case refht_release h pa True of (r, f, h') \<Rightarrow> (f, h'))"

lemma ht_map_pos:
  assumes "ht_ok h" and "ht_map h p = Some c" shows "0 < c"
proof -
  obtain bs where bs: "ht_buckets h = Some bs" using assms ht_map_None [of h] by (cases "ht_buckets h") auto
  have "(p, c) \<in> set (pairs (concat bs))" using ht_ok_Some(2) [OF assms(1) bs] assms(2) by (auto dest: map_of_SomeD)
  then show ?thesis using ht_ok_Some(1) [OF assms(1) bs] by (auto simp: table_ok_def pairs_def)
qed

lemma unat_succ24: "c < REFHT_MAX_REF \<Longrightarrow> unat (c + 1) = Suc (unat c)"
  using word_less_nat_alt [of c REFHT_MAX_REF] by (simp add: unat_word_ariths)

lemma unat_pred24: "0 < c \<Longrightarrow> unat (c - 1 :: 24 word) = unat c - 1"
  by (simp add: unat_minus_one word_greater_zero_iff)

lemma cow_owners:
  fixes m :: "u64 \<rightharpoonup> 24 word"
  defines "g \<equiv> \<lambda>m q. case m q of None \<Rightarrow> 1 | Some c \<Rightarrow> unat (c :: 24 word)"
  assumes pos: "\<And>c. m p = Some c \<Longrightarrow> 0 < c" and r: "counts_release m p True = (r, b, m')"
  shows "b \<longleftrightarrow> g m p = 1" and "g m' q = (if q = p \<and> g m q \<noteq> 1 then g m q - 1 else g m q)"
proof -
  have "(b \<longleftrightarrow> g m p = 1) \<and> g m' q = (if q = p \<and> g m q \<noteq> 1 then g m q - 1 else g m q)"
  proof (cases "m p")
    case None
    with r show ?thesis by (auto simp: counts_release_def g_def)
  next
    case (Some c)
    have c: "0 < c" "c > 2 \<longleftrightarrow> unat c > 2" "c = 1 \<longleftrightarrow> unat c = 1" "0 < unat c"
      using pos [OF Some] by (auto simp: word_less_nat_alt word_unat_eq_iff)
    then show ?thesis using r Some unat_pred24 [OF c(1)]
      by (auto simp: counts_release_def g_def split: if_splits)
  qed
  then show "b \<longleftrightarrow> g m p = 1" "g m' q = (if q = p \<and> g m q \<noteq> 1 then g m q - 1 else g m q)" by auto
qed

interpretation ro: page_owners ht_ok page_valid "\<lambda>pa. pa div 4096" own page_share page_release
proof (unfold_locales, goal_cases)
  case (1 s p e b s')
  then obtain r where "refht_add (fst e) (snd e) s p 2 = (r, s')"
    by (auto simp: page_share_def pfa_ref_share_def split: prod.splits)
  then show ?case using add_counts(1) [of s p 2] 1 by (auto simp: page_valid_def)
next
  case (2 s p b s')
  then obtain r where "refht_release s p True = (r, b, s')"
    by (auto simp: page_release_def split: prod.splits)
  then show ?case using release_counts [of s p True] 2 by (auto simp: page_valid_def)
next
  case (3 s p e b s' f)
  then obtain r where r: "refht_add (fst e) (snd e) s p 2 = (r, s')" "b \<longleftrightarrow> r = 0"
    by (auto simp: page_share_def pfa_ref_share_def split: prod.splits)
  have v: "unat (p div 4096) < ht_total s" using 3 by (simp add: page_valid_def)
  have two: "0 < (2 :: 24 word)" by simp
  note a = add_counts [OF 3(1) v two r(1)]
  show ?case using a(1) a(2) r(2) by (auto simp: own_def counts_add_def unat_succ24 split: option.splits)
next
  case (4 s p b s' f)
  then obtain r where r: "refht_release s p True = (r, b, s')"
    by (auto simp: page_release_def split: prod.splits)
  have v: "unat (p div 4096) < ht_total s" using 4 by (simp add: page_valid_def)
  from release_counts [OF 4(1) v r]
  have c: "counts_release (ht_map s) (p div 4096) True = (r, b, ht_map s')" by blast
  show ?case unfolding own_def by (rule cow_owners(2) [OF ht_map_pos [OF 4(1)] c])
next
  case (5 s p b s')
  then obtain r where r: "refht_release s p True = (r, b, s')"
    by (auto simp: page_release_def split: prod.splits)
  have v: "unat (p div 4096) < ht_total s" using 5 by (simp add: page_valid_def)
  from release_counts [OF 5(1) v r]
  have c: "counts_release (ht_map s) (p div 4096) True = (r, b, ht_map s')" by blast
  show ?case unfolding own_def by (rule cow_owners(1) [OF ht_map_pos [OF 5(1)] c])
next
  case (6 s f)
  then show ?case using ht_map_pos by (auto simp: own_def word_greater_zero_iff unat_gt_0 split: option.splits)
qed


subsection \<open>Interleaved sections\<close>

text \<open>
  What the processors do to the table between two points in time is a sequence of critical
  sections in any order, each with any plan and any node its processor made before. A
  section that counts is labelled with its page.
\<close>

inductive ht_section :: "u64 option \<Rightarrow> refht \<Rightarrow> refht \<Rightarrow> bool" where
  sec_init: "ht_section None h (refht_init h)"
| sec_commit: "ht_initialized h \<Longrightarrow> extra \<le> 1 \<Longrightarrow> ht_section None h (refht_resize_commit h extra bits)"
| sec_node: "ht_section None h (snd (refht_alloc_node km h))"
| sec_drain: "ht_section None h (h\<lparr>ht_deferred := [], ht_deferred_count := 0\<rparr>)"
| sec_insert: "unat p < ht_total h \<Longrightarrow> initial = 1 \<or> initial = 2 \<Longrightarrow>
    ht_section (Some p) h (snd (refht_insert h p initial fresh))"
| sec_release: "unat (pa div 4096) < ht_total h \<Longrightarrow> refht_release h pa cow = (r, f, h') \<Longrightarrow>
    ht_section (Some (pa div 4096)) h h'"

inductive_cases ht_sectionE: "ht_section l h h'"

inductive ht_sections :: "u64 option list \<Rightarrow> refht \<Rightarrow> refht \<Rightarrow> bool" where
  secs_none: "ht_sections [] h h"
| secs_more: "ht_section l h h1 \<Longrightarrow> ht_sections ls h1 h2 \<Longrightarrow> ht_sections (l # ls) h h2"

lemma counts_other:
  "q \<noteq> p \<Longrightarrow> counts_add m p i q = m q"
  "q \<noteq> p \<Longrightarrow> counts_release m p cow = (r, f, m') \<Longrightarrow> m' q = m q"
  by (auto simp: counts_add_def counts_release_def split: option.splits if_splits)

lemma section_keeps:
  assumes "ht_section l h h'" and "ht_ok h"
  shows "ht_ok h' \<and> (\<forall>p. l \<noteq> Some p \<longrightarrow> ht_map h' p = ht_map h p)"
  using assms
proof (cases rule: ht_section.cases)
  case sec_init
  then show ?thesis using init_section [OF assms(2)] by simp
next
  case (sec_commit extra bits)
  then show ?thesis using commit_section [OF assms(2)] by simp
next
  case (sec_node km)
  obtain n h1 where "refht_alloc_node km h = (n, h1)" by force
  with sec_node alloc_node_section [OF this] assms(2) show ?thesis by simp
next
  case sec_drain
  then show ?thesis using assms(2) by (simp add: ht_ok_def ht_map_def ht_nodes_def cong: option.case_cong)
next
  case (sec_insert p initial fresh)
  obtain r h1 where i: "refht_insert h p initial fresh = (r, h1)" by force
  have "0 < initial" using sec_insert by auto
  from insert_counts [OF assms(2) sec_insert(3) this i] sec_insert i show ?thesis
    by (auto simp: counts_other)
next
  case (sec_release pa cow r f)
  from release_counts [OF assms(2) sec_release(2,3)] sec_release(1) show ?thesis
    by (metis counts_other(2))
qed

lemma sections_keep:
  "ht_sections ls h h' \<Longrightarrow> ht_ok h \<Longrightarrow> ht_ok h' \<and> (\<forall>p. Some p \<notin> set ls \<longrightarrow> ht_map h' p = ht_map h p)"
  by (induction rule: ht_sections.induct) (auto dest!: section_keeps)


lemma get_counts:
  assumes ok: "ht_ok h" and p: "unat (pa div 4096) < ht_total h"
  shows "pfa_ref_get h pa = (case ht_map h (pa div 4096) of None \<Rightarrow> 0 | Some c \<Rightarrow> ucast c)"
proof (cases "ht_buckets h")
  case None
  then show ?thesis by (simp add: pfa_ref_get_def ht_map_None Let_def)
next
  case (Some bs)
  obtain a b where l: "refht_link (pa div 4096) (bs ! refht_bucket (ht_bits h) (pa div 4096)) = (a, b)" by force
  show ?thesis using ht_lookup [OF ok Some l] ht_ok_Some(3) [OF ok Some] Some l p
    by (simp add: pfa_ref_get_def Let_def split: list.splits)
qed

subsection \<open>Properties\<close>

definition refht_example :: refht where
  "refht_example = \<lparr>ht_buckets = None, ht_bits = 0, ht_deferred = [], ht_active = 0, ht_deferred_count = 0,
     ht_initialized = True, ht_entries = 1024, ht_total = 1024\<rparr>"

lemma refht_example_ok [simp]: "ht_ok refht_example" "ht_total refht_example = 1024" "ht_map refht_example = Map.empty"
  by (simp_all add: refht_example_def ht_ok_def ht_map_def ht_nodes_def)

text \<open>
  C9. Ownership of shared pages. Start from any well-formed table and let any history of
  shares (successful or not) and copy-on-write releases run, in which no release freed the
  page at an address yet. The next release of that page tells its caller to free the page if
  and only if it takes away the last owner: the owners at the start and the successful
  shares are together one more than the releases so far.
\<close>

theorem page_freed_by_last_owner:
  assumes "ht_ok h" and "\<forall>ev\<in>set evs. page_valid h (event_page ev)" and "page_valid h pa"
    and "history page_share page_release h evs = (log, h1)"
    and "frees (\<lambda>a. a div 4096) (pa div 4096) log = 0" and "refht_release h1 pa True = (r, free_page, h2)"
  shows "free_page \<longleftrightarrow> own h (pa div 4096) + shares (\<lambda>a. a div 4096) (pa div 4096) log
                          = Suc (releases (\<lambda>a. a div 4096) (pa div 4096) log)"
proof -
  have "page_release h1 pa = (free_page, h2)" using assms(6) by (simp add: page_release_def)
  from ro.last_owner [OF assms(1-5) this] show ?thesis .
qed

theorem page_freed_by_last_owner_witness:
  "\<exists>log h1 r h2. history page_share page_release refht_example [Share (True, True) 0x5000, Release 0x5000] = (log, h1) \<and>
     refht_release h1 0x5000 True = (r, True, h2)"
proof -
  let ?evs = "[Share (True, True) 0x5000, Release 0x5000] :: (bool \<times> bool, u64) own_event list"
  obtain log h1 where l: "history page_share page_release refht_example ?evs = (log, h1)" by force
  obtain r f h2 where f: "refht_release h1 0x5000 True = (r, f, h2)" by (metis prod_cases3)
  have log: "log = [(Share (True, True) 0x5000, True), (Release 0x5000, False)]"
  proof -
    have "fst (history page_share page_release refht_example ?evs) =
      [(Share (True, True) 0x5000, True), (Release 0x5000, False)]" by code_simp
    with l show ?thesis by simp
  qed
  have v: "\<forall>ev\<in>set ?evs. page_valid refht_example (event_page ev)" "page_valid refht_example 0x5000"
    by (simp_all add: page_valid_def)
  have "frees (\<lambda>a. a div 4096) (0x5000 div 4096) log = 0" by (simp add: log frees_def)
  from page_freed_by_last_owner [OF refht_example_ok(1) v l this f] have f
    by (simp add: log shares_def releases_def own_def)
  with l f show ?thesis by auto
qed


text \<open>
  C28. The hash table implements the map of counts. On a well-formed table and an address
  in range, pfa\_ref\_share either returns 0 and the count of exactly that page is one more
  (2 for a page without an entry), or returns -1 and no count changed, and with memory at
  hand it fails only when the count is the greatest 24-bit value; refht\_release and
  pfa\_ref\_get are the operations of the map, and the table stays well-formed.
\<close>

theorem refht_refines_counts:
  assumes "ht_ok h" and "unat (pa div 4096) < ht_total h"
    and "pfa_ref_share kc km h pa = (r, h')" and "refht_release h pa cow = (n, free_page, h'')"
  shows "ht_ok h' \<and> (r = 0 \<and> ht_map h' = counts_add (ht_map h) (pa div 4096) 2 \<or> r = -1 \<and> ht_map h' = ht_map h) \<and>
    (kc \<and> km \<and> ht_map h (pa div 4096) \<noteq> Some REFHT_MAX_REF \<longrightarrow> r = 0) \<and>
    ht_ok h'' \<and> counts_release (ht_map h) (pa div 4096) cow = (n, free_page, ht_map h'') \<and>
    pfa_ref_get h pa = (case ht_map h (pa div 4096) of None \<Rightarrow> 0 | Some c \<Rightarrow> ucast c)"
proof (intro conjI)
  have i: "0 < (2 :: 24 word)" by simp
  note a = add_counts [OF assms(1,2) i assms(3) [unfolded pfa_ref_share_def]]
  show "ht_ok h'" "r = 0 \<and> ht_map h' = counts_add (ht_map h) (pa div 4096) 2 \<or> r = -1 \<and> ht_map h' = ht_map h"
    using a(1) by auto
  have "c \<noteq> REFHT_MAX_REF \<Longrightarrow> c < REFHT_MAX_REF" for c :: "24 word"
    using unsigned_less [of c, where ?'a = nat] by (simp add: word_less_nat_alt word_unat_eq_iff)
  then show "kc \<and> km \<and> ht_map h (pa div 4096) \<noteq> Some REFHT_MAX_REF \<longrightarrow> r = 0"
    using a(3) by (cases "ht_map h (pa div 4096)") auto
  show "ht_ok h''" "counts_release (ht_map h) (pa div 4096) cow = (n, free_page, ht_map h'')"
    using release_counts [OF assms(1,2,4)] by auto
  show "pfa_ref_get h pa = (case ht_map h (pa div 4096) of None \<Rightarrow> 0 | Some c \<Rightarrow> ucast c)"
    by (rule get_counts [OF assms(1,2)])
qed

theorem refht_refines_counts_witness:
  "fst (pfa_ref_share True True refht_example 0x5000) = 0"
proof -
  obtain r h' n f h'' where *: "pfa_ref_share True True refht_example 0x5000 = (r, h')"
    "refht_release refht_example 0x5000 True = (n, f, h'')" by (metis prod_cases3 surj_pair)
  have "unat ((0x5000 :: u64) div 4096) < ht_total refht_example" by simp
  from refht_refines_counts [OF refht_example_ok(1) this *] show ?thesis by (simp add: *)
qed

text \<open>
  C29. Interleaving. Whatever critical sections the processors run and in whatever order,
  with resizes planned on tables that have changed since, the table stays well-formed, and
  the count of a page changes only in a section that counts that page: no resize, node
  reuse or garbage collection loses, duplicates or alters a count.
\<close>

theorem interleaving_keeps_counts:
  assumes "ht_sections ls h h'" and "ht_ok h"
  shows "ht_ok h' \<and> (\<forall>p. Some p \<notin> set ls \<longrightarrow> ht_map h' p = ht_map h p)"
  using assms by (rule sections_keep)

theorem interleaving_keeps_counts_witness:
  "\<exists>h'. ht_sections [None, Some 5] refht_example h' \<and> ht_ok h' \<and> ht_map h' 6 = None"
proof -
  let ?h = "refht_resize_commit refht_example 1 6"
  let ?h' = "snd (refht_insert ?h 5 2 (Some \<lparr>rn_page = 0, rn_ref = 0\<rparr>))"
  have i: "ht_initialized refht_example" by (simp add: refht_example_def)
  have "ht_total ?h = 1024" using commit_section [OF refht_example_ok(1) _ i, of 1 6] by simp
  then have "ht_section (Some 5) ?h ?h'" by (intro sec_insert) simp_all
  moreover have "ht_section None refht_example ?h" by (rule sec_commit [OF i]) simp
  ultimately have "ht_sections [None, Some 5] refht_example ?h'" by (blast intro: secs_more secs_none)
  from interleaving_keeps_counts [OF this refht_example_ok(1)] this show ?thesis by auto
qed

end
