(* ===== verification/Pfa.thy ===== *)
theory Pfa
  imports Refht
begin

text \<open>
  The page frame allocator of kernel/arch/x86_64/mem/pmm.c: a sparse bitmap of two levels
  over physical memory, whose leaves are page frames taken from the memory they describe.

  Addresses and frame numbers are natural numbers; w64 marks the sums and products that can
  leave 64 bits. Physical memory is a function from addresses to bytes, so that a leaf and
  the frame it occupies are the same bytes. The direct mapping of the kernel puts address a
  at KERNEL\_VMA + a; a leaf is named by its physical address. The lock and the interrupt
  flag are not modelled, and neither are log messages. Every entry point runs in one critical
  section but three: pmm\_alloc\_page drops the lock between its own search (page\_scan) and
  find\_free\_frames, and pfa\_free and pfa\_cow\_release take the lock of the reference counts before
  that of the bitmap. Each is one definition here; the histories of the theory Pfa\_Pool have the two parts
  of pmm\_alloc\_page as steps of their own too. The number of free frames is a 64-bit word, as it wraps in the code.
\<close>

unbundle bit_operations_syntax

abbreviation PAGE_SIZE :: nat where "PAGE_SIZE \<equiv> 4096"
abbreviation CHUNK_FRAMES :: nat where "CHUNK_FRAMES \<equiv> 32768"
abbreviation INLINE_ENTRIES :: nat where "INLINE_ENTRIES \<equiv> 64"
abbreviation DIRECT_FRAMES :: nat where "DIRECT_FRAMES \<equiv> 0x40000"

definition w64 :: "nat \<Rightarrow> nat" where
  "w64 n = n mod 2 ^ 64"

record page_tables =
  kv_pdpt_high :: "nat \<Rightarrow> u64"
  table_entry :: "u64 \<Rightarrow> nat \<Rightarrow> u64"

record pfa =
  pf_tables :: page_tables
  pf_map :: "(nat \<times> nat) list"
  pf_reserved :: "(nat \<times> nat) list"
  pf_mem :: "nat \<Rightarrow> u8"
  pfa_bitmap :: bool
  pfa_inline_directory :: "nat list"
  pfa_directory_extension :: "nat list option"
  pfa_directory_entries :: nat
  bitmap_entries_used :: nat
  bitmap_leaf_pages :: nat
  last_alloc_hint :: nat
  pfa_cached_free :: u64
  kernel_reclaimed_pages :: nat
  kernel_reserved_frames :: nat
  cold_low_start_frame :: nat
  cold_low_end_frame :: nat
  kernel_reclaim_lo :: nat
  kernel_reclaim_hi :: nat
  low_exhausted :: bool
  low_page_limit :: nat
  low_bump :: nat
  bump_current :: nat
  active_region :: nat
  system_total_ram_kb :: nat
  system_usable_ram_kb :: nat
  initial_free_frames :: u64
  kernel_binary_kb :: nat
  bitmap_alloc_kb :: nat
  pf_refs :: refht

text \<open>
  pf\_map is memory\_map, pairs of base and length; pf\_reserved is reserved\_regions, pairs
  of start\_phys, which holds the kind in its low bits, and end\_phys. The reference counts
  of the theory Refht hold total\_pages\_managed.
\<close>

abbreviation total_pages_managed :: "pfa \<Rightarrow> nat" where
  "total_pages_managed s \<equiv> ht_total (pf_refs s)"

definition align_up :: "nat \<Rightarrow> nat" where
  "align_up a = w64 (a + 0xFFF) div PAGE_SIZE * PAGE_SIZE"

definition align_down :: "nat \<Rightarrow> nat" where
  "align_down a = a div PAGE_SIZE * PAGE_SIZE"

subsection \<open>The direct mapping\<close>

definition pt_get_kernel_pd :: "page_tables \<Rightarrow> u64 \<Rightarrow> u64 option" where
  "pt_get_kernel_pd t virt_addr =
     (let pdpte = kv_pdpt_high t (unat (drop_bit 30 virt_addr AND 0x1FF))
      in if pdpte AND 1 = 0 then None else Some (pdpte AND NOT 0xFFF))"

definition pt_direct_map_ok :: "page_tables \<Rightarrow> nat \<Rightarrow> bool" where
  "pt_direct_map_ok t phys_addr =
     (let pa = (of_nat phys_addr AND NOT 0xFFF :: u64)
      in if pa \<ge> 0x40000000 then False
         else (let virt = pa + 0xFFFFFFFF80000000
               in case pt_get_kernel_pd t virt of
                    None \<Rightarrow> False
                  | Some pd \<Rightarrow>
                      (let pde = table_entry t pd (unat (drop_bit 21 virt AND 0x1FF))
                       in if pde AND 3 \<noteq> 3 then False
                          else if pde AND 0x80 \<noteq> 0
                          then (pde AND 0x000FFFFFFFE00000) + (virt AND 0x1FF000) = pa
                          else (let pte = table_entry t (pde AND 0x000FFFFFFFFFF000) (unat (drop_bit 12 virt AND 0x1FF))
                                in pte AND 3 = 3 \<and> pte AND 0x000FFFFFFFFFF000 = pa))))"

subsection \<open>Early pages\<close>

fun early_scan :: "(nat \<times> nat) list \<Rightarrow> nat \<Rightarrow> nat \<Rightarrow> nat \<times> nat" where
  "early_scan [] bytes bump = (0, bump)"
| "early_scan ((b, l) # rs) bytes bump =
     (let rend = w64 (b + l); bump1 = (if bump < b then b else bump)
      in if bump1 \<ge> rend then early_scan rs bytes bump1
         else if w64 (bump1 + bytes) > rend then early_scan rs bytes bump1
         else (bump1, w64 (bump1 + bytes)))"

definition pmm_alloc_early_page :: "pfa \<Rightarrow> nat \<times> pfa" where
  "pmm_alloc_early_page s =
     (let (addr, b) = early_scan (pf_map s) PAGE_SIZE (align_up (bump_current s))
      in (addr, s\<lparr>bump_current := b\<rparr>))"

subsection \<open>Frames and the bitmap\<close>

definition frame_is_usable :: "pfa \<Rightarrow> nat \<Rightarrow> bool" where
  "frame_is_usable s frame_idx =
     (let phys = w64 (frame_idx * PAGE_SIZE)
      in list_ex (\<lambda>(b, l). phys \<ge> b \<and> w64 (phys + PAGE_SIZE) \<le> w64 (b + l)) (pf_map s))"

definition reserved_start :: "nat \<times> nat \<Rightarrow> nat" where
  "reserved_start r = align_down (fst r)"

definition reserved_kind :: "nat \<times> nat \<Rightarrow> nat" where
  "reserved_kind r = fst r mod PAGE_SIZE"

definition frame_is_reserved :: "pfa \<Rightarrow> nat \<Rightarrow> bool" where
  "frame_is_reserved s frame_idx =
     (let phys = w64 (frame_idx * PAGE_SIZE)
      in list_ex (\<lambda>r. phys \<ge> reserved_start r \<and> phys < snd r) (pf_reserved s))"

definition bitmap_directory_get :: "pfa \<Rightarrow> nat \<Rightarrow> nat" where
  "bitmap_directory_get s chunk =
     (if chunk \<ge> pfa_directory_entries s then 0
      else if chunk < INLINE_ENTRIES then pfa_inline_directory s ! chunk
      else (case pfa_directory_extension s of
              None \<Rightarrow> 0
            | Some ext \<Rightarrow> ext ! (chunk - INLINE_ENTRIES)))"

definition bitmap_directory_set :: "pfa \<Rightarrow> nat \<Rightarrow> nat \<Rightarrow> pfa" where
  "bitmap_directory_set s chunk frame =
     (if chunk \<ge> pfa_directory_entries s then s
      else if chunk < INLINE_ENTRIES
      then s\<lparr>pfa_inline_directory := (pfa_inline_directory s)[chunk := frame]\<rparr>
      else (case pfa_directory_extension s of
              None \<Rightarrow> s
            | Some ext \<Rightarrow> s\<lparr>pfa_directory_extension := Some (ext[chunk - INLINE_ENTRIES := frame])\<rparr>))"

definition bitmap_get_leaf :: "pfa \<Rightarrow> nat \<Rightarrow> nat option" where
  "bitmap_get_leaf s frame_idx =
     (if \<not> pfa_bitmap s \<or> frame_idx \<ge> bitmap_entries_used s then None
      else (let leaf_frame = bitmap_directory_get s (frame_idx div CHUNK_FRAMES)
            in if leaf_frame = 0 then None else Some (leaf_frame * PAGE_SIZE)))"

definition bitmap_test_raw :: "pfa \<Rightarrow> nat \<Rightarrow> bool" where
  "bitmap_test_raw s frame_idx =
     (case bitmap_get_leaf s frame_idx of
        None \<Rightarrow> False
      | Some leaf \<Rightarrow> (let bit_idx = frame_idx mod CHUNK_FRAMES
                      in pf_mem s (leaf + bit_idx div 8) AND push_bit (bit_idx mod 8) 1 \<noteq> 0))"

definition candidate_ok :: "pfa \<Rightarrow> nat \<Rightarrow> nat \<Rightarrow> nat \<Rightarrow> nat \<Rightarrow> bool" where
  "candidate_ok s chunk exclude_start exclude_end frame \<longleftrightarrow>
     \<not> (frame \<ge> exclude_start \<and> frame < exclude_end) \<and>
     \<not> (\<not> frame_is_usable s frame \<or> frame_is_reserved s frame) \<and>
     \<not> (frame div CHUNK_FRAMES \<noteq> chunk \<and> bitmap_get_leaf s frame = None) \<and>
     \<not> bitmap_test_raw s frame \<and> pt_direct_map_ok (pf_tables s) (w64 (frame * PAGE_SIZE))"

definition bitmap_leaf_candidate :: "pfa \<Rightarrow> nat \<Rightarrow> nat \<Rightarrow> nat \<Rightarrow> nat option" where
  "bitmap_leaf_candidate s chunk exclude_start exclude_end =
     find (candidate_ok s chunk exclude_start exclude_end)
       [kernel_reserved_frames s ..< min DIRECT_FRAMES (bitmap_entries_used s)]"

definition mem_or :: "nat \<Rightarrow> u8 \<Rightarrow> pfa \<Rightarrow> pfa" where
  "mem_or a b s = s\<lparr>pf_mem := (pf_mem s)(a := pf_mem s a OR b)\<rparr>"

definition mem_zero :: "nat \<Rightarrow> nat \<Rightarrow> pfa \<Rightarrow> pfa" where
  "mem_zero a n s = s\<lparr>pf_mem := (\<lambda>x. if a \<le> x \<and> x < a + n then 0 else pf_mem s x)\<rparr>"

definition bitmap_ensure_leaf :: "pfa \<Rightarrow> nat \<Rightarrow> nat \<Rightarrow> nat \<Rightarrow> int \<times> pfa" where
  "bitmap_ensure_leaf s frame_idx exclude_start exclude_end =
     (if \<not> pfa_bitmap s \<or> frame_idx \<ge> bitmap_entries_used s then (-1, s)
      else (let chunk = frame_idx div CHUNK_FRAMES in
            if bitmap_directory_get s chunk \<noteq> 0 then (0, s)
            else (case bitmap_leaf_candidate s chunk exclude_start exclude_end of
                    None \<Rightarrow> (-1, s)
                  | Some leaf_frame \<Rightarrow>
                      (let s1 = mem_zero (leaf_frame * PAGE_SIZE) PAGE_SIZE s;
                           s2 = bitmap_directory_set s1 chunk (leaf_frame mod 2 ^ 32);
                           leaf_bit = leaf_frame mod CHUNK_FRAMES
                       in case bitmap_get_leaf s2 leaf_frame of
                            None \<Rightarrow> (-1, bitmap_directory_set s2 chunk 0)
                          | Some storage_leaf \<Rightarrow>
                              (let s3 = mem_or (storage_leaf + leaf_bit div 8) (push_bit (leaf_bit mod 8) 1) s2
                               in (0, s3\<lparr>bitmap_leaf_pages := bitmap_leaf_pages s3 + 1,
                                        pfa_cached_free := (if pfa_cached_free s3 \<noteq> 0 then pfa_cached_free s3 - 1
                                                            else pfa_cached_free s3)\<rparr>))))))"

text \<open>The loop of bitmap\_prepare\_range goes from chunk to chunk.\<close>

function prepare_from :: "pfa \<Rightarrow> nat \<Rightarrow> nat \<Rightarrow> nat \<Rightarrow> int \<times> pfa" where
  "prepare_from s start finish frame =
     (if frame < finish
      then (case bitmap_ensure_leaf s frame start finish of
              (r, s') \<Rightarrow>
                if r \<noteq> 0 then (-1, s')
                else prepare_from s' start finish (min ((frame div CHUNK_FRAMES + 1) * CHUNK_FRAMES) finish))
      else (0, s))"
  by pat_completeness auto
termination
proof (relation "measure (\<lambda>(s, start, finish, frame). finish - frame)", goal_cases)
  case (2 s start finish frame)
  have "frame < (frame div CHUNK_FRAMES + 1) * CHUNK_FRAMES"
    using div_mult_mod_eq [of frame CHUNK_FRAMES] mod_less_divisor [of CHUNK_FRAMES frame] by simp
  with 2(1) show ?case by simp
qed simp

declare prepare_from.simps [simp del]

definition bitmap_prepare_range :: "pfa \<Rightarrow> nat \<Rightarrow> nat \<Rightarrow> int \<times> pfa" where
  "bitmap_prepare_range s start cnt =
     (if cnt = 0 \<or> start > 2 ^ 64 - 1 - cnt then (-1, s) else prepare_from s start (start + cnt) start)"

definition set_bit :: "pfa \<Rightarrow> nat \<Rightarrow> pfa" where
  "set_bit s frame_idx =
     (if frame_idx \<ge> bitmap_entries_used s then s
      else (case bitmap_ensure_leaf s frame_idx frame_idx (frame_idx + 1) of
              (r, s1) \<Rightarrow>
                if r \<noteq> 0 then s1
                else (case bitmap_get_leaf s1 frame_idx of
                        None \<Rightarrow> s1
                      | Some leaf \<Rightarrow> (let bit_idx = frame_idx mod CHUNK_FRAMES
                                      in mem_or (leaf + bit_idx div 8) (push_bit (bit_idx mod 8) 1) s1))))"

definition clear_bit :: "pfa \<Rightarrow> nat \<Rightarrow> pfa" where
  "clear_bit s frame_idx =
     (case bitmap_get_leaf s frame_idx of
        None \<Rightarrow> s
      | Some leaf \<Rightarrow> (let bit_idx = frame_idx mod CHUNK_FRAMES; a = leaf + bit_idx div 8
                      in s\<lparr>pf_mem := (pf_mem s)(a := pf_mem s a AND NOT (push_bit (bit_idx mod 8) 1))\<rparr>))"

definition test_bit :: "pfa \<Rightarrow> nat \<Rightarrow> bool" where
  "test_bit s frame_idx =
     (if frame_idx \<ge> bitmap_entries_used s then True
      else if \<not> frame_is_usable s frame_idx then True
      else bitmap_test_raw s frame_idx)"

subsection \<open>Searching\<close>

text \<open>
  The scan for a run of num frames: the first frame of the run, or None at the end of the
  range. The state does not change before a run is found.
\<close>

function scan_run :: "pfa \<Rightarrow> nat \<Rightarrow> nat \<Rightarrow> nat \<Rightarrow> nat \<Rightarrow> nat \<Rightarrow> nat option" where
  "scan_run s num finish run run_start frame_idx =
     (if frame_idx < finish
      then (if test_bit s frame_idx then scan_run s num finish 0 (frame_idx + 1) (frame_idx + 1)
            else (let run_start1 = (if run = 0 then frame_idx else run_start)
                  in if run + 1 < num then scan_run s num finish (run + 1) run_start1 (frame_idx + 1)
                     else Some run_start1))
      else None)"
  by pat_completeness auto
termination by (relation "measure (\<lambda>(s, num, finish, run, run_start, frame_idx). finish - frame_idx)") auto

declare scan_run.simps [simp del]

definition ctz8 :: "u8 \<Rightarrow> nat" where
  "ctz8 b = length (takeWhile (\<lambda>i. \<not> bit b i) [0..<8])"

text \<open>
  The scan for one frame looks at eight bits of a leaf at a time: the bits of the byte that
  are free, at or after the frame, and inside the chunk and the range.
\<close>

definition byte_free_bits :: "pfa \<Rightarrow> nat \<Rightarrow> nat \<Rightarrow> nat \<Rightarrow> u8" where
  "byte_free_bits s frame_end frame_idx leaf =
     (let bit_idx = frame_idx mod CHUNK_FRAMES;
          chunk_end = min (frame_idx + (CHUNK_FRAMES - bit_idx)) frame_end;
          byte_base = frame_idx - bit_idx mod 8;
          used = pf_mem s (leaf + bit_idx div 8) OR (push_bit (bit_idx mod 8) 1 - 1);
          available = chunk_end - byte_base
      in NOT (if available < 8 then used OR push_bit available 0xFF else used))"

definition byte_base :: "nat \<Rightarrow> nat" where
  "byte_base frame_idx = frame_idx - frame_idx mod CHUNK_FRAMES mod 8"

lemma byte_base_less [simp]: "frame_idx < byte_base frame_idx + 8"
proof -
  have "frame_idx mod CHUNK_FRAMES mod 8 < 8" by simp
  then show ?thesis unfolding byte_base_def by linarith
qed

function scan_bytes :: "pfa \<Rightarrow> nat \<Rightarrow> nat \<Rightarrow> nat option" where
  "scan_bytes s frame_end frame_idx =
     (if frame_idx < frame_end
      then (case bitmap_get_leaf s frame_idx of
              None \<Rightarrow> Some frame_idx
            | Some leaf \<Rightarrow>
                (if byte_free_bits s frame_end frame_idx leaf = 0
                 then scan_bytes s frame_end (byte_base frame_idx + 8)
                 else Some (byte_base frame_idx + ctz8 (byte_free_bits s frame_end frame_idx leaf))))
      else None)"
  by pat_completeness auto
termination
  by (relation "measure (\<lambda>(s, frame_end, frame_idx). frame_end - frame_idx)") (simp_all add: diff_less_mono2)

declare scan_bytes.simps [simp del]

definition region_frames :: "nat \<Rightarrow> nat \<Rightarrow> nat \<times> nat \<Rightarrow> nat \<times> nat" where
  "region_frames from finish r =
     (let (b, l) = r;
          region_start = (if b mod PAGE_SIZE \<noteq> 0 then b div PAGE_SIZE + 1 else b div PAGE_SIZE);
          region_phys_end = (if l > 2 ^ 64 - 1 - b then 2 ^ 64 - 1 else b + l);
          region_end = region_phys_end div PAGE_SIZE
      in (if region_start > from then region_start else from, if region_end < finish then region_end else finish))"

fun scan_regions :: "pfa \<Rightarrow> nat \<Rightarrow> nat \<Rightarrow> (nat \<times> nat) list \<Rightarrow> nat option" where
  "scan_regions s from finish [] = None"
| "scan_regions s from finish (r # rs) =
     (case region_frames from finish r of
        (frame_idx, frame_end) \<Rightarrow>
          (if frame_end \<le> frame_idx then scan_regions s from finish rs
           else (case scan_bytes s frame_end frame_idx of
                   None \<Rightarrow> scan_regions s from finish rs
                 | Some f \<Rightarrow> Some f)))"

definition take_frames :: "pfa \<Rightarrow> nat \<Rightarrow> nat \<Rightarrow> nat \<times> pfa" where
  "take_frames s run_start num =
     (case bitmap_prepare_range s run_start num of
        (r, s1) \<Rightarrow>
          if r \<noteq> 0 then (0, s1)
          else (let s2 = foldl (\<lambda>s j. set_bit s (run_start + j)) s1 [0..<num]
                in (w64 (run_start * PAGE_SIZE),
                    s2\<lparr>last_alloc_hint := run_start + num, pfa_cached_free := pfa_cached_free s2 - of_nat num\<rparr>)))"

definition find_free_frames_bitmap :: "pfa \<Rightarrow> nat \<Rightarrow> nat \<Rightarrow> nat \<Rightarrow> nat \<times> pfa" where
  "find_free_frames_bitmap s from finish num =
     (if finish \<le> from \<or> num = 0 then (0, s)
      else (case (if num \<noteq> 1 then scan_run s num finish 0 from from else scan_regions s from finish (pf_map s)) of
              None \<Rightarrow> (0, s)
            | Some run_start \<Rightarrow> take_frames s run_start num))"

definition find_free_frames_range :: "pfa \<Rightarrow> nat \<Rightarrow> nat \<Rightarrow> nat \<Rightarrow> nat \<times> pfa" where
  "find_free_frames_range s from finish num =
     (if finish \<le> from \<or> num = 0 then (0, s) else find_free_frames_bitmap s from finish num)"

definition or_else :: "nat \<times> pfa \<Rightarrow> (pfa \<Rightarrow> bool) \<Rightarrow> (pfa \<Rightarrow> nat \<times> pfa) \<Rightarrow> nat \<times> pfa" where
  "or_else rs c f = (case rs of (r, s) \<Rightarrow> if r = 0 \<and> c s then f s else (r, s))"

definition find_free_frames :: "pfa \<Rightarrow> nat \<Rightarrow> nat \<times> pfa" where
  "find_free_frames s num =
     (if num = 0 then (0, s)
      else (let limit = total_pages_managed s;
                start0 = last_alloc_hint s;
                start1 = (if start0 < kernel_reserved_frames s then kernel_reserved_frames s else start0);
                start = (if start1 \<ge> limit then kernel_reserved_frames s else start1)
            in or_else (or_else (or_else (find_free_frames_range s start limit num)
                 (\<lambda>s. start > kernel_reserved_frames s)
                 (\<lambda>s. find_free_frames_range s (kernel_reserved_frames s) start num))
                 (\<lambda>s. cold_low_end_frame s > cold_low_start_frame s)
                 (\<lambda>s. find_free_frames_range s (cold_low_start_frame s) (cold_low_end_frame s) num))
                 (\<lambda>s. kernel_reclaim_hi s > kernel_reclaim_lo s)
                 (\<lambda>s. find_free_frames_range s (kernel_reclaim_lo s) (kernel_reclaim_hi s) num)))"


text \<open>
  A failed allocation asks the scheduler to relieve memory pressure when it runs; the middle
  component of a result says so.
\<close>

definition pfa_alloc :: "bool \<Rightarrow> pfa \<Rightarrow> nat \<times> bool \<times> pfa" where
  "pfa_alloc scheduler_initialized s =
     (case find_free_frames s 1 of (r, s') \<Rightarrow> (r, r = 0 \<and> scheduler_initialized, s'))"

subsection \<open>Releasing\<close>

definition free_count_add :: "nat \<Rightarrow> pfa \<Rightarrow> pfa" where
  "free_count_add n s = s\<lparr>pfa_cached_free := pfa_cached_free s + of_nat n\<rparr>"

definition pfa_free :: "pfa \<Rightarrow> nat \<Rightarrow> pfa" where
  "pfa_free s phys_addr =
     (if phys_addr mod PAGE_SIZE \<noteq> 0 then s
      else (let idx = phys_addr div PAGE_SIZE in
        if idx \<ge> total_pages_managed s then s
        else if idx < kernel_reserved_frames s \<and>
                (idx < cold_low_start_frame s \<or> idx \<ge> cold_low_end_frame s) \<and>
                (idx < kernel_reclaim_lo s \<or> idx \<ge> kernel_reclaim_hi s) then s
        else if \<not> frame_is_usable s idx \<or> frame_is_reserved s idx then s
        else (let (remaining, s1) = (if idx < ht_entries (pf_refs s)
                then (case refht_release (pf_refs s) (of_nat phys_addr) False of
                        (r, f, h) \<Rightarrow> (r, s\<lparr>pf_refs := h\<rparr>))
                else (0, s))
              in if remaining > 0 then s1
                 else if test_bit s1 idx
                 then (let s2 = clear_bit s1 idx;
                           s3 = (if idx < last_alloc_hint s2 then s2\<lparr>last_alloc_hint := idx\<rparr> else s2)
                       in free_count_add 1 s3)
                 else s1)))"

definition clear_where :: "(pfa \<Rightarrow> nat \<Rightarrow> bool) \<Rightarrow> pfa \<Rightarrow> nat list \<Rightarrow> nat \<times> pfa" where
  "clear_where P s frames =
     foldl (\<lambda>(n, s) f. if P s f then (n + 1, clear_bit s f) else (n, s)) (0, s) frames"

definition pfa_release_multiboot_range :: "pfa \<Rightarrow> nat \<Rightarrow> nat \<Rightarrow> nat \<times> pfa" where
  "pfa_release_multiboot_range s phys_start phys_end =
     (if phys_start mod PAGE_SIZE \<noteq> 0 then (0, s)
      else if phys_end mod PAGE_SIZE \<noteq> 0 then (0, s)
      else if phys_end \<le> phys_start then (0, s)
      else if \<not> list_ex (\<lambda>r. reserved_kind r = 1 \<and> reserved_start r = phys_start \<and> snd r = phys_end) (pf_reserved s)
      then (0, s)
      else (let start_frame = phys_start div PAGE_SIZE; end_frame = phys_end div PAGE_SIZE in
            if end_frame > total_pages_managed s then (0, s)
            else if list_ex (\<lambda>f. \<not> frame_is_usable s f) [start_frame..<end_frame] then (0, s)
            else (let (freed, s1) = clear_where bitmap_test_raw s [start_frame..<end_frame];
                      s2 = s1\<lparr>pf_reserved := []\<rparr>
                  in (freed, if freed \<noteq> 0
                             then (let s3 = free_count_add freed s2
                                   in if start_frame < last_alloc_hint s3 then s3\<lparr>last_alloc_hint := start_frame\<rparr> else s3)
                             else s2))))"

definition pfa_release_cold_low_memory :: "pfa \<Rightarrow> nat \<Rightarrow> nat \<times> pfa" where
  "pfa_release_cold_low_memory s phys_end =
     (if phys_end mod PAGE_SIZE \<noteq> 0 then (0, s)
      else (let end_frame = min (phys_end div PAGE_SIZE) (kernel_reserved_frames s) in
            if end_frame \<le> 1 then (0, s)
            else (let (freed, s1) = clear_where (\<lambda>s f. \<not> (\<not> frame_is_usable s f \<or> frame_is_reserved s f) \<and> bitmap_test_raw s f)
                                      s [1..<end_frame];
                      s2 = s1\<lparr>cold_low_start_frame := 1, cold_low_end_frame := end_frame\<rparr>
                  in (freed, if freed \<noteq> 0
                             then (free_count_add freed s2)\<lparr>kernel_reclaimed_pages := kernel_reclaimed_pages s2 + freed\<rparr>
                             else s2))))"

definition reclaim_frame :: "nat \<times> pfa \<Rightarrow> nat \<Rightarrow> nat \<times> pfa" where
  "reclaim_frame ns f =
     (case ns of (n, s) \<Rightarrow>
        if test_bit s f
        then (let s1 = clear_bit s f in
              (n + 1,
               if f < kernel_reserved_frames s1
               then (let s2 = (if kernel_reclaim_hi s1 = 0 \<or> f < kernel_reclaim_lo s1 then s1\<lparr>kernel_reclaim_lo := f\<rparr> else s1)
                     in if f \<ge> kernel_reclaim_hi s2 then s2\<lparr>kernel_reclaim_hi := f + 1\<rparr> else s2)
               else s1))
        else (n, s))"

definition pfa_reclaim_kernel_range_internal :: "pfa \<Rightarrow> nat \<Rightarrow> nat \<Rightarrow> pfa" where
  "pfa_reclaim_kernel_range_internal s phys_start0 phys_end0 =
     (let phys_start = align_up phys_start0; phys_end = align_down phys_end0 in
      if phys_end \<le> phys_start then s
      else (let (n, s1) = foldl reclaim_frame (0, s)
                  [phys_start div PAGE_SIZE ..< min (phys_end div PAGE_SIZE) (total_pages_managed s)]
            in (free_count_add n s1)\<lparr>kernel_reclaimed_pages := kernel_reclaimed_pages s1 + n\<rparr>))"

definition pfa_reclaim_kernel_range :: "pfa \<Rightarrow> nat \<Rightarrow> nat \<Rightarrow> pfa" where
  "pfa_reclaim_kernel_range s phys_start phys_end = pfa_reclaim_kernel_range_internal s phys_start phys_end"

definition pfa_reclaim_kernel_range_quiet :: "pfa \<Rightarrow> nat \<Rightarrow> nat \<Rightarrow> pfa" where
  "pfa_reclaim_kernel_range_quiet s phys_start phys_end = pfa_reclaim_kernel_range_internal s phys_start phys_end"

definition free_frame_at :: "nat \<times> pfa \<Rightarrow> nat \<Rightarrow> nat \<times> pfa" where
  "free_frame_at ns idx =
     (case ns of (freed, s) \<Rightarrow>
        if idx < kernel_reserved_frames s \<and> (idx < cold_low_start_frame s \<or> idx \<ge> cold_low_end_frame s) then (freed, s)
        else if \<not> frame_is_usable s idx \<or> frame_is_reserved s idx then (freed, s)
        else if test_bit s idx then (freed + 1, free_count_add 1 (clear_bit s idx))
        else (freed, s))"

definition pfa_free_contiguous :: "pfa \<Rightarrow> nat \<Rightarrow> nat \<Rightarrow> pfa" where
  "pfa_free_contiguous s phys_addr num_frames =
     (if phys_addr mod PAGE_SIZE \<noteq> 0 \<or> num_frames = 0 then s
      else (let start_idx = phys_addr div PAGE_SIZE;
                (freed, s1) = foldl free_frame_at (0, s) [start_idx ..< min (start_idx + num_frames) (total_pages_managed s)]
            in if freed \<noteq> 0 \<and> start_idx < last_alloc_hint s1 then s1\<lparr>last_alloc_hint := start_idx\<rparr> else s1))"

definition pfa_cow_release :: "pfa \<Rightarrow> nat \<Rightarrow> pfa" where
  "pfa_cow_release s phys_addr =
     (if phys_addr = 0 then s
      else (case refht_release (pf_refs s) (of_nat phys_addr) True of
              (r, free_page, h) \<Rightarrow>
                let s1 = s\<lparr>pf_refs := h\<rparr> in if free_page then pfa_free s1 phys_addr else s1))"

definition pfa_cow_release64 :: "pfa \<Rightarrow> nat \<Rightarrow> pfa" where
  "pfa_cow_release64 s phys_addr = pfa_cow_release s phys_addr"

subsection \<open>Directly mapped and low pages\<close>

text \<open>
  The frames of a run before the first one that the direct mapping does not reach. The
  loops that give unreachable runs back take as their first argument a bound on the number
  of rounds.
\<close>

definition direct_prefix :: "pfa \<Rightarrow> nat \<Rightarrow> nat \<Rightarrow> nat" where
  "direct_prefix s r num = length (takeWhile (\<lambda>i. pt_direct_map_ok (pf_tables s) (w64 (r + i * PAGE_SIZE))) [0..<num])"

fun direct_loop :: "nat \<Rightarrow> pfa \<Rightarrow> nat \<Rightarrow> nat \<Rightarrow> nat \<Rightarrow> nat \<times> pfa" where
  "direct_loop 0 s start finish num = (0, s)"
| "direct_loop (Suc n) s start finish num =
     (if start < finish
      then (case find_free_frames_range s start finish num of
              (r, s1) \<Rightarrow>
                if r = 0 then (0, s1)
                else if direct_prefix s1 r num = num then (r, s1)
                else direct_loop n (free_count_add num (foldl (\<lambda>s i. clear_bit s (r div PAGE_SIZE + i)) s1 [0..<num]))
                       (r div PAGE_SIZE + direct_prefix s1 r num + 1) finish num)
      else (0, s))"

definition find_direct_frames :: "pfa \<Rightarrow> nat \<Rightarrow> nat \<Rightarrow> nat \<times> pfa" where
  "find_direct_frames s end0 num =
     (let end1 = (if end0 > DIRECT_FRAMES then DIRECT_FRAMES else end0);
          finish = (if end1 > total_pages_managed s then total_pages_managed s else end1);
          (r, s1) = direct_loop (finish - kernel_reserved_frames s + 1) s (kernel_reserved_frames s) finish num
      in (r, s1\<lparr>last_alloc_hint := last_alloc_hint s\<rparr>))"

definition pfa_alloc_contiguous_below :: "bool \<Rightarrow> pfa \<Rightarrow> nat \<Rightarrow> nat \<Rightarrow> nat \<times> bool \<times> pfa" where
  "pfa_alloc_contiguous_below scheduler_initialized s num_frames max_phys =
     (if num_frames = 0 \<or> max_phys = 0 then (0, False, s)
      else (case find_direct_frames s (max_phys div PAGE_SIZE) num_frames of
              (r, s1) \<Rightarrow> (r, r = 0 \<and> scheduler_initialized, s1)))"

definition pfa_alloc_contiguous :: "bool \<Rightarrow> pfa \<Rightarrow> nat \<Rightarrow> nat \<times> bool \<times> pfa" where
  "pfa_alloc_contiguous sched s num_frames = pfa_alloc_contiguous_below sched s num_frames 0x40000000"

definition pmm_alloc_early_pages :: "bool \<Rightarrow> pfa \<Rightarrow> nat \<Rightarrow> nat \<times> bool \<times> pfa" where
  "pmm_alloc_early_pages sched s num =
     (if num = 0 then (0, False, s)
      else if pfa_bitmap s then pfa_alloc_contiguous sched s num
      else (let (addr, b) = early_scan (pf_map s) (w64 (num * PAGE_SIZE)) (align_up (bump_current s))
            in (addr, False, s\<lparr>bump_current := b\<rparr>)))"

fun page_scan :: "pfa \<Rightarrow> nat list \<Rightarrow> nat \<times> pfa" where
  "page_scan s [] = (0, s)"
| "page_scan s (i # is) =
     (let (b, l) = pf_map s ! i; region_end = w64 (b + l);
          next_bump = (if i + 1 < length (pf_map s) then fst (pf_map s ! (i + 1)) else 0);
          bump0 = (if bump_current s < b then w64 (b + 0x1000) else bump_current s);
          bump1 = align_up bump0
      in if w64 (bump1 + 4096) \<le> region_end
         then (let scan_end = min (region_end div PAGE_SIZE) (total_pages_managed s);
                   (r, s1) = find_free_frames_range (s\<lparr>bump_current := bump1, active_region := i\<rparr>)
                               (bump1 div PAGE_SIZE) scan_end 1
               in if r \<noteq> 0 then (r, s1\<lparr>bump_current := w64 (r + PAGE_SIZE)\<rparr>)
                  else page_scan (s1\<lparr>bump_current := next_bump\<rparr>) is)
         else page_scan (s\<lparr>bump_current := next_bump\<rparr>) is)"

definition pmm_alloc_page :: "pfa \<Rightarrow> nat \<times> pfa" where
  "pmm_alloc_page s =
     (if pf_map s = [] then (0, s)
      else (case page_scan s [active_region s ..< length (pf_map s)] of
              (r, s1) \<Rightarrow> if r \<noteq> 0 then (r, s1) else find_free_frames s1 1))"

definition pmm_alloc_pages :: "pfa \<Rightarrow> nat \<Rightarrow> nat \<times> pfa" where
  "pmm_alloc_pages s num = (if num = 0 then (0, s) else find_free_frames s num)"

fun mapped_loop :: "nat \<Rightarrow> pfa \<Rightarrow> nat \<Rightarrow> nat \<Rightarrow> bool \<Rightarrow> nat \<times> pfa" where
  "mapped_loop 0 s start finish cold = (0, s)"
| "mapped_loop (Suc n) s start finish cold =
     (case find_free_frames_range s start finish 1 of
        (phys, s1) \<Rightarrow>
          if phys = 0
          then (if cold then (0, s1) else mapped_loop n s1 (cold_low_start_frame s1) (cold_low_end_frame s1) True)
          else if pt_direct_map_ok (pf_tables s1) phys then (phys, s1)
          else mapped_loop n (free_count_add 1 (clear_bit s1 (phys div PAGE_SIZE))) (phys div PAGE_SIZE + 1) finish cold)"

definition pmm_alloc_mapped_page :: "pfa \<Rightarrow> nat \<times> pfa" where
  "pmm_alloc_mapped_page s =
     (let finish = (if DIRECT_FRAMES > total_pages_managed s then total_pages_managed s else DIRECT_FRAMES);
          (r, s1) = mapped_loop (finish + cold_low_end_frame s + 3) s (kernel_reserved_frames s) finish False
      in (r, s1\<lparr>last_alloc_hint := last_alloc_hint s\<rparr>))"

definition pmm_zero_page_phys :: "bool \<Rightarrow> pfa \<Rightarrow> nat \<Rightarrow> pfa" where
  "pmm_zero_page_phys temp_pt_ready s phys_addr =
     (if \<not> temp_pt_ready
      then (if phys_addr < low_page_limit s then mem_zero phys_addr PAGE_SIZE s else s)
      else mem_zero (align_down phys_addr) PAGE_SIZE s)"

definition pmm_copy_to_page_phys :: "pfa \<Rightarrow> nat \<Rightarrow> nat \<Rightarrow> u8 list option \<Rightarrow> nat \<Rightarrow> pfa" where
  "pmm_copy_to_page_phys s phys_addr offset source sz =
     (case source of
        None \<Rightarrow> s
      | Some bs \<Rightarrow>
          if offset > PAGE_SIZE \<or> sz > PAGE_SIZE - offset then s
          else if sz = 0 then s
          else (let a = align_down phys_addr + offset
                in s\<lparr>pf_mem := (\<lambda>x. if a \<le> x \<and> x < a + sz then bs ! (x - a) else pf_mem s x)\<rparr>))"

definition next_region_start :: "pfa \<Rightarrow> nat \<Rightarrow> nat" where
  "next_region_start s try_addr =
     foldl (\<lambda>next_start (b, l). if b > try_addr \<and> b < low_page_limit s
              then (if next_start = 0 \<or> b < next_start then b else next_start) else next_start) 0 (pf_map s)"

lemma next_region_start_later:
  assumes "next_region_start s try_addr \<noteq> 0"
  shows "try_addr < next_region_start s try_addr"
proof -
  have "foldl (\<lambda>next_start (b, l). if b > try_addr \<and> b < L
              then (if next_start = 0 \<or> b < next_start then b else next_start) else next_start) n rs \<noteq> 0 \<Longrightarrow>
        n = 0 \<or> try_addr < n \<Longrightarrow>
        try_addr < foldl (\<lambda>next_start (b, l). if b > try_addr \<and> b < L
              then (if next_start = 0 \<or> b < next_start then b else next_start) else next_start) n rs"
    for n L and rs :: "(nat \<times> nat) list"
    by (induction rs arbitrary: n) (auto split: if_splits)
  from this [of "low_page_limit s" 0 "pf_map s"] assms show ?thesis by (simp add: next_region_start_def)
qed

text \<open>
  The search of pmm\_alloc\_low\_page: the free page found, if any, and the value of low\_bump
  before a page is taken. Addresses below low\_page\_limit are far from the end of 64 bits.
\<close>

function low_search :: "pfa \<Rightarrow> nat \<Rightarrow> nat \<Rightarrow> nat option \<times> nat" where
  "low_search s try_addr bump =
     (if try_addr < low_page_limit s
      then (if list_ex (\<lambda>(b, l). try_addr \<ge> b \<and> try_addr + PAGE_SIZE \<le> w64 (b + l) \<and> try_addr < low_page_limit s) (pf_map s)
            then (if try_addr div PAGE_SIZE < total_pages_managed s \<and> \<not> test_bit s (try_addr div PAGE_SIZE)
                  then (Some try_addr, bump)
                  else low_search s (try_addr + PAGE_SIZE) (try_addr + PAGE_SIZE))
            else if next_region_start s try_addr = 0 then (None, bump)
            else low_search s (next_region_start s try_addr) (next_region_start s try_addr))
      else (None, bump))"
  by pat_completeness auto
termination
  by (relation "measure (\<lambda>(s, try_addr, bump). low_page_limit s - try_addr)")
     (simp_all add: diff_less_mono2 next_region_start_later)

declare low_search.simps [simp del]

definition pmm_alloc_low_page :: "bool \<Rightarrow> pfa \<Rightarrow> nat \<times> pfa" where
  "pmm_alloc_low_page temp_pt_ready s =
     (if pf_map s = [] then (0, s)
      else if low_bump s = 0 then (0, s)
      else if low_exhausted s then (0, s)
      else (case low_search s (align_up (low_bump s)) (low_bump s) of
              (None, bump) \<Rightarrow> (0, s\<lparr>low_bump := bump, low_exhausted := True\<rparr>)
            | (Some page, bump) \<Rightarrow>
                (case bitmap_prepare_range (s\<lparr>low_bump := bump\<rparr>) (page div PAGE_SIZE) 1 of
                   (r, s1) \<Rightarrow>
                     if r \<noteq> 0 then (0, s1)
                     else (let s2 = set_bit (s1\<lparr>low_bump := page + PAGE_SIZE\<rparr>) (page div PAGE_SIZE);
                               s3 = s2\<lparr>pfa_cached_free := pfa_cached_free s2 - 1\<rparr>
                           in (page, pmm_zero_page_phys temp_pt_ready s3 page)))))"

subsection \<open>Set-up and statistics\<close>

definition pfa_init_internal_setup :: "pfa \<Rightarrow> nat \<Rightarrow> nat \<Rightarrow> nat \<Rightarrow> nat \<Rightarrow> nat \<Rightarrow> pfa" where
  "pfa_init_internal_setup s directory_entries bitmap_entries total_pages extension_phys extension_pages =
     s\<lparr>pfa_inline_directory := replicate INLINE_ENTRIES 0,
       pfa_directory_entries := directory_entries,
       pfa_directory_extension :=
         (if extension_phys \<noteq> 0 \<and> w64 (extension_pages * PAGE_SIZE) \<noteq> 0
          then Some (replicate (w64 (extension_pages * PAGE_SIZE) div 4) 0) else None),
       pfa_bitmap := True,
       bitmap_entries_used := bitmap_entries,
       bitmap_leaf_pages := 0,
       pf_refs := (pf_refs s)\<lparr>ht_total := total_pages\<rparr>,
       kernel_reserved_frames := 0,
       low_page_limit := 0x00800000\<rparr>"

definition pfa_init_ram_stats :: "pfa \<Rightarrow> nat \<Rightarrow> nat \<Rightarrow> u64 \<Rightarrow> u64 \<times> pfa" where
  "pfa_init_ram_stats s total_kb usable_kb init_free_frames =
     (let n = (if init_free_frames \<ge> of_nat (bitmap_leaf_pages s)
               then init_free_frames - of_nat (bitmap_leaf_pages s) else 0)
      in (n, s\<lparr>system_total_ram_kb := total_kb, system_usable_ram_kb := usable_kb,
              initial_free_frames := n, pfa_cached_free := n\<rparr>))"

definition pfa_set_reserved_stats :: "pfa \<Rightarrow> nat \<Rightarrow> nat \<Rightarrow> pfa" where
  "pfa_set_reserved_stats s kern_bin_kb bmp_kb = s\<lparr>kernel_binary_kb := kern_bin_kb, bitmap_alloc_kb := bmp_kb\<rparr>"

definition pfa_count_free :: "pfa \<Rightarrow> u64" where
  "pfa_count_free s = pfa_cached_free s"

definition pfa_get_total_ram_kb :: "pfa \<Rightarrow> nat" where
  "pfa_get_total_ram_kb s = system_total_ram_kb s"

definition pfa_get_usable_ram_kb :: "pfa \<Rightarrow> nat" where
  "pfa_get_usable_ram_kb s = system_usable_ram_kb s"

definition pfa_get_kernel_binary_kb :: "pfa \<Rightarrow> nat" where
  "pfa_get_kernel_binary_kb s = kernel_binary_kb s"

definition pfa_get_kernel_reclaimed_pages :: "pfa \<Rightarrow> nat" where
  "pfa_get_kernel_reclaimed_pages s = kernel_reclaimed_pages s"

definition pfa_get_kernel_used_kb :: "pfa \<Rightarrow> u64" where
  "pfa_get_kernel_used_kb s =
     (if pfa_cached_free s \<ge> initial_free_frames s then 0 else (initial_free_frames s - pfa_cached_free s) * 4)"

definition pfa_get_bitmap_kb :: "pfa \<Rightarrow> nat" where
  "pfa_get_bitmap_kb s = bitmap_alloc_kb s + bitmap_leaf_pages s * (PAGE_SIZE div 1024)"

end
