(* ===== verification/Pfa_Bitmap.thy ===== *)
theory Pfa_Bitmap
  imports Pfa
begin

text \<open>
  The bitmap as a set of frames: the invariant of the page frame allocator, and what each
  operation on bits and leaves does to the set of used frames.
\<close>

unbundle bit_operations_syntax

subsection \<open>Addresses of bits\<close>

definition bit_byte :: "pfa \<Rightarrow> nat \<Rightarrow> nat" where
  "bit_byte s f = bitmap_directory_get s (f div CHUNK_FRAMES) * PAGE_SIZE + f mod CHUNK_FRAMES div 8"

definition has_leaf :: "pfa \<Rightarrow> nat \<Rightarrow> bool" where
  "has_leaf s f \<longleftrightarrow> pfa_bitmap s \<and> f < bitmap_entries_used s \<and> bitmap_directory_get s (f div CHUNK_FRAMES) \<noteq> 0"

lemma get_leaf_eq: "bitmap_get_leaf s f =
    (if has_leaf s f then Some (bitmap_directory_get s (f div CHUNK_FRAMES) * PAGE_SIZE) else None)"
  by (auto simp: bitmap_get_leaf_def has_leaf_def Let_def)

lemma mod_chunk_8 [simp]: "f mod CHUNK_FRAMES mod 8 = f mod 8" for f :: nat
  by (rule mod_mod_cancel) simp

lemma mod_chunk_div_8: "f mod CHUNK_FRAMES div 8 < PAGE_SIZE" for f :: nat
proof -
  have "f mod CHUNK_FRAMES < CHUNK_FRAMES" by simp
  then show ?thesis by linarith
qed

lemma and_power_2: "(w :: u8) AND 2 ^ n = 0 \<longleftrightarrow> \<not> bit w n"
  using bit_iff_and_push_bit_not_eq_0 [of w n] by simp

lemma raw_eq: "bitmap_test_raw s f \<longleftrightarrow> has_leaf s f \<and> bit (pf_mem s (bit_byte s f)) (f mod 8)"
  by (simp add: bitmap_test_raw_def get_leaf_eq bit_byte_def Let_def and_power_2)

lemma bit_byte_page: "bit_byte s f div PAGE_SIZE = bitmap_directory_get s (f div CHUNK_FRAMES)"
  using mod_chunk_div_8 [of f] by (simp add: bit_byte_def)

lemma bit_byte_offset: "bit_byte s f mod PAGE_SIZE = f mod CHUNK_FRAMES div 8"
  using mod_chunk_div_8 [of f] by (simp add: bit_byte_def)

lemma frame_eqI:
  fixes f g :: nat
  assumes "f div CHUNK_FRAMES = g div CHUNK_FRAMES" and "f mod CHUNK_FRAMES div 8 = g mod CHUNK_FRAMES div 8"
    and "f mod 8 = g mod 8"
  shows "f = g"
proof -
  have "f mod CHUNK_FRAMES = g mod CHUNK_FRAMES"
    using assms(2,3) mod_chunk_8 [of f] mod_chunk_8 [of g]
    by (metis div_mult_mod_eq)
  with assms(1) show ?thesis by (metis div_mult_mod_eq)
qed

subsection \<open>The invariant\<close>

text \<open>
  Every leaf is a frame of the managed memory that the bitmap itself marks as used, no two
  chunks have the same leaf, and the number of free frames is d less than the count kept
  beside the bitmap. The debt d is 0 between operations. Frame 0 is never free, since its
  address is what a failed allocation returns.
\<close>

definition leaves :: "pfa \<Rightarrow> nat set" where
  "leaves s = {l. l \<noteq> 0 \<and> (\<exists>c < pfa_directory_entries s. bitmap_directory_get s c = l)}"

definition used_frames :: "pfa \<Rightarrow> nat set" where
  "used_frames s = {f. bitmap_test_raw s f}"

definition free_frames :: "pfa \<Rightarrow> nat set" where
  "free_frames s = {f. f < bitmap_entries_used s \<and> frame_is_usable s f \<and> \<not> bitmap_test_raw s f}"

definition pfa_shape :: "pfa \<Rightarrow> bool" where
  "pfa_shape s \<longleftrightarrow> pfa_bitmap s \<and> 0 < kernel_reserved_frames s \<and> kernel_reserved_frames s \<le> bitmap_entries_used s \<and>
     length (pfa_inline_directory s) = INLINE_ENTRIES \<and>
     bitmap_entries_used s \<le> 2 ^ 40 \<and> total_pages_managed s \<le> bitmap_entries_used s \<and>
     bitmap_entries_used s \<le> pfa_directory_entries s * CHUNK_FRAMES \<and>
     (pfa_directory_entries s > INLINE_ENTRIES \<longrightarrow>
        (\<exists>ext. pfa_directory_extension s = Some ext \<and> pfa_directory_entries s - INLINE_ENTRIES \<le> length ext)) \<and>
     (\<forall>r\<in>set (pf_map s). fst r + snd r \<le> 2 ^ 52) \<and>
     (cold_low_start_frame s < cold_low_end_frame s \<longrightarrow> 0 < cold_low_start_frame s \<and> cold_low_end_frame s \<le> bitmap_entries_used s) \<and>
     (kernel_reclaim_lo s < kernel_reclaim_hi s \<longrightarrow> 0 < kernel_reclaim_lo s \<and> kernel_reclaim_hi s \<le> bitmap_entries_used s)"

definition leaves_apart :: "pfa \<Rightarrow> bool" where
  "leaves_apart s \<longleftrightarrow>
     inj_on (bitmap_directory_get s) {c. c < pfa_directory_entries s \<and> bitmap_directory_get s c \<noteq> 0}"

definition leaves_ok :: "pfa \<Rightarrow> bool" where
  "leaves_ok s \<longleftrightarrow> leaves s \<subseteq> used_frames s \<inter> {kernel_reserved_frames s..<DIRECT_FRAMES} \<and> leaves_apart s \<and>
     (\<forall>l\<in>leaves s. \<not> frame_is_reserved s l)"

definition count_ok :: "int \<Rightarrow> pfa \<Rightarrow> bool" where
  "count_ok d s \<longleftrightarrow> pfa_cached_free s = of_int (int (card (free_frames s)) + d)"

definition pfa_ok :: "int \<Rightarrow> pfa \<Rightarrow> bool" where
  "pfa_ok d s \<longleftrightarrow> pfa_shape s \<and> leaves_ok s \<and> count_ok d s \<and> 0 \<notin> free_frames s"

definition fixed :: "pfa \<Rightarrow> page_tables \<times> (nat \<times> nat) list \<times> (nat \<times> nat) list \<times> bool \<times> nat \<times> nat \<times>
    nat \<times> nat \<times> nat \<times> nat \<times> nat \<times> nat" where
  "fixed s = (pf_tables s, pf_map s, pf_reserved s, pfa_bitmap s, pfa_directory_entries s, bitmap_entries_used s,
     kernel_reserved_frames s, cold_low_start_frame s, cold_low_end_frame s, kernel_reclaim_lo s, kernel_reclaim_hi s,
     total_pages_managed s)"

lemma fixed_usable:
  assumes "fixed s' = fixed s"
  shows "frame_is_usable s' = frame_is_usable s" "frame_is_reserved s' = frame_is_reserved s"
  using assms by (auto simp: fixed_def frame_is_usable_def frame_is_reserved_def fun_eq_iff)

lemma chunk_in_directory:
  assumes "pfa_shape s" and "f < bitmap_entries_used s"
  shows "f div CHUNK_FRAMES < pfa_directory_entries s"
  using assms by (simp add: pfa_shape_def less_mult_imp_div_less)

lemma finite_free [simp]: "finite (free_frames s)"
  by (rule finite_subset [of _ "{..<bitmap_entries_used s}"]) (auto simp: free_frames_def)

lemma card_free_bound: "pfa_shape s \<Longrightarrow> card (free_frames s) \<le> 2 ^ 40"
proof -
  assume "pfa_shape s"
  have "card (free_frames s) \<le> card {..<bitmap_entries_used s}" by (rule card_mono) (auto simp: free_frames_def)
  with \<open>pfa_shape s\<close> show ?thesis by (simp add: pfa_shape_def)
qed

lemma leaf_not_free: "leaves_ok s \<Longrightarrow> l \<in> leaves s \<Longrightarrow> bitmap_test_raw s l"
  by (auto simp: leaves_ok_def used_frames_def)

text \<open>Two frames share a byte of the bitmap only in the same leaf, at the same place.\<close>

lemma same_byte:
  assumes "pfa_shape s" and "leaves_apart s" and "has_leaf s f" and "has_leaf s g" and "bit_byte s f = bit_byte s g"
    and "f mod 8 = g mod 8"
  shows "f = g"
proof -
  have "bitmap_directory_get s (f div CHUNK_FRAMES) = bitmap_directory_get s (g div CHUNK_FRAMES)"
    using assms(5) bit_byte_page [of s f] bit_byte_page [of s g] by simp
  moreover have "f div CHUNK_FRAMES < pfa_directory_entries s" "g div CHUNK_FRAMES < pfa_directory_entries s"
    using assms(1,3,4) chunk_in_directory by (auto simp: has_leaf_def)
  ultimately have c: "f div CHUNK_FRAMES = g div CHUNK_FRAMES"
    using assms(2-4) by (auto simp: leaves_apart_def inj_on_def has_leaf_def)
  have "f mod CHUNK_FRAMES div 8 = g mod CHUNK_FRAMES div 8"
    using assms(5) bit_byte_offset [of s f] bit_byte_offset [of s g] by simp
  from frame_eqI [OF c this assms(6)] show ?thesis .
qed

subsection \<open>One bit\<close>

text \<open>Only the memory differs: what a write to the byte of a frame does to the set.\<close>

lemma mem_directory [simp]: "bitmap_directory_get (s\<lparr>pf_mem := m\<rparr>) c = bitmap_directory_get s c"
  by (simp add: bitmap_directory_get_def)

lemma mem_has_leaf [simp]:
  "has_leaf (s\<lparr>pf_mem := m\<rparr>) f = has_leaf s f" "bit_byte (s\<lparr>pf_mem := m\<rparr>) f = bit_byte s f"
  by (simp_all add: has_leaf_def bit_byte_def)

lemma mem_shape [simp]:
  "leaves (s\<lparr>pf_mem := m\<rparr>) = leaves s" "pfa_shape (s\<lparr>pf_mem := m\<rparr>) = pfa_shape s"
  by (simp_all add: leaves_def pfa_shape_def)

lemma mem_fixed [simp]: "fixed (s\<lparr>pf_mem := m\<rparr>) = fixed s"
  by (simp add: fixed_def)

lemma raw_or:
  assumes "pfa_shape s" and "leaves_apart s" and "has_leaf s f"
  shows "bitmap_test_raw (mem_or (bit_byte s f) (push_bit (f mod 8) 1) s) g \<longleftrightarrow> bitmap_test_raw s g \<or> g = f"
proof (cases "has_leaf s g \<and> bit_byte s g = bit_byte s f")
  case True
  have "bit (push_bit (f mod 8) (1 :: u8)) (g mod 8) \<longleftrightarrow> g mod 8 = f mod 8"
    by (auto simp: bit_simps)
  then show ?thesis using True assms(3) same_byte [OF assms(1,2) assms(3), of g]
    by (auto simp: raw_eq mem_or_def bit_or_iff)
next
  case False
  with assms(3) show ?thesis by (auto simp: raw_eq mem_or_def)
qed

lemma raw_clear:
  assumes "pfa_shape s" and "leaves_apart s" and "has_leaf s f"
  shows "bitmap_test_raw (clear_bit s f) g \<longleftrightarrow> bitmap_test_raw s g \<and> g \<noteq> f"
proof -
  have e: "clear_bit s f = s\<lparr>pf_mem := (pf_mem s)(bit_byte s f := pf_mem s (bit_byte s f) AND NOT (push_bit (f mod 8) 1))\<rparr>"
    using assms(3) by (simp add: clear_bit_def get_leaf_eq bit_byte_def Let_def)
  show ?thesis
  proof (cases "has_leaf s g \<and> bit_byte s g = bit_byte s f")
    case True
    have "bit (push_bit (f mod 8) (1 :: u8)) (g mod 8) \<longleftrightarrow> g mod 8 = f mod 8"
      by (auto simp: bit_simps)
    moreover have "g mod 8 < 8" by simp
    ultimately show ?thesis using True assms(3) same_byte [OF assms(1,2) assms(3), of g]
      by (auto simp: raw_eq e bit_and_iff bit_not_iff)
  next
    case False
    with assms(3) show ?thesis by (auto simp: raw_eq e)
  qed
qed


lemma used_or:
  assumes "pfa_shape s" and "leaves_apart s" and "has_leaf s f"
  shows "used_frames (mem_or (bit_byte s f) (push_bit (f mod 8) 1) s) = insert f (used_frames s)"
  using raw_or [OF assms] by (auto simp: used_frames_def)

lemma used_clear:
  assumes "pfa_shape s" and "leaves_apart s" and "has_leaf s f"
  shows "used_frames (clear_bit s f) = used_frames s - {f}"
  using raw_clear [OF assms] by (auto simp: used_frames_def)

lemma free_eq: "free_frames s = {f. f < bitmap_entries_used s \<and> frame_is_usable s f} - used_frames s"
  by (auto simp: free_frames_def used_frames_def)

lemma mem_apart [simp]: "leaves_apart (s\<lparr>pf_mem := m\<rparr>) = leaves_apart s"
  by (simp add: leaves_apart_def inj_on_def)

lemma fixedD:
  assumes "fixed s' = fixed s"
  shows "pf_tables s' = pf_tables s" "pf_map s' = pf_map s" "pf_reserved s' = pf_reserved s"
    "pfa_bitmap s' = pfa_bitmap s" "pfa_directory_entries s' = pfa_directory_entries s"
    "bitmap_entries_used s' = bitmap_entries_used s" "kernel_reserved_frames s' = kernel_reserved_frames s"
    "cold_low_start_frame s' = cold_low_start_frame s" "cold_low_end_frame s' = cold_low_end_frame s"
    "kernel_reclaim_lo s' = kernel_reclaim_lo s" "kernel_reclaim_hi s' = kernel_reclaim_hi s"
    "total_pages_managed s' = total_pages_managed s"
  using assms by (simp_all add: fixed_def)

text \<open>The free frames follow from the used ones, and the count with the debt from both.\<close>

lemma free_change:
  assumes "fixed s' = fixed s"
  shows "free_frames s' = {f. f < bitmap_entries_used s \<and> frame_is_usable s f} - used_frames s'"
  by (simp add: free_eq fixed_usable [OF assms] fixedD [OF assms])

lemma has_leaf_directory: "pfa_shape s \<Longrightarrow> has_leaf s f \<Longrightarrow> f < bitmap_entries_used s"
  by (simp add: has_leaf_def)

lemma ok_mark:
  assumes "pfa_ok d s" and "has_leaf s f"
  defines "s' \<equiv> mem_or (bit_byte s f) (push_bit (f mod 8) 1) s"
  shows "pfa_ok (if f \<in> free_frames s then d + 1 else d) s'" and "used_frames s' = insert f (used_frames s)"
    and "fixed s' = fixed s" and "leaves s' = leaves s" and "has_leaf s' g = has_leaf s g"
    and "bit_byte s' g = bit_byte s g"
proof -
  have sh: "pfa_shape s" and lo: "leaves_ok s" and ap: "leaves_apart s" using assms(1) by (simp_all add: pfa_ok_def leaves_ok_def)
  show u: "used_frames s' = insert f (used_frames s)" unfolding s'_def by (rule used_or [OF sh ap assms(2)])
  show fx: "fixed s' = fixed s" and l: "leaves s' = leaves s" and "has_leaf s' g = has_leaf s g" "bit_byte s' g = bit_byte s g"
    by (simp_all add: s'_def mem_or_def)
  have fr: "free_frames s' = free_frames s - {f}" unfolding free_change [OF fx] u free_eq [of s] by auto
  have "int (card (free_frames s')) + (if f \<in> free_frames s then d + 1 else d) = int (card (free_frames s)) + d"
    using card_Suc_Diff1 [OF finite_free, of f s] by (cases "f \<in> free_frames s") (simp_all add: fr)
  moreover have "pfa_cached_free s' = pfa_cached_free s" by (simp add: s'_def mem_or_def)
  ultimately have "count_ok (if f \<in> free_frames s then d + 1 else d) s'"
    using assms(1) unfolding pfa_ok_def count_ok_def by simp
  moreover have "leaves_apart s'" using ap by (simp add: s'_def mem_or_def)
  then have "leaves_ok s'" using lo unfolding leaves_ok_def l u fixedD(7) [OF fx] fixed_usable(2) [OF fx] by auto
  moreover have "pfa_shape s'" using sh by (simp add: s'_def mem_or_def)
  ultimately show "pfa_ok (if f \<in> free_frames s then d + 1 else d) s'" using assms(1) fr by (simp add: pfa_ok_def)
qed

lemma clear_bit_same [simp]:
  "fixed (clear_bit s f) = fixed s" "leaves (clear_bit s f) = leaves s" "has_leaf (clear_bit s f) g = has_leaf s g"
  "pfa_shape (clear_bit s f) = pfa_shape s" "leaves_apart (clear_bit s f) = leaves_apart s"
  "pfa_cached_free (clear_bit s f) = pfa_cached_free s" "last_alloc_hint (clear_bit s f) = last_alloc_hint s"
  by (simp_all add: clear_bit_def Let_def split: option.split)

lemma ok_clear:
  assumes "pfa_ok d s" and "f \<in> used_frames s" and "f \<notin> leaves s" and "f \<noteq> 0"
  shows "pfa_ok (if frame_is_usable s f then d - 1 else d) (clear_bit s f)"
    and "used_frames (clear_bit s f) = used_frames s - {f}"
proof -
  have sh: "pfa_shape s" and lo: "leaves_ok s" and ap: "leaves_apart s" using assms(1) by (simp_all add: pfa_ok_def leaves_ok_def)
  have hl: "has_leaf s f" using assms(2) by (simp add: used_frames_def raw_eq)
  show u: "used_frames (clear_bit s f) = used_frames s - {f}" by (rule used_clear [OF sh ap hl])
  have fr: "free_frames (clear_bit s f) = (if frame_is_usable s f then insert f (free_frames s) else free_frames s)"
    unfolding free_change [OF clear_bit_same(1)] u free_eq [of s] using has_leaf_directory [OF sh hl] assms(2) by auto
  have "f \<notin> free_frames s" using assms(2) by (simp add: free_eq)
  then have "int (card (free_frames (clear_bit s f))) + (if frame_is_usable s f then d - 1 else d) = int (card (free_frames s)) + d"
    by (simp add: fr)
  then have "count_ok (if frame_is_usable s f then d - 1 else d) (clear_bit s f)"
    using assms(1) unfolding pfa_ok_def count_ok_def by simp
  moreover have "leaves_ok (clear_bit s f)" using lo assms(3)
    unfolding leaves_ok_def u clear_bit_same fixedD(7) [OF clear_bit_same(1)] fixed_usable(2) [OF clear_bit_same(1)] by auto
  ultimately show "pfa_ok (if frame_is_usable s f then d - 1 else d) (clear_bit s f)"
    using sh fr assms(1,4) by (simp add: pfa_ok_def)
qed

lemma clear_unused: "f \<notin> used_frames s \<Longrightarrow> pfa_shape s \<Longrightarrow> leaves_apart s \<Longrightarrow> used_frames (clear_bit s f) = used_frames s"
  by (cases "has_leaf s f") (simp_all add: used_clear, simp add: clear_bit_def get_leaf_eq)


text \<open>The other fields do not matter to the bitmap.\<close>

definition bitmap_part :: "pfa \<Rightarrow> (nat \<Rightarrow> u8) \<times> nat list \<times> nat list option" where
  "bitmap_part s = (pf_mem s, pfa_inline_directory s, pfa_directory_extension s)"

lemma same_bitmap:
  assumes fx: "fixed s' = fixed s" and b: "bitmap_part s' = bitmap_part s"
  shows "used_frames s' = used_frames s" "leaves s' = leaves s" "leaves_apart s' = leaves_apart s"
    "pfa_shape s' = pfa_shape s" "has_leaf s' f = has_leaf s f" "free_frames s' = free_frames s"
    "leaves_ok s' = leaves_ok s"
proof -
  note f = fixedD [OF fx]
  have d: "bitmap_directory_get s' = bitmap_directory_get s"
    using b f by (simp add: bitmap_directory_get_def bitmap_part_def fun_eq_iff)
  show h: "has_leaf s' f = has_leaf s f" for f by (simp add: has_leaf_def d f)
  show u: "used_frames s' = used_frames s" using b by (simp add: used_frames_def raw_eq h bit_byte_def d bitmap_part_def)
  show l: "leaves s' = leaves s" by (simp add: leaves_def d f)
  show a: "leaves_apart s' = leaves_apart s" by (simp add: leaves_apart_def d f)
  show "pfa_shape s' = pfa_shape s" using b by (simp add: pfa_shape_def f bitmap_part_def)
  show "free_frames s' = free_frames s" by (simp add: free_eq u f fixed_usable [OF fx])
  show "leaves_ok s' = leaves_ok s" by (simp add: leaves_ok_def l u a f fixed_usable [OF fx])
qed

subsection \<open>A new leaf\<close>

lemma directory_set:
  assumes "pfa_shape s" and "c < pfa_directory_entries s"
  shows "bitmap_directory_get (bitmap_directory_set s c l) c' = (if c' = c then l else bitmap_directory_get s c')"
proof (cases "c < INLINE_ENTRIES")
  case True
  then show ?thesis using assms
    by (cases "c' < INLINE_ENTRIES") (auto simp: bitmap_directory_set_def bitmap_directory_get_def pfa_shape_def nth_list_update)
next
  case False
  then obtain ext where e: "pfa_directory_extension s = Some ext" "pfa_directory_entries s - INLINE_ENTRIES \<le> length ext"
    using assms by (auto simp: pfa_shape_def)
  then have "c - INLINE_ENTRIES < length ext" using assms(2) False by linarith
  then show ?thesis using assms e False
    by (auto simp: bitmap_directory_set_def bitmap_directory_get_def nth_list_update)
qed

lemma directory_set_same [simp]:
  "fixed (bitmap_directory_set s c l) = fixed s" "pf_mem (bitmap_directory_set s c l) = pf_mem s"
  "pfa_cached_free (bitmap_directory_set s c l) = pfa_cached_free s"
  "last_alloc_hint (bitmap_directory_set s c l) = last_alloc_hint s"
  by (simp_all add: bitmap_directory_set_def fixed_def split: option.split)

lemma directory_set_shape [simp]: "pfa_shape (bitmap_directory_set s c l) = pfa_shape s"
  by (auto simp: bitmap_directory_set_def pfa_shape_def split: option.split)

lemma mem_zero_same [simp]:
  "fixed (mem_zero a n s) = fixed s" "pfa_shape (mem_zero a n s) = pfa_shape s"
  "bitmap_directory_get (mem_zero a n s) c = bitmap_directory_get s c" "leaves (mem_zero a n s) = leaves s"
  "pfa_cached_free (mem_zero a n s) = pfa_cached_free s" "last_alloc_hint (mem_zero a n s) = last_alloc_hint s"
  "has_leaf (mem_zero a n s) f = has_leaf s f" "bit_byte (mem_zero a n s) f = bit_byte s f"
  "leaves_apart (mem_zero a n s) = leaves_apart s"
  by (simp_all add: mem_zero_def)

text \<open>Zeroing a page that is not a leaf does not touch the bitmap.\<close>

lemma used_mem_zero:
  assumes "pfa_shape s" and "L \<notin> leaves s"
  shows "used_frames (mem_zero (L * PAGE_SIZE) PAGE_SIZE s) = used_frames s"
proof -
  have "\<not> (L * PAGE_SIZE \<le> bit_byte s f \<and> bit_byte s f < L * PAGE_SIZE + PAGE_SIZE)" if "has_leaf s f" for f
  proof
    assume *: "L * PAGE_SIZE \<le> bit_byte s f \<and> bit_byte s f < L * PAGE_SIZE + PAGE_SIZE"
    then have "bit_byte s f div PAGE_SIZE = L" by (intro div_nat_eqI) auto
    then have "bitmap_directory_get s (f div CHUNK_FRAMES) = L" using bit_byte_page [of s f] by simp
    moreover have "f div CHUNK_FRAMES < pfa_directory_entries s"
      using chunk_in_directory [OF assms(1) has_leaf_directory [OF assms(1) that]] .
    ultimately show False using assms(2) that by (auto simp: leaves_def has_leaf_def)
  qed
  then have "pf_mem (mem_zero (L * PAGE_SIZE) PAGE_SIZE s) (bit_byte s f) = pf_mem s (bit_byte s f)" if "has_leaf s f" for f
    unfolding mem_zero_def using that by auto
  then show ?thesis by (auto simp: used_frames_def raw_eq)
qed

text \<open>
  A zeroed frame that was free becomes the leaf of a chunk without one: the used frames
  stay as they are, and the new leaf is apart from the others.
\<close>

lemma new_leaf:
  assumes ok: "pfa_shape s" "leaves_ok s" and c: "c < pfa_directory_entries s" "bitmap_directory_get s c = 0"
    and L: "L \<noteq> 0" "\<not> bitmap_test_raw s L"
  defines "s2 \<equiv> bitmap_directory_set (mem_zero (L * PAGE_SIZE) PAGE_SIZE s) c L"
  shows "used_frames s2 = used_frames s" and "leaves s2 = insert L (leaves s)" and "leaves_apart s2" and "pfa_shape s2"
    and "has_leaf s2 f \<longleftrightarrow> has_leaf s f \<or> pfa_bitmap s \<and> f < bitmap_entries_used s \<and> f div CHUNK_FRAMES = c"
proof -
  let ?s1 = "mem_zero (L * PAGE_SIZE) PAGE_SIZE s"
  have nl: "L \<notin> leaves s" using leaf_not_free [OF ok(2)] L(2) by blast
  have dir: "bitmap_directory_get s2 c' = (if c' = c then L else bitmap_directory_get s c')" for c'
    unfolding s2_def using directory_set [of ?s1 c] ok(1) c(1) fixedD(5) [OF mem_zero_same(1)] by simp
  have D: "pfa_directory_entries s2 = pfa_directory_entries s" "pfa_bitmap s2 = pfa_bitmap s"
      "bitmap_entries_used s2 = bitmap_entries_used s"
    unfolding s2_def by (rule fixedD [of _ s]; simp)+
  show hl: "has_leaf s2 f \<longleftrightarrow> has_leaf s f \<or> pfa_bitmap s \<and> f < bitmap_entries_used s \<and> f div CHUNK_FRAMES = c" for f
    using L(1) by (auto simp: has_leaf_def dir D)
  show "leaves s2 = insert L (leaves s)" using c L(1) by (auto simp: leaves_def dir D) (metis less_irrefl)
  show "pfa_shape s2" using ok(1) by (simp add: s2_def)
  have "inj_on (bitmap_directory_get s) {c. c < pfa_directory_entries s \<and> bitmap_directory_get s c \<noteq> 0}"
    using ok(2) by (simp add: leaves_ok_def leaves_apart_def)
  then show "leaves_apart s2" using nl unfolding leaves_apart_def inj_on_def
    by (auto simp: dir D leaves_def)
  have "bitmap_test_raw s2 f \<longleftrightarrow> bitmap_test_raw s f" for f
  proof (cases "f div CHUNK_FRAMES = c")
    case True
    have "bit_byte s2 f = L * PAGE_SIZE + f mod CHUNK_FRAMES div 8" by (simp add: bit_byte_def dir True)
    then have "pf_mem s2 (bit_byte s2 f) = 0" using mod_chunk_div_8 [of f] by (simp add: s2_def mem_zero_def)
    then show ?thesis using True c(2) by (simp add: raw_eq has_leaf_def)
  next
    case False
    have "bit_byte s2 f = bit_byte s f" using False by (simp add: bit_byte_def dir)
    then have "bitmap_test_raw s2 f = bitmap_test_raw ?s1 f" using False by (simp add: raw_eq hl) (simp add: s2_def)
    then show ?thesis using used_mem_zero [OF ok(1) nl] by (auto simp: used_frames_def)
  qed
  then show "used_frames s2 = used_frames s" by (simp add: used_frames_def)
qed


text \<open>
  What getting a leaf may do: at most take one more free frame, outside the excluded range
  and not reserved, into the bitmap, which marks it used.
\<close>

definition grows :: "pfa \<Rightarrow> pfa \<Rightarrow> bool" where
  "grows s s' \<longleftrightarrow> fixed s' = fixed s \<and> leaves s \<subseteq> leaves s' \<and> used_frames s' = used_frames s \<union> (leaves s' - leaves s) \<and>
     leaves s' - leaves s \<subseteq> free_frames s \<inter> {f. \<not> frame_is_reserved s f} \<and> (\<forall>f. has_leaf s f \<longrightarrow> has_leaf s' f) \<and>
     last_alloc_hint s' = last_alloc_hint s"

lemma grows_refl [simp]: "grows s s"
  by (simp add: grows_def)

lemma grows_trans:
  assumes "grows a b" and "grows b c" shows "grows a c"
proof -
  have fx: "fixed b = fixed a" "fixed c = fixed b" using assms by (simp_all add: grows_def)
  have "free_frames b \<subseteq> free_frames a" unfolding free_change [OF fx(1)] free_eq [of a] using assms(1) by (auto simp: grows_def)
  then show ?thesis using assms fx by (auto simp: grows_def fixed_usable [OF fx(1)])
qed

lemma word_of_int_pos:
  assumes "0 < n" and "n < 2 ^ 64" shows "(of_int n :: u64) \<noteq> 0"
proof
  assume "(of_int n :: u64) = 0"
  then have "uint (of_int n :: u64) = 0" by simp
  then show False using assms by (simp add: unsigned_of_int take_bit_int_eq_self)
qed

lemma find_SomeD: "find P xs = Some x \<Longrightarrow> P x \<and> x \<in> set xs"
  by (induction xs) (auto split: if_splits)

lemma candidate:
  assumes "bitmap_leaf_candidate s c xs xe = Some L" and "pfa_shape s"
  shows "L \<in> free_frames s" "L \<notin> {xs..<xe}" "\<not> frame_is_reserved s L" "L \<noteq> 0" "L < DIRECT_FRAMES"
    "L div CHUNK_FRAMES = c \<or> has_leaf s L" "\<not> bitmap_test_raw s L" "L < bitmap_entries_used s"
    "pt_direct_map_ok (pf_tables s) (w64 (L * PAGE_SIZE))" "kernel_reserved_frames s \<le> L"
proof -
  have m: "L \<in> set [kernel_reserved_frames s ..< min DIRECT_FRAMES (bitmap_entries_used s)]"
    and c: "candidate_ok s c xs xe L"
    using find_SomeD [OF assms(1) [unfolded bitmap_leaf_candidate_def]] by blast+
  show "L < DIRECT_FRAMES" "L < bitmap_entries_used s" "L \<noteq> 0" "kernel_reserved_frames s \<le> L" using m assms(2) by (auto simp: pfa_shape_def)
  then show "L \<in> free_frames s" "L \<notin> {xs..<xe}" "\<not> frame_is_reserved s L" "L div CHUNK_FRAMES = c \<or> has_leaf s L"
    "\<not> bitmap_test_raw s L" "pt_direct_map_ok (pf_tables s) (w64 (L * PAGE_SIZE))"
    using c by (auto simp: candidate_ok_def free_frames_def get_leaf_eq split: if_splits)
qed

lemma ensure_leaf:
  assumes ok: "pfa_ok d s" and d: "0 \<le> d" "d \<le> 2 ^ 41" and e: "bitmap_ensure_leaf s f xs xe = (r, s')"
  shows "pfa_ok d s'" and "grows s s'" and "(leaves s' - leaves s) \<inter> {xs..<xe} = {}"
    and "r = (if has_leaf s' f then 0 else -1)"
proof -
  have sh: "pfa_shape s" and lo: "leaves_ok s" using ok by (simp_all add: pfa_ok_def)
  let ?c = "f div CHUNK_FRAMES"
  have "pfa_ok d s' \<and> grows s s' \<and> (leaves s' - leaves s) \<inter> {xs..<xe} = {} \<and> r = (if has_leaf s' f then 0 else -1)"
  proof (cases "f < bitmap_entries_used s \<and> bitmap_directory_get s ?c = 0")
    case False
    then have "s' = s" "r = (if has_leaf s f then 0 else -1)"
      using e sh by (auto simp: bitmap_ensure_leaf_def pfa_shape_def has_leaf_def Let_def split: if_splits)
    with ok show ?thesis by simp
  next
    case f: True
    then have c: "?c < pfa_directory_entries s" using chunk_in_directory [OF sh] by blast
    show ?thesis
    proof (cases "bitmap_leaf_candidate s ?c xs xe")
      case None
      then have "s' = s" "r = -1" "\<not> has_leaf s f"
        using e f sh by (auto simp: bitmap_ensure_leaf_def pfa_shape_def has_leaf_def)
      with ok show ?thesis by simp
    next
      case (Some L)
      note cand = candidate [OF Some sh]
      let ?s2 = "bitmap_directory_set (mem_zero (L * PAGE_SIZE) PAGE_SIZE s) ?c L"
      note n = new_leaf [OF sh lo c _ cand(4,7)]
      have fx2: "fixed ?s2 = fixed s" by simp
      have bm: "pfa_bitmap s" using sh by (simp add: pfa_shape_def)
      have hl: "has_leaf ?s2 L" "has_leaf ?s2 f" using n(5) cand(6,8) f bm by auto
      let ?s3 = "mem_or (bit_byte ?s2 L) (push_bit (L mod 8) 1) ?s2"
      have s3: "used_frames ?s3 = insert L (used_frames s)" using used_or [OF n(4) n(3) hl(1)] n(1) f by simp
      have c3: "leaves ?s3 = insert L (leaves s)" "leaves_apart ?s3" "pfa_shape ?s3" "fixed ?s3 = fixed s"
          "has_leaf ?s3 g = has_leaf ?s2 g" "pfa_cached_free ?s3 = pfa_cached_free s" "last_alloc_hint ?s3 = last_alloc_hint s" for g
        using n(2,3,4) f by (simp_all add: mem_or_def)
      have card: "0 < card (free_frames s)" using cand(1) by (metis card_gt_0_iff empty_iff finite_free)
      have "(of_int (int (card (free_frames s)) + d) :: u64) \<noteq> 0"
        using card card_free_bound [OF sh] d by (intro word_of_int_pos) auto
      then have nz: "pfa_cached_free s \<noteq> 0" using ok by (simp add: pfa_ok_def count_ok_def)
      have L32: "L mod 2 ^ 32 = L" using cand(5) by simp
      have "bitmap_get_leaf ?s2 L = Some (bitmap_directory_get ?s2 (L div CHUNK_FRAMES) * PAGE_SIZE)"
        using hl(1) by (simp add: get_leaf_eq)
      then have rs: "r = 0" "s' = ?s3\<lparr>bitmap_leaf_pages := bitmap_leaf_pages ?s3 + 1, pfa_cached_free := pfa_cached_free s - 1\<rparr>"
        using e f bm Some L32 nz c3(6) by (auto simp: bitmap_ensure_leaf_def Let_def bit_byte_def)
      have sb: "fixed s' = fixed ?s3" "bitmap_part s' = bitmap_part ?s3"
        unfolding rs(2) by (simp_all add: fixed_def bitmap_part_def)
      note b = same_bitmap [OF sb]
      have fx: "fixed s' = fixed s" using sb(1) c3(4) by simp
      have fr: "free_frames s' = free_frames s - {L}"
        unfolding free_change [OF fx] b(1) s3 free_eq [of s] by auto
      have ca: "pfa_cached_free s' = pfa_cached_free s - 1" by (simp add: rs(2))
      have "int (card (free_frames s')) + d = int (card (free_frames s)) + d - 1"
        using card_Suc_Diff1 [OF finite_free cand(1)] by (simp add: fr)
      then have "count_ok d s'" using ok unfolding pfa_ok_def count_ok_def ca by simp
      moreover have "leaves_ok ?s3" unfolding leaves_ok_def s3 c3(1) fixedD(7) [OF c3(4)] fixed_usable(2) [OF c3(4)]
        using lo cand(3,5,10) c3(2) by (auto simp: leaves_ok_def)
      ultimately have "pfa_ok d s'" using c3(3) b(4,7) ok fr by (simp add: pfa_ok_def)
      have "L \<notin> leaves s" using leaf_not_free [OF lo] cand(7) by blast
      moreover have us: "used_frames s' = insert L (used_frames s)" and lv: "leaves s' = insert L (leaves s)"
        and hs: "has_leaf s' g = has_leaf ?s2 g" for g
        unfolding b(1,2,5) s3 c3(1,5) by (rule refl)+
      moreover have lh: "last_alloc_hint s' = last_alloc_hint s" using c3(7) unfolding rs(2) by simp
      ultimately have new: "leaves s' - leaves s = {L}" "leaves s \<subseteq> leaves s'" by auto
      have "grows s s'" unfolding grows_def new(1)
        using fx new(2) us cand(1,3) n(5) hs lh f by auto
      with \<open>pfa_ok d s'\<close> show ?thesis using new(1) cand(2) rs(1) hl(2) hs by simp
    qed
  qed
  then show "pfa_ok d s'" "grows s s'" "(leaves s' - leaves s) \<inter> {xs..<xe} = {}" "r = (if has_leaf s' f then 0 else -1)"
    by blast+
qed


subsection \<open>Taking frames\<close>

lemma has_leaf_chunk:
  "has_leaf s f \<Longrightarrow> g div CHUNK_FRAMES = f div CHUNK_FRAMES \<Longrightarrow> g < bitmap_entries_used s \<Longrightarrow> has_leaf s g"
  by (simp add: has_leaf_def)

lemma chunk_next:
  fixes f g :: nat
  assumes "f \<le> g" and "g < (f div CHUNK_FRAMES + 1) * CHUNK_FRAMES" shows "g div CHUNK_FRAMES = f div CHUNK_FRAMES"
proof (rule div_nat_eqI)
  show "CHUNK_FRAMES * (f div CHUNK_FRAMES) \<le> g" using assms(1) div_times_less_eq_dividend [of f CHUNK_FRAMES] by simp
  show "g < CHUNK_FRAMES * Suc (f div CHUNK_FRAMES)" using assms(2) by simp
qed

lemma prepare_from:
  assumes "pfa_ok d s" and "0 \<le> d" "d \<le> 2 ^ 41" and "prepare_from s start finish frame = (r, s')"
    and "finish \<le> bitmap_entries_used s"
  shows "pfa_ok d s' \<and> grows s s' \<and> (leaves s' - leaves s) \<inter> {start..<finish} = {} \<and>
     (r = 0 \<longrightarrow> (\<forall>g. frame \<le> g \<and> g < finish \<longrightarrow> has_leaf s' g))"
  using assms
proof (induction s start finish frame arbitrary: r s' rule: prepare_from.induct)
  case (1 s start finish frame)
  show ?case
  proof (cases "frame < finish")
    case False
    with 1 show ?thesis by (auto simp: prepare_from.simps)
  next
    case True
    obtain r1 s1 where e: "bitmap_ensure_leaf s frame start finish = (r1, s1)" by force
    note en = ensure_leaf [OF "1.prems"(1-3) e]
    let ?next = "min ((frame div CHUNK_FRAMES + 1) * CHUNK_FRAMES) finish"
    show ?thesis
    proof (cases "r1 = 0")
      case False
      then have "s' = s1" "r = -1" using "1.prems"(4) True e by (auto simp: prepare_from.simps [of s])
      with en show ?thesis by auto
    next
      case z: True
      then have p: "prepare_from s1 start finish ?next = (r, s')" using "1.prems"(4) True e
        by (simp add: prepare_from.simps [of s])
      have en1: "bitmap_entries_used s1 = bitmap_entries_used s" using en(2) by (auto simp: grows_def fixed_def)
      have f1: "finish \<le> bitmap_entries_used s1" using en1 "1.prems"(5) by simp
      note ih = "1.IH" [OF True e [symmetric] _ en(1) "1.prems"(2,3) p f1]
      have hl: "has_leaf s1 frame" using en(4) z by (auto split: if_splits)
      have g: "grows s1 s'" using ih z by simp
      have "has_leaf s' g" if "r = 0" "frame \<le> g" "g < finish" for g
      proof (cases "g < ?next")
        case True
        then have "has_leaf s1 g" using has_leaf_chunk [OF hl] chunk_next [of frame g] that f1 by simp
        then show ?thesis using g by (simp add: grows_def)
      next
        case False
        then show ?thesis using ih z that by simp
      qed
      moreover have "(leaves s' - leaves s) \<inter> {start..<finish} = {}"
        using en(3) ih z by (auto simp: grows_def)
      ultimately show ?thesis using ih z grows_trans [OF en(2) g] by simp
    qed
  qed
qed

lemma set_bit_leaf:
  assumes "pfa_shape s" and "has_leaf s f"
  shows "set_bit s f = mem_or (bit_byte s f) (push_bit (f mod 8) 1) s"
  using assms by (simp add: set_bit_def bitmap_ensure_leaf_def has_leaf_def get_leaf_eq bit_byte_def Let_def)

lemma set_bits:
  assumes "pfa_ok d s" and "\<forall>j<n. has_leaf s (f + j)" and "\<forall>j<n. f + j \<in> free_frames s"
  defines "s' \<equiv> foldl (\<lambda>s j. set_bit s (f + j)) s [0..<n]"
  shows "pfa_ok (d + int n) s'" and "used_frames s' = used_frames s \<union> {f..<f + n}" and "fixed s' = fixed s"
    and "leaves s' = leaves s" and "has_leaf s' g = has_leaf s g" and "pfa_cached_free s' = pfa_cached_free s"
proof -
  have "pfa_ok (d + int n) s' \<and> used_frames s' = used_frames s \<union> {f..<f + n} \<and> fixed s' = fixed s \<and>
        leaves s' = leaves s \<and> (\<forall>g. has_leaf s' g = has_leaf s g) \<and> pfa_cached_free s' = pfa_cached_free s"
    unfolding s'_def using assms(2,3)
  proof (induction n)
    case 0
    with assms(1) show ?case by simp
  next
    case (Suc n)
    let ?t = "foldl (\<lambda>s j. set_bit s (f + j)) s [0..<n]"
    have ih: "pfa_ok (d + int n) ?t \<and> used_frames ?t = used_frames s \<union> {f..<f + n} \<and> fixed ?t = fixed s \<and>
        leaves ?t = leaves s \<and> (\<forall>g. has_leaf ?t g = has_leaf s g) \<and> pfa_cached_free ?t = pfa_cached_free s"
      using Suc by simp
    then have hl: "has_leaf ?t (f + n)" and ok: "pfa_ok (d + int n) ?t" and fx: "fixed ?t = fixed s" using Suc.prems(1) by auto
    have "f + n \<in> free_frames s" using Suc.prems(2) by simp
    then have fr: "f + n \<in> free_frames ?t" unfolding free_change [OF fx] using ih by (auto simp: free_eq)
    have e: "foldl (\<lambda>s j. set_bit s (f + j)) s [0..<Suc n] = mem_or (bit_byte ?t (f + n)) (push_bit ((f + n) mod 8) 1) ?t"
      using set_bit_leaf [OF _ hl] ok by (simp add: pfa_ok_def)
    note m = ok_mark [OF ok hl]
    have "pfa_ok (d + int (Suc n)) (mem_or (bit_byte ?t (f + n)) (push_bit ((f + n) mod 8) 1) ?t)"
      using m(1) fr by (simp add: algebra_simps)
    moreover have "insert (f + n) (used_frames s \<union> {f..<f + n}) = used_frames s \<union> {f..<f + Suc n}" by auto
    moreover have "pfa_cached_free (mem_or (bit_byte ?t (f + n)) (push_bit ((f + n) mod 8) 1) ?t) = pfa_cached_free s"
      using ih by (simp add: mem_or_def)
    ultimately show ?case unfolding e using m(2-5) ih by simp
  qed
  then show "pfa_ok (d + int n) s'" "used_frames s' = used_frames s \<union> {f..<f + n}" "fixed s' = fixed s"
    "leaves s' = leaves s" "has_leaf s' g = has_leaf s g" "pfa_cached_free s' = pfa_cached_free s" by blast+
qed

end
