(* ===== verification/Pfa_Alloc.thy ===== *)
theory Pfa_Alloc
  imports Pfa_Bitmap
begin

text \<open>
  Allocation: the searches find what a search frame by frame would find, and an allocation
  takes frames that were free and only those, beside the frames the bitmap needs for itself.
\<close>

unbundle bit_operations_syntax

subsection \<open>Taking a block\<close>

definition takes :: "pfa \<Rightarrow> pfa \<Rightarrow> nat set \<Rightarrow> bool" where
  "takes s s' B \<longleftrightarrow> fixed s' = fixed s \<and> leaves s \<subseteq> leaves s' \<and> leaves s' - leaves s \<subseteq> free_frames s \<and>
     (leaves s' - leaves s) \<inter> B = {} \<and> B \<subseteq> free_frames s \<and>
     used_frames s' = used_frames s \<union> B \<union> (leaves s' - leaves s)"

lemma grows_takes: "grows s s' \<Longrightarrow> takes s s' {}"
  by (auto simp: grows_def takes_def)

lemma grows_free: "grows s s' \<Longrightarrow> free_frames s' = free_frames s - (leaves s' - leaves s)"
  using free_change [of s' s] by (auto simp: grows_def free_eq [of s])

lemma takes_free: "takes s s' B \<Longrightarrow> free_frames s' = free_frames s - B - (leaves s' - leaves s)"
  using free_change [of s' s] by (auto simp: takes_def free_eq [of s])

lemma takes_trans:
  assumes "takes a b A" and "takes b c B" shows "takes a c (A \<union> B)"
proof -
  have f: "free_frames b = free_frames a - A - (leaves b - leaves a)" by (rule takes_free [OF assms(1)])
  have b: "B \<subseteq> free_frames b" "leaves c - leaves b \<subseteq> free_frames b" using assms(2) by (auto simp: takes_def)
  show ?thesis using assms b unfolding f takes_def by auto
qed

lemma takes_grow_some:
  assumes "takes s s' B" and "B = {}" and "takes s' s'' C" shows "takes s s'' C"
  using takes_trans [OF assms(1,3)] assms(2) by simp

lemma takes_same:
  assumes "takes s s' B" and "fixed s'' = fixed s'" and "bitmap_part s'' = bitmap_part s'"
  shows "takes s s'' B"
  using assms(1) unfolding takes_def by (simp add: same_bitmap [OF assms(2,3)] assms(2))

lemma ok_same:
  assumes "pfa_ok d s" and "fixed s' = fixed s" and "bitmap_part s' = bitmap_part s"
    and "pfa_cached_free s' = pfa_cached_free s - of_int k"
  shows "pfa_ok (d - k) s'"
  using assms(1) unfolding pfa_ok_def count_ok_def
  by (simp add: same_bitmap [OF assms(2,3)] assms(4))

lemma free_in_range: "f \<in> free_frames s \<Longrightarrow> f < bitmap_entries_used s"
  by (simp add: free_eq)

text \<open>Marking a prepared block.\<close>

lemma take_frames:
  assumes ok: "pfa_ok 0 s" and b: "{f..<f + n} \<subseteq> free_frames s" and n: "0 < n" and f: "0 < f"
    and t: "take_frames s f n = (r, s')"
  shows "pfa_ok 0 s'" and "takes s s' (if r = 0 then {} else {f..<f + n})" and "r = 0 \<or> r = f * PAGE_SIZE"
proof -
  have sh: "pfa_shape s" using ok by (simp add: pfa_ok_def)
  have "f + (n - 1) \<in> {f..<f + n}" using n by simp
  then have "f + (n - 1) < bitmap_entries_used s" using b free_in_range by blast
  then have fe: "f + n \<le> bitmap_entries_used s" using n by simp
  then have small: "f + n \<le> 2 ^ 40" using sh by (simp add: pfa_shape_def)
  obtain r1 s1 where p: "bitmap_prepare_range s f n = (r1, s1)" by force
  then have pf: "prepare_from s f (f + n) f = (r1, s1)" using small n by (auto simp: bitmap_prepare_range_def split: if_splits)
  have pr: "pfa_ok 0 s1" "grows s s1" "(leaves s1 - leaves s) \<inter> {f..<f + n} = {}"
      "r1 = 0 \<Longrightarrow> \<forall>g. f \<le> g \<and> g < f + n \<longrightarrow> has_leaf s1 g"
    using prepare_from [OF ok _ _ pf fe] by auto
  have "pfa_ok 0 s' \<and> takes s s' (if r = 0 then {} else {f..<f + n}) \<and> (r = 0 \<or> r = f * PAGE_SIZE)"
  proof (cases "r1 = 0")
    case False
    then have "r = 0" "s' = s1" using t p by (auto simp: take_frames_def)
    then show ?thesis using pr grows_takes by simp
  next
    case True
    let ?s2 = "foldl (\<lambda>s j. set_bit s (f + j)) s1 [0..<n]"
    have hl: "\<forall>j<n. has_leaf s1 (f + j)" using pr(4) [OF True] by simp
    have fr: "\<forall>j<n. f + j \<in> free_frames s1" using b pr(3) unfolding grows_free [OF pr(2)] by auto
    note sb = set_bits [OF pr(1) hl fr]
    have rs: "r = w64 (f * PAGE_SIZE)"
        "s' = ?s2\<lparr>last_alloc_hint := f + n, pfa_cached_free := pfa_cached_free ?s2 - of_nat n\<rparr>"
      using t p True by (auto simp: take_frames_def Let_def)
    have "f * PAGE_SIZE < 2 ^ 64" using small by simp
    then have r: "r = f * PAGE_SIZE" "r \<noteq> 0" using rs(1) f by (simp_all add: w64_def)
    have sm: "fixed s' = fixed ?s2" "bitmap_part s' = bitmap_part ?s2" "pfa_cached_free s' = pfa_cached_free ?s2 - of_int (int n)"
      unfolding rs(2) by (simp_all add: fixed_def bitmap_part_def)
    have "pfa_ok 0 s'" using ok_same [OF sb(1) sm] by simp
    moreover have "takes s ?s2 {f..<f + n}"
      using pr(2,3) b sb(2-4) unfolding takes_def grows_def by auto
    ultimately show ?thesis using takes_same [OF _ sm(1,2)] r by simp
  qed
  then show "pfa_ok 0 s'" "takes s s' (if r = 0 then {} else {f..<f + n})" "r = 0 \<or> r = f * PAGE_SIZE" by blast+
qed

subsection \<open>The searches\<close>

text \<open>The scan for a run is the search for a place where a whole block is free.\<close>

lemma test_bit_free: "test_bit s f \<longleftrightarrow> f \<notin> free_frames s"
  by (auto simp: test_bit_def free_frames_def)

lemma scan_run_sound:
  assumes "scan_run s num finish run run_start f = Some x" and "0 < num"
    and "run = 0 \<or> run_start + run = f \<and> {run_start..<f} \<subseteq> free_frames s" and "run < num" and "from \<le> f" and "run \<noteq> 0 \<longrightarrow> from \<le> run_start"
  shows "{x..<x + num} \<subseteq> free_frames s \<and> from \<le> x \<and> x + num \<le> finish"
  using assms
proof (induction s num finish run run_start f rule: scan_run.induct)
  case (1 s num finish run run_start f)
  have lt: "f < finish" using "1.prems"(1) by (auto simp: scan_run.simps [of s] split: if_splits)
  show ?case
  proof (cases "test_bit s f")
    case True
    then have "scan_run s num finish 0 (f + 1) (f + 1) = Some x" using "1.prems"(1) lt by (simp add: scan_run.simps [of s num finish run])
    from "1.IH"(1) [OF lt True this] "1.prems" show ?thesis by simp
  next
    case False
    let ?st = "if run = 0 then f else run_start"
    have fr: "f \<in> free_frames s" using False by (simp add: test_bit_free)
    have st: "?st + (run + 1) = f + 1" "from \<le> ?st" using "1.prems"(3,5,6) by auto
    have blk: "{?st..<f + 1} \<subseteq> free_frames s"
    proof (cases "run = 0")
      case False
      then have "{run_start..<f + 1} = insert f {run_start..<f}" using "1.prems"(3) by auto
      with False "1.prems"(3) fr show ?thesis by simp
    qed (use fr in auto)
    show ?thesis
    proof (cases "run + 1 < num")
      case True
      then have s: "scan_run s num finish (run + 1) ?st (f + 1) = Some x" using "1.prems"(1) lt False
        by (simp add: scan_run.simps [of s num finish run])
      from "1.IH"(2) [OF lt False refl True s "1.prems"(2)] st blk True "1.prems"(5) show ?thesis by simp
    next
      case no: False
      then have "num = run + 1" "x = ?st" using "1.prems"(1,4) lt False by (auto simp: scan_run.simps [of s num finish run])
      then show ?thesis using blk st lt by simp
    qed
  qed
qed


lemma scan_run_complete:
  assumes "scan_run s num finish run run_start f = None" and "run = 0 \<or> run_start + run = f" and "run < num"
    and "(if run = 0 then f else run_start) \<le> x" and "x + num \<le> finish"
  shows "\<not> {x..<x + num} \<subseteq> free_frames s"
  using assms
proof (induction s num finish run run_start f rule: scan_run.induct)
  case (1 s num finish run run_start f)
  let ?st = "if run = 0 then f else run_start"
  have eq: "?st + run = f" using "1.prems"(2) by auto
  then have "f < x + num" using "1.prems"(3,4) by linarith
  then have lt: "f < finish" using "1.prems"(5) by simp
  show ?case
  proof (cases "test_bit s f")
    case True
    then have s: "scan_run s num finish 0 (f + 1) (f + 1) = None" using "1.prems"(1) lt by (simp add: scan_run.simps [of s num finish run])
    show ?thesis
    proof (cases "x \<le> f")
      case True
      with \<open>test_bit s f\<close> \<open>f < x + num\<close> show ?thesis by (auto simp: test_bit_free)
    next
      case False
      from "1.IH"(1) [OF lt True s] "1.prems"(3,5) False show ?thesis by simp
    qed
  next
    case False
    show ?thesis
    proof (cases "run + 1 < num")
      case True
      then have s: "scan_run s num finish (run + 1) ?st (f + 1) = None" using "1.prems"(1) lt False
        by (simp add: scan_run.simps [of s num finish run])
      have "?st + (run + 1) = f + 1" using eq by simp
      from "1.IH"(2) [OF lt False refl True s _ True] this "1.prems"(4,5) show ?thesis by simp
    next
      case no: False
      then show ?thesis using "1.prems"(1) lt False by (simp add: scan_run.simps [of s num finish run] Let_def)
    qed
  qed
qed

lemma ctz8:
  assumes "b \<noteq> 0"
  shows "ctz8 b < 8" and "bit b (ctz8 b)" and "j < ctz8 b \<Longrightarrow> \<not> bit b j"
proof -
  let ?P = "\<lambda>i. \<not> bit b i" and ?l = "[0..<8::nat]"
  have "\<exists>i<8. bit b i" using assms bit_eq_iff [of b 0] bit_imp_le_length [of b] by fastforce
  then obtain i where "i < 8" "bit b i" by blast
  then have "\<exists>x\<in>set ?l. \<not> ?P x" by auto
  then have lt: "length (takeWhile ?P ?l) < length ?l"
    using takeWhile_eq_all_conv [of ?P ?l] length_takeWhile_le [of ?P ?l]
    by (metis le_neq_implies_less takeWhile_eq_take take_all_iff order_refl)
  then show l: "ctz8 b < 8" by (simp add: ctz8_def)
  show "bit b (ctz8 b)" using nth_length_takeWhile [OF lt] l by (simp add: ctz8_def)
  show "j < ctz8 b \<Longrightarrow> \<not> bit b j"
    using l takeWhile_nth [of j ?P ?l] set_takeWhileD [of "takeWhile ?P ?l ! j" ?P ?l]
      nth_mem [of j "takeWhile ?P ?l"]
    by (auto simp: ctz8_def)
qed

lemma bit_free_byte:
  assumes "i < 8"
  shows "bit (byte_free_bits s e f leaf) i \<longleftrightarrow>
    \<not> bit (pf_mem s (leaf + f mod CHUNK_FRAMES div 8)) i \<and> f mod 8 \<le> i \<and>
    byte_base f + i < min (f + (CHUNK_FRAMES - f mod CHUNK_FRAMES)) e"
proof -
  have m: "bit (push_bit k 1 - 1 :: u8) i \<longleftrightarrow> i < k" if "k < 8" for k
    using that assms bit_mask_iff [of k i, where ?'a = u8] by (simp add: mask_eq_exp_minus_1)
  have p: "bit (push_bit k 0xFF :: u8) i \<longleftrightarrow> k \<le> i" for k
  proof -
    have "(0xFF :: u8) = -1" by simp
    then show ?thesis using assms by (simp only:) (simp add: bit_simps not_less)
  qed
  let ?m = "min (f + (CHUNK_FRAMES - f mod CHUNK_FRAMES)) e"
  let ?u = "pf_mem s (leaf + f mod CHUNK_FRAMES div 8) OR (push_bit (f mod 8) 1 - 1)"
  have k: "f mod 8 < 8" by simp
  have b: "byte_base f = f - f mod CHUNK_FRAMES mod 8" by (rule byte_base_def)
  have "byte_free_bits s e f leaf = NOT (if ?m - byte_base f < 8 then ?u OR push_bit (?m - byte_base f) 0xFF else ?u)"
    unfolding byte_free_bits_def Let_def b mod_chunk_8 by (rule refl)
  then have "bit (byte_free_bits s e f leaf) i \<longleftrightarrow> \<not> (bit ?u i \<or> ?m - byte_base f \<le> i)"
    using assms p [of "?m - byte_base f"] by (simp only: bit_not_iff) (auto simp: bit_or_iff)
  also have "bit ?u i \<longleftrightarrow> bit (pf_mem s (leaf + f mod CHUNK_FRAMES div 8)) i \<or> i < f mod 8"
    unfolding bit_or_iff m [OF k] by (rule refl)
  finally show ?thesis by auto
qed


lemma find_append_None: "find P xs = None \<Longrightarrow> find P (xs @ ys) = find P ys"
  by (induction xs) (auto split: if_splits)

lemma find_upt_skip:
  assumes "f \<le> g" and "\<And>y. f \<le> y \<Longrightarrow> y < g \<Longrightarrow> y < e \<Longrightarrow> \<not> P y"
  shows "find P [f..<e] = find P [g..<e]"
proof (cases "g \<le> e")
  case True
  then have "[f..<e] = [f..<g] @ [g..<e]" using assms(1) by (metis le_add_diff_inverse upt_add_eq_append)
  moreover have "find P [f..<g] = None" using assms(2) True by (auto simp: find_None_iff)
  ultimately show ?thesis by (simp add: find_append_None)
next
  case False
  then have "find P [f..<e] = None" using assms(2) by (auto simp: find_None_iff)
  with False show ?thesis by simp
qed

lemma find_upt_first:
  assumes "f \<le> x" and "x < e" and "P x" and "\<And>y. f \<le> y \<Longrightarrow> y < x \<Longrightarrow> \<not> P y"
  shows "find P [f..<e] = Some x"
  using find_upt_skip [of f x e P] assms by (simp add: upt_conv_Cons)

lemma byte_frames:
  assumes "has_leaf s f" and "i < 8" and "byte_base f + i < e" and "e \<le> bitmap_entries_used s"
  shows "bitmap_test_raw s (byte_base f + i) \<longleftrightarrow>
    bit (pf_mem s (bitmap_directory_get s (f div CHUNK_FRAMES) * PAGE_SIZE + f mod CHUNK_FRAMES div 8)) i"
    and "byte_base f + i < f + (CHUNK_FRAMES - f mod CHUNK_FRAMES)"
proof -
  let ?g = "byte_base f + i"
  have b: "byte_base f = f - f mod 8" by (simp add: byte_base_def)
  have g: "?g = f div 8 * 8 + i" unfolding b by (simp add: minus_mod_eq_div_mult)
  then have "?g div 8 = f div 8" "?g mod 8 = i" using assms(2) by simp_all
  have c: "x div CHUNK_FRAMES = x div 8 div 4096" "x mod CHUNK_FRAMES div 8 = x div 8 mod 4096" for x :: nat
    by (simp_all add: div_mult2_eq [symmetric]) (use mod_mult2_eq [of x 8 4096] in simp)
  have same: "?g div CHUNK_FRAMES = f div CHUNK_FRAMES" "?g mod CHUNK_FRAMES div 8 = f mod CHUNK_FRAMES div 8"
    unfolding c by (simp_all add: \<open>?g div 8 = f div 8\<close>)
  have "has_leaf s ?g" using has_leaf_chunk [OF assms(1) same(1)] assms(3,4) by simp
  then show "bitmap_test_raw s ?g \<longleftrightarrow>
    bit (pf_mem s (bitmap_directory_get s (f div CHUNK_FRAMES) * PAGE_SIZE + f mod CHUNK_FRAMES div 8)) i"
    by (simp add: raw_eq bit_byte_def same \<open>?g mod 8 = i\<close>)
  have "?g < (f div CHUNK_FRAMES + 1) * CHUNK_FRAMES"
    using same(1) div_less_iff_less_mult [of CHUNK_FRAMES ?g "f div CHUNK_FRAMES + 1"] by simp
  moreover have "f mod CHUNK_FRAMES < CHUNK_FRAMES" by simp
  then have "(f div CHUNK_FRAMES + 1) * CHUNK_FRAMES = f + (CHUNK_FRAMES - f mod CHUNK_FRAMES)"
    by (simp add: minus_mod_eq_div_mult [symmetric])
  ultimately show "?g < f + (CHUNK_FRAMES - f mod CHUNK_FRAMES)" by simp
qed

text \<open>The scan by bytes finds the frame that a scan bit by bit finds.\<close>

lemma scan_bytes_find:
  assumes "e \<le> bitmap_entries_used s"
  shows "scan_bytes s e f = find (\<lambda>g. \<not> bitmap_test_raw s g) [f..<e]"
  using assms
proof (induction s e f rule: scan_bytes.induct)
  case (1 s e f)
  show ?case
  proof (cases "f < e")
    case False
    then show ?thesis by (simp add: scan_bytes.simps [of s])
  next
    case lt: True
    show ?thesis
    proof (cases "has_leaf s f")
      case False
      then have "\<not> bitmap_test_raw s f" by (simp add: raw_eq)
      then have "find (\<lambda>g. \<not> bitmap_test_raw s g) [f..<e] = Some f" using lt by (intro find_upt_first) auto
      then show ?thesis using lt False by (simp add: scan_bytes.simps [of s] get_leaf_eq)
    next
      case hl: True
      let ?leaf = "bitmap_directory_get s (f div CHUNK_FRAMES) * PAGE_SIZE"
      let ?fb = "byte_free_bits s e f ?leaf"
      have leaf: "bitmap_get_leaf s f = Some ?leaf" using hl by (simp add: get_leaf_eq)
      have b: "byte_base f = f - f mod 8" "f mod 8 < 8" by (simp_all add: byte_base_def)
      have fb: "bit ?fb i \<longleftrightarrow> \<not> bitmap_test_raw s (byte_base f + i) \<and> f mod 8 \<le> i \<and> byte_base f + i < e" if "i < 8" for i
        using bit_free_byte [OF that, of s e f ?leaf] byte_frames [OF hl that _ "1.prems"] by auto
      have raw: "bitmap_test_raw s y" if y: "f \<le> y" "y < byte_base f + 8" "y < e" "\<not> bit ?fb (y - byte_base f)" for y
      proof -
        have "y - byte_base f < 8" "byte_base f + (y - byte_base f) = y" "f mod 8 \<le> y - byte_base f"
          using y b by linarith+
        then show ?thesis using fb [of "y - byte_base f"] y(3,4) by simp
      qed
      show ?thesis
      proof (cases "?fb = 0")
        case True
        then have "find (\<lambda>g. \<not> bitmap_test_raw s g) [f..<e] = find (\<lambda>g. \<not> bitmap_test_raw s g) [byte_base f + 8..<e]"
          using raw by (intro find_upt_skip less_imp_le [OF byte_base_less]) (auto simp: True)
        then show ?thesis using "1.IH" [OF lt leaf True "1.prems"] lt leaf True by (simp add: scan_bytes.simps [of s e f])
      next
        case False
        note c = ctz8 [OF False]
        let ?x = "byte_base f + ctz8 ?fb"
        have x: "\<not> bitmap_test_raw s ?x" "f mod 8 \<le> ctz8 ?fb" "?x < e" using fb [OF c(1)] c(2) by auto
        have "f \<le> ?x" using x(2) b by linarith
        moreover have "bitmap_test_raw s y" if "f \<le> y" "y < ?x" for y
        proof (rule raw [OF that(1)])
          have "y - byte_base f < ctz8 ?fb" using that b by linarith
          then show "\<not> bit ?fb (y - byte_base f)" by (rule c(3))
        qed (use that c(1) x(3) in linarith)+
        ultimately have "find (\<lambda>g. \<not> bitmap_test_raw s g) [f..<e] = Some ?x" using x by (intro find_upt_first) auto
        then show ?thesis using lt leaf False by (simp add: scan_bytes.simps [of s e f])
      qed
    qed
  qed
qed


definition in_region :: "nat \<Rightarrow> nat \<times> nat \<Rightarrow> bool" where
  "in_region g r \<longleftrightarrow> fst r \<le> g * PAGE_SIZE \<and> g * PAGE_SIZE + PAGE_SIZE \<le> fst r + snd r"

lemma usable_in_region:
  assumes "pfa_shape s" and "g < 2 ^ 40"
  shows "frame_is_usable s g \<longleftrightarrow> (\<exists>r\<in>set (pf_map s). in_region g r)"
proof -
  have "w64 (g * PAGE_SIZE) = g * PAGE_SIZE" "w64 (g * PAGE_SIZE + PAGE_SIZE) = g * PAGE_SIZE + PAGE_SIZE"
    using assms(2) by (simp_all add: w64_def)
  moreover have "w64 (fst r + snd r) = fst r + snd r" if "r \<in> set (pf_map s)" for r
  proof -
    have "fst r + snd r \<le> 2 ^ 52" using assms(1) that by (simp add: pfa_shape_def)
    then show ?thesis by (simp add: w64_def)
  qed
  moreover have "frame_is_usable s g \<longleftrightarrow>
      (\<exists>r\<in>set (pf_map s). fst r \<le> w64 (g * PAGE_SIZE) \<and> w64 (w64 (g * PAGE_SIZE) + PAGE_SIZE) \<le> w64 (fst r + snd r))"
    by (simp add: frame_is_usable_def Let_def list_ex_iff case_prod_beta)
  ultimately show ?thesis by (auto simp: in_region_def)
qed

lemma region_frames:
  assumes "fst r + snd r \<le> 2 ^ 52" and "region_frames from finish r = (a, b)"
  shows "a \<le> g \<and> g < b \<longleftrightarrow> from \<le> g \<and> g < finish \<and> in_region g r"
proof -
  obtain x l where r: "r = (x, l)" by force
  have l: "\<not> l > 2 ^ 64 - 1 - x" using assms(1) by (simp add: r)
  let ?rs = "if x mod PAGE_SIZE \<noteq> 0 then x div PAGE_SIZE + 1 else x div PAGE_SIZE"
  have ab: "a = max ?rs from" "b = min ((x + l) div PAGE_SIZE) finish"
    using assms(2) l by (auto simp: region_frames_def r Let_def max_def min_def)
  define q m where "q = x div PAGE_SIZE" and "m = x mod PAGE_SIZE"
  then have "x = q * PAGE_SIZE + m" "m < PAGE_SIZE" by simp_all
  then have "?rs \<le> g \<longleftrightarrow> x \<le> g * PAGE_SIZE" unfolding q_def [symmetric] m_def [symmetric] by auto
  moreover have "g < (x + l) div PAGE_SIZE \<longleftrightarrow> g * PAGE_SIZE + PAGE_SIZE \<le> x + l"
    using less_eq_div_iff_mult_less_eq [of PAGE_SIZE "Suc g" "x + l"] by (simp add: Suc_le_eq add.commute)
  ultimately show ?thesis unfolding ab in_region_def r by auto
qed

lemma scan_regions_sound:
  assumes "scan_regions s from finish rs = Some x" and "\<forall>r\<in>set rs. fst r + snd r \<le> 2 ^ 52"
    and "finish \<le> bitmap_entries_used s"
  shows "from \<le> x \<and> x < finish \<and> \<not> bitmap_test_raw s x \<and> (\<exists>r\<in>set rs. in_region x r)"
  using assms
proof (induction rs)
  case (Cons r rs)
  obtain a b where ab: "region_frames from finish r = (a, b)" by force
  note rf = region_frames [OF _ ab]
  have b: "b \<le> bitmap_entries_used s" using ab Cons.prems(3) by (auto simp: region_frames_def Let_def split: prod.splits if_splits)
  show ?case
  proof (cases "a < b \<and> scan_bytes s b a = Some x")
    case True
    then have "find (\<lambda>g. \<not> bitmap_test_raw s g) [a..<b] = Some x" using scan_bytes_find [OF b] by simp
    from find_SomeD [OF this] have "a \<le> x" "x < b" "\<not> bitmap_test_raw s x" by auto
    then show ?thesis using rf [of x] Cons.prems(2) by auto
  next
    case False
    then have "scan_regions s from finish rs = Some x"
      using Cons.prems(1) ab by (auto split: if_splits option.splits)
    with Cons show ?thesis by auto
  qed
qed simp

lemma scan_regions_complete:
  assumes "scan_regions s from finish rs = None" and "\<forall>r\<in>set rs. fst r + snd r \<le> 2 ^ 52"
    and "finish \<le> bitmap_entries_used s" and "r \<in> set rs" and "in_region g r" and "from \<le> g" and "g < finish"
  shows "bitmap_test_raw s g"
  using assms
proof (induction rs)
  case (Cons q rs)
  obtain a b where ab: "region_frames from finish q = (a, b)" by force
  have b: "b \<le> bitmap_entries_used s" using ab Cons.prems(3) by (auto simp: region_frames_def Let_def split: prod.splits if_splits)
  have n: "scan_regions s from finish rs = None" "a < b \<Longrightarrow> scan_bytes s b a = None"
    using Cons.prems(1) ab by (auto split: if_splits option.splits)
  show ?case
  proof (cases "r = q")
    case True
    then have g: "a \<le> g" "g < b" using region_frames [OF _ ab, of g] Cons.prems(2,5-7) by auto
    then have "find (\<lambda>g. \<not> bitmap_test_raw s g) [a..<b] = None" using n(2) scan_bytes_find [OF b] by simp
    with g show ?thesis by (auto simp: find_None_iff)
  next
    case False
    with Cons n(1) show ?thesis by auto
  qed
qed simp


subsection \<open>Allocation\<close>

text \<open>The frames of a block that an allocation of num frames returned, none on failure.\<close>

definition block :: "nat \<Rightarrow> nat \<Rightarrow> nat set" where
  "block r num = (if r = 0 then {} else {r div PAGE_SIZE..<r div PAGE_SIZE + num})"

definition allocates :: "pfa \<Rightarrow> nat \<Rightarrow> nat \<Rightarrow> nat \<Rightarrow> nat \<times> pfa \<Rightarrow> bool" where
  "allocates s from finish num rs \<longleftrightarrow> pfa_ok 0 (snd rs) \<and> takes s (snd rs) (block (fst rs) num) \<and> fst rs mod PAGE_SIZE = 0 \<and>
     (fst rs \<noteq> 0 \<longrightarrow> from \<le> fst rs div PAGE_SIZE \<and> fst rs div PAGE_SIZE + num \<le> finish)"

lemma block_0 [simp]: "block 0 num = {}"
  by (simp add: block_def)

lemma allocates_none: "pfa_ok 0 s \<Longrightarrow> allocates s from finish num (0, s)"
  by (simp add: allocates_def takes_def)

lemma find_bitmap:
  assumes ok: "pfa_ok 0 s" and finish: "finish \<le> bitmap_entries_used s"
  shows "allocates s from finish num (find_free_frames_bitmap s from finish num)"
proof (cases "finish \<le> from \<or> num = 0")
  case True
  then show ?thesis using allocates_none [OF ok] by (simp add: find_free_frames_bitmap_def)
next
  case False
  let ?scan = "if num \<noteq> 1 then scan_run s num finish 0 from from else scan_regions s from finish (pf_map s)"
  have sh: "pfa_shape s" using ok by (simp add: pfa_ok_def)
  then have maps: "\<forall>r\<in>set (pf_map s). fst r + snd r \<le> 2 ^ 52" and en: "bitmap_entries_used s \<le> 2 ^ 40" by (auto simp: pfa_shape_def)
  show ?thesis
  proof (cases ?scan)
    case None
    then have "find_free_frames_bitmap s from finish num = (0, s)" using False by (auto simp: find_free_frames_bitmap_def)
    then show ?thesis using allocates_none [OF ok] by simp
  next
    case (Some x)
    have x: "{x..<x + num} \<subseteq> free_frames s \<and> from \<le> x \<and> x + num \<le> finish"
    proof (cases "num = 1")
      case True
      then have "scan_regions s from finish (pf_map s) = Some x" using Some by simp
      from scan_regions_sound [OF this maps finish] have
        "from \<le> x" "x < finish" "\<not> bitmap_test_raw s x" "\<exists>r\<in>set (pf_map s). in_region x r" by blast+
      moreover from this have "frame_is_usable s x" using usable_in_region [OF sh, of x] finish en by simp
      ultimately show ?thesis using True finish by (auto simp: free_frames_def)
    next
      case n1: False
      then have "scan_run s num finish 0 from from = Some x" using Some by simp
      from scan_run_sound [OF this, of "from"] False show ?thesis by simp
    qed
    obtain r s' where t: "take_frames s x num = (r, s')" by force
    have e: "find_free_frames_bitmap s from finish num = (r, s')" using False Some t by (auto simp: find_free_frames_bitmap_def)
    have "x \<in> {x..<x + num}" using False by simp
    then have "x \<in> free_frames s" using x by blast
    then have "x \<noteq> 0" using ok by (metis pfa_ok_def)
    with False have "0 < num" "0 < x" by auto
    note tf = take_frames [OF ok _ this t]
    show ?thesis using tf x by (auto simp: e allocates_def block_def)
  qed
qed

lemma find_range:
  assumes "pfa_ok 0 s" and "finish \<le> bitmap_entries_used s"
  shows "allocates s from finish num (find_free_frames_range s from finish num)"
  using find_bitmap [OF assms] allocates_none [OF assms(1)]
  by (simp add: find_free_frames_range_def)

text \<open>A search after a failed one.\<close>

lemma allocates_or_else:
  assumes "allocates s a b num rs" and "\<And>s'. pfa_ok 0 s' \<Longrightarrow> fixed s' = fixed s \<Longrightarrow> c s' \<Longrightarrow> allocates s' a' b' num (f s')"
    and "lo \<le> a" "b \<le> hi" "\<And>s'. fixed s' = fixed s \<Longrightarrow> c s' \<Longrightarrow> lo \<le> a' \<and> b' \<le> hi"
  shows "allocates s lo hi num (or_else rs c f)"
proof -
  obtain r s1 where rs: "rs = (r, s1)" by force
  have 1: "pfa_ok 0 s1" "takes s s1 (block r num)" "fixed s1 = fixed s" using assms(1) by (auto simp: allocates_def rs takes_def)
  show ?thesis
  proof (cases "r = 0 \<and> c s1")
    case True
    then have "allocates s1 a' b' num (f s1)" "lo \<le> a' \<and> b' \<le> hi" using assms(2,5) 1 by blast+
    moreover have "takes s s1 {}" using 1 True by simp
    ultimately show ?thesis using True takes_trans [of s s1 "{}"] by (auto simp: allocates_def or_else_def rs)
  next
    case False
    then show ?thesis using assms(1,3,4) by (auto simp: allocates_def or_else_def rs)
  qed
qed

lemma find_free_frames:
  assumes ok: "pfa_ok 0 s"
  shows "allocates s 1 (bitmap_entries_used s) num (find_free_frames s num)"
proof (cases "num = 0")
  case True
  then show ?thesis using allocates_none [OF ok] by (simp add: find_free_frames_def)
next
  case False
  have sh: "pfa_shape s" using ok by (simp add: pfa_ok_def)
  let ?st1 = "if last_alloc_hint s < kernel_reserved_frames s then kernel_reserved_frames s else last_alloc_hint s"
  define st where "st = (if ?st1 \<ge> total_pages_managed s then kernel_reserved_frames s else ?st1)"
  have st: "0 < st" "0 < kernel_reserved_frames s" "total_pages_managed s \<le> bitmap_entries_used s"
    "kernel_reserved_frames s < st \<Longrightarrow> st \<le> bitmap_entries_used s"
    using sh by (auto simp: st_def pfa_shape_def)
  have e: "find_free_frames s num =
      or_else (or_else (or_else (find_free_frames_range s st (total_pages_managed s) num)
        (\<lambda>s. st > kernel_reserved_frames s)
        (\<lambda>s. find_free_frames_range s (kernel_reserved_frames s) st num))
        (\<lambda>s. cold_low_end_frame s > cold_low_start_frame s)
        (\<lambda>s. find_free_frames_range s (cold_low_start_frame s) (cold_low_end_frame s) num))
        (\<lambda>s. kernel_reclaim_hi s > kernel_reclaim_lo s)
        (\<lambda>s. find_free_frames_range s (kernel_reclaim_lo s) (kernel_reclaim_hi s) num)"
    using False by (simp add: find_free_frames_def st_def Let_def)
  have 1: "allocates s st (total_pages_managed s) num (find_free_frames_range s st (total_pages_managed s) num)"
    by (rule find_range [OF ok]) (use st in auto)
  have sh': "pfa_shape s'" if "pfa_ok 0 s'" for s' using that by (simp add: pfa_ok_def)
  show ?thesis unfolding e
  proof (rule allocates_or_else [OF allocates_or_else [OF allocates_or_else [OF 1]]])
    fix s' assume s': "pfa_ok 0 s'" "fixed s' = fixed s"
    note fx = fixedD [OF s'(2)]
    show "allocates s' (kernel_reserved_frames s) st num (find_free_frames_range s' (kernel_reserved_frames s') st num)"
      if "st > kernel_reserved_frames s'"
      using find_range [OF s'(1), of st "kernel_reserved_frames s" num] st that by (simp add: fx)
    show "allocates s' (cold_low_start_frame s) (cold_low_end_frame s) num
        (find_free_frames_range s' (cold_low_start_frame s') (cold_low_end_frame s') num)"
      if "cold_low_end_frame s' > cold_low_start_frame s'"
      using find_range [OF s'(1), of "cold_low_end_frame s" "cold_low_start_frame s" num] that sh by (simp add: fx pfa_shape_def)
    show "allocates s' (kernel_reclaim_lo s) (kernel_reclaim_hi s) num
        (find_free_frames_range s' (kernel_reclaim_lo s') (kernel_reclaim_hi s') num)"
      if "kernel_reclaim_hi s' > kernel_reclaim_lo s'"
      using find_range [OF s'(1), of "kernel_reclaim_hi s" "kernel_reclaim_lo s" num] that sh by (simp add: fx pfa_shape_def)
  next
    fix s' assume "fixed s' = fixed s"
    note fx = fixedD [OF this]
    show "1 \<le> kernel_reserved_frames s \<and> st \<le> bitmap_entries_used s" if "st > kernel_reserved_frames s'"
      using that st by (simp add: fx)
    show "1 \<le> cold_low_start_frame s \<and> cold_low_end_frame s \<le> bitmap_entries_used s"
      if "cold_low_end_frame s' > cold_low_start_frame s'" using that sh by (simp add: fx pfa_shape_def)
    show "1 \<le> kernel_reclaim_lo s \<and> kernel_reclaim_hi s \<le> bitmap_entries_used s"
      if "kernel_reclaim_hi s' > kernel_reclaim_lo s'" using that sh by (simp add: fx pfa_shape_def)
  qed (use st in auto)
qed


text \<open>A block given back at once.\<close>

lemma takes_block_no_leaf:
  assumes "leaves_ok s" and "takes s s' B" shows "B \<inter> leaves s' = {}"
  using assms by (auto simp: takes_def leaves_ok_def free_eq)

lemma clear_bits:
  assumes "pfa_ok d s" and "{f..<f + n} \<subseteq> used_frames s" and "{f..<f + n} \<inter> leaves s = {}"
    and "\<forall>g\<in>{f..<f + n}. frame_is_usable s g \<and> g \<noteq> 0"
  defines "s' \<equiv> foldl (\<lambda>s i. clear_bit s (f + i)) s [0..<n]"
  shows "pfa_ok (d - int n) s' \<and> used_frames s' = used_frames s - {f..<f + n} \<and> fixed s' = fixed s \<and> leaves s' = leaves s"
  unfolding s'_def using assms(2-4)
proof (induction n)
  case 0
  with assms(1) show ?case by simp
next
  case (Suc n)
  let ?t = "foldl (\<lambda>s i. clear_bit s (f + i)) s [0..<n]"
  have sub: "{f..<f + n} \<subseteq> {f..<f + Suc n}" "f + n \<in> {f..<f + Suc n}" by auto
  have ih: "pfa_ok (d - int n) ?t \<and> used_frames ?t = used_frames s - {f..<f + n} \<and> fixed ?t = fixed s \<and> leaves ?t = leaves s"
    using Suc.IH Suc.prems sub(1) by blast
  have "f + n \<notin> leaves s" "f + n \<in> used_frames s" "f + n \<noteq> 0" using Suc.prems sub(2) by blast+
  then have u: "f + n \<in> used_frames ?t" "f + n \<notin> leaves ?t" "f + n \<noteq> 0" using ih by auto
  have us: "frame_is_usable ?t (f + n)" using Suc.prems(3) sub(2) fixed_usable(1) [of ?t s] ih by metis
  have "pfa_ok (d - int n - 1) (clear_bit ?t (f + n))"
    using ok_clear(1) [of "d - int n" ?t "f + n"] ih u us by simp
  moreover have "used_frames (clear_bit ?t (f + n)) = used_frames s - {f..<f + Suc n}"
    using ok_clear(2) [of "d - int n" ?t "f + n"] ih u by auto
  ultimately show ?case using ih by (simp add: algebra_simps)
qed

lemma give_back:
  assumes ok: "pfa_ok 0 s" and al: "allocates s lo hi num (r, s1)" and r: "r \<noteq> 0"
  defines "s2 \<equiv> free_count_add num (foldl (\<lambda>s i. clear_bit s (r div PAGE_SIZE + i)) s1 [0..<num])"
  shows "pfa_ok 0 s2" and "takes s s2 {}"
proof -
  let ?f = "r div PAGE_SIZE" let ?B = "{?f..<?f + num}"
  let ?t = "foldl (\<lambda>s i. clear_bit s (?f + i)) s1 [0..<num]"
  have 1: "pfa_ok 0 s1" "takes s s1 ?B" using al r by (auto simp: allocates_def block_def)
  have B: "?B \<subseteq> free_frames s" "?B \<subseteq> used_frames s1" "fixed s1 = fixed s" using 1(2) by (auto simp: takes_def)
  have nl: "?B \<inter> leaves s1 = {}" using takes_block_no_leaf [OF _ 1(2)] ok by (simp add: pfa_ok_def)
  have us: "\<forall>g\<in>?B. frame_is_usable s1 g \<and> g \<noteq> 0"
  proof
    fix g assume "g \<in> ?B"
    then have "g \<in> free_frames s" using B(1) by blast
    then show "frame_is_usable s1 g \<and> g \<noteq> 0" using ok fixed_usable(1) [OF B(3)] by (metis free_frames_def mem_Collect_eq pfa_ok_def)
  qed
  note c = clear_bits [OF 1(1) B(2) nl us]
  have s2: "fixed s2 = fixed ?t" "bitmap_part s2 = bitmap_part ?t" "pfa_cached_free s2 = pfa_cached_free ?t - of_int (- int num)"
    unfolding s2_def free_count_add_def by (simp_all add: fixed_def bitmap_part_def)
  show "pfa_ok 0 s2" using ok_same [OF _ s2, of "0 - int num"] c by simp
  have "takes s ?t {}" using 1(2) B nl c unfolding takes_def by (auto simp: free_eq)
  then show "takes s s2 {}" by (rule takes_same [OF _ s2(1,2)])
qed

lemma allocates_after:
  assumes "takes s s1 {}" and "allocates s1 a b num rs" and "lo \<le> a" and "b \<le> hi"
  shows "allocates s lo hi num rs"
  using assms takes_trans [OF assms(1)] by (auto simp: allocates_def)

lemma allocates_same:
  assumes "allocates s a b num (r, s1)" and "fixed s2 = fixed s1" and "bitmap_part s2 = bitmap_part s1"
    and "pfa_cached_free s2 = pfa_cached_free s1"
  shows "allocates s a b num (r, s2)"
  using assms ok_same [of 0 s1 s2 0] takes_same [OF _ assms(2,3)] by (auto simp: allocates_def)

lemma direct_loop:
  assumes "pfa_ok 0 s" and "finish \<le> bitmap_entries_used s"
  shows "allocates s start finish num (direct_loop n s start finish num)"
  using assms
proof (induction n s start finish num rule: direct_loop.induct)
  case (1 s start finish num)
  then show ?case using allocates_none by simp
next
  case (2 n s start finish num)
  show ?case
  proof (cases "start < finish")
    case False
    then show ?thesis using allocates_none [OF "2.prems"(1)] by simp
  next
    case True
    obtain r s1 where f: "find_free_frames_range s start finish num = (r, s1)" by force
    have a: "allocates s start finish num (r, s1)" using find_range [OF "2.prems"] f by metis
    show ?thesis
    proof (cases "r = 0 \<or> direct_prefix s1 r num = num")
      case yes: True
      then show ?thesis using a True f by auto
    next
      case no: False
      let ?s2 = "free_count_add num (foldl (\<lambda>s i. clear_bit s (r div PAGE_SIZE + i)) s1 [0..<num])"
      have g: "pfa_ok 0 ?s2" "takes s ?s2 {}" using give_back [OF "2.prems"(1) a] no by simp_all
      have le: "start \<le> r div PAGE_SIZE + direct_prefix s1 r num + 1" using a no by (simp add: allocates_def)
      have en: "finish \<le> bitmap_entries_used ?s2" using g(2) "2.prems"(2) by (simp add: takes_def fixed_def)
      have "allocates ?s2 (r div PAGE_SIZE + direct_prefix s1 r num + 1) finish num
          (direct_loop n ?s2 (r div PAGE_SIZE + direct_prefix s1 r num + 1) finish num)"
        using "2.IH" [OF True f [symmetric]] no g(1) en by simp
      then show ?thesis using allocates_after [OF g(2) _ le] no True f by simp
    qed
  qed
qed

lemma find_direct_frames:
  assumes "pfa_ok 0 s"
  shows "allocates s (kernel_reserved_frames s) (min end0 DIRECT_FRAMES) num (find_direct_frames s end0 num)"
proof -
  let ?e = "min (min end0 DIRECT_FRAMES) (total_pages_managed s)"
  have sh: "?e \<le> bitmap_entries_used s" using assms by (auto simp: pfa_ok_def pfa_shape_def)
  obtain r s1 where l: "direct_loop (?e - kernel_reserved_frames s + 1) s (kernel_reserved_frames s) ?e num = (r, s1)" by force
  have fin: "(if (if end0 > DIRECT_FRAMES then DIRECT_FRAMES else end0) > total_pages_managed s then total_pages_managed s
     else (if end0 > DIRECT_FRAMES then DIRECT_FRAMES else end0)) = ?e" by (simp add: min_def)
  have e: "find_direct_frames s end0 num = (r, s1\<lparr>last_alloc_hint := last_alloc_hint s\<rparr>)"
    unfolding find_direct_frames_def Let_def fin l by simp
  have "allocates s (kernel_reserved_frames s) ?e num (r, s1)" using direct_loop [OF assms sh] l by metis
  then have "allocates s (kernel_reserved_frames s) ?e num (find_direct_frames s end0 num)"
    unfolding e by (rule allocates_same) (simp_all add: fixed_def bitmap_part_def)
  then show ?thesis by (auto simp: allocates_def)
qed


lemma mapped_loop:
  assumes "pfa_ok 0 s" and "finish \<le> bitmap_entries_used s"
  shows "allocates s 0 (bitmap_entries_used s) 1 (mapped_loop n s start finish cold)"
  using assms
proof (induction n s start finish cold rule: mapped_loop.induct)
  case (1 s start finish cold)
  then show ?case using allocates_none by simp
next
  case (2 n s start finish cold)
  obtain r s1 where f: "find_free_frames_range s start finish 1 = (r, s1)" by force
  have a: "allocates s start finish 1 (r, s1)" using find_range [OF "2.prems"] f by metis
  then have a': "allocates s 0 (bitmap_entries_used s) 1 (r, s1)" using "2.prems"(2) by (auto simp: allocates_def)
  have s1: "pfa_ok 0 s1" "fixed s1 = fixed s" using a by (auto simp: allocates_def takes_def)
  show ?case
  proof (cases "r = 0")
    case z: True
    then have t: "takes s s1 {}" using a by (simp add: allocates_def)
    show ?thesis
    proof (cases cold)
      case True
      then show ?thesis using a' z f by simp
    next
      case False
      have en: "bitmap_entries_used s1 = bitmap_entries_used s" using s1(2) by (simp add: fixed_def)
      have "cold_low_end_frame s1 \<le> bitmap_entries_used s1 \<or> cold_low_end_frame s1 \<le> cold_low_start_frame s1"
        using s1(1) by (auto simp: pfa_ok_def pfa_shape_def)
      then have "allocates s1 0 (bitmap_entries_used s1) 1 (mapped_loop n s1 (cold_low_start_frame s1) (cold_low_end_frame s1) True)"
      proof
        assume "cold_low_end_frame s1 \<le> bitmap_entries_used s1"
        then show ?thesis using "2.IH"(1) [OF f [symmetric] z False s1(1)] by simp
      next
        assume "cold_low_end_frame s1 \<le> cold_low_start_frame s1"
        then have "find_free_frames_range s1 (cold_low_start_frame s1) (cold_low_end_frame s1) 1 = (0, s1)"
          by (simp add: find_free_frames_range_def)
        then have "mapped_loop n s1 (cold_low_start_frame s1) (cold_low_end_frame s1) True = (0, s1)"
          by (cases n) simp_all
        then show ?thesis using allocates_none [OF s1(1)] by simp
      qed
      then show ?thesis using allocates_after [OF t, of 0 "bitmap_entries_used s1" 1 _ 0] z False f en by simp
    qed
  next
    case nz: False
    show ?thesis
    proof (cases "pt_direct_map_ok (pf_tables s1) r")
      case True
      then show ?thesis using a' nz f by simp
    next
      case False
      let ?s2 = "free_count_add 1 (clear_bit s1 (r div PAGE_SIZE))"
      have g: "pfa_ok 0 ?s2" "takes s ?s2 {}" using give_back [OF "2.prems"(1) a nz] by simp_all
      have en: "bitmap_entries_used ?s2 = bitmap_entries_used s" using g(2) by (simp add: takes_def fixed_def)
      have "allocates ?s2 0 (bitmap_entries_used ?s2) 1 (mapped_loop n ?s2 (r div PAGE_SIZE + 1) finish cold)"
        using "2.IH"(2) [OF f [symmetric] nz False g(1)] "2.prems"(2) en by simp
      then show ?thesis using allocates_after [OF g(2), of 0 "bitmap_entries_used ?s2" 1 _ 0] nz False f en by simp
    qed
  qed
qed

lemma pmm_alloc_mapped_page:
  assumes "pfa_ok 0 s"
  shows "allocates s 0 (bitmap_entries_used s) 1 (pmm_alloc_mapped_page s)"
proof -
  let ?e = "if DIRECT_FRAMES > total_pages_managed s then total_pages_managed s else DIRECT_FRAMES"
  obtain r s1 where l: "mapped_loop (?e + cold_low_end_frame s + 3) s (kernel_reserved_frames s) ?e False = (r, s1)" by force
  have "?e \<le> bitmap_entries_used s" using assms by (auto simp: pfa_ok_def pfa_shape_def)
  from mapped_loop [OF assms this] l have "allocates s 0 (bitmap_entries_used s) 1 (r, s1)" by metis
  moreover have "pmm_alloc_mapped_page s = (r, s1\<lparr>last_alloc_hint := last_alloc_hint s\<rparr>)"
    unfolding pmm_alloc_mapped_page_def Let_def l by simp
  ultimately show ?thesis by (simp only:) (erule allocates_same; simp add: fixed_def bitmap_part_def)
qed


lemma page_scan:
  assumes "pfa_ok 0 s"
  shows "allocates s 0 (bitmap_entries_used s) 1 (page_scan s is)"
  using assms
proof (induction "is" arbitrary: s)
  case Nil
  then show ?case using allocates_none by simp
next
  case (Cons i "is")
  obtain b l where bl: "pf_map s ! i = (b, l)" by force
  let ?re = "w64 (b + l)" and ?nb = "if i + 1 < length (pf_map s) then fst (pf_map s ! (i + 1)) else 0"
  let ?b1 = "align_up (if bump_current s < b then w64 (b + 0x1000) else bump_current s)"
  let ?t = "s\<lparr>bump_current := ?b1, active_region := i\<rparr>"
  have upd: "pfa_ok 0 (x\<lparr>bump_current := y\<rparr>)" "takes x (x\<lparr>bump_current := y\<rparr>) {}" "bitmap_entries_used (x\<lparr>bump_current := y\<rparr>) = bitmap_entries_used x"
    if "pfa_ok 0 x" for x y
    using ok_same [OF that, of "x\<lparr>bump_current := y\<rparr>" 0] takes_same [of x x "{}" "x\<lparr>bump_current := y\<rparr>"]
    by (simp_all add: fixed_def bitmap_part_def takes_def)
  have tt: "pfa_ok 0 ?t" "takes s ?t {}" "bitmap_entries_used ?t = bitmap_entries_used s" "total_pages_managed ?t = total_pages_managed s"
    using ok_same [OF Cons.prems, of ?t 0] takes_same [of s s "{}" ?t]
    by (simp_all add: fixed_def bitmap_part_def takes_def)
  show ?case
  proof (cases "w64 (?b1 + 4096) \<le> ?re")
    case True
    let ?se = "min (?re div PAGE_SIZE) (total_pages_managed s)"
    obtain r s1 where f: "find_free_frames_range ?t (?b1 div PAGE_SIZE) ?se 1 = (r, s1)" by force
    have "?se \<le> bitmap_entries_used ?t" using Cons.prems tt(3) by (auto simp: pfa_ok_def pfa_shape_def)
    from find_range [OF tt(1) this] f have "allocates ?t (?b1 div PAGE_SIZE) ?se 1 (r, s1)" by metis
    from allocates_after [OF tt(2) this, of 0 "bitmap_entries_used s"] \<open>?se \<le> bitmap_entries_used ?t\<close> tt(3)
    have a: "allocates s 0 (bitmap_entries_used s) 1 (r, s1)" by simp
    show ?thesis
    proof (cases "r = 0")
      case False
      then have "page_scan s (i # is) = (r, s1\<lparr>bump_current := w64 (r + PAGE_SIZE)\<rparr>)"
        using True f bl by (simp add: Let_def)
      then show ?thesis using allocates_same [OF a] by (simp add: fixed_def bitmap_part_def)
    next
      case z: True
      then have e: "page_scan s (i # is) = page_scan (s1\<lparr>bump_current := ?nb\<rparr>) is"
        using True f bl by (simp add: Let_def)
      have s1: "pfa_ok 0 s1" "takes s s1 {}" "bitmap_entries_used s1 = bitmap_entries_used s"
        using a z by (auto simp: allocates_def takes_def fixed_def)
      note u = upd [OF s1(1)]
      have "allocates (s1\<lparr>bump_current := ?nb\<rparr>) 0 (bitmap_entries_used (s1\<lparr>bump_current := ?nb\<rparr>)) 1 (page_scan (s1\<lparr>bump_current := ?nb\<rparr>) is)"
        by (rule Cons.IH [OF u(1)])
      from allocates_after [OF takes_trans [OF s1(2) u(2), simplified] this, of 0 "bitmap_entries_used s"]
      show ?thesis unfolding e by (simp add: u(3) s1(3))
    qed
  next
    case False
    then have e: "page_scan s (i # is) = page_scan (s\<lparr>bump_current := ?nb\<rparr>) is" using bl by (simp add: Let_def)
    note u = upd [OF Cons.prems]
    have "allocates (s\<lparr>bump_current := ?nb\<rparr>) 0 (bitmap_entries_used (s\<lparr>bump_current := ?nb\<rparr>)) 1 (page_scan (s\<lparr>bump_current := ?nb\<rparr>) is)"
      by (rule Cons.IH [OF u(1)])
    from allocates_after [OF u(2) this, of 0 "bitmap_entries_used s"] show ?thesis unfolding e by (simp add: u(3))
  qed
qed


subsection \<open>Low pages\<close>

definition aligned_map :: "pfa \<Rightarrow> bool" where
  "aligned_map s \<longleftrightarrow> (\<forall>r\<in>set (pf_map s). fst r mod PAGE_SIZE = 0)"

lemma next_region_start_base:
  assumes "next_region_start s a \<noteq> 0" shows "next_region_start s a \<in> fst ` set (pf_map s)"
proof -
  have "foldl (\<lambda>m (b, l). if b > a \<and> b < L then (if m = 0 \<or> b < m then b else m) else m) n rs \<in> {n} \<union> fst ` set rs"
    for n L and rs :: "(nat \<times> nat) list"
    by (induction rs arbitrary: n) (auto split: if_splits, force+)
  from this [of "low_page_limit s" 0 "pf_map s"] assms show ?thesis by (simp add: next_region_start_def)
qed

lemma low_search:
  assumes "low_search s a b = (Some p, b')" and "a mod PAGE_SIZE = 0" and "aligned_map s"
  shows "p mod PAGE_SIZE = 0 \<and> p div PAGE_SIZE < total_pages_managed s \<and> \<not> test_bit s (p div PAGE_SIZE)"
  using assms
proof (induction s a b rule: low_search.induct)
  case (1 s a b)
  have n: "next_region_start s a \<noteq> 0 \<Longrightarrow> next_region_start s a mod PAGE_SIZE = 0"
    using next_region_start_base [of s a] "1.prems"(3) by (auto simp: aligned_map_def)
  show ?case using 1 n by (subst (asm) (3) low_search.simps) (auto split: if_splits)
qed

lemma ok_mem_zero:
  assumes ok: "pfa_ok d s" and L: "L \<notin> leaves s"
  shows "pfa_ok d (mem_zero (L * PAGE_SIZE) PAGE_SIZE s)" "takes s (mem_zero (L * PAGE_SIZE) PAGE_SIZE s) {}"
proof -
  let ?t = "mem_zero (L * PAGE_SIZE) PAGE_SIZE s"
  have u: "used_frames ?t = used_frames s" using used_mem_zero [OF _ L] ok by (simp add: pfa_ok_def)
  have fx: "fixed ?t = fixed s" by simp
  have fr: "free_frames ?t = free_frames s" unfolding free_change [OF fx] u free_eq [of s] by (rule refl)
  show "pfa_ok d ?t" using ok
    by (simp add: pfa_ok_def leaves_ok_def u fr count_ok_def fixed_usable [OF fx] fixedD(7) [OF fx])
  show "takes s ?t {}" by (simp add: takes_def u)
qed

lemma pmm_alloc_low_page:
  assumes ok: "pfa_ok 0 s" and al: "aligned_map s"
  shows "allocates s 0 (bitmap_entries_used s) 1 (pmm_alloc_low_page ready s)"
proof (cases "pf_map s = [] \<or> low_bump s = 0 \<or> low_exhausted s")
  case True
  then show ?thesis using allocates_none [OF ok] by (auto simp: pmm_alloc_low_page_def)
next
  case go: False
  have upd: "pfa_ok 0 x \<Longrightarrow> pfa_ok 0 (x\<lparr>low_bump := y\<rparr>)" "pfa_ok 0 x \<Longrightarrow> pfa_ok 0 (x\<lparr>low_bump := y, low_exhausted := z\<rparr>)" for x y z
    using ok_same [of 0 x "x\<lparr>low_bump := y\<rparr>" 0] ok_same [of 0 x "x\<lparr>low_bump := y, low_exhausted := z\<rparr>" 0]
    by (simp_all add: fixed_def bitmap_part_def)
  have sm: "fixed (x\<lparr>low_bump := y\<rparr>) = fixed x" "bitmap_part (x\<lparr>low_bump := y\<rparr>) = bitmap_part x" for x y
    by (simp_all add: fixed_def bitmap_part_def)
  obtain res bump where ls: "low_search s (align_up (low_bump s)) (low_bump s) = (res, bump)" by force
  show ?thesis
  proof (cases res)
    case None
    then have "pmm_alloc_low_page ready s = (0, s\<lparr>low_bump := bump, low_exhausted := True\<rparr>)"
      using go ls by (simp add: pmm_alloc_low_page_def)
    then show ?thesis using allocates_same [OF allocates_none [OF ok]] by (simp add: fixed_def bitmap_part_def)
  next
    case (Some p)
    let ?f = "p div PAGE_SIZE"
    have "align_up (low_bump s) mod PAGE_SIZE = 0" by (simp add: align_up_def)
    then have p: "p mod PAGE_SIZE = 0" "?f < total_pages_managed s" "\<not> test_bit s ?f"
      using low_search [OF ls [unfolded Some]] al by auto
    then have fr: "?f \<in> free_frames s" by (simp add: test_bit_free)
    then have f0: "?f \<noteq> 0" using ok by (metis pfa_ok_def)
    let ?t = "s\<lparr>low_bump := bump\<rparr>"
    have t: "pfa_ok 0 ?t" by (rule upd(1) [OF ok])
    note st = same_bitmap [OF sm [of bump s]]
    have fe: "?f + 1 \<le> bitmap_entries_used ?t" using free_in_range [OF fr] by simp
    obtain r s1 where pr: "bitmap_prepare_range ?t ?f 1 = (r, s1)" by force
    have small: "?f < 2 ^ 40" using free_in_range [OF fr] ok by (simp add: pfa_ok_def pfa_shape_def)
    then have pf: "prepare_from ?t ?f (?f + 1) ?f = (r, s1)" using pr by (simp add: bitmap_prepare_range_def)
    have P: "pfa_ok 0 s1" "grows ?t s1" "(leaves s1 - leaves ?t) \<inter> {?f..<?f + 1} = {}" "r = 0 \<Longrightarrow> has_leaf s1 ?f"
      using prepare_from [OF t _ _ pf fe] by auto
    have g: "takes s s1 {}" using grows_takes [OF P(2)] unfolding takes_def by (simp add: st sm)
    show ?thesis
    proof (cases "r = 0")
      case False
      then have "pmm_alloc_low_page ready s = (0, s1)" using go ls Some pr by (simp add: pmm_alloc_low_page_def)
      then show ?thesis using P(1) g by (simp add: allocates_def)
    next
      case True
      let ?u = "s1\<lparr>low_bump := p + PAGE_SIZE\<rparr>"
      note su = same_bitmap [OF sm [of "p + PAGE_SIZE" s1]]
      have u: "pfa_ok 0 ?u" by (rule upd(1) [OF P(1)])
      have "?f \<in> free_frames s1" using grows_free [OF P(2)] P(3) fr by (auto simp: st)
      then have hl: "\<forall>j<1. has_leaf ?u (?f + j)" "\<forall>j<1. ?f + j \<in> free_frames ?u" using P(4) [OF True] by (simp_all add: su)
      let ?v = "set_bit ?u ?f" let ?w = "?v\<lparr>pfa_cached_free := pfa_cached_free ?v - 1\<rparr>"
      have v: "pfa_ok 1 ?v" "used_frames ?v = used_frames s1 \<union> {?f..<?f + 1}" "fixed ?v = fixed s1" "leaves ?v = leaves s1"
        using set_bits [OF u hl] by (simp_all add: su sm)
      have w: "pfa_ok 0 ?w" using ok_same [OF v(1), of ?w 1] by (simp add: fixed_def bitmap_part_def)
      have wv: "fixed ?w = fixed ?v" "bitmap_part ?w = bitmap_part ?v" by (simp_all add: fixed_def bitmap_part_def)
      have tv: "takes s ?v {?f..<?f + 1}" using g v fr P(3) unfolding takes_def by (auto simp: st)
      then have tw: "takes s ?w {?f..<?f + 1}" by (rule takes_same [OF _ wv])
      then have nl: "?f \<notin> leaves ?w" using takes_block_no_leaf [OF _ tw] ok by (auto simp: pfa_ok_def)
      have z: "pmm_zero_page_phys ready ?w p = mem_zero (?f * PAGE_SIZE) PAGE_SIZE ?w \<or> pmm_zero_page_phys ready ?w p = ?w"
        using p(1) by (auto simp: pmm_zero_page_phys_def align_down_def)
      have fin: "pfa_ok 0 (pmm_zero_page_phys ready ?w p)" "takes s (pmm_zero_page_phys ready ?w p) {?f..<?f + 1}"
        using z ok_mem_zero [OF w nl] w tw takes_trans [OF tw ok_mem_zero(2) [OF w nl]] by auto
      have "pmm_alloc_low_page ready s = (p, pmm_zero_page_phys ready ?w p)"
        using go ls Some pr True by (simp add: pmm_alloc_low_page_def Let_def)
      then show ?thesis using fin p f0 fe by (auto simp: allocates_def block_def)
    qed
  qed
qed



text \<open>The bounds on the rounds of the two loops are enough: a larger bound changes nothing.\<close>

lemma direct_loop_rounds:
  assumes "pfa_ok 0 s" and "finish \<le> bitmap_entries_used s" and "finish - start < n" and "finish - start < m"
  shows "direct_loop n s start finish num = direct_loop m s start finish num"
  using assms
proof (induction n s start finish num arbitrary: m rule: direct_loop.induct)
  case (2 n s start finish num)
  obtain k where m: "m = Suc k" using "2.prems"(4) by (cases m) auto
  obtain r s1 where f: "find_free_frames_range s start finish num = (r, s1)" by force
  have a: "allocates s start finish num (r, s1)" using find_range [OF "2.prems"(1,2)] f by metis
  show ?case
  proof (cases "start < finish \<and> r \<noteq> 0 \<and> direct_prefix s1 r num \<noteq> num")
    case False
    then show ?thesis using f m by auto
  next
    case True
    let ?s2 = "free_count_add num (foldl (\<lambda>s i. clear_bit s (r div PAGE_SIZE + i)) s1 [0..<num])"
    let ?st = "r div PAGE_SIZE + direct_prefix s1 r num + 1"
    have g: "pfa_ok 0 ?s2" "takes s ?s2 {}" using give_back [OF "2.prems"(1) a] True by simp_all
    have en: "finish \<le> bitmap_entries_used ?s2" using g(2) "2.prems"(2) by (simp add: takes_def fixed_def)
    have c: "start < finish" "\<not> r = 0" "\<not> direct_prefix s1 r num = num" using True by auto
    have "start < ?st" using a True by (simp add: allocates_def)
    then have "finish - ?st < n" "finish - ?st < k" using True "2.prems"(3,4) m by linarith+
    then have "direct_loop n ?s2 ?st finish num = direct_loop k ?s2 ?st finish num"
      by (intro "2.IH" [OF c(1) f [symmetric] c(2,3) g(1) en])
    then show ?thesis using True f m by simp
  qed
qed simp

definition mapped_rounds :: "pfa \<Rightarrow> nat \<Rightarrow> nat \<Rightarrow> bool \<Rightarrow> nat" where
  "mapped_rounds s start finish cold =
     (finish - start) + (if cold then 0 else cold_low_end_frame s - cold_low_start_frame s + 1)"

lemma mapped_loop_rounds:
  assumes "pfa_ok 0 s" and "finish \<le> bitmap_entries_used s \<or> finish \<le> start" and "mapped_rounds s start finish cold < n"
    and "mapped_rounds s start finish cold < m"
  shows "mapped_loop n s start finish cold = mapped_loop m s start finish cold"
  using assms
proof (induction n s start finish cold arbitrary: m rule: mapped_loop.induct)
  case (2 n s start finish cold)
  obtain k where m: "m = Suc k" using "2.prems"(4) by (cases m) auto
  obtain r s1 where f: "find_free_frames_range s start finish 1 = (r, s1)" by force
  have a: "allocates s start finish 1 (r, s1)"
  proof (cases "finish \<le> start")
    case True
    then show ?thesis using f allocates_none [OF "2.prems"(1)] by (auto simp: find_free_frames_range_def)
  next
    case False
    then show ?thesis using find_range [OF "2.prems"(1)] "2.prems"(2) f by metis
  qed
  then have s1: "pfa_ok 0 s1" "fixed s1 = fixed s" by (auto simp: allocates_def takes_def)
  note fx = fixedD [OF s1(2)]
  consider "r = 0" "cold \<or> \<not> cold" | "r \<noteq> 0" "pt_direct_map_ok (pf_tables s1) r" | "r \<noteq> 0" "\<not> pt_direct_map_ok (pf_tables s1) r"
    by blast
  then show ?case
  proof cases
    case 1
    show ?thesis
    proof (cases cold)
      case True
      then show ?thesis using 1 f m by simp
    next
      case False
      let ?a = "cold_low_start_frame s1" and ?b = "cold_low_end_frame s1"
      have b: "?b \<le> bitmap_entries_used s1 \<or> ?b \<le> ?a" using s1(1) by (auto simp: pfa_ok_def pfa_shape_def)
      have "mapped_rounds s1 ?a ?b True < n" "mapped_rounds s1 ?a ?b True < k"
        using "2.prems"(3,4) m False by (auto simp: mapped_rounds_def fx)
      then have "mapped_loop n s1 ?a ?b True = mapped_loop k s1 ?a ?b True"
        using "2.IH"(1) [OF f [symmetric] 1(1) False s1(1) b] by blast
      then show ?thesis using 1 False f m by simp
    qed
  next
    case 2
    then show ?thesis using f m by simp
  next
    case 3
    let ?s2 = "free_count_add 1 (clear_bit s1 (r div PAGE_SIZE))"
    have g: "pfa_ok 0 ?s2" "takes s ?s2 {}" using give_back [OF "2.prems"(1) a 3(1)] by simp_all
    then have fx2: "fixed ?s2 = fixed s" by (simp add: takes_def)
    have r: "start \<le> r div PAGE_SIZE" "r div PAGE_SIZE + 1 \<le> finish" using a 3 by (auto simp: allocates_def)
    have "mapped_rounds ?s2 (r div PAGE_SIZE + 1) finish cold < mapped_rounds s start finish cold"
      unfolding mapped_rounds_def fixedD(8,9) [OF fx2] using r by auto
    then have "mapped_rounds ?s2 (r div PAGE_SIZE + 1) finish cold < n" "mapped_rounds ?s2 (r div PAGE_SIZE + 1) finish cold < k"
      using "2.prems"(3,4) m by simp_all
    moreover have "finish \<le> bitmap_entries_used ?s2 \<or> finish \<le> r div PAGE_SIZE + 1"
      using "2.prems"(2) r fixedD(6) [OF fx2] by auto
    ultimately have "mapped_loop n ?s2 (r div PAGE_SIZE + 1) finish cold = mapped_loop k ?s2 (r div PAGE_SIZE + 1) finish cold"
      using "2.IH"(2) [OF f [symmetric] 3 g(1)] by blast
    then show ?thesis using 3 f m by simp
  qed
qed simp

lemma mapped_page_rounds:
  shows "mapped_rounds s start finish False < finish + cold_low_end_frame s + 3"
  by (simp add: mapped_rounds_def)

end
