(* ===== verification/Pfa_Release.thy ===== *)
theory Pfa_Release
  imports Pfa_Alloc
begin

text \<open>
  Releasing frames: pfa\_free, pfa\_free\_contiguous, the copy-on-write release that goes
  through the reference counts, and the memory released after start-up.
\<close>

unbundle bit_operations_syntax

subsection \<open>Giving frames back\<close>

text \<open>
  What a release may do: clear bits of frames outside the bitmap. The reference counts may
  change, the number of managed pages not.
\<close>

definition releases_frames :: "pfa \<Rightarrow> pfa \<Rightarrow> nat set \<Rightarrow> bool" where
  "releases_frames s s' R \<longleftrightarrow> fixed s' = fixed s \<and> leaves s' = leaves s \<and> used_frames s' = used_frames s - R"

lemma releases_none [simp]: "releases_frames s s {}"
  by (simp add: releases_frames_def)

lemma releases_same:
  assumes "releases_frames s s' R" and "fixed s'' = fixed s'" and "bitmap_part s'' = bitmap_part s'"
  shows "releases_frames s s'' R"
  using assms(1) unfolding releases_frames_def by (simp add: same_bitmap [OF assms(2,3)] assms(2))

lemma refht_release_total:
  assumes "refht_release h pa cow = (r, f, h')" shows "ht_total h' = ht_total h \<and> ht_entries h' = ht_entries h"
proof (cases "ht_buckets h")
  case None
  with assms show ?thesis by (auto simp: refht_release_def Let_def split: if_splits)
next
  case (Some bs)
  let ?p = "pa div 4096"
  obtain a b where l: "refht_link ?p (bs ! refht_bucket (ht_bits h) ?p) = (a, b)" by force
  show ?thesis using assms Some l
    by (cases b) (auto simp: refht_release_def refht_drop_def defer_node_def set_chain_def Let_def split: if_splits)
qed

text \<open>
  Which addresses pfa\_free accepts, and the count that the page keeps.
\<close>

definition freeable :: "pfa \<Rightarrow> nat \<Rightarrow> bool" where
  "freeable s pa \<longleftrightarrow> pa mod PAGE_SIZE = 0 \<and> pa div PAGE_SIZE < total_pages_managed s \<and>
     (kernel_reserved_frames s \<le> pa div PAGE_SIZE \<or>
      cold_low_start_frame s \<le> pa div PAGE_SIZE \<and> pa div PAGE_SIZE < cold_low_end_frame s \<or>
      kernel_reclaim_lo s \<le> pa div PAGE_SIZE \<and> pa div PAGE_SIZE < kernel_reclaim_hi s) \<and>
     frame_is_usable s (pa div PAGE_SIZE) \<and> \<not> frame_is_reserved s (pa div PAGE_SIZE)"

definition drop_reference :: "pfa \<Rightarrow> nat \<Rightarrow> u64 \<times> pfa" where
  "drop_reference s pa =
     (if pa div PAGE_SIZE < ht_entries (pf_refs s)
      then (case refht_release (pf_refs s) (of_nat pa) False of (r, f, h) \<Rightarrow> (r, s\<lparr>pf_refs := h\<rparr>))
      else (0, s))"

lemma pfa_free_cases:
  "pfa_free s pa =
     (if \<not> freeable s pa then s
      else (case drop_reference s pa of (n, s1) \<Rightarrow>
              if n > 0 \<or> \<not> test_bit s1 (pa div PAGE_SIZE) then s1
              else (let s2 = clear_bit s1 (pa div PAGE_SIZE);
                        s3 = (if pa div PAGE_SIZE < last_alloc_hint s2 then s2\<lparr>last_alloc_hint := pa div PAGE_SIZE\<rparr> else s2)
                    in free_count_add 1 s3)))"
proof (cases "freeable s pa")
  case True
  let ?i = "pa div PAGE_SIZE"
  have g: "\<not> pa mod PAGE_SIZE \<noteq> 0" "\<not> ?i \<ge> total_pages_managed s"
    "\<not> (?i < kernel_reserved_frames s \<and> (?i < cold_low_start_frame s \<or> ?i \<ge> cold_low_end_frame s) \<and>
        (?i < kernel_reclaim_lo s \<or> ?i \<ge> kernel_reclaim_hi s))"
    "\<not> (\<not> frame_is_usable s ?i \<or> frame_is_reserved s ?i)"
    using True unfolding freeable_def by linarith+
  show ?thesis
    unfolding pfa_free_def Let_def if_not_P [OF g(1)] if_not_P [OF g(2)] if_not_P [OF g(3)] if_not_P [OF g(4)]
      drop_reference_def [symmetric]
    using True by (simp split: prod.split)
next
  case False
  then show ?thesis by (auto simp: pfa_free_def freeable_def Let_def)
qed

lemma refs_same [simp]:
  "ht_total h = ht_total (pf_refs s) \<Longrightarrow> fixed (s\<lparr>pf_refs := h\<rparr>) = fixed s"
  "bitmap_part (s\<lparr>pf_refs := h\<rparr>) = bitmap_part s"
  by (simp_all add: fixed_def bitmap_part_def)

lemma drop_reference_same:
  assumes "drop_reference s pa = (n, s1)"
  shows "fixed s1 = fixed s" "bitmap_part s1 = bitmap_part s" "pfa_cached_free s1 = pfa_cached_free s"
    "last_alloc_hint s1 = last_alloc_hint s"
  using assms refht_release_total by (auto simp: drop_reference_def split: if_splits prod.splits)

lemma pfa_free_effect:
  assumes ok: "pfa_ok 0 s" and nl: "pa div PAGE_SIZE \<notin> leaves s"
  shows "pfa_ok 0 (pfa_free s pa)"
    and "releases_frames s (pfa_free s pa) (if freeable s pa \<and> fst (drop_reference s pa) = 0 then {pa div PAGE_SIZE} else {})"
proof -
  let ?i = "pa div PAGE_SIZE"
  obtain n s1 where d: "drop_reference s pa = (n, s1)" by force
  note ds = drop_reference_same [OF d]
  note b = same_bitmap [OF ds(1,2)]
  have ok1: "pfa_ok 0 s1" using ok_same [OF ok ds(1,2), of 0] ds(3) by simp
  have r1: "releases_frames s s1 {}" using releases_same [OF releases_none ds(1,2)] .
  have "pfa_ok 0 (pfa_free s pa) \<and>
    releases_frames s (pfa_free s pa) (if freeable s pa \<and> fst (drop_reference s pa) = 0 then {?i} else {})"
  proof (cases "freeable s pa \<and> n = 0")
    case False
    then have "pfa_free s pa = s \<or> pfa_free s pa = s1 " unfolding pfa_free_cases using d word_gt_0 [of n] by auto
    then show ?thesis using False d ok ok1 r1 by auto
  next
    case True
    then have us: "frame_is_usable s1 ?i" "?i < bitmap_entries_used s1" "?i \<noteq> 0"
      using ok fixed_usable [OF ds(1)] fixedD [OF ds(1)] by (auto simp: freeable_def pfa_ok_def pfa_shape_def)
    show ?thesis
    proof (cases "bitmap_test_raw s1 ?i")
      case raw: False
      then have "pfa_free s pa = s1" unfolding pfa_free_cases using d us True by (simp add: test_bit_def)
      moreover have "used_frames s1 - {?i} = used_frames s1" using raw by (simp add: used_frames_def)
      ultimately show ?thesis using True d ok1 r1 by (simp add: releases_frames_def)
    next
      case raw: True
      let ?s2 = "clear_bit s1 ?i" let ?s3 = "if ?i < last_alloc_hint ?s2 then ?s2\<lparr>last_alloc_hint := ?i\<rparr> else ?s2"
      have e: "pfa_free s pa = free_count_add 1 ?s3"
        unfolding pfa_free_cases using d True raw us by (simp add: test_bit_def Let_def)
      have s4: "fixed (pfa_free s pa) = fixed ?s2" "bitmap_part (pfa_free s pa) = bitmap_part ?s2"
        "pfa_cached_free (pfa_free s pa) = pfa_cached_free ?s2 - of_int (- 1)"
        unfolding e free_count_add_def by (simp_all add: fixed_def bitmap_part_def)
      have u: "?i \<in> used_frames s1" "?i \<notin> leaves s1" using raw nl by (simp_all add: used_frames_def b)
      note c = ok_clear [OF ok1 u us(3)]
      have "pfa_ok 0 (pfa_free s pa)" using ok_same [OF c(1) s4] us(1) by simp
      moreover have "releases_frames s ?s2 {?i}" using c(2) ds(1) by (simp add: releases_frames_def b)
      ultimately show ?thesis using True d releases_same [OF _ s4(1,2)] by simp
    qed
  qed
  then show "pfa_ok 0 (pfa_free s pa)"
    "releases_frames s (pfa_free s pa) (if freeable s pa \<and> fst (drop_reference s pa) = 0 then {?i} else {})" by blast+
qed


lemma releases_trans: "releases_frames a b R \<Longrightarrow> releases_frames b c Q \<Longrightarrow> releases_frames a c (R \<union> Q)"
  by (auto simp: releases_frames_def)

text \<open>Clearing the bits of some frames of a list, counting them.\<close>

lemma ok_clear_count:
  assumes ok: "pfa_ok d s" and f: "f \<in> used_frames s" "f \<notin> leaves s" "f \<noteq> 0" and us: "frame_is_usable s f"
  shows "pfa_ok (d - 1) (clear_bit s f)" "releases_frames s (clear_bit s f) {f}"
  using ok_clear [OF ok f] us by (simp_all add: releases_frames_def)

lemma count_change:
  assumes "pfa_ok d s" shows "pfa_ok (d + int n) (free_count_add n s)" "releases_frames s (free_count_add n s) {}"
  using ok_same [OF assms, of "free_count_add n s" "- int n"] releases_same [of s s "{}" "free_count_add n s"]
  by (simp_all add: free_count_add_def fixed_def bitmap_part_def)

lemma free_frame_at:
  assumes ok: "pfa_ok 0 s" and i: "i \<notin> leaves s" "i < bitmap_entries_used s" and e: "free_frame_at (n, s) i = (n', s')"
  shows "pfa_ok 0 s' \<and> releases_frames s s' (if n' \<noteq> n then {i} else {})"
proof (cases "n' = n \<and> s' = s")
  case True
  with ok show ?thesis by simp
next
  case False
  then have g: "\<not> (i < kernel_reserved_frames s \<and> (i < cold_low_start_frame s \<or> i \<ge> cold_low_end_frame s))"
    "frame_is_usable s i" "test_bit s i" and e': "n' = n + 1" "s' = free_count_add 1 (clear_bit s i)"
    using e by (auto simp: free_frame_at_def split: if_splits)
  have "i \<noteq> 0" using g(1) ok by (auto simp: pfa_ok_def pfa_shape_def)
  moreover have "i \<in> used_frames s" using g(2,3) i(2) by (simp add: test_bit_def used_frames_def)
  ultimately have c: "pfa_ok (- 1) (clear_bit s i)" "releases_frames s (clear_bit s i) {i}"
    using ok_clear_count [OF ok _ i(1) _ g(2)] by simp_all
  note k = count_change [OF c(1), of 1]
  show ?thesis using k(1) releases_trans [OF c(2) k(2)] e' by simp
qed

lemma free_frames_at:
  assumes "pfa_ok 0 s" and "set fs \<inter> leaves s = {}" and "\<forall>f\<in>set fs. f < bitmap_entries_used s"
    and "foldl free_frame_at (n, s) fs = (n', s')"
  shows "pfa_ok 0 s' \<and> (\<exists>R \<subseteq> set fs. releases_frames s s' R)"
  using assms
proof (induction fs arbitrary: n s)
  case Nil
  then show ?case by (auto intro!: exI [of _ "{}"])
next
  case (Cons f fs)
  obtain m t where t: "free_frame_at (n, s) f = (m, t)" by force
  have f: "f \<notin> leaves s" "f < bitmap_entries_used s" using Cons.prems(2,3) by auto
  note st = free_frame_at [OF Cons.prems(1) f t]
  have "leaves t = leaves s" "bitmap_entries_used t = bitmap_entries_used s" using st by (auto simp: releases_frames_def fixed_def)
  then obtain R where "pfa_ok 0 s'" "R \<subseteq> set fs" "releases_frames t s' R"
    using Cons.IH [of t m] st Cons.prems t by auto
  moreover have "releases_frames s s' ((if m \<noteq> n then {f} else {}) \<union> R)" using st calculation(3) releases_trans by blast
  ultimately show ?case by (intro conjI exI [of _ "(if m \<noteq> n then {f} else {}) \<union> R"]) (auto split: if_splits)
qed

lemma pfa_free_contiguous_effect:
  assumes ok: "pfa_ok 0 s" and nl: "{pa div PAGE_SIZE..<pa div PAGE_SIZE + num} \<inter> leaves s = {}"
  shows "pfa_ok 0 (pfa_free_contiguous s pa num) \<and>
    (\<exists>R \<subseteq> {pa div PAGE_SIZE..<pa div PAGE_SIZE + num}. releases_frames s (pfa_free_contiguous s pa num) R)"
proof (cases "pa mod PAGE_SIZE \<noteq> 0 \<or> num = 0")
  case True
  then have "pfa_free_contiguous s pa num = s" by (auto simp: pfa_free_contiguous_def)
  with ok show ?thesis by (auto intro!: exI [of _ "{}"])
next
  case False
  let ?i = "pa div PAGE_SIZE" let ?fs = "[?i ..< min (?i + num) (total_pages_managed s)]"
  obtain n s1 where f: "foldl free_frame_at (0, s) ?fs = (n, s1)" by force
  have "total_pages_managed s \<le> bitmap_entries_used s" using ok by (simp add: pfa_ok_def pfa_shape_def)
  then obtain R where R: "pfa_ok 0 s1" "R \<subseteq> set ?fs" "releases_frames s s1 R"
    using free_frames_at [OF ok _ _ f] nl by fastforce
  have e: "pfa_free_contiguous s pa num = (if n \<noteq> 0 \<and> ?i < last_alloc_hint s1 then s1\<lparr>last_alloc_hint := ?i\<rparr> else s1)"
    using False f by (auto simp: pfa_free_contiguous_def Let_def)
  have "fixed (pfa_free_contiguous s pa num) = fixed s1" "bitmap_part (pfa_free_contiguous s pa num) = bitmap_part s1"
    "pfa_cached_free (pfa_free_contiguous s pa num) = pfa_cached_free s1 - of_int 0"
    unfolding e by (simp_all add: fixed_def bitmap_part_def)
  from ok_same [OF R(1) this] releases_same [OF R(3) this(1,2)]
  have "pfa_ok 0 (pfa_free_contiguous s pa num)" "releases_frames s (pfa_free_contiguous s pa num) R" by simp_all
  moreover have "R \<subseteq> {?i..<?i + num}" using R(2) by auto
  ultimately show ?thesis by blast
qed

lemma pfa_cow_release_effect:
  assumes ok: "pfa_ok 0 s" and nl: "pa div PAGE_SIZE \<notin> leaves s"
  shows "pfa_ok 0 (pfa_cow_release s pa) \<and> (\<exists>R \<subseteq> {pa div PAGE_SIZE}. releases_frames s (pfa_cow_release s pa) R)"
proof (cases "pa = 0")
  case True
  with ok show ?thesis by (auto simp: pfa_cow_release_def intro!: exI [of _ "{}"])
next
  case False
  obtain r fp h where r: "refht_release (pf_refs s) (of_nat pa) True = (r, fp, h)" by (metis prod_cases3)
  let ?s1 = "s\<lparr>pf_refs := h\<rparr>"
  have sm: "fixed ?s1 = fixed s" "bitmap_part ?s1 = bitmap_part s" using refht_release_total [OF r] by simp_all
  have s1: "pfa_ok 0 ?s1" "releases_frames s ?s1 {}" "leaves ?s1 = leaves s"
    using ok_same [OF ok sm, of 0] releases_same [OF releases_none sm] same_bitmap(2) [OF sm] by simp_all
  show ?thesis
  proof (cases fp)
    case True
    have e: "pfa_cow_release s pa = pfa_free ?s1 pa" using True False r by (simp add: pfa_cow_release_def)
    have "pa div PAGE_SIZE \<notin> leaves ?s1" using nl s1(3) by simp
    note f = pfa_free_effect [OF s1(1) this]
    have "releases_frames s (pfa_free ?s1 pa) (if freeable ?s1 pa \<and> fst (drop_reference ?s1 pa) = 0 then {pa div PAGE_SIZE} else {})"
      using releases_trans [OF s1(2) f(2)] by simp
    with f(1) show ?thesis unfolding e by (auto split: if_splits)
  next
    case no: False
    then have "pfa_cow_release s pa = ?s1" using False r by (simp add: pfa_cow_release_def)
    then show ?thesis using s1 by (auto intro!: exI [of _ "{}"])
  qed
qed


subsection \<open>Memory released after start-up\<close>

lemma clear_where:
  assumes ok: "pfa_ok 0 s" and d: "distinct fs" and nl: "set fs \<inter> leaves s = {}" "0 \<notin> set fs"
    and P: "\<And>t f. fixed t = fixed s \<Longrightarrow> P t f \<Longrightarrow> frame_is_usable s f \<and> bitmap_test_raw t f"
    and loc: "\<And>t f. fixed t = fixed s \<Longrightarrow> (bitmap_test_raw t f \<longleftrightarrow> bitmap_test_raw s f) \<Longrightarrow> P t f = P s f"
  shows "pfa_ok (- int (fst (clear_where P s fs))) (snd (clear_where P s fs)) \<and>
    releases_frames s (snd (clear_where P s fs)) {f \<in> set fs. P s f} \<and>
    fst (clear_where P s fs) = card {f \<in> set fs. P s f} \<and>
    last_alloc_hint (snd (clear_where P s fs)) = last_alloc_hint s"
  using d nl
proof (induction fs rule: rev_induct)
  case Nil
  with ok show ?case by (simp add: clear_where_def)
next
  case (snoc f fs)
  obtain n t where t: "clear_where P s fs = (n, t)" by force
  have f: "f \<notin> set fs" "f \<notin> leaves s" "f \<noteq> 0" using snoc.prems by auto
  have ih: "pfa_ok (- int n) t" "releases_frames s t {f \<in> set fs. P s f}" "n = card {f \<in> set fs. P s f}" "last_alloc_hint t = last_alloc_hint s"
    using snoc.IH snoc.prems t by auto
  have fx: "fixed t = fixed s" "leaves t = leaves s" "used_frames t = used_frames s - {f \<in> set fs. P s f}"
    using ih(2) by (auto simp: releases_frames_def)
  have "bitmap_test_raw t f \<longleftrightarrow> bitmap_test_raw s f" using fx(3) f(1) by (auto simp: used_frames_def)
  then have pf: "P t f = P s f" by (rule loc [OF fx(1)])
  have st: "clear_where P s (fs @ [f]) = (if P s f then (n + 1, clear_bit t f) else (n, t))"
    using t pf by (auto simp: clear_where_def)
  show ?case
  proof (cases "P s f")
    case False
    then have "{x \<in> set (fs @ [f]). P s x} = {x \<in> set fs. P s x}" by auto
    then show ?thesis using ih st False by simp
  next
    case True
    then have ps: "frame_is_usable t f" "f \<in> used_frames t"
      using P [OF fx(1)] pf fixed_usable(1) [OF fx(1)] by (auto simp: used_frames_def)
    have "f \<notin> leaves t" using f(2) fx(2) by simp
    note oc = ok_clear_count [OF ih(1) ps(2) this f(3) ps(1)]
    have "- int n - 1 = - 1 - int n" by simp
    with oc have c: "pfa_ok (- 1 - int n) (clear_bit t f)" "releases_frames t (clear_bit t f) {f}" by metis+
    have eq: "{x \<in> set (fs @ [f]). P s x} = {x \<in> set fs. P s x} \<union> {f}" using True by auto
    have "card ({x \<in> set fs. P s x} \<union> {f}) = n + 1" using ih(3) f(1) by simp
    then show ?thesis using c(1) releases_trans [OF ih(2) c(2)] ih(4) unfolding eq st by (simp add: True algebra_simps)
  qed
qed

lemma cold_same:
  fixes t a b defines "u \<equiv> t\<lparr>cold_low_start_frame := a, cold_low_end_frame := b\<rparr>"
  shows "used_frames u = used_frames t" "leaves u = leaves t" "free_frames u = free_frames t" "leaves_ok u = leaves_ok t"
    "pfa_shape t \<Longrightarrow> 0 < a \<Longrightarrow> b \<le> bitmap_entries_used t \<Longrightarrow> pfa_shape u" "pfa_cached_free u = pfa_cached_free t"
proof -
  have d: "bitmap_directory_get u = bitmap_directory_get t" by (simp add: u_def bitmap_directory_get_def fun_eq_iff)
  have h: "has_leaf u f = has_leaf t f" "bit_byte u f = bit_byte t f" for f
    by (simp_all add: has_leaf_def bit_byte_def d) (simp add: u_def)
  have us: "frame_is_usable u f = frame_is_usable t f" "frame_is_reserved u f = frame_is_reserved t f" for f
    by (simp_all add: u_def frame_is_usable_def frame_is_reserved_def)
  show un: "used_frames u = used_frames t" by (simp add: used_frames_def raw_eq h) (simp add: u_def)
  show l: "leaves u = leaves t" by (simp add: leaves_def d) (simp add: u_def)
  show "free_frames u = free_frames t" by (simp add: free_eq un us) (simp add: u_def)
  have "leaves_apart u = leaves_apart t" by (simp add: leaves_apart_def d) (simp add: u_def)
  then show "leaves_ok u = leaves_ok t" by (simp add: leaves_ok_def l un us) (simp add: u_def)
  show "pfa_shape t \<Longrightarrow> 0 < a \<Longrightarrow> b \<le> bitmap_entries_used t \<Longrightarrow> pfa_shape u" by (simp add: u_def pfa_shape_def)
  show "pfa_cached_free u = pfa_cached_free t" by (simp add: u_def)
qed

lemma pfa_release_cold_low_memory_effect:
  assumes ok: "pfa_ok 0 s" and e: "pfa_release_cold_low_memory s pe = (n, s')"
  shows "pfa_ok 0 s'"
    and "used_frames s' = used_frames s - (if pe mod PAGE_SIZE \<noteq> 0 then {}
           else {f. 0 < f \<and> f < pe div PAGE_SIZE \<and> f < kernel_reserved_frames s \<and> frame_is_usable s f \<and> \<not> frame_is_reserved s f})"
    and "int n = int (card (free_frames s')) - int (card (free_frames s))"
proof -
  let ?ef = "min (pe div PAGE_SIZE) (kernel_reserved_frames s)"
  let ?P = "\<lambda>s f. \<not> (\<not> frame_is_usable s f \<or> frame_is_reserved s f) \<and> bitmap_test_raw s f"
  have "pfa_ok 0 s' \<and> used_frames s' = used_frames s - (if pe mod PAGE_SIZE \<noteq> 0 then {}
           else {f. 0 < f \<and> f < pe div PAGE_SIZE \<and> f < kernel_reserved_frames s \<and> frame_is_usable s f \<and> \<not> frame_is_reserved s f}) \<and>
      int n = int (card (free_frames s')) - int (card (free_frames s))"
  proof (cases "pe mod PAGE_SIZE \<noteq> 0 \<or> ?ef \<le> 1")
    case True
    then have "s' = s" "n = 0" using e by (auto simp: pfa_release_cold_low_memory_def Let_def split: if_splits)
    then show ?thesis using ok True by auto
  next
    case False
    obtain m t where c: "clear_where ?P s [1..<?ef] = (m, t)" by force
    have nl: "set [1..<?ef] \<inter> leaves s = {}" using ok by (auto simp: pfa_ok_def leaves_ok_def)
    have Pu: "frame_is_usable s f \<and> bitmap_test_raw t f" if "fixed t = fixed s" "?P t f" for t f
      using that fixed_usable [OF that(1)] by simp
    have Pl: "?P t f = ?P s f" if "fixed t = fixed s" "bitmap_test_raw t f \<longleftrightarrow> bitmap_test_raw s f" for t f
      using that fixed_usable [OF that(1)] by simp
    have "0 \<notin> set [1..<?ef]" by simp
    note cw0 = clear_where [OF ok distinct_upt nl this, of ?P, OF Pu Pl]
    have cw: "pfa_ok (- int m) t" "releases_frames s t {f \<in> set [1..<?ef]. ?P s f}" "m = card {f \<in> set [1..<?ef]. ?P s f}"
      using cw0 unfolding c fst_conv snd_conv by blast+
    let ?u = "t\<lparr>cold_low_start_frame := 1, cold_low_end_frame := ?ef\<rparr>"
    let ?v = "(free_count_add m ?u)\<lparr>kernel_reclaimed_pages := kernel_reclaimed_pages ?u + m\<rparr>"
    have s': "n = m" "s' = (if m \<noteq> 0 then ?v else ?u)"
      using e False c by (auto simp: pfa_release_cold_low_memory_def Let_def)
    have sh: "pfa_shape s" "pfa_shape t" using ok cw(1) by (simp_all add: pfa_ok_def)
    have fx: "fixed t = fixed s" and ut: "used_frames t = used_frames s - {f \<in> set [1..<?ef]. ?P s f}"
      using cw(2) by (auto simp: releases_frames_def)
    have ef: "?ef \<le> bitmap_entries_used t" using sh(1) fixedD(6) [OF fx] by (simp add: pfa_shape_def min.coboundedI2)
    note cs = cold_same [where t = t and a = 1 and b = ?ef]
    have ou: "pfa_ok (- int m) ?u" using cw(1) cs(5) [OF sh(2) zero_less_one ef] unfolding pfa_ok_def count_ok_def cs(1-4,6) by blast
    have vu: "fixed ?v = fixed ?u" "bitmap_part ?v = bitmap_part ?u" "pfa_cached_free ?v = pfa_cached_free ?u - of_int (- int m)"
      by (simp_all add: free_count_add_def fixed_def bitmap_part_def)
    have "pfa_ok 0 ?v" using ok_same [OF ou vu] by simp
    then have "pfa_ok 0 s'" using ou s'(2) by auto
    moreover have us: "used_frames s' = used_frames t" "free_frames s' = free_frames t"
      using same_bitmap(1,6) [OF vu(1,2)] cs(1,3) by (simp_all add: s'(2) del: One_nat_def)
    moreover have "used_frames s - {f \<in> set [1..<?ef]. ?P s f} = used_frames s -
        {f. 0 < f \<and> f < pe div PAGE_SIZE \<and> f < kernel_reserved_frames s \<and> frame_is_usable s f \<and> \<not> frame_is_reserved s f}"
      by (auto simp: used_frames_def)
    moreover have "free_frames t = free_frames s \<union> {f \<in> set [1..<?ef]. ?P s f}"
      unfolding free_change [OF fx] ut free_eq [of s] using ef fixedD(6) [OF fx] by (auto simp: used_frames_def)
    then have "card (free_frames t) = card (free_frames s) + card {f \<in> set [1..<?ef]. ?P s f}"
      using card_Un_disjoint [of "free_frames s" "{f \<in> set [1..<?ef]. ?P s f}"] by (auto simp: free_frames_def)
    ultimately show ?thesis using False s'(1) ut cw(3) by simp
  qed
  then show "pfa_ok 0 s'" "used_frames s' = used_frames s - (if pe mod PAGE_SIZE \<noteq> 0 then {}
           else {f. 0 < f \<and> f < pe div PAGE_SIZE \<and> f < kernel_reserved_frames s \<and> frame_is_usable s f \<and> \<not> frame_is_reserved s f})"
    "int n = int (card (free_frames s')) - int (card (free_frames s))" by blast+
qed

end
