(* ===== verification/Pfa_Pool.thy ===== *)
theory Pfa_Pool
  imports Pfa_Release
begin

text \<open>
  The allocator and its clients: the contract of a pool of frames and its interpretation on
  the operations of pmm.c, the search that succeeds while a frame is free, copy on write
  through the reference counts, and the properties of the page frame allocator.
\<close>

unbundle bit_operations_syntax

subsection \<open>A pool of frames\<close>

text \<open>
  The contract of an allocator with its clients: operations hand out sets of frames and may
  end the use of frames their clients give back, and the allocator uses frames of its own.
  The frames held are those handed out and still in use.
\<close>

inductive pool_reach :: "('o \<Rightarrow> 's \<Rightarrow> nat set \<times> 's) \<Rightarrow> ('s \<Rightarrow> nat set) \<Rightarrow> ('s \<Rightarrow> 'o \<Rightarrow> bool) \<Rightarrow> ('o \<Rightarrow> nat set) \<Rightarrow>
    's \<Rightarrow> 's \<Rightarrow> nat set \<Rightarrow> bool"
  for step used allowed gives s0 where
  reach_start: "pool_reach step used allowed gives s0 s0 {}"
| reach_op: "pool_reach step used allowed gives s0 s H \<Longrightarrow> allowed s op \<Longrightarrow> gives op \<subseteq> H \<Longrightarrow> step op s = (B, s') \<Longrightarrow>
    pool_reach step used allowed gives s0 s' (H \<inter> used s' \<union> B)"

locale frame_pool =
  fixes ok :: "'s \<Rightarrow> bool" and used :: "'s \<Rightarrow> nat set" and own :: "'s \<Rightarrow> nat set" and allowed :: "'s \<Rightarrow> 'o \<Rightarrow> bool"
    and gives :: "'o \<Rightarrow> nat set" and step :: "'o \<Rightarrow> 's \<Rightarrow> nat set \<times> 's"
  assumes own_used: "ok s \<Longrightarrow> own s \<subseteq> used s"
    and step_ok: "ok s \<Longrightarrow> allowed s op \<Longrightarrow> gives op \<inter> own s = {} \<Longrightarrow> step op s = (B, s') \<Longrightarrow> ok s'"
    and step_fresh: "ok s \<Longrightarrow> allowed s op \<Longrightarrow> gives op \<inter> own s = {} \<Longrightarrow> step op s = (B, s') \<Longrightarrow>
          B \<inter> used s = {} \<and> B \<subseteq> used s' - own s'"
    and step_own: "ok s \<Longrightarrow> allowed s op \<Longrightarrow> gives op \<inter> own s = {} \<Longrightarrow> step op s = (B, s') \<Longrightarrow>
          (own s' - own s) \<inter> used s = {}"
    and step_keeps: "ok s \<Longrightarrow> allowed s op \<Longrightarrow> gives op \<inter> own s = {} \<Longrightarrow> step op s = (B, s') \<Longrightarrow>
          used s - gives op \<subseteq> used s'"
begin

lemma reach_inv:
  assumes "pool_reach step used allowed gives s0 s H" and "ok s0"
  shows "ok s \<and> H \<subseteq> used s \<and> H \<inter> own s = {}"
  using assms
proof (induction rule: pool_reach.induct)
  case (reach_op s H op B s')
  then have g: "gives op \<inter> own s = {}" and ih: "ok s" "H \<subseteq> used s" "H \<inter> own s = {}" by auto
  note st = step_ok [OF ih(1) reach_op(2) g reach_op(4)] step_fresh [OF ih(1) reach_op(2) g reach_op(4)]
    step_own [OF ih(1) reach_op(2) g reach_op(4)]
  have "H \<inter> own s' = {}" using ih(2,3) st(3) by blast
  with st show ?case by auto
qed simp

lemma fresh:
  assumes "pool_reach step used allowed gives s0 s H" and "ok s0" and "allowed s op" and "gives op \<subseteq> H"
    and "step op s = (B, s')"
  shows "B \<inter> H = {} \<and> B \<inter> own s' = {} \<and> H - gives op \<subseteq> used s'"
proof -
  have i: "ok s" "H \<subseteq> used s" "H \<inter> own s = {}" using reach_inv [OF assms(1,2)] by auto
  then have "gives op \<inter> own s = {}" using assms(4) by blast
  from step_fresh [OF i(1) assms(3) this assms(5)] step_keeps [OF i(1) assms(3) this assms(5)] i(2)
  show ?thesis by blast
qed

end

text \<open>
  The operations as steps. pmm\_alloc\_page drops the lock between its own search, Op\_page\_first,
  and find\_free\_frames, which is Op\_pages 1; Op\_page is both without a step of another task
  between them. A history may use the parts, with any steps in between.
\<close>

datatype pfa_op =
  Op_alloc
| Op_pages nat
| Op_contiguous nat nat
| Op_page
| Op_page_first
| Op_mapped
| Op_low bool
| Op_free nat
| Op_free_contiguous nat nat
| Op_share bool bool nat
| Op_cow_release nat

definition drop_flag :: "nat \<times> bool \<times> pfa \<Rightarrow> nat \<times> pfa" where
  "drop_flag r = (fst r, snd (snd r))"

definition blocked :: "nat \<Rightarrow> nat \<times> pfa \<Rightarrow> nat set \<times> pfa" where
  "blocked num rs = (block (fst rs) num, snd rs)"

fun pfa_step :: "pfa_op \<Rightarrow> pfa \<Rightarrow> nat set \<times> pfa" where
  "pfa_step Op_alloc s = blocked 1 (drop_flag (pfa_alloc False s))"
| "pfa_step (Op_pages num) s = blocked num (pmm_alloc_pages s num)"
| "pfa_step (Op_contiguous num limit) s = blocked num (drop_flag (pfa_alloc_contiguous_below False s num limit))"
| "pfa_step Op_page s = blocked 1 (pmm_alloc_page s)"
| "pfa_step Op_page_first s = blocked 1 (page_scan s [active_region s ..< length (pf_map s)])"
| "pfa_step Op_mapped s = blocked 1 (pmm_alloc_mapped_page s)"
| "pfa_step (Op_low ready) s = blocked 1 (pmm_alloc_low_page ready s)"
| "pfa_step (Op_free pa) s = ({}, pfa_free s pa)"
| "pfa_step (Op_free_contiguous pa num) s = ({}, pfa_free_contiguous s pa num)"
| "pfa_step (Op_share kc km pa) s = ({}, s\<lparr>pf_refs := snd (pfa_ref_share kc km (pf_refs s) (of_nat pa))\<rparr>)"
| "pfa_step (Op_cow_release pa) s = ({}, pfa_cow_release s pa)"

fun op_allowed :: "pfa \<Rightarrow> pfa_op \<Rightarrow> bool" where
  "op_allowed s (Op_low ready) = aligned_map s"
| "op_allowed s op = True"

fun op_gives :: "pfa_op \<Rightarrow> nat set" where
  "op_gives (Op_free pa) = {pa div PAGE_SIZE}"
| "op_gives (Op_free_contiguous pa num) = {pa div PAGE_SIZE..<pa div PAGE_SIZE + num}"
| "op_gives (Op_cow_release pa) = {pa div PAGE_SIZE}"
| "op_gives op = {}"

lemma refht_insert_total: "ht_total (snd (refht_insert h p i fresh)) = ht_total h"
proof (cases "ht_buckets h")
  case None
  then show ?thesis by (auto simp: refht_insert_def defer_node_def split: option.splits)
next
  case (Some bs)
  obtain a b where l: "refht_link p (bs ! refht_bucket (ht_bits h) p) = (a, b)" by force
  show ?thesis using Some l by (cases b; cases fresh) (simp_all add: refht_insert_def set_chain_def defer_node_def Let_def)
qed

lemma refht_add_total: "ht_total (snd (refht_add kc km h pa i)) = ht_total h"
proof -
  let ?h2 = "(refht_init h)\<lparr>ht_entries := ht_total (refht_init h)\<rparr>"
  obtain fresh h4 where a: "refht_alloc_node km (refht_resize kc ?h2 1) = (fresh, h4)" by force
  have "ht_total ?h2 = ht_total h" by (simp add: refht_init_def)
  moreover have "ht_total (refht_resize kc ?h2 1) = ht_total ?h2" by (simp add: refht_resize_def refht_resize_commit_def Let_def)
  ultimately have "ht_total h4 = ht_total h" using alloc_node_section(3) [OF a] by simp
  then show ?thesis using refht_insert_total [of h4] a \<open>ht_total ?h2 = ht_total h\<close>
    by (auto simp: refht_add_def Let_def)
qed

text \<open>An allocation or a release as a step of the pool.\<close>

lemma allocates_step:
  assumes "allocates s lo hi num rs" and "pfa_ok 0 s" and "blocked num rs = (B, s')"
  shows "pfa_ok 0 s' \<and> B \<inter> used_frames s = {} \<and> B \<subseteq> used_frames s' - leaves s' \<and> (leaves s' - leaves s) \<inter> used_frames s = {} \<and>
    used_frames s \<subseteq> used_frames s'"
proof -
  have t: "pfa_ok 0 s'" "takes s s' B" using assms(1,3) by (auto simp: allocates_def blocked_def)
  have "B \<inter> leaves s' = {}" using takes_block_no_leaf [OF _ t(2)] assms(2) by (simp add: pfa_ok_def)
  then show ?thesis using t by (auto simp: takes_def free_eq)
qed

lemma pfa_alloc_allocates:
  assumes ok: "pfa_ok 0 s"
  shows "allocates s 0 (bitmap_entries_used s) 1 (drop_flag (pfa_alloc False s))"
  using find_free_frames [OF ok, of 1] by (auto simp: allocates_def pfa_alloc_def drop_flag_def split: prod.splits)

lemma pmm_alloc_page_allocates:
  assumes ok: "pfa_ok 0 s"
  shows "allocates s 0 (bitmap_entries_used s) 1 (pmm_alloc_page s)"
proof -
  obtain r s1 where r: "page_scan s [active_region s ..< length (pf_map s)] = (r, s1)" by force
  have p: "allocates s 0 (bitmap_entries_used s) 1 (r, s1)" using page_scan [OF ok] r by metis
  show ?thesis
  proof (cases "pf_map s = [] \<or> r \<noteq> 0")
    case True
    then show ?thesis using p r allocates_none [OF ok] by (auto simp: pmm_alloc_page_def)
  next
    case False
    then have e: "pmm_alloc_page s = find_free_frames s1 1" "takes s s1 {}" "pfa_ok 0 s1" "bitmap_entries_used s1 = bitmap_entries_used s"
      using p r by (auto simp: pmm_alloc_page_def allocates_def takes_def fixed_def)
    show ?thesis unfolding e(1)
      by (rule allocates_after [OF e(2) find_free_frames [OF e(3)]]) (simp_all add: e(4))
  qed
qed

lemma op_allocates:
  assumes ok: "pfa_ok 0 s" and al: "op_allowed s op"
    and k: "op \<in> {Op_alloc, Op_page, Op_page_first, Op_mapped} \<union> range Op_pages \<union> range (case_prod Op_contiguous) \<union> range Op_low"
  shows "\<exists>num rs hi. allocates s 0 hi num rs \<and> pfa_step op s = blocked num rs"
proof (cases op)
  case Op_alloc
  show ?thesis unfolding Op_alloc pfa_step.simps using pfa_alloc_allocates [OF ok] by blast
next
  case (Op_pages num)
  have "allocates s 0 (bitmap_entries_used s) num (pmm_alloc_pages s num)"
    using find_free_frames [OF ok, of num] allocates_none [OF ok] by (auto simp: allocates_def pmm_alloc_pages_def)
  then show ?thesis unfolding Op_pages pfa_step.simps by blast
next
  case (Op_contiguous num limit)
  have "allocates s 0 (min (limit div PAGE_SIZE) DIRECT_FRAMES) num (drop_flag (pfa_alloc_contiguous_below False s num limit))"
    using find_direct_frames [OF ok, of "limit div PAGE_SIZE" num] allocates_none [OF ok]
    by (auto simp: allocates_def pfa_alloc_contiguous_below_def drop_flag_def split: prod.splits)
  then show ?thesis unfolding Op_contiguous pfa_step.simps by blast
next
  case Op_page
  show ?thesis unfolding Op_page pfa_step.simps using pmm_alloc_page_allocates [OF ok] by blast
next
  case Op_page_first
  show ?thesis unfolding Op_page_first pfa_step.simps using page_scan [OF ok] by blast
next
  case Op_mapped
  show ?thesis unfolding Op_mapped pfa_step.simps using pmm_alloc_mapped_page [OF ok] by blast
next
  case (Op_low ready)
  have "aligned_map s" using al Op_low by simp
  then show ?thesis unfolding Op_low pfa_step.simps using pmm_alloc_low_page [OF ok, of ready] by blast
qed (use k in auto)

lemma releases_step:
  assumes "pfa_ok 0 s'" and "releases_frames s s' R" and "R \<subseteq> G"
  shows "pfa_ok 0 s' \<and> (leaves s' - leaves s) \<inter> used_frames s = {} \<and> used_frames s - G \<subseteq> used_frames s'"
  using assms by (auto simp: releases_frames_def)

lemma op_step:
  assumes ok: "pfa_ok 0 s" and al: "op_allowed s op" and g: "op_gives op \<inter> leaves s = {}" and st: "pfa_step op s = (B, s')"
  shows "pfa_ok 0 s' \<and> B \<inter> used_frames s = {} \<and> B \<subseteq> used_frames s' - leaves s' \<and>
    (leaves s' - leaves s) \<inter> used_frames s = {} \<and> used_frames s - op_gives op \<subseteq> used_frames s'"
proof -
  consider pa where "op = Op_free pa" | pa num where "op = Op_free_contiguous pa num" | pa where "op = Op_cow_release pa"
    | kc km pa where "op = Op_share kc km pa" | num rs hi where "allocates s 0 hi num rs" "pfa_step op s = blocked num rs"
    using op_allocates [OF ok al] by (cases op) force+
  then show ?thesis
  proof cases
    case (1 pa)
    then have "pa div PAGE_SIZE \<notin> leaves s" using g by simp
    note f = pfa_free_effect [OF ok this]
    show ?thesis using releases_step [OF f, of "{pa div PAGE_SIZE}"] 1 st by auto
  next
    case (2 pa num)
    then obtain R where "R \<subseteq> op_gives op" "pfa_ok 0 s'" "releases_frames s s' R" "B = {}"
      using pfa_free_contiguous_effect [OF ok, of pa num] g st by auto
    then show ?thesis using releases_step by blast
  next
    case (3 pa)
    then obtain R where "R \<subseteq> op_gives op" "pfa_ok 0 s'" "releases_frames s s' R" "B = {}"
      using pfa_cow_release_effect [OF ok, of pa] g st by auto
    then show ?thesis using releases_step by blast
  next
    case (4 kc km pa)
    then have e: "B = {}" "s' = s\<lparr>pf_refs := snd (pfa_ref_share kc km (pf_refs s) (of_nat pa))\<rparr>" using st by auto
    have "fixed s' = fixed s" "bitmap_part s' = bitmap_part s" unfolding e(2)
      using refht_add_total by (simp_all add: pfa_ref_share_def)
    then have "pfa_ok 0 s'" "releases_frames s s' {}"
      using ok_same [OF ok, of s' 0] releases_same [OF releases_none] by (auto simp: e(2))
    then show ?thesis using releases_step [of s' s "{}" "op_gives op"] e(1) by simp
  next
    case (5 num rs hi)
    then have "blocked num rs = (B, s')" using st by simp
    from allocates_step [OF 5(1) ok this] show ?thesis by blast
  qed
qed

interpretation fp: frame_pool "pfa_ok 0" used_frames leaves op_allowed op_gives pfa_step
proof (unfold_locales, goal_cases)
  case (1 s)
  then show ?case by (auto simp: pfa_ok_def leaves_ok_def)
qed (use op_step in blast)+


subsection \<open>A free frame is found\<close>

lemma prepare_present:
  assumes "pfa_shape s" and "has_leaf s x"
  shows "bitmap_prepare_range s x 1 = (0, s)"
proof -
  have e: "bitmap_ensure_leaf s x a b = (0, s)" for a b
    using assms by (simp add: bitmap_ensure_leaf_def has_leaf_def Let_def)
  have n: "x < (x div CHUNK_FRAMES + 1) * CHUNK_FRAMES" using dividend_less_div_times [of CHUNK_FRAMES x] by simp
  then have m: "min ((x div CHUNK_FRAMES + 1) * CHUNK_FRAMES) (x + 1) = x + 1" by simp
  have "prepare_from s x (x + 1) (x + 1) = (0, s)" by (subst prepare_from.simps) simp
  then have "prepare_from s x (x + 1) x = (0, s)" unfolding prepare_from.simps [of s x "x + 1" x] e m by simp
  moreover have "x < 2 ^ 40" using assms by (simp add: pfa_shape_def has_leaf_def)
  ultimately show ?thesis by (simp add: bitmap_prepare_range_def)
qed

lemma find_one:
  assumes ok: "pfa_ok 0 s" and b: "b \<le> bitmap_entries_used s" and hl: "\<forall>f. a \<le> f \<and> f < b \<longrightarrow> has_leaf s f"
  shows "find_free_frames_range s a b 1 = (0, s) \<and> {a..<b} \<inter> free_frames s = {} \<or> fst (find_free_frames_range s a b 1) \<noteq> 0"
proof -
  have sh: "pfa_shape s" using ok by (simp add: pfa_ok_def)
  then have maps: "\<forall>r\<in>set (pf_map s). fst r + snd r \<le> 2 ^ 52" and en: "bitmap_entries_used s \<le> 2 ^ 40" by (auto simp: pfa_shape_def)
  show ?thesis
  proof (cases "b \<le> a")
    case True
    then show ?thesis by (simp add: find_free_frames_range_def)
  next
    case False
    have e: "find_free_frames_range s a b 1 = (case scan_regions s a b (pf_map s) of None \<Rightarrow> (0, s) | Some x \<Rightarrow> take_frames s x 1)"
      using False by (simp add: find_free_frames_range_def find_free_frames_bitmap_def del: One_nat_def)
    show ?thesis
    proof (cases "scan_regions s a b (pf_map s)")
      case None
      have "{a..<b} \<inter> free_frames s = {}"
      proof (rule equals0I)
        fix g assume g: "g \<in> {a..<b} \<inter> free_frames s"
        then have "g < 2 ^ 40" "frame_is_usable s g" "\<not> bitmap_test_raw s g" using b en by (auto simp: free_frames_def)
        then obtain r where "r \<in> set (pf_map s)" "in_region g r" using usable_in_region [OF sh] by blast
        from scan_regions_complete [OF None maps b this] g \<open>\<not> bitmap_test_raw s g\<close> show False by simp
      qed
      then show ?thesis using e None by simp
    next
      case (Some x)
      note x = scan_regions_sound [OF Some maps b]
      have "frame_is_usable s x" using x usable_in_region [OF sh, of x] b en by auto
      then have fr: "x \<in> free_frames s" using x b by (simp add: free_frames_def)
      then have "x \<noteq> 0" using ok by (metis pfa_ok_def)
      moreover have "has_leaf s x" using hl x by blast
      moreover have "x < 2 ^ 40" using x b en by simp
      ultimately have "fst (take_frames s x 1) \<noteq> 0" using prepare_present [OF sh, of x]
        by (simp add: take_frames_def Let_def w64_def)
      then show ?thesis using e Some by simp
    qed
  qed
qed

lemma find_free_frames_one:
  assumes ok: "pfa_ok 0 s" and hl: "\<forall>f < total_pages_managed s. has_leaf s f"
    and f: "f \<in> free_frames s" "kernel_reserved_frames s \<le> f" "f < total_pages_managed s"
  shows "fst (find_free_frames s 1) \<noteq> 0"
proof -
  let ?st1 = "if last_alloc_hint s < kernel_reserved_frames s then kernel_reserved_frames s else last_alloc_hint s"
  define st where "st = (if ?st1 \<ge> total_pages_managed s then kernel_reserved_frames s else ?st1)"
  have tot: "total_pages_managed s \<le> bitmap_entries_used s" using ok by (simp add: pfa_ok_def pfa_shape_def)
  have st: "kernel_reserved_frames s \<le> st" "kernel_reserved_frames s < st \<Longrightarrow> st < total_pages_managed s" by (auto simp: st_def)
  note one = find_one [OF ok]
  have 1: "find_free_frames_range s st (total_pages_managed s) 1 = (0, s) \<and> {st..<total_pages_managed s} \<inter> free_frames s = {} \<or>
      fst (find_free_frames_range s st (total_pages_managed s) 1) \<noteq> 0" by (rule one) (use tot hl in auto)
  have 2: "find_free_frames_range s (kernel_reserved_frames s) st 1 = (0, s) \<and> {kernel_reserved_frames s..<st} \<inter> free_frames s = {} \<or>
      fst (find_free_frames_range s (kernel_reserved_frames s) st 1) \<noteq> 0" if "kernel_reserved_frames s < st"
    by (rule one) (use tot hl st(2) [OF that] in auto)
  have keep: "fst (or_else rs c g) \<noteq> 0" if "fst rs \<noteq> 0" for rs c g using that by (auto simp: or_else_def split: prod.splits)
  have "fst (or_else (find_free_frames_range s st (total_pages_managed s) 1) (\<lambda>s. st > kernel_reserved_frames s)
        (\<lambda>s. find_free_frames_range s (kernel_reserved_frames s) st 1)) \<noteq> 0"
  proof (cases "fst (find_free_frames_range s st (total_pages_managed s) 1) = 0")
    case False
    then show ?thesis by (rule keep)
  next
    case True
    then have e: "find_free_frames_range s st (total_pages_managed s) 1 = (0, s)" and n: "f < st"
      using 1 f by (auto, metis IntI atLeastLessThan_iff empty_iff not_less)
    then have lt: "kernel_reserved_frames s < st" using f(2) by simp
    have "f \<in> {kernel_reserved_frames s..<st} \<inter> free_frames s" using f n by simp
    then have "fst (find_free_frames_range s (kernel_reserved_frames s) st 1) \<noteq> 0" using 2 [OF lt] by auto
    then show ?thesis using e lt by (simp add: or_else_def)
  qed
  from keep [OF keep [OF this]] show ?thesis by (simp add: find_free_frames_def st_def Let_def)
qed

subsection \<open>Copy on write\<close>

lemma counts_freed: "counts_release m p True = (r, True, m') \<Longrightarrow> m' p = None"
  by (auto simp: counts_release_def split: option.splits if_splits)

lemma cow_release_last:
  assumes ok: "pfa_ok 0 s" and h: "ht_ok (pf_refs s)" and fr: "freeable s pa" and pa: "pa < 2 ^ 64" "pa \<noteq> 0"
    and u: "pa div PAGE_SIZE \<in> used_frames s - leaves s"
  shows "pa div PAGE_SIZE \<in> free_frames (pfa_cow_release s pa) \<longleftrightarrow> own (pf_refs s) (of_nat pa div 4096) = 1"
    and "pfa_ok 0 (pfa_cow_release s pa)"
proof -
  let ?i = "pa div PAGE_SIZE" and ?w = "of_nat pa :: u64"
  have uw: "unat ?w = pa" using pa(1) by (simp add: unat_of_nat)
  have v: "unat (?w div 4096) < ht_total (pf_refs s)" using fr by (simp add: unat_div uw freeable_def)
  obtain r fp h' where r: "refht_release (pf_refs s) ?w True = (r, fp, h')" by (metis prod_cases3)
  note rc = release_counts [OF h v r]
  have c: "counts_release (ht_map (pf_refs s)) (?w div 4096) True = (r, fp, ht_map h')" using rc by blast
  have fp: "fp \<longleftrightarrow> own (pf_refs s) (?w div 4096) = 1"
    unfolding own_def by (rule cow_owners(1) [OF ht_map_pos [OF h] c])
  let ?s1 = "s\<lparr>pf_refs := h'\<rparr>"
  have sm: "fixed ?s1 = fixed s" "bitmap_part ?s1 = bitmap_part s" using refht_release_total [OF r] by simp_all
  note b = same_bitmap [OF sm]
  have ok1: "pfa_ok 0 ?s1" using ok_same [OF ok sm, of 0] by simp
  have nl: "?i \<notin> leaves ?s1" using u b(2) by simp
  have "(?i \<in> free_frames (pfa_cow_release s pa) \<longleftrightarrow> own (pf_refs s) (?w div 4096) = 1) \<and> pfa_ok 0 (pfa_cow_release s pa)"
  proof (cases fp)
    case False
    then have "pfa_cow_release s pa = ?s1" using r pa(2) by (simp add: pfa_cow_release_def)
    then show ?thesis using False fp u b ok1 by (auto simp: free_eq)
  next
    case True
    have e: "pfa_cow_release s pa = pfa_free ?s1 pa" using True r pa(2) by (simp add: pfa_cow_release_def)
    note f = pfa_free_effect [OF ok1 nl]
    have fr1: "freeable ?s1 pa" using fr refht_release_total [OF r] fixed_usable [OF sm(1)] by (simp add: freeable_def)
    have none: "ht_map h' (?w div 4096) = None"
      using c True counts_freed by simp
    obtain r2 f2 h2 where r2: "refht_release h' ?w False = (r2, f2, h2)" by (metis prod_cases3)
    have "unat (?w div 4096) < ht_total h'" using v rc by simp
    from release_counts [OF _ this r2] rc none have "r2 = 0" by (auto simp: counts_release_def)
    then have "fst (drop_reference ?s1 pa) = 0" using r2 by (simp add: drop_reference_def)
    then have rel: "releases_frames ?s1 (pfa_free ?s1 pa) {?i}" using f(2) fr1 by simp
    have "?i < bitmap_entries_used s" "frame_is_usable s ?i"
      using fr ok by (auto simp: freeable_def pfa_ok_def pfa_shape_def)
    then have "?i \<in> free_frames (pfa_free ?s1 pa)"
      using rel sm(1) free_change [of "pfa_free ?s1 pa" s] by (simp add: releases_frames_def)
    then show ?thesis using e fp True f(1) by simp
  qed
  then show "?i \<in> free_frames (pfa_cow_release s pa) \<longleftrightarrow> own (pf_refs s) (?w div 4096) = 1" "pfa_ok 0 (pfa_cow_release s pa)"
    by blast+
qed



subsection \<open>Properties\<close>

text \<open>
  A machine with 13 frames, of which the kernel has 8 and the bitmap the next; b are the
  bits of frames 8 to 15 and the direct mapping is one large page.
\<close>

definition small_machine :: "u8 \<Rightarrow> nat \<Rightarrow> u64 \<Rightarrow> refht \<Rightarrow> pfa" where
  "small_machine b hint free h =
     \<lparr>pf_tables = \<lparr>kv_pdpt_high = (\<lambda>i. 1), table_entry = (\<lambda>t i. 0x83)\<rparr>, pf_map = [(0, 53248)], pf_reserved = [],
       pf_mem = (\<lambda>a. if a = 32768 then 0xFF else if a = 32769 then b else 0), pfa_bitmap = True,
       pfa_inline_directory = 8 # replicate 63 0, pfa_directory_extension = None, pfa_directory_entries = 1,
       bitmap_entries_used = 13, bitmap_leaf_pages = 1, last_alloc_hint = hint, pfa_cached_free = free,
       kernel_reclaimed_pages = 0, kernel_reserved_frames = 8, cold_low_start_frame = 0, cold_low_end_frame = 0,
       kernel_reclaim_lo = 0, kernel_reclaim_hi = 0, low_exhausted = False, low_page_limit = 0x800000, low_bump = 0x8000,
       bump_current = 0x8000, active_region = 0, system_total_ram_kb = 52, system_usable_ram_kb = 52,
       initial_free_frames = 4, kernel_binary_kb = 32, bitmap_alloc_kb = 0, pf_refs = h\<rparr>"

lemma small_directory: "bitmap_directory_get (small_machine b hint n h) c = (if c = 0 then 8 else 0)"
  by (simp add: bitmap_directory_get_def small_machine_def)

lemma small_has_leaf: "has_leaf (small_machine b hint n h) f \<longleftrightarrow> f < 13"
proof -
  have "f < 13 \<Longrightarrow> f div CHUNK_FRAMES = 0" by simp
  then show ?thesis unfolding has_leaf_def small_directory by (auto simp: small_machine_def)
qed

lemma small_used: "used_frames (small_machine b hint n h) = {f. f < 8} \<union> {f. f < 13 \<and> 8 \<le> f \<and> bit b (f - 8)}"
proof -
  have m: "pf_mem (small_machine b hint n h) a = (if a = 32768 then 0xFF else if a = 32769 then b else 0)" for a
    by (simp add: small_machine_def)
  have "bit_byte (small_machine b hint n h) f = 32768 + f div 8" if "f < 13" for f
    using that by (simp add: bit_byte_def small_directory)
  moreover have "f < 8 \<Longrightarrow> bit (0xFF :: u8) (f mod 8)" for f :: nat
  proof -
    assume "f < 8"
    moreover have "(0xFF :: u8) = - 1" by simp
    ultimately show ?thesis by (simp only:) (simp add: bit_simps)
  qed
  moreover have "f div 8 = 1 \<and> f mod 8 = f - 8" if "8 \<le> f" "f < 13" for f :: nat
    using that by (auto simp: div_nat_eqI mod_nat_eqI intro: div_nat_eqI)
  ultimately show ?thesis by (auto simp: used_frames_def raw_eq small_has_leaf m)
qed


lemma small_shape: "ht_total h = 13 \<Longrightarrow> pfa_shape (small_machine b hint n h)"
  by (simp add: pfa_shape_def small_machine_def)

lemma small_usable: "f < 2 ^ 40 \<Longrightarrow> ht_total h = 13 \<Longrightarrow> frame_is_usable (small_machine b hint n h) f \<longleftrightarrow> f < 13"
  using usable_in_region [OF small_shape, of h f b hint n] by (auto simp: small_machine_def in_region_def)

lemma small_free:
  "ht_total h = 13 \<Longrightarrow> free_frames (small_machine b hint n h) = {f. f < 13 \<and> 8 \<le> f \<and> \<not> bit b (f - 8)}"
proof -
  assume h: "ht_total h = 13"
  have "bitmap_entries_used (small_machine b hint n h) = 13" by (simp add: small_machine_def)
  moreover have "f < 13 \<Longrightarrow> frame_is_usable (small_machine b hint n h) f" for f using small_usable [OF _ h, of f b hint n] by simp
  ultimately show ?thesis unfolding free_eq small_used by auto
qed

lemma small_leaves: "leaves (small_machine b hint n h) = {8}"
proof -
  have "pfa_directory_entries (small_machine b hint n h) = 1" by (simp add: small_machine_def)
  then show ?thesis unfolding leaves_def small_directory by auto
qed

lemma small_ok:
  assumes h: "ht_total h = 13" and b: "bit b 0" and n: "n = of_nat (card {f. f < 13 \<and> 8 \<le> f \<and> \<not> bit b (f - 8)})"
  shows "pfa_ok 0 (small_machine b hint n h)"
proof -
  let ?s = "small_machine b hint n h"
  have f: "pfa_directory_entries ?s = 1" "kernel_reserved_frames ?s = 8" "pfa_cached_free ?s = n" "pf_reserved ?s = []"
    by (simp_all add: small_machine_def)
  have "leaves_apart ?s" unfolding leaves_apart_def f small_directory by (auto simp: inj_on_def)
  moreover have "\<not> frame_is_reserved ?s 8" by (simp add: frame_is_reserved_def f Let_def)
  ultimately have "leaves_ok ?s" unfolding leaves_ok_def small_leaves small_used f using b by auto
  moreover have "count_ok 0 ?s" unfolding count_ok_def small_free [OF h] f(3) using n by simp
  ultimately show ?thesis using small_shape [OF h] unfolding pfa_ok_def small_free [OF h] by simp
qed

definition example_refs :: refht where
  "example_refs = \<lparr>ht_buckets = None, ht_bits = 0, ht_deferred = [], ht_active = 0, ht_deferred_count = 0,
     ht_initialized = True, ht_entries = 13, ht_total = 13\<rparr>"

abbreviation small_example :: pfa where
  "small_example \<equiv> small_machine 1 8 4 example_refs"

lemma small_example_free: "{f. f < 13 \<and> 8 \<le> f \<and> \<not> bit (1 :: u8) (f - 8)} = {9, 10, 11, 12 :: nat}"
proof -
  have "bit (1 :: u8) (f - 8) \<longleftrightarrow> f \<le> 8" for f :: nat by (auto simp: bit_simps)
  then show ?thesis by auto
qed

lemma small_example_ok: "pfa_ok 0 small_example"
  by (rule small_ok) (simp_all add: example_refs_def small_example_free)

text \<open>
  C1. No frame is handed out twice. From any well-formed allocator state, run any sequence
  of the allocation functions of pmm.c (pfa\_alloc, pmm\_alloc\_pages,
  pfa\_alloc\_contiguous\_below, pmm\_alloc\_page, pmm\_alloc\_mapped\_page,
  pmm\_alloc\_low\_page), of pfa\_free, pfa\_free\_contiguous and of sharing and
  copy-on-write release, in which clients give back only frames they hold. The frames the
  next operation hands out are disjoint from all frames held, none of them stores a part of
  the bitmap, and the frames not given back stay in use.
\<close>

theorem no_double_allocation:
  assumes "pool_reach pfa_step used_frames op_allowed op_gives s0 s H" and "pfa_ok 0 s0" and "op_allowed s op"
    and "op_gives op \<subseteq> H" and "pfa_step op s = (B, s')"
  shows "B \<inter> H = {} \<and> B \<inter> leaves s' = {} \<and> H - op_gives op \<subseteq> used_frames s'"
  using assms by (rule fp.fresh)

lemma small_alloc: "block (fst (find_free_frames small_example 1)) 1 \<noteq> {}"
proof -
  have t: "total_pages_managed small_example = 13" "kernel_reserved_frames small_example = 8"
    by (simp_all add: small_machine_def example_refs_def)
  have h: "ht_total example_refs = 13" by (simp add: example_refs_def)
  have "fst (find_free_frames small_example 1) \<noteq> 0"
  proof (rule find_free_frames_one [OF small_example_ok])
    show "(9 :: nat) \<in> free_frames small_example" unfolding small_free [OF h] small_example_free by simp
  qed (simp_all add: t small_has_leaf)
  then show ?thesis by (simp add: block_def)
qed

theorem no_double_allocation_witness:
  "\<exists>s H B s'. pool_reach pfa_step used_frames op_allowed op_gives small_example s H \<and> H \<noteq> {} \<and>
     pfa_step Op_alloc s = (B, s') \<and> B \<inter> H = {}"
proof -
  obtain B1 s1 where 1: "pfa_step Op_alloc small_example = (B1, s1)" by force
  obtain B2 s2 where 2: "pfa_step Op_alloc s1 = (B2, s2)" by force
  have r: "pool_reach pfa_step used_frames op_allowed op_gives small_example s1 B1"
    using reach_op [where op = Op_alloc, OF reach_start, of op_allowed small_example op_gives pfa_step B1 s1 used_frames] 1 by simp
  have "B1 \<noteq> {}" using 1 small_alloc by (auto simp: blocked_def drop_flag_def pfa_alloc_def split: prod.splits)
  moreover have "B2 \<inter> B1 = {}"
    using no_double_allocation [OF r small_example_ok _ _ 2] by simp
  ultimately show ?thesis using r 2 by (intro exI conjI) auto
qed


text \<open>
  C31. The count of free frames. In every state that such a history reaches, pfa\_count\_free
  returns the number of usable frames below bitmap\_entries\_used whose bit is clear, so
  that frames taken for leaves of the bitmap are counted as well.
\<close>

theorem free_count_exact:
  assumes "pool_reach pfa_step used_frames op_allowed op_gives s0 s H" and "pfa_ok 0 s0"
  shows "pfa_count_free s = of_nat (card {f. \<not> test_bit s f})"
proof -
  have "{f. \<not> test_bit s f} = free_frames s" by (simp add: test_bit_free)
  then show ?thesis using fp.reach_inv [OF assms] by (simp add: pfa_ok_def count_ok_def pfa_count_free_def)
qed

theorem free_count_exact_witness:
  "pfa_count_free small_example = of_nat (card {f. \<not> test_bit small_example f})"
  by (rule free_count_exact [OF reach_start small_example_ok])

text \<open>
  The scan by bytes is the scan by bits: over a range inside the bitmap, the search for
  one free frame, which skips full bytes, masks the bits before the start and after the end
  and counts trailing zeros, returns the first frame whose bit is clear.
\<close>

theorem scan_bytes_correct:
  assumes "frame_end \<le> bitmap_entries_used s"
  shows "scan_bytes s frame_end frame_idx = find (\<lambda>f. \<not> bitmap_test_raw s f) [frame_idx..<frame_end]"
  using assms by (rule scan_bytes_find)

theorem scan_bytes_correct_witness:
  "scan_bytes small_example 13 2 = find (\<lambda>f. \<not> bitmap_test_raw small_example f) [2..<13] \<and>
   scan_bytes small_example 13 2 = Some 9"
proof -
  have "scan_bytes small_example 13 2 = find (\<lambda>f. \<not> bitmap_test_raw small_example f) [2..<13]"
    by (rule scan_bytes_correct) (simp add: small_machine_def)
  moreover have raw: "bitmap_test_raw small_example f \<longleftrightarrow> f < 9" if "f < 13" for f
  proof -
    have "bitmap_test_raw small_example f \<longleftrightarrow> f \<in> used_frames small_example" by (simp add: used_frames_def)
    also have "\<dots> \<longleftrightarrow> f < 9" unfolding small_used bit_1_iff using that by auto
    finally show ?thesis .
  qed
  have "find (\<lambda>f. \<not> bitmap_test_raw small_example f) [2..<13] = Some 9"
    by (rule find_upt_first) (simp_all add: raw)
  ultimately show ?thesis by simp
qed

text \<open>
  C30. A free frame is found. When the leaves of the bitmap are in place and some frame of
  the managed memory above the kernel is free, pfa\_alloc returns a frame and asks for no
  memory to be relieved, wherever the search hint stands.
\<close>

theorem pfa_alloc_finds:
  assumes "pfa_ok 0 s" and "\<forall>f < total_pages_managed s. has_leaf s f" and "f \<in> free_frames s"
    and "kernel_reserved_frames s \<le> f" and "f < total_pages_managed s"
  shows "\<exists>r s'. pfa_alloc sched s = (r, False, s') \<and> r \<noteq> 0 \<and> r div PAGE_SIZE \<in> free_frames s \<and>
    r div PAGE_SIZE \<in> used_frames s'"
proof -
  obtain r s' where f: "find_free_frames s 1 = (r, s')" by force
  have r: "r \<noteq> 0" using find_free_frames_one [OF assms] f by simp
  have "takes s s' {r div PAGE_SIZE..<r div PAGE_SIZE + 1}"
    using find_free_frames [OF assms(1), of 1] f r by (simp add: allocates_def block_def)
  then have "r div PAGE_SIZE \<in> free_frames s" "r div PAGE_SIZE \<in> used_frames s'" by (auto simp: takes_def)
  then show ?thesis using f r by (simp add: pfa_alloc_def)
qed

theorem pfa_alloc_finds_witness:
  "\<exists>r s'. pfa_alloc True small_example = (r, False, s') \<and> r \<noteq> 0"
proof -
  have t: "total_pages_managed small_example = 13" "kernel_reserved_frames small_example = 8"
    by (simp_all add: small_machine_def example_refs_def)
  have "\<exists>r s'. pfa_alloc True small_example = (r, False, s') \<and> r \<noteq> 0 \<and> r div PAGE_SIZE \<in> free_frames small_example \<and>
    r div PAGE_SIZE \<in> used_frames s'"
  proof (rule pfa_alloc_finds [OF small_example_ok])
    show "(9 :: nat) \<in> free_frames small_example"
      using small_free [of example_refs] unfolding small_example_free by (simp add: example_refs_def)
  qed (simp_all add: t small_has_leaf)
  then show ?thesis by blast
qed

text \<open>
  Copy on write meets the allocator. Releasing one owner of a page in use that is not
  part of the bitmap makes its frame free exactly when it was the last owner according to
  the reference counts; with another owner left the frame stays in use. The allocator state
  stays well-formed in both cases.
\<close>

theorem cow_release_frees_last:
  assumes "pfa_ok 0 s" and "ht_ok (pf_refs s)" and "freeable s pa" and "pa < 2 ^ 64" and "pa \<noteq> 0"
    and "pa div PAGE_SIZE \<in> used_frames s - leaves s"
  shows "(pa div PAGE_SIZE \<in> free_frames (pfa_cow_release s pa) \<longleftrightarrow> own (pf_refs s) (of_nat pa div 4096) = 1) \<and>
    pfa_ok 0 (pfa_cow_release s pa)"
  using cow_release_last [OF assms] by blast

abbreviation small_full :: pfa where
  "small_full \<equiv> small_machine 3 10 3 example_refs"

lemma small_full_free: "{f. f < 13 \<and> 8 \<le> f \<and> \<not> bit (3 :: u8) (f - 8)} = {10, 11, 12 :: nat}"
proof -
  have m: "(3 :: u8) = mask 2" by (simp add: mask_eq_exp_minus_1)
  have b: "bit (3 :: u8) n \<longleftrightarrow> n < 2" for n unfolding m bit_mask_iff by auto
  show ?thesis unfolding b by auto
qed

theorem cow_release_frees_last_witness:
  "9 \<in> free_frames (pfa_cow_release small_full 0x9000)"
proof -
  have h: "ht_ok example_refs" "ht_total example_refs = 13" "ht_map example_refs = Map.empty"
    by (simp_all add: example_refs_def ht_ok_def ht_map_def ht_nodes_def)
  have "(3 :: u64) = of_nat (card {f. f < 13 \<and> 8 \<le> f \<and> \<not> bit (3 :: u8) (f - 8)})" unfolding small_full_free by simp
  from small_ok [OF h(2) _ this] have ok: "pfa_ok 0 small_full" by simp
  have r: "pf_refs small_full = example_refs" "kernel_reserved_frames small_full = 8" "pf_reserved small_full = []"
    by (simp_all add: small_machine_def)
  have "frame_is_usable small_full 9" using small_usable [of 9 example_refs] h by simp
  then have f: "freeable small_full 0x9000" by (simp add: freeable_def r h frame_is_reserved_def)
  have "(9 :: nat) \<notin> {f. f < 13 \<and> 8 \<le> f \<and> \<not> bit (3 :: u8) (f - 8)}" unfolding small_full_free by simp
  then have u: "0x9000 div PAGE_SIZE \<in> used_frames small_full - leaves small_full"
    unfolding small_used small_leaves by simp
  have "ht_ok (pf_refs small_full)" by (simp add: r h)
  from cow_release_frees_last [OF ok this f _ _ u] show ?thesis by (simp add: r own_def h)
qed


lemma find_run_none:
  assumes "2 \<le> num" and "\<And>x. a \<le> x \<Longrightarrow> x + num \<le> b \<Longrightarrow> \<not> {x..<x + num} \<subseteq> free_frames s"
  shows "find_free_frames_range s a b num = (0, s)"
proof (cases "scan_run s num b 0 a a")
  case None
  then show ?thesis using assms(1) by (simp add: find_free_frames_range_def find_free_frames_bitmap_def)
next
  case (Some x)
  from scan_run_sound [OF this, of a] assms show ?thesis by auto
qed

text \<open>
  C32. A run of free frames across the search hint is not found. If the only free frames of
  the managed memory are the two on either side of last\_alloc\_hint, a request for two
  frames fails although they are adjacent: find\_free\_frames searches from the hint to the
  end and from the kernel to the hint, and neither range holds the whole run.
\<close>

theorem hint_splits_free_run:
  assumes "free_frames s \<inter> {kernel_reserved_frames s..<total_pages_managed s} = {last_alloc_hint s - 1, last_alloc_hint s}"
    and "kernel_reserved_frames s < last_alloc_hint s" and "last_alloc_hint s < total_pages_managed s"
    and "cold_low_end_frame s \<le> cold_low_start_frame s" and "kernel_reclaim_hi s \<le> kernel_reclaim_lo s"
  shows "pmm_alloc_pages s 2 = (0, s) \<and> {last_alloc_hint s - 1..<last_alloc_hint s + 1} \<subseteq> free_frames s"
proof -
  let ?h = "last_alloc_hint s" and ?k = "kernel_reserved_frames s" and ?t = "total_pages_managed s"
  have fr: "f = ?h - 1 \<or> f = ?h" if "f \<in> free_frames s" "?k \<le> f" "f < ?t" for f
    using assms(1) that by (metis IntI atLeastLessThan_iff insertE singletonD)
  have pair: "{x..<x + 2} \<subseteq> free_frames s \<longleftrightarrow> x \<in> free_frames s \<and> x + 1 \<in> free_frames s" for x
  proof -
    have "{x..<x + 2} = {x, x + 1}" by auto
    then show ?thesis by simp
  qed
  have "find_free_frames_range s ?h ?t 2 = (0, s)"
  proof (rule find_run_none)
    fix x assume "?h \<le> x" "x + 2 \<le> ?t"
    then show "\<not> {x..<x + 2} \<subseteq> free_frames s" unfolding pair using fr [of "x + 1"] assms(2) by auto
  qed simp
  moreover have "find_free_frames_range s ?k ?h 2 = (0, s)"
  proof (rule find_run_none)
    fix x assume "?k \<le> x" "x + 2 \<le> ?h"
    then show "\<not> {x..<x + 2} \<subseteq> free_frames s" unfolding pair using fr [of x] assms(3) by auto
  qed simp
  ultimately have "pmm_alloc_pages s 2 = (0, s)"
    using assms(2-5) by (simp add: pmm_alloc_pages_def find_free_frames_def or_else_def Let_def)
  moreover have "{?h - 1..<?h + 1} = {?h - 1, ?h}" using assms(2) by auto
  ultimately show ?thesis using assms(1) by auto
qed

theorem hint_splits_free_run_witness:
  "fst (pmm_alloc_pages (small_machine 7 12 2 example_refs) 2) = 0 \<and> pfa_ok 0 (small_machine 7 12 2 example_refs) \<and>
   {11, 12} \<subseteq> free_frames (small_machine 7 12 2 example_refs)"
proof -
  let ?s = "small_machine 7 12 2 example_refs"
  have h: "ht_total example_refs = 13" by (simp add: example_refs_def)
  have m: "(7 :: u8) = mask 3" by (simp add: mask_eq_exp_minus_1)
  have b: "bit (7 :: u8) n \<longleftrightarrow> n < 3" for n unfolding m bit_mask_iff by auto
  have F: "{f. f < 13 \<and> 8 \<le> f \<and> \<not> bit (7 :: u8) (f - 8)} = {11, 12 :: nat}" unfolding b by auto
  have f: "free_frames ?s = {11, 12}" unfolding small_free [OF h] F by simp
  have "(2 :: u64) = of_nat (card {f. f < 13 \<and> 8 \<le> f \<and> \<not> bit (7 :: u8) (f - 8)})" unfolding F by simp
  from small_ok [OF h _ this] have ok: "pfa_ok 0 ?s" by simp
  have r: "kernel_reserved_frames ?s = 8" "total_pages_managed ?s = 13" "last_alloc_hint ?s = 12"
    "cold_low_end_frame ?s = 0" "cold_low_start_frame ?s = 0" "kernel_reclaim_hi ?s = 0" "kernel_reclaim_lo ?s = 0"
    by (simp_all add: small_machine_def h)
  have "pmm_alloc_pages ?s 2 = (0, ?s) \<and> {last_alloc_hint ?s - 1..<last_alloc_hint ?s + 1} \<subseteq> free_frames ?s"
    by (rule hint_splits_free_run) (auto simp: r f)
  then show ?thesis using ok f by simp
qed

end
