(* ===== verification/Vmm.thy ===== *)
theory Vmm
  imports Pfa_Pool
begin

text \<open>
  The user address spaces of kernel/arch/x86_64/mem/vmm_map.c: walking, mapping, protecting,
  unmapping and pruning four-level page tables, and copying to and from user memory.

  The entries of the page tables are a function of the physical address of a table and an
  index; the bytes of the other pages are the physical memory of the page frame allocator,
  whose state the operations carry, so that tables come from pmm\_alloc\_page and go back by
  pfa\_free. A page is reached through the direct mapping or a temporary one; both name the
  physical page. Translation caches, locks and messages are not modelled.

  Tables and bytes are kept apart: the contents of a page as a table are in vm\_table and its
  contents as data in the memory of the allocator. A copy to user memory changes data only, so the model
  cannot show what a copy would do to a page that is mapped for the user and in use as a table at
  the same time; the theorems on copies speak of the bytes and of unchanged tables in this sense only.
\<close>

unbundle bit_operations_syntax

abbreviation KERNEL_VMA :: u64 where "KERNEL_VMA \<equiv> 0xFFFFFFFF80000000"
abbreviation PTE_PRESENT :: u64 where "PTE_PRESENT \<equiv> 1"
abbreviation PTE_WRITE :: u64 where "PTE_WRITE \<equiv> 2"
abbreviation PTE_USER :: u64 where "PTE_USER \<equiv> 4"
abbreviation PTE_COW :: u64 where "PTE_COW \<equiv> 0x200"
abbreviation PTE_NX :: u64 where "PTE_NX \<equiv> 0x8000000000000000"
abbreviation PHYS_MASK :: u64 where "PHYS_MASK \<equiv> 0x000FFFFFFFFFF000"

type_synonym tables = "u64 \<Rightarrow> nat \<Rightarrow> u64"

record vmm =
  vm_table :: tables
  vm_pfa :: pfa

definition page_index :: "nat \<Rightarrow> u64 \<Rightarrow> nat" where
  "page_index shift virt_addr = unat (drop_bit shift virt_addr AND 0x1FF)"

definition set_entry :: "u64 \<Rightarrow> nat \<Rightarrow> u64 \<Rightarrow> tables \<Rightarrow> tables" where
  "set_entry t i e tbl = tbl(t := (tbl t)(i := e))"

subsection \<open>Walking\<close>

definition narrow_flags :: "u64 \<Rightarrow> u64 \<Rightarrow> u64" where
  "narrow_flags entry effective =
     (let e1 = (if entry AND PTE_WRITE = 0 then effective AND NOT PTE_WRITE else effective);
          e2 = (if entry AND PTE_USER = 0 then e1 AND NOT PTE_USER else e1)
      in if entry AND PTE_NX \<noteq> 0 then e2 OR PTE_NX else e2)"

text \<open>
  The loop over the levels: the leaf entry, the flags that hold on the whole path, and
  whether the leaf is a large page; None when a table is missing.
\<close>

fun walk_levels :: "tables \<Rightarrow> u64 \<Rightarrow> u64 \<Rightarrow> u64 \<Rightarrow> nat list \<Rightarrow> (u64 \<times> u64 \<times> bool) option" where
  "walk_levels tbl t virt_addr effective [] = None"
| "walk_levels tbl t virt_addr effective (shift # shifts) =
     (let entry = tbl t (page_index shift virt_addr) in
      if entry AND PTE_PRESENT = 0 then (if shift \<noteq> 12 then None else Some (entry, effective, False))
      else (let effective1 = narrow_flags entry effective in
            if shift = 21 \<and> entry AND 0x80 \<noteq> 0 then Some (entry, effective1, True)
            else if shifts = [] then Some (entry, effective1, False)
            else walk_levels tbl (entry AND PHYS_MASK) virt_addr effective1 shifts))"

text \<open>pt\_kernel\_walk\_leaf walks the tables of the kernel; its -1 is None here.\<close>

definition pt_kernel_walk_leaf :: "tables \<Rightarrow> u64 \<Rightarrow> u64 \<Rightarrow> u64 \<Rightarrow> (u64 \<times> u64 \<times> bool) option option" where
  "pt_kernel_walk_leaf tbl boot_pml4 pml4_phys virt_addr =
     (if pml4_phys AND NOT 0xFFF \<noteq> boot_pml4 \<or> virt_addr < KERNEL_VMA then None
      else Some (walk_levels tbl boot_pml4 virt_addr (PTE_PRESENT OR PTE_WRITE OR PTE_USER) [39, 30, 21, 12]))"

definition vmm_walk_leaf :: "tables \<Rightarrow> u64 \<Rightarrow> u64 \<Rightarrow> u64 \<Rightarrow> (u64 \<times> u64 \<times> bool) option" where
  "vmm_walk_leaf tbl boot_pml4 pml4_phys virt_addr =
     (case pt_kernel_walk_leaf tbl boot_pml4 pml4_phys virt_addr of
        Some r \<Rightarrow> r
      | None \<Rightarrow> walk_levels tbl (pml4_phys AND PHYS_MASK) virt_addr (PTE_PRESENT OR PTE_WRITE OR PTE_USER) [39, 30, 21, 12])"

definition vmm_get_phys_in_pml4 :: "tables \<Rightarrow> u64 \<Rightarrow> u64 \<Rightarrow> u64 \<Rightarrow> u64" where
  "vmm_get_phys_in_pml4 tbl boot pml4_phys virt_addr =
     (case vmm_walk_leaf tbl boot pml4_phys virt_addr of
        None \<Rightarrow> 0
      | Some (entry, effective, huge) \<Rightarrow>
          if entry AND PTE_PRESENT = 0 then 0
          else if huge
          then (let result = (entry AND 0x000FFFFFFFE00000) OR (virt_addr AND 0x1FFFFF) in if result = 0 then 1 else result)
          else entry AND PHYS_MASK)"

definition get_page_phys_in_pd :: "tables \<Rightarrow> u64 \<Rightarrow> u64 \<Rightarrow> u64 \<Rightarrow> u64" where
  "get_page_phys_in_pd tbl boot pd_phys virt_addr = vmm_get_phys_in_pml4 tbl boot pd_phys virt_addr"

definition vmm_get_user_page_in_pml4 :: "tables \<Rightarrow> u64 \<Rightarrow> u64 \<Rightarrow> u64 \<Rightarrow> bool \<Rightarrow> u64" where
  "vmm_get_user_page_in_pml4 tbl boot pml4_phys virt_addr write =
     (let required = (if write then PTE_PRESENT OR PTE_USER OR PTE_WRITE else PTE_PRESENT OR PTE_USER) in
      case vmm_walk_leaf tbl boot pml4_phys virt_addr of
        None \<Rightarrow> 0
      | Some (entry, effective, huge) \<Rightarrow>
          if entry AND PTE_PRESENT = 0 \<or> effective AND required \<noteq> required then 0
          else if huge then (entry AND 0x000FFFFFFFE00000) OR (virt_addr AND 0x1FF000)
          else entry AND PHYS_MASK)"

definition vmm_get_flags_in_pml4 :: "tables \<Rightarrow> u64 \<Rightarrow> u64 \<Rightarrow> u64 \<Rightarrow> u64" where
  "vmm_get_flags_in_pml4 tbl boot pml4_phys virt_addr =
     (case vmm_walk_leaf tbl boot pml4_phys virt_addr of
        None \<Rightarrow> 0
      | Some (entry, effective, huge) \<Rightarrow>
          if entry AND PTE_PRESENT = 0 then 0 else effective OR (entry AND (PTE_COW OR 0x400 OR 0x800)))"

subsection \<open>Protecting\<close>

definition widen_entry :: "u64 \<Rightarrow> nat \<Rightarrow> u64 \<Rightarrow> tables \<Rightarrow> tables" where
  "widen_entry t i flags tbl =
     (if tbl t i AND PTE_PRESENT \<noteq> 0 then set_entry t i (tbl t i OR (flags AND (PTE_WRITE OR PTE_USER))) tbl else tbl)"

definition vmm_protect_page_in_pml4 :: "tables \<Rightarrow> u64 \<Rightarrow> u64 \<Rightarrow> u64 \<Rightarrow> int \<times> tables" where
  "vmm_protect_page_in_pml4 tbl pml4_phys virt_addr flags =
     (if pml4_phys = 0 \<or> virt_addr \<ge> KERNEL_VMA then (-1, tbl)
      else (let i4 = page_index 39 virt_addr; e4 = tbl pml4_phys i4; tbl1 = widen_entry pml4_phys i4 flags tbl in
        if e4 AND PTE_PRESENT = 0 then (-1, tbl1)
        else (let t3 = e4 AND PHYS_MASK; i3 = page_index 30 virt_addr; e3 = tbl1 t3 i3; tbl2 = widen_entry t3 i3 flags tbl1 in
          if e3 AND PTE_PRESENT = 0 then (-1, tbl2)
          else (let t2 = e3 AND PHYS_MASK; i2 = page_index 21 virt_addr; e2 = tbl2 t2 i2; tbl3 = widen_entry t2 i2 flags tbl2 in
            if e2 AND PTE_PRESENT = 0 \<or> e2 AND 0x80 \<noteq> 0 then (-1, tbl3)
            else (let t1 = e2 AND PHYS_MASK; i1 = page_index 12 virt_addr; e1 = tbl3 t1 i1;
                      changed = PTE_PRESENT OR PTE_WRITE OR PTE_USER OR PTE_NX OR PTE_COW in
              if e1 AND PTE_PRESENT = 0 then (-1, tbl3)
              else (0, set_entry t1 i1 ((e1 AND NOT changed) OR (flags AND changed)) tbl3))))))"

fun protect_pages :: "tables \<Rightarrow> u64 \<Rightarrow> u64 list \<Rightarrow> u64 \<Rightarrow> int \<times> tables" where
  "protect_pages tbl pml4_phys [] flags = (0, tbl)"
| "protect_pages tbl pml4_phys (page # pages) flags =
     (case vmm_protect_page_in_pml4 tbl pml4_phys page flags of
        (r, tbl1) \<Rightarrow> if r < 0 then (-1, tbl1) else protect_pages tbl1 pml4_phys pages flags)"

text \<open>The pages from start up to finish, both page aligned.\<close>

definition page_range :: "u64 \<Rightarrow> u64 \<Rightarrow> u64 list" where
  "page_range start finish =
     map (\<lambda>i. start + of_nat i * 0x1000) [0..<(unat finish - unat start + 0xFFF) div 0x1000]"

definition page_down :: "u64 \<Rightarrow> u64" where
  "page_down a = a AND NOT 0xFFF"

definition vmm_protect_range_in_pml4 :: "tables \<Rightarrow> u64 \<Rightarrow> u64 \<Rightarrow> u64 \<Rightarrow> u64 \<Rightarrow> int \<times> tables" where
  "vmm_protect_range_in_pml4 tbl pml4_phys virt_addr sz flags =
     (if sz = 0 then (0, tbl)
      else if virt_addr \<ge> KERNEL_VMA \<or> sz > KERNEL_VMA - virt_addr then (-1, tbl)
      else (let start = page_down virt_addr; end0 = virt_addr + sz in
        if end0 AND 0xFFF \<noteq> 0 \<and> end0 > KERNEL_VMA - 0x1000 then (-1, tbl)
        else (let finish = (if end0 AND 0xFFF \<noteq> 0 then page_down (end0 + 0xFFF) else end0) in
          if finish < start \<or> finish > KERNEL_VMA then (-1, tbl)
          else protect_pages tbl pml4_phys (page_range start finish) flags)))"

subsection \<open>Unmapping and pruning\<close>

fun unmap_levels :: "tables \<Rightarrow> u64 \<Rightarrow> u64 \<Rightarrow> nat list \<Rightarrow> u64 \<times> u64 \<times> tables" where
  "unmap_levels tbl t virt_addr [] = (0, 0, tbl)"
| "unmap_levels tbl t virt_addr (shift # shifts) =
     (let i = page_index shift virt_addr; entry = tbl t i in
      if entry AND 1 = 0 \<or> (shift = 21 \<and> entry AND 0x80 \<noteq> 0) then (0, 0, tbl)
      else if shift = 12 then (entry AND PHYS_MASK, entry AND 0x8000000000000FFF, set_entry t i 0 tbl)
      else unmap_levels tbl (entry AND PHYS_MASK) virt_addr shifts)"

text \<open>The physical page, the flags of its entry, and the tables.\<close>

definition vmm_unmap_page_in_pml4_flags :: "tables \<Rightarrow> u64 \<Rightarrow> u64 \<Rightarrow> u64 \<times> u64 \<times> tables" where
  "vmm_unmap_page_in_pml4_flags tbl pml4_phys virt_addr = unmap_levels tbl pml4_phys virt_addr [39, 30, 21, 12]"

definition vmm_unmap_page_in_pml4 :: "tables \<Rightarrow> u64 \<Rightarrow> u64 \<Rightarrow> u64 \<times> tables" where
  "vmm_unmap_page_in_pml4 tbl pml4_phys virt_addr =
     (case vmm_unmap_page_in_pml4_flags tbl pml4_phys virt_addr of (phys, fl, tbl') \<Rightarrow> (phys, tbl'))"

definition vmm_table_empty :: "tables \<Rightarrow> u64 \<Rightarrow> bool" where
  "vmm_table_empty tbl table_phys = list_all (\<lambda>i. tbl table_phys i AND 1 = 0) [0..<512]"

definition vmm_user_pml4_limit :: nat where
  "vmm_user_pml4_limit = unat (drop_bit 39 KERNEL_VMA AND 0x1FF)"

text \<open>
  Tables to be freed are chained through their first entry; the list is the chain from its
  head.
\<close>

definition vmm_defer_table_free :: "u64 list \<times> tables \<Rightarrow> u64 \<Rightarrow> u64 list \<times> tables" where
  "vmm_defer_table_free d table_phys =
     (case d of (chain, tbl) \<Rightarrow>
        (table_phys # chain, set_entry table_phys 0 (case chain of [] \<Rightarrow> 0 | h # hs \<Rightarrow> h) tbl))"

definition vmm_free_deferred_tables :: "u64 list \<Rightarrow> vmm \<Rightarrow> vmm" where
  "vmm_free_deferred_tables chain s =
     foldl (\<lambda>s t. s\<lparr>vm_table := set_entry t 0 0 (vm_table s), vm_pfa := pfa_free (vm_pfa s) (unat t)\<rparr>) s chain"

definition clear_if_empty :: "u64 \<Rightarrow> nat \<Rightarrow> u64 \<Rightarrow> u64 list \<times> tables \<Rightarrow> u64 list \<times> tables" where
  "clear_if_empty t i child d =
     (case d of (chain, tbl) \<Rightarrow>
        if vmm_table_empty tbl child then vmm_defer_table_free (chain, set_entry t i 0 tbl) child else d)"

definition prune_at :: "u64 \<Rightarrow> u64 \<Rightarrow> u64 list \<times> tables \<Rightarrow> u64 list \<times> tables" where
  "prune_at pml4_phys v d =
     (let tbl = snd d; pml4e = tbl pml4_phys (page_index 39 v) in
      if pml4e AND 1 = 0 then d
      else (let pdpt_phys = pml4e AND PHYS_MASK; pdpte = tbl pdpt_phys (page_index 30 v) in
        if pdpte AND 1 = 0 then d
        else (let pd_phys = pdpte AND PHYS_MASK; pde = tbl pd_phys (page_index 21 v);
                  d1 = (if pde AND 1 \<noteq> 0 \<and> pde AND 0x80 = 0
                        then clear_if_empty pd_phys (page_index 21 v) (pde AND PHYS_MASK) d else d);
                  d2 = clear_if_empty pdpt_phys (page_index 30 v) pd_phys d1
              in clear_if_empty pml4_phys (page_index 39 v) pdpt_phys d2)))"

function prune_from :: "u64 \<Rightarrow> nat \<Rightarrow> nat \<Rightarrow> u64 list \<times> tables \<Rightarrow> u64 list \<times> tables" where
  "prune_from pml4_phys v finish d =
     (if v < finish
      then (if page_index 39 (of_nat v) \<ge> vmm_user_pml4_limit then d
            else prune_from pml4_phys ((v div 0x200000 + 1) * 0x200000) finish (prune_at pml4_phys (of_nat v) d))
      else d)"
  by pat_completeness auto
termination
proof (relation "measure (\<lambda>(pml4_phys, v, finish, d). finish - v)", goal_cases)
  case (2 pml4_phys v finish d)
  have "v < (v div 0x200000 + 1) * 0x200000" using dividend_less_div_times [of "0x200000" v] by simp
  with 2 show ?case by simp
qed simp

declare prune_from.simps [simp del]

definition vmm_prune_user_range :: "vmm \<Rightarrow> u64 \<Rightarrow> u64 \<Rightarrow> u64 \<Rightarrow> vmm" where
  "vmm_prune_user_range s pml4_phys virt_addr sz =
     (if pml4_phys = 0 \<or> sz = 0 then s
      else if virt_addr \<ge> KERNEL_VMA then s
      else (let start = page_down virt_addr; end0 = page_down (virt_addr + sz + 0xFFF);
                finish = (if end0 < start \<or> end0 > KERNEL_VMA then KERNEL_VMA else end0);
                (chain, tbl) = prune_from pml4_phys (unat start) (unat finish) ([], vm_table s)
            in vmm_free_deferred_tables chain (s\<lparr>vm_table := tbl\<rparr>)))"

subsection \<open>Counting\<close>

definition present_entries :: "tables \<Rightarrow> u64 \<Rightarrow> nat \<Rightarrow> u64 list" where
  "present_entries tbl t n = filter (\<lambda>e. e AND 1 \<noteq> 0) (map (tbl t) [0..<n])"

definition vmm_count_user_page_tables :: "tables \<Rightarrow> u64 \<Rightarrow> nat" where
  "vmm_count_user_page_tables tbl pml4_phys =
     (if pml4_phys = 0 then 0
      else sum_list (map (\<lambda>pml4e. 1 +
             sum_list (map (\<lambda>pdpte. 1 + length (filter (\<lambda>pde. pde AND 0x80 = 0) (present_entries tbl (pdpte AND PHYS_MASK) 512)))
               (present_entries tbl (pml4e AND PHYS_MASK) 512)))
             (present_entries tbl pml4_phys vmm_user_pml4_limit)))"

text \<open>
  The indexes a level of the count goes through: up to the first block at or after the end,
  leaving out the blocks that end before the start.
\<close>

definition block_indexes :: "nat \<Rightarrow> nat \<Rightarrow> nat \<Rightarrow> nat \<Rightarrow> nat \<Rightarrow> nat list" where
  "block_indexes start finish base shift n =
     filter (\<lambda>i. \<not> base + i * 2 ^ shift + 2 ^ shift \<le> start) (takeWhile (\<lambda>i. base + i * 2 ^ shift < finish) [0..<n])"

definition count_table_pages :: "tables \<Rightarrow> nat \<Rightarrow> nat \<Rightarrow> nat \<Rightarrow> u64 \<Rightarrow> nat" where
  "count_table_pages tbl start finish base pt =
     length (filter (\<lambda>i. \<not> base + i * 2 ^ 12 < start \<and> tbl pt i AND 1 \<noteq> 0)
       (takeWhile (\<lambda>i. base + i * 2 ^ 12 < finish) [0..<512]))"

definition count_directory_pages :: "tables \<Rightarrow> nat \<Rightarrow> nat \<Rightarrow> nat \<Rightarrow> u64 \<Rightarrow> nat" where
  "count_directory_pages tbl start finish base pd =
     sum_list (map (\<lambda>i. let pde = tbl pd i; b = base + i * 2 ^ 21 in
         if pde AND 1 = 0 then 0
         else if pde AND 0x80 \<noteq> 0 then (min finish (b + 2 ^ 21) - max start b) div 2 ^ 12
         else count_table_pages tbl start finish b (pde AND PHYS_MASK))
       (block_indexes start finish base 21 512))"

definition vmm_count_present_pages_in_range :: "tables \<Rightarrow> u64 \<Rightarrow> u64 \<Rightarrow> u64 \<Rightarrow> nat" where
  "vmm_count_present_pages_in_range tbl pml4_phys start0 end0 =
     (if pml4_phys = 0 \<or> end0 \<le> start0 then 0
      else (let start1 = page_down start0; end1 = page_down (end0 + 0xFFF);
                end2 = (if end1 > KERNEL_VMA \<or> end1 < start1 then KERNEL_VMA else end1) in
        if start1 \<ge> end2 then 0
        else (let start = unat start1; finish = unat end2 in
          sum_list (map (\<lambda>i. let pml4e = tbl pml4_phys i; b4 = i * 2 ^ 39 in
              if pml4e AND 1 = 0 then 0
              else sum_list (map (\<lambda>j. let pdpte = tbl (pml4e AND PHYS_MASK) j in
                     if pdpte AND 1 = 0 then 0
                     else count_directory_pages tbl start finish (b4 + j * 2 ^ 30) (pdpte AND PHYS_MASK))
                   (block_indexes start finish b4 30 512)))
            (block_indexes start finish 0 39 vmm_user_pml4_limit)))))"

subsection \<open>Mapping\<close>

definition zero_page :: "u64 \<Rightarrow> vmm \<Rightarrow> vmm" where
  "zero_page phys s =
     s\<lparr>vm_table := (vm_table s)(phys AND PHYS_MASK := (\<lambda>i. 0)), vm_pfa := pmm_zero_page_phys True (vm_pfa s) (unat phys)\<rparr>"

text \<open>The table below an entry, made when there is none; None when no page is left for it.\<close>

definition ensure_table :: "vmm \<Rightarrow> u64 \<Rightarrow> nat \<Rightarrow> u64 \<Rightarrow> u64 option \<times> vmm" where
  "ensure_table s t i flags =
     (let entry = vm_table s t i in
      if entry AND 1 = 0
      then (case pmm_alloc_page (vm_pfa s) of
              (new_page, p) \<Rightarrow>
                if new_page = 0 then (None, s\<lparr>vm_pfa := p\<rparr>)
                else (let phys = of_nat new_page; s1 = zero_page phys (s\<lparr>vm_pfa := p\<rparr>)
                      in (Some phys, s1\<lparr>vm_table := set_entry t i ((phys AND PHYS_MASK) OR ((flags AND 7) OR 1)) (vm_table s1)\<rparr>)))
      else (Some (entry AND PHYS_MASK),
            if (flags AND 7) AND NOT (entry AND 7) \<noteq> 0
            then s\<lparr>vm_table := set_entry t i (entry OR (flags AND 7)) (vm_table s)\<rparr> else s))"

definition vmm_map_page_in_pml4 :: "vmm \<Rightarrow> u64 \<Rightarrow> u64 \<Rightarrow> u64 \<Rightarrow> u64 \<Rightarrow> int \<times> vmm" where
  "vmm_map_page_in_pml4 s pml4_phys virt_addr phys_addr flags0 =
     (let flags = (if virt_addr \<ge> KERNEL_VMA then flags0 AND NOT 4 else flags0) in
      case ensure_table s pml4_phys (page_index 39 virt_addr) flags of
        (None, s1) \<Rightarrow> (-1, s1)
      | (Some pdpt_phys, s1) \<Rightarrow>
          (case ensure_table s1 pdpt_phys (page_index 30 virt_addr) flags of
             (None, s2) \<Rightarrow> (-1, vmm_prune_user_range s2 pml4_phys virt_addr 0x1000)
           | (Some pd_phys, s2) \<Rightarrow>
               (case ensure_table s2 pd_phys (page_index 21 virt_addr) flags of
                  (None, s3) \<Rightarrow> (-1, vmm_prune_user_range s3 pml4_phys virt_addr 0x1000)
                | (Some pt_phys, s3) \<Rightarrow>
                    (0, s3\<lparr>vm_table := set_entry pt_phys (page_index 12 virt_addr)
                              ((phys_addr AND PHYS_MASK) OR (flags AND 0x8000000000000FFF)) (vm_table s3)\<rparr>))))"

definition free_page :: "u64 \<Rightarrow> vmm \<Rightarrow> vmm" where
  "free_page phys s = s\<lparr>vm_pfa := pfa_free (vm_pfa s) (unat phys)\<rparr>"

definition unmap_free :: "u64 \<Rightarrow> vmm \<Rightarrow> u64 \<Rightarrow> vmm" where
  "unmap_free pd_phys s v =
     (case vmm_unmap_page_in_pml4 (vm_table s) pd_phys v of
        (phys, tbl) \<Rightarrow> let s1 = s\<lparr>vm_table := tbl\<rparr> in if phys \<noteq> 0 then free_page phys s1 else s1)"

text \<open>Mapping one page after the other; on failure the pages mapped so far, last one first.\<close>

fun map_pages :: "vmm \<Rightarrow> u64 \<Rightarrow> u64 list \<Rightarrow> u64 \<Rightarrow> u64 list \<Rightarrow> u64 list option \<times> vmm" where
  "map_pages s pd_phys [] flags done_pages = (None, s)"
| "map_pages s pd_phys (v # vs) flags done_pages =
     (case pfa_alloc False (vm_pfa s) of
        (page, fl, p) \<Rightarrow>
          if page = 0 then (Some done_pages, s\<lparr>vm_pfa := p\<rparr>)
          else (case vmm_map_page_in_pml4 (zero_page (of_nat page) (s\<lparr>vm_pfa := p\<rparr>)) pd_phys v (of_nat page) flags of
                  (r, s2) \<Rightarrow>
                    if r < 0 then (Some done_pages, free_page (of_nat page) s2)
                    else map_pages s2 pd_phys vs flags (v # done_pages)))"

definition vmm_map_range_in_pml4 :: "vmm \<Rightarrow> u64 \<Rightarrow> u64 \<Rightarrow> u64 \<Rightarrow> u64 \<Rightarrow> vmm" where
  "vmm_map_range_in_pml4 s pd_phys virt_addr sz flags0 =
     (if sz = 0 then s
      else if sz > 0xFFFFFFFFFFFFFFFF - virt_addr then s
      else (let mapped = virt_addr + sz in
        if mapped > 0xFFFFFFFFFFFFFFFF - 0xFFF then s
        else (let start = page_down virt_addr; finish = page_down (mapped + 0xFFF);
                  flags = (if start \<ge> KERNEL_VMA then flags0 AND NOT 4 else flags0)
              in case map_pages s pd_phys (page_range start finish) flags [] of
                   (None, s1) \<Rightarrow> s1
                 | (Some done_pages, s1) \<Rightarrow>
                     vmm_prune_user_range (foldl (unmap_free pd_phys) s1 done_pages) pd_phys start (finish - start))))"

text \<open>
  The version that returns the list of its pages: the pages mapped in order and, on failure,
  how many pages beyond them the final pruning covers.
\<close>

fun map_tracked :: "vmm \<Rightarrow> u64 \<Rightarrow> u64 list \<Rightarrow> u64 \<Rightarrow> u64 list \<Rightarrow> nat option \<times> u64 list \<times> vmm" where
  "map_tracked s pd_phys [] flags pages = (None, pages, s)"
| "map_tracked s pd_phys (v # vs) flags pages =
     (case pfa_alloc False (vm_pfa s) of
        (page, fl, p) \<Rightarrow>
          if page = 0 then (Some 0, pages, s\<lparr>vm_pfa := p\<rparr>)
          else (case vmm_map_page_in_pml4 (zero_page (of_nat page) (s\<lparr>vm_pfa := p\<rparr>)) pd_phys v (of_nat page) flags of
                  (r, s2) \<Rightarrow>
                    if r < 0 then (Some 1, pages, free_page (of_nat page) s2)
                    else map_tracked s2 pd_phys vs flags (pages @ [of_nat page])))"

definition take_back :: "u64 \<Rightarrow> vmm \<Rightarrow> u64 \<times> u64 \<Rightarrow> vmm" where
  "take_back pd_phys s vp =
     free_page (snd vp) (s\<lparr>vm_table := snd (vmm_unmap_page_in_pml4 (vm_table s) pd_phys (fst vp))\<rparr>)"

text \<open>The array of pages, whose length is the count stored; None is the null pointer, with count 0.\<close>

definition vmm_map_range_in_pml4_tracked :: "bool \<Rightarrow> vmm \<Rightarrow> u64 \<Rightarrow> u64 \<Rightarrow> u64 \<Rightarrow> u64 \<Rightarrow> u64 list option \<times> vmm" where
  "vmm_map_range_in_pml4_tracked kmalloc_ok s pd_phys virt_addr sz flags0 =
     (if sz = 0 then (None, s)
      else if sz > 0xFFFFFFFFFFFFFFFF - virt_addr then (None, s)
      else (let mapped = virt_addr + sz in
        if mapped > 0xFFFFFFFFFFFFFFFF - 0xFFF then (None, s)
        else (let start = page_down virt_addr; finish = page_down (mapped + 0xFFF);
                  flags = (if start \<ge> KERNEL_VMA then flags0 AND NOT 4 else flags0) in
          if \<not> kmalloc_ok then (None, s)
          else (case map_tracked s pd_phys (page_range start finish) flags [] of
                  (None, pages, s1) \<Rightarrow> (Some pages, s1)
                | (Some extra, pages, s1) \<Rightarrow>
                    (None, vmm_prune_user_range (foldl (take_back pd_phys) s1 (zip (page_range start finish) pages))
                       pd_phys start (of_nat (length pages + extra) * 0x1000))))))"

subsection \<open>Copying\<close>

text \<open>
  One step of a copy stays in one page: the number of bytes up to the end of the page or of
  the request.
\<close>

definition copy_chunk :: "u64 \<Rightarrow> nat \<Rightarrow> nat" where
  "copy_chunk a remaining = min (4096 - unat (a AND 0xFFF)) remaining"

definition page_byte :: "u64 \<Rightarrow> u64 \<Rightarrow> nat" where
  "page_byte page_phys a = unat (page_down page_phys) + unat (a AND 0xFFF)"

definition store_bytes :: "nat \<Rightarrow> u8 list \<Rightarrow> (nat \<Rightarrow> u8) \<Rightarrow> nat \<Rightarrow> u8" where
  "store_bytes a bs mem = (\<lambda>x. if a \<le> x \<and> x < a + length bs then bs ! (x - a) else mem x)"

definition load_bytes :: "nat \<Rightarrow> nat \<Rightarrow> (nat \<Rightarrow> u8) \<Rightarrow> u8 list" where
  "load_bytes a n mem = map (\<lambda>i. mem (a + i)) [0..<n]"

lemma copy_chunk_pos: "0 < n \<Longrightarrow> 0 < copy_chunk a n \<and> copy_chunk a n \<le> n"
proof -
  assume "0 < n"
  have "a AND 0xFFF \<le> 0xFFF" by (rule word_and_le1)
  then have "unat (a AND 0xFFF) \<le> 0xFFF" by (simp add: word_le_nat_alt)
  with \<open>0 < n\<close> show ?thesis by (simp add: copy_chunk_def)
qed

function copy_out :: "(u64 \<Rightarrow> u64) \<Rightarrow> u64 \<Rightarrow> u8 list \<Rightarrow> (nat \<Rightarrow> u8) \<Rightarrow> nat \<Rightarrow> u8" where
  "copy_out page_of a bs mem =
     (if bs = [] then mem
      else (let n = copy_chunk a (length bs); page_phys = page_of (page_down a) in
            if page_phys = 0 then mem
            else copy_out page_of (a + of_nat n) (drop n bs) (store_bytes (page_byte page_phys a) (take n bs) mem)))"
  by pat_completeness auto
termination
  by (relation "measure (\<lambda>(page_of, a, bs, mem). length bs)") (auto simp: copy_chunk_pos)

function copy_in :: "(u64 \<Rightarrow> u64) \<Rightarrow> u64 \<Rightarrow> nat \<Rightarrow> (nat \<Rightarrow> u8) \<Rightarrow> u8 list" where
  "copy_in page_of a sz mem =
     (if sz = 0 then []
      else (let n = copy_chunk a sz; page_phys = page_of (page_down a) in
            if page_phys = 0 then []
            else load_bytes (page_byte page_phys a) n mem @ copy_in page_of (a + of_nat n) (sz - n) mem))"
  by pat_completeness auto
termination
  by (relation "measure (\<lambda>(page_of, a, sz, mem). sz)") (auto simp: copy_chunk_pos)

declare copy_out.simps [simp del] copy_in.simps [simp del]

definition vmm_copy_to_pml4 :: "u64 \<Rightarrow> vmm \<Rightarrow> u64 \<Rightarrow> u64 \<Rightarrow> u8 list \<Rightarrow> vmm" where
  "vmm_copy_to_pml4 boot s pd_phys dest_virt bs =
     s\<lparr>vm_pfa := (vm_pfa s)\<lparr>pf_mem := copy_out (get_page_phys_in_pd (vm_table s) boot pd_phys) dest_virt bs (pf_mem (vm_pfa s))\<rparr>\<rparr>"

text \<open>The bytes read: all of them, or those before the first page that is not mapped.\<close>

definition vmm_read_from_pml4 :: "u64 \<Rightarrow> vmm \<Rightarrow> u64 \<Rightarrow> u64 \<Rightarrow> nat \<Rightarrow> u8 list" where
  "vmm_read_from_pml4 boot s pd_phys src_virt sz =
     copy_in (get_page_phys_in_pd (vm_table s) boot pd_phys) src_virt sz (pf_mem (vm_pfa s))"

definition vmm_access_user_write :: "u64 \<Rightarrow> vmm \<Rightarrow> u64 \<Rightarrow> u64 \<Rightarrow> u8 list \<Rightarrow> int \<times> vmm" where
  "vmm_access_user_write boot s pml4_phys addr bs =
     (if addr \<ge> KERNEL_VMA \<or> length bs > unat (KERNEL_VMA - addr) then (-1, s)
      else (let page_of = (\<lambda>v. vmm_get_user_page_in_pml4 (vm_table s) boot pml4_phys v True) in
            (if length (copy_in page_of addr (length bs) (pf_mem (vm_pfa s))) = length bs then 0 else -1,
             s\<lparr>vm_pfa := (vm_pfa s)\<lparr>pf_mem := copy_out page_of addr bs (pf_mem (vm_pfa s))\<rparr>\<rparr>)))"

definition vmm_access_user_read :: "u64 \<Rightarrow> vmm \<Rightarrow> u64 \<Rightarrow> u64 \<Rightarrow> nat \<Rightarrow> int \<times> u8 list" where
  "vmm_access_user_read boot s pml4_phys addr sz =
     (if addr \<ge> KERNEL_VMA \<or> sz > unat (KERNEL_VMA - addr) then (-1, [])
      else (let bs = copy_in (\<lambda>v. vmm_get_user_page_in_pml4 (vm_table s) boot pml4_phys v False) addr sz (pf_mem (vm_pfa s))
            in (if length bs = sz then 0 else -1, bs)))"

end
