(* ===== verification/Vmm_Tree.thy ===== *)
theory Vmm_Tree
  imports Vmm
begin

text \<open>
  The user part of an address space as a tree of tables: the table a path of indexes leads
  to, the pages it maps, and what one changed entry does to them.
\<close>

unbundle bit_operations_syntax

subsection \<open>Entries\<close>

lemma phys_mask_idem [simp]: "x AND PHYS_MASK AND PHYS_MASK = x AND PHYS_MASK"
  by (simp add: and.assoc)

lemma phys_mask_present [simp]: "x AND PHYS_MASK AND 1 = 0" "x AND PHYS_MASK AND 0x80 = 0"
  by (simp_all add: and.assoc)

lemma table_entry:
  "((phys AND PHYS_MASK) OR ((flags AND 7) OR 1)) AND 1 \<noteq> 0"
  "((phys AND PHYS_MASK) OR ((flags AND 7) OR 1)) AND PHYS_MASK = phys AND PHYS_MASK"
  "((phys AND PHYS_MASK) OR ((flags AND 7) OR 1)) AND 0x80 = 0" for phys flags :: u64
proof -
  have "bit (((phys AND PHYS_MASK) OR ((flags AND 7) OR 1)) AND 1) 0" by (simp add: bit_or_iff bit_and_iff)
  then show "((phys AND PHYS_MASK) OR ((flags AND 7) OR 1)) AND 1 \<noteq> 0" by auto
  show "((phys AND PHYS_MASK) OR ((flags AND 7) OR 1)) AND PHYS_MASK = phys AND PHYS_MASK"
    "((phys AND PHYS_MASK) OR ((flags AND 7) OR 1)) AND 0x80 = 0"
    by (simp_all add: bit.conj_disj_distrib2 and.assoc)
qed

lemma widened_entry:
  "(e OR (flags AND 7)) AND PHYS_MASK = e AND PHYS_MASK" "(e OR (flags AND 7)) AND 0x80 = e AND 0x80"
  "e AND 1 \<noteq> 0 \<Longrightarrow> (e OR (flags AND 7)) AND 1 \<noteq> 0"
  "(e OR (flags AND 6)) AND PHYS_MASK = e AND PHYS_MASK" "(e OR (flags AND 6)) AND 0x80 = e AND 0x80"
  "(e OR (flags AND 6)) AND 1 = e AND 1" for e flags :: u64
proof -
  show "e AND 1 \<noteq> 0 \<Longrightarrow> (e OR (flags AND 7)) AND 1 \<noteq> 0" by (simp add: and_one_eq even_or_iff mod_2_eq_odd)
qed (simp_all add: bit.conj_disj_distrib2 and.assoc)

lemma leaf_entry_parts:
  "((phys AND PHYS_MASK) OR (flags AND 0x8000000000000FFF)) AND PHYS_MASK = phys AND PHYS_MASK"
  "((phys AND PHYS_MASK) OR (flags AND 0x8000000000000FFF)) AND 1 = flags AND 1" for phys flags :: u64
  by (simp_all add: bit.conj_disj_distrib2 and.assoc)

lemma page_index_less [simp]: "page_index shift v < 512"
proof -
  have "drop_bit shift v AND 0x1FF \<le> 0x1FF" by (rule word_and_le1)
  then have "unat (drop_bit shift v AND 0x1FF) \<le> 0x1FF" by (simp add: word_le_nat_alt)
  then show ?thesis by (simp add: page_index_def)
qed

lemma user_limit [simp]: "vmm_user_pml4_limit = 511"
  by (simp add: vmm_user_pml4_limit_def drop_bit_eq_div)

lemma set_entry_apply: "set_entry x j e tbl y k = (if y = x \<and> k = j then e else tbl y k)"
  by (simp add: set_entry_def)

subsection \<open>Paths\<close>

fun table_at :: "tables \<Rightarrow> u64 \<Rightarrow> nat list \<Rightarrow> u64 option" where
  "table_at tbl t [] = Some t"
| "table_at tbl t (i # p) = (if tbl t i AND 1 = 0 then None else table_at tbl (tbl t i AND PHYS_MASK) p)"

definition user_paths :: "nat list set" where
  "user_paths = {p. length p \<le> 3 \<and> (\<forall>i\<in>set p. i < 512) \<and> (p \<noteq> [] \<longrightarrow> hd p < vmm_user_pml4_limit)}"

definition tables_of :: "tables \<Rightarrow> u64 \<Rightarrow> u64 set" where
  "tables_of tbl t = {x. \<exists>p\<in>user_paths. table_at tbl t p = Some x}"

definition page_path :: "u64 \<Rightarrow> nat list" where
  "page_path v = [page_index 39 v, page_index 30 v, page_index 21 v]"

definition page_key :: "u64 \<Rightarrow> nat list" where
  "page_key v = page_path v @ [page_index 12 v]"

definition user_addr :: "u64 \<Rightarrow> bool" where
  "user_addr v \<longleftrightarrow> page_index 39 v < vmm_user_pml4_limit"

text \<open>The entry that maps the page of an address, when the address is mapped.\<close>

definition user_page :: "tables \<Rightarrow> u64 \<Rightarrow> u64 \<Rightarrow> u64 option" where
  "user_page tbl t v =
     (case table_at tbl t (page_path v) of
        None \<Rightarrow> None
      | Some x \<Rightarrow> if tbl x (page_index 12 v) AND 1 = 0 then None else Some (tbl x (page_index 12 v)))"

definition same_link :: "u64 \<Rightarrow> u64 \<Rightarrow> bool" where
  "same_link e e' \<longleftrightarrow> (e AND 1 = 0) = (e' AND 1 = 0) \<and> (e AND 1 \<noteq> 0 \<longrightarrow> e AND PHYS_MASK = e' AND PHYS_MASK)"

lemma same_link_refl [simp]: "same_link e e"
  by (simp add: same_link_def)

lemma table_at_append: "table_at tbl t (p @ q) = (case table_at tbl t p of None \<Rightarrow> None | Some x \<Rightarrow> table_at tbl x q)"
  by (induction tbl t p rule: table_at.induct) auto

lemma table_at_snoc: "table_at tbl t p = Some x \<Longrightarrow>
    table_at tbl t (p @ [i]) = (if tbl x i AND 1 = 0 then None else Some (tbl x i AND PHYS_MASK))"
  by (simp add: table_at_append)

lemma user_paths_Nil [simp]: "[] \<in> user_paths"
  by (simp add: user_paths_def)

lemma user_paths_prefix: "p @ q \<in> user_paths \<Longrightarrow> p \<in> user_paths"
  by (cases p) (auto simp: user_paths_def)

lemma page_path_user: "user_addr v \<Longrightarrow> page_path v \<in> user_paths"
  by (simp add: user_paths_def page_path_def user_addr_def)

lemma root_table [simp]: "t \<in> tables_of tbl t"
  unfolding tables_of_def using user_paths_Nil by (auto intro!: bexI [of _ "[]"])

lemma table_in: "p \<in> user_paths \<Longrightarrow> table_at tbl t p = Some x \<Longrightarrow> x \<in> tables_of tbl t"
  by (auto simp: tables_of_def)

text \<open>A path leads to the same table when the entries on it do.\<close>

lemma table_at_cong:
  assumes "\<And>r k q y. p = r @ k # q \<Longrightarrow> table_at tbl t r = Some y \<Longrightarrow> same_link (tbl y k) (tbl' y k)"
  shows "table_at tbl' t p = table_at tbl t p"
  using assms
proof (induction p arbitrary: t)
  case (Cons i p)
  have e: "same_link (tbl t i) (tbl' t i)" using Cons.prems [of "[]" i p t] by simp
  show ?case
  proof (cases "tbl t i AND 1 = 0")
    case False
    have "table_at tbl' (tbl t i AND PHYS_MASK) p = table_at tbl (tbl t i AND PHYS_MASK) p"
    proof (rule Cons.IH)
      fix r k q y assume "p = r @ k # q" and "table_at tbl (tbl t i AND PHYS_MASK) r = Some y"
      then show "same_link (tbl y k) (tbl' y k)" using Cons.prems [of "i # r" k q y] False by simp
    qed
    then show ?thesis using e False by (auto simp: same_link_def)
  qed (use e in \<open>auto simp: same_link_def\<close>)
qed simp

subsection \<open>Trees\<close>

text \<open>No table is reached by two paths, and no page directory has a large page.\<close>

definition tree_ok :: "tables \<Rightarrow> u64 \<Rightarrow> bool" where
  "tree_ok tbl t \<longleftrightarrow>
     (\<forall>p\<in>user_paths. \<forall>q\<in>user_paths. \<forall>x. table_at tbl t p = Some x \<longrightarrow> table_at tbl t q = Some x \<longrightarrow> p = q) \<and>
     (\<forall>p\<in>user_paths. \<forall>x. length p = 2 \<longrightarrow> table_at tbl t p = Some x \<longrightarrow>
        (\<forall>i < 512. tbl x i AND 1 \<noteq> 0 \<longrightarrow> tbl x i AND 0x80 = 0))"

lemma tree_inj: "tree_ok tbl t \<Longrightarrow> p \<in> user_paths \<Longrightarrow> q \<in> user_paths \<Longrightarrow> table_at tbl t p = Some x \<Longrightarrow>
    table_at tbl t q = Some x \<Longrightarrow> p = q"
  unfolding tree_ok_def by blast

lemma tree_small: "tree_ok tbl t \<Longrightarrow> [a, b] \<in> user_paths \<Longrightarrow> table_at tbl t [a, b] = Some x \<Longrightarrow> i < 512 \<Longrightarrow>
    tbl x i AND 1 \<noteq> 0 \<Longrightarrow> tbl x i AND 0x80 = 0"
  unfolding tree_ok_def by (metis length_Cons list.size(3) numeral_2_eq_2)

text \<open>A table outside the tree does not matter.\<close>

lemma outside_path:
  assumes "x \<notin> tables_of tbl t" and "p \<in> user_paths" and "\<forall>y. y \<noteq> x \<longrightarrow> tbl' y = tbl y"
  shows "table_at tbl' t p = table_at tbl t p"
proof (rule table_at_cong)
  fix r k q y assume "p = r @ k # q" and r: "table_at tbl t r = Some y"
  then have "r \<in> user_paths" using assms(2) user_paths_prefix by blast
  then have "y \<noteq> x" using assms(1) table_in r by blast
  then show "same_link (tbl y k) (tbl' y k)" using assms(3) by simp
qed

text \<open>One changed entry changes the paths through it.\<close>

lemma set_entry_path:
  assumes "tree_ok tbl t" and "q \<in> user_paths" and "table_at tbl t q = Some x" and "p \<in> user_paths"
    and "\<nexists>r. p = q @ j # r"
  shows "table_at (set_entry x j e tbl) t p = table_at tbl t p"
proof (rule table_at_cong)
  fix r k q' y assume p: "p = r @ k # q'" and r: "table_at tbl t r = Some y"
  have "r \<in> user_paths" using p assms(4) user_paths_prefix by blast
  then have "y = x \<Longrightarrow> r = q" using tree_inj [OF assms(1) _ assms(2) _ assms(3)] r by blast
  then have "\<not> (y = x \<and> k = j)" using p assms(5) by blast
  then show "same_link (tbl y k) (set_entry x j e tbl y k)" by (auto simp: set_entry_apply)
qed

lemma set_entry_below:
  assumes "tree_ok tbl t" and "q \<in> user_paths" and "table_at tbl t q = Some x"
  shows "table_at (set_entry x j e tbl) t (q @ j # r) =
    (if e AND 1 = 0 then None else table_at (set_entry x j e tbl) (e AND PHYS_MASK) r)"
proof -
  have "table_at (set_entry x j e tbl) t q = Some x" using set_entry_path [OF assms assms(2)] assms(3) by simp
  then show ?thesis by (simp add: table_at_append set_entry_apply)
qed

subsection \<open>Changes of a tree\<close>

lemma tree_sub:
  assumes "tree_ok tbl t"
    and "\<And>p. p \<in> user_paths \<Longrightarrow> table_at tbl' t p = None \<or> table_at tbl' t p = table_at tbl t p"
    and "\<And>p x i. p \<in> user_paths \<Longrightarrow> length p = 2 \<Longrightarrow> table_at tbl t p = Some x \<Longrightarrow> i < 512 \<Longrightarrow> tbl' x i AND 1 \<noteq> 0 \<Longrightarrow>
           tbl' x i AND 0x80 = 0"
  shows "tree_ok tbl' t"
  unfolding tree_ok_def
proof (intro conjI ballI allI impI)
  fix p q x assume "p \<in> user_paths" "q \<in> user_paths" "table_at tbl' t p = Some x" "table_at tbl' t q = Some x"
  then show "p = q" using tree_inj [OF assms(1), of p q x] assms(2) [of p] assms(2) [of q] by auto
next
  fix p x and i :: nat
  assume p: "p \<in> user_paths" "length p = 2" "table_at tbl' t p = Some x" "i < 512" "tbl' x i AND 1 \<noteq> 0"
  then have "table_at tbl t p = Some x" using assms(2) [of p] by auto
  then show "tbl' x i AND 0x80 = 0" using assms(3) p by blast
qed

lemma tables_sub:
  assumes "\<And>p. p \<in> user_paths \<Longrightarrow> table_at tbl' t p = None \<or> table_at tbl' t p = table_at tbl t p"
  shows "tables_of tbl' t \<subseteq> tables_of tbl t"
  unfolding tables_of_def using assms by fastforce

lemma user_page_cong:
  assumes "table_at tbl' t (page_path v) = table_at tbl t (page_path v)"
    and "\<And>x. table_at tbl t (page_path v) = Some x \<Longrightarrow> tbl' x (page_index 12 v) = tbl x (page_index 12 v)"
  shows "user_page tbl' t v = user_page tbl t v"
  using assms by (auto simp: user_page_def split: option.splits)

lemma outside_tree:
  assumes ok: "tree_ok tbl t" and x: "x \<notin> tables_of tbl t" and o: "\<forall>y. y \<noteq> x \<longrightarrow> tbl' y = tbl y"
  shows "tree_ok tbl' t" "tables_of tbl' t = tables_of tbl t" "user_addr v \<Longrightarrow> user_page tbl' t v = user_page tbl t v"
proof -
  note p = outside_path [OF x _ o]
  have t: "tbl' y = tbl y" if "q \<in> user_paths" "table_at tbl t q = Some y" for q y
    using table_in [OF that] x o by metis
  show "tree_ok tbl' t"
  proof (rule tree_sub [OF ok])
    fix p y i assume "p \<in> user_paths" "length p = 2" "table_at tbl t p = Some y" "i < (512::nat)" "tbl' y i AND 1 \<noteq> 0"
    then show "tbl' y i AND 0x80 = 0" using t [of p y] ok unfolding tree_ok_def by auto
  qed (use p in auto)
  show "tables_of tbl' t = tables_of tbl t" unfolding tables_of_def using p by auto
  show "user_page tbl' t v = user_page tbl t v" if "user_addr v"
    by (rule user_page_cong) (use p page_path_user [OF that] t [OF page_path_user [OF that]] in auto)
qed

text \<open>An entry widened in its access flags.\<close>

lemma widened_tree:
  assumes ok: "tree_ok tbl t" and q: "q \<in> user_paths" "table_at tbl t q = Some x" "length q \<le> 2"
    and e: "same_link (tbl x j) e" "e AND 0x80 = tbl x j AND 0x80"
  shows "tree_ok (set_entry x j e tbl) t" "tables_of (set_entry x j e tbl) t = tables_of tbl t"
    "user_addr v \<Longrightarrow> user_page (set_entry x j e tbl) t v = user_page tbl t v"
    "table_at (set_entry x j e tbl) t p = table_at tbl t p"
proof -
  show p: "table_at (set_entry x j e tbl) t p = table_at tbl t p" for p
    by (rule table_at_cong) (use e in \<open>auto simp: set_entry_apply\<close>)
  show "tree_ok (set_entry x j e tbl) t"
  proof (rule tree_sub [OF ok])
    fix p y i assume a: "p \<in> user_paths" "length p = 2" "table_at tbl t p = Some y" "i < (512::nat)"
      "set_entry x j e tbl y i AND 1 \<noteq> 0"
    then have "tbl y i AND 1 \<noteq> 0" using e(1) by (auto simp: set_entry_apply same_link_def split: if_splits)
    then have "tbl y i AND 0x80 = 0" using ok a unfolding tree_ok_def by auto
    then show "set_entry x j e tbl y i AND 0x80 = 0" using e(2) by (auto simp: set_entry_apply)
  qed (use p in auto)
  show "tables_of (set_entry x j e tbl) t = tables_of tbl t" unfolding tables_of_def p ..
  show "user_page (set_entry x j e tbl) t v = user_page tbl t v" if "user_addr v"
  proof (rule user_page_cong [OF p])
    fix y assume y: "table_at tbl t (page_path v) = Some y"
    have "y \<noteq> x" using tree_inj [OF ok page_path_user [OF that] q(1) y] q(2,3) by (auto simp: page_path_def)
    then show "set_entry x j e tbl y (page_index 12 v) = tbl y (page_index 12 v)" by (simp add: set_entry_apply)
  qed
qed

text \<open>An entry of a page table.\<close>

lemma leaf_tree:
  assumes ok: "tree_ok tbl t" and q: "q \<in> user_paths" "table_at tbl t q = Some x" "length q = 3"
  shows "tree_ok (set_entry x j e tbl) t" "tables_of (set_entry x j e tbl) t = tables_of tbl t"
    "user_addr v \<Longrightarrow> user_page (set_entry x j e tbl) t v =
       (if page_key v = q @ [j] then if e AND 1 = 0 then None else Some e else user_page tbl t v)"
proof -
  have p: "table_at (set_entry x j e tbl) t p = table_at tbl t p" if "p \<in> user_paths" for p
    by (rule set_entry_path [OF ok q(1,2) that]) (use that q(3) in \<open>auto simp: user_paths_def\<close>)
  show "tree_ok (set_entry x j e tbl) t"
  proof (rule tree_sub [OF ok])
    fix p y i assume a: "p \<in> user_paths" "length p = 2" "table_at tbl t p = Some y" "i < (512::nat)"
      "set_entry x j e tbl y i AND 1 \<noteq> 0"
    have "y \<noteq> x" using tree_inj [OF ok a(1) q(1) a(3)] q(2,3) a(2) by auto
    then show "set_entry x j e tbl y i AND 0x80 = 0" using ok a unfolding tree_ok_def set_entry_apply by auto
  qed (use p in auto)
  show "tables_of (set_entry x j e tbl) t = tables_of tbl t" unfolding tables_of_def using p by auto
  show "user_page (set_entry x j e tbl) t v =
       (if page_key v = q @ [j] then if e AND 1 = 0 then None else Some e else user_page tbl t v)" if u: "user_addr v"
  proof (cases "page_key v = q @ [j]")
    case True
    then show ?thesis using p [OF q(1)] q(2) by (simp add: page_key_def user_page_def set_entry_apply)
  next
    case False
    have "user_page (set_entry x j e tbl) t v = user_page tbl t v"
    proof (rule user_page_cong [OF p [OF page_path_user [OF u]]])
      fix y assume y: "table_at tbl t (page_path v) = Some y"
      have "y = x \<Longrightarrow> page_path v = q" using tree_inj [OF ok page_path_user [OF u] q(1) y] q(2) by auto
      then show "set_entry x j e tbl y (page_index 12 v) = tbl y (page_index 12 v)"
        using False by (auto simp: set_entry_apply page_key_def)
    qed
    then show ?thesis using False by simp
  qed
qed

text \<open>An entry that leads to an empty table is taken away.\<close>

lemma empty_below:
  assumes "table_at tbl t (q @ [j]) = Some y" and "vmm_table_empty tbl y" and "page_path v = q @ j # r"
  shows "user_page tbl t v = None"
proof -
  have e: "tbl y i AND 1 = 0" if "i < 512" for i using assms(2) that by (simp add: vmm_table_empty_def list_all_iff)
  have p: "table_at tbl t (page_path v) = table_at tbl y r"
    using table_at_append [of tbl t "q @ [j]" r] assms(1) unfolding assms(3) by simp
  show ?thesis
  proof (cases r)
    case Nil
    then show ?thesis using p e [OF page_index_less [of 12 v]] by (simp add: user_page_def)
  next
    case (Cons k r')
    have "k \<in> set (page_path v)" using assms(3) Cons by simp
    then have "k < 512" by (auto simp: page_path_def)
    then show ?thesis using p e Cons by (simp add: user_page_def)
  qed
qed

lemma cleared_tree:
  assumes ok: "tree_ok tbl t" and q: "q \<in> user_paths" "table_at tbl t q = Some x" "q @ [j] \<in> user_paths"
    and y: "table_at tbl t (q @ [j]) = Some y" "vmm_table_empty tbl y"
  shows "tree_ok (set_entry x j 0 tbl) t" "tables_of (set_entry x j 0 tbl) t = tables_of tbl t - {y}"
    "user_addr v \<Longrightarrow> user_page (set_entry x j 0 tbl) t v = user_page tbl t v"
proof -
  have in1: "table_at (set_entry x j 0 tbl) t p = table_at tbl t p" if "p \<in> user_paths" "\<nexists>r. p = q @ j # r" for p
    by (rule set_entry_path [OF ok q(1,2) that])
  have in2: "table_at (set_entry x j 0 tbl) t (q @ j # r) = None" for r
    using set_entry_below [OF ok q(1,2), of j 0 r] by simp
  have p: "table_at (set_entry x j 0 tbl) t p = None \<or> table_at (set_entry x j 0 tbl) t p = table_at tbl t p" if "p \<in> user_paths" for p
  proof (cases "\<exists>r. p = q @ j # r")
    case True
    then show ?thesis using in2 by auto
  qed (use in1 [OF that] in blast)
  show "tree_ok (set_entry x j 0 tbl) t"
  proof (rule tree_sub [OF ok p])
    fix p z i assume a: "p \<in> user_paths" "length p = 2" "table_at tbl t p = Some z" "i < (512::nat)"
      "set_entry x j 0 tbl z i AND 1 \<noteq> 0"
    then have n: "set_entry x j 0 tbl z i = tbl z i" by (auto simp: set_entry_apply split: if_splits)
    show "set_entry x j 0 tbl z i AND 0x80 = 0" using ok a unfolding n tree_ok_def by auto
  qed
  have deeper: "table_at tbl t (q @ j # r) = (if r = [] then Some y else None)" if "q @ j # r \<in> user_paths" for r
  proof (cases r)
    case Nil
    then show ?thesis using y(1) by simp
  next
    case (Cons k r')
    have "k < 512" using that Cons by (auto simp: user_paths_def)
    then have "tbl y k AND 1 = 0" using y(2) by (simp add: vmm_table_empty_def list_all_iff)
    then show ?thesis using table_at_append [of tbl t "q @ [j]" r] y(1) Cons by simp
  qed
  show "tables_of (set_entry x j 0 tbl) t = tables_of tbl t - {y}"
  proof (intro equalityI subsetI)
    fix z assume "z \<in> tables_of (set_entry x j 0 tbl) t"
    then obtain p where z: "p \<in> user_paths" "table_at (set_entry x j 0 tbl) t p = Some z" by (auto simp: tables_of_def)
    then have nb: "\<nexists>r. p = q @ j # r" using in2 by auto
    then have pz: "table_at tbl t p = Some z" using in1 [OF z(1)] z(2) by simp
    have "z \<noteq> y" using tree_inj [OF ok z(1) q(3) pz] y(1) nb by auto
    then show "z \<in> tables_of tbl t - {y}" using table_in [OF z(1) pz] by simp
  next
    fix z assume "z \<in> tables_of tbl t - {y}"
    then obtain p where z: "p \<in> user_paths" "table_at tbl t p = Some z" "z \<noteq> y" by (auto simp: tables_of_def)
    then have "\<nexists>r. p = q @ j # r" using deeper by (auto split: if_splits)
    then show "z \<in> tables_of (set_entry x j 0 tbl) t" using in1 [OF z(1)] z table_in [OF z(1)] by simp
  qed
  show "user_page (set_entry x j 0 tbl) t v = user_page tbl t v" if u: "user_addr v"
  proof (cases "\<exists>r. page_path v = q @ j # r")
    case True
    then show ?thesis using empty_below [OF y] in2 by (auto simp: user_page_def)
  next
    case False
    show ?thesis
    proof (rule user_page_cong [OF in1 [OF page_path_user [OF u] False]])
      fix z assume z: "table_at tbl t (page_path v) = Some z"
      have "z \<noteq> x" using tree_inj [OF ok page_path_user [OF u] q(1) z] q(2,3) by (auto simp: page_path_def user_paths_def)
      then show "set_entry x j 0 tbl z (page_index 12 v) = tbl z (page_index 12 v)" by (simp add: set_entry_apply)
    qed
  qed
qed

text \<open>A new table, without entries, below an entry that led nowhere.\<close>

lemma linked_path:
  assumes ok: "tree_ok tbl t" and q: "q \<in> user_paths" "table_at tbl t q = Some x" "tbl x j AND 1 = 0"
    and y: "y \<notin> tables_of tbl t" "tbl y = (\<lambda>i. 0)" and e: "e AND 1 \<noteq> 0" "e AND PHYS_MASK = y" and p: "p \<in> user_paths"
  shows "table_at (set_entry x j e tbl) t p = (if p = q @ [j] then Some y else table_at tbl t p)" "table_at tbl t (q @ [j]) = None"
proof -
  have yx: "y \<noteq> x" using table_in [OF q(1,2)] y(1) by auto
  have old: "table_at tbl t (q @ j # r) = None" for r using q(2,3) by (simp add: table_at_append)
  then show "table_at tbl t (q @ [j]) = None" by simp
  have new: "table_at (set_entry x j e tbl) t (q @ j # r) = (if r = [] then Some y else None)" for r
    using set_entry_below [OF ok q(1,2), of j e r] e yx y(2) by (cases r) (simp_all add: set_entry_apply)
  show "table_at (set_entry x j e tbl) t p = (if p = q @ [j] then Some y else table_at tbl t p)"
  proof (cases "\<exists>r. p = q @ j # r")
    case True
    then obtain r where "p = q @ j # r" by blast
    then show ?thesis using new [of r] old [of r] by simp
  next
    case False
    then have "p \<noteq> q @ [j]" by auto
    then show ?thesis using set_entry_path [OF ok q(1,2) p False, of e] by simp
  qed
qed

lemma linked_tree:
  assumes ok: "tree_ok tbl t" and q: "q \<in> user_paths" "table_at tbl t q = Some x" "q @ [j] \<in> user_paths" "tbl x j AND 1 = 0"
    and y: "y \<notin> tables_of tbl t" "tbl y = (\<lambda>i. 0)" and e: "e AND 1 \<noteq> 0" "e AND PHYS_MASK = y" "e AND 0x80 = 0"
  shows "tree_ok (set_entry x j e tbl) t" "tables_of (set_entry x j e tbl) t = insert y (tables_of tbl t)"
    "user_addr v \<Longrightarrow> user_page (set_entry x j e tbl) t v = user_page tbl t v" "table_at (set_entry x j e tbl) t (q @ [j]) = Some y"
proof -
  let ?n = "set_entry x j e tbl"
  have yx: "y \<noteq> x" using table_in [OF q(1,2)] y(1) by auto
  note lp = linked_path [OF ok q(1,2,4) y e(1,2)]
  note p = lp(1) and old = lp(2) [OF q(3)]
  show "table_at ?n t (q @ [j]) = Some y" using p [OF q(3)] by simp
  have noy: "table_at tbl t c \<noteq> Some y" if "c \<in> user_paths" for c using table_in [OF that] y(1) by auto
  show "tree_ok ?n t"
    unfolding tree_ok_def
  proof (intro conjI ballI allI impI)
    fix a b z assume ab: "a \<in> user_paths" "b \<in> user_paths" "table_at ?n t a = Some z" "table_at ?n t b = Some z"
    then show "a = b" using noy p [OF ab(1)] p [OF ab(2)] tree_inj [OF ok ab(1,2), of z] by (metis option.inject)
  next
    fix a z and i :: nat assume a: "a \<in> user_paths" "length a = 2" "table_at ?n t a = Some z" "i < 512" "?n z i AND 1 \<noteq> 0"
    show "?n z i AND 0x80 = 0"
    proof (cases "a = q @ [j] \<or> z = x \<and> i = j")
      case True
      then show ?thesis using p [OF a(1)] a(3,5) y(2) e(3) yx by (auto simp: set_entry_apply split: if_splits)
    next
      case False
      then have "table_at tbl t a = Some z" "tbl z i AND 1 \<noteq> 0" using p [OF a(1)] a(3,5) by (auto simp: set_entry_apply split: if_splits)
      then show ?thesis using ok a False unfolding tree_ok_def set_entry_apply by auto
    qed
  qed
  show "tables_of ?n t = insert y (tables_of tbl t)"
  proof -
    have "(\<exists>a \<in> user_paths. table_at ?n t a = Some z) \<longleftrightarrow> z = y \<or> (\<exists>a \<in> user_paths. table_at tbl t a = Some z)" for z
      using p q(3) old by (metis option.distinct(1) option.inject)
    then show ?thesis by (auto simp: tables_of_def)
  qed
  show "user_page ?n t v = user_page tbl t v" if u: "user_addr v"
  proof (cases "page_path v = q @ [j]")
    case True
    then show ?thesis using p [OF q(3)] old y(2) yx by (simp add: user_page_def set_entry_apply)
  next
    case False
    show ?thesis
    proof (rule user_page_cong)
      show "table_at ?n t (page_path v) = table_at tbl t (page_path v)" using p [OF page_path_user [OF u]] False by simp
      fix z assume z: "table_at tbl t (page_path v) = Some z"
      have "z \<noteq> x" using tree_inj [OF ok page_path_user [OF u] q(1) z] q(2,3) by (auto simp: page_path_def user_paths_def)
      then show "?n z (page_index 12 v) = tbl z (page_index 12 v)" by (simp add: set_entry_apply)
    qed
  qed
qed

end
