(* ===== verification/Vmm_Space.thy ===== *)
theory Vmm_Space
  imports Vmm_Tree
begin

text \<open>
  Address spaces over the page frame allocator: what holds of a space and of the frames in
  use, and the effect of mapping, unmapping, protecting and pruning on the pages it maps.
\<close>

unbundle bit_operations_syntax

subsection \<open>Spaces\<close>

definition frame_of :: "u64 \<Rightarrow> nat" where
  "frame_of y = unat y div PAGE_SIZE"

text \<open>The pages in use by clients of the allocator.\<close>

definition in_use :: "pfa \<Rightarrow> u64 set" where
  "in_use p = {y. y AND PHYS_MASK = y \<and> frame_of y \<in> used_frames p - leaves p}"

definition space_ok :: "u64 \<Rightarrow> vmm \<Rightarrow> bool" where
  "space_ok t s \<longleftrightarrow> pfa_ok 0 (vm_pfa s) \<and> tree_ok (vm_table s) t \<and> tables_of (vm_table s) t \<subseteq> in_use (vm_pfa s)"

text \<open>A change of a space leaves the pages in use that are none of its tables alone.\<close>

definition evolves :: "u64 \<Rightarrow> vmm \<Rightarrow> vmm \<Rightarrow> bool" where
  "evolves t s s' \<longleftrightarrow> space_ok t s' \<and>
     (\<forall>y \<in> in_use (vm_pfa s) - tables_of (vm_table s) t.
        y \<in> in_use (vm_pfa s') - tables_of (vm_table s') t \<and> vm_table s' y = vm_table s y)"

definition same_pages :: "u64 \<Rightarrow> vmm \<Rightarrow> vmm \<Rightarrow> bool" where
  "same_pages t s s' \<longleftrightarrow> (\<forall>v. user_addr v \<longrightarrow> user_page (vm_table s') t v = user_page (vm_table s) t v)"

lemma evolves_refl [simp]: "space_ok t s \<Longrightarrow> evolves t s s"
  by (simp add: evolves_def)

lemma evolves_trans: "evolves t a b \<Longrightarrow> evolves t b c \<Longrightarrow> evolves t a c"
  unfolding evolves_def by (metis (no_types, lifting))

lemma evolves_ok: "evolves t s s' \<Longrightarrow> space_ok t s'"
  by (simp add: evolves_def)

lemma same_pages_refl [simp]: "same_pages t s s"
  by (simp add: same_pages_def)

lemma same_pages_trans: "same_pages t a b \<Longrightarrow> same_pages t b c \<Longrightarrow> same_pages t a c"
  by (simp add: same_pages_def)

subsection \<open>Pages from the allocator\<close>

lemma page_word:
  assumes "n mod PAGE_SIZE = 0" and "n div PAGE_SIZE < 2 ^ 40"
  shows "unat (of_nat n :: u64) = n" "(of_nat n :: u64) AND PHYS_MASK = of_nat n"
proof -
  define k where "k = n div PAGE_SIZE"
  have n: "n = k * 4096" and k: "k < 2 ^ 40" using assms by (auto simp: k_def)
  have "n < 2 ^ 64" using n k by simp
  then show u: "unat (of_nat n :: u64) = n" by (simp add: unat_of_nat)
  have "(of_nat n :: u64) = push_bit 12 (of_nat k)" by (simp add: n push_bit_eq_mult mult.commute)
  moreover have "(of_nat k :: u64) AND mask 40 = of_nat k" unfolding take_bit_eq_mask [symmetric]
  proof (rule word_unat_eq_iff [THEN iffD2])
    have "k < 2 ^ 64" using k by simp
    then have "unat (of_nat k :: u64) = k" by (simp add: unat_of_nat)
    moreover have "take_bit 40 k = k" using k by (rule take_bit_nat_eq_self)
    ultimately show "unat (take_bit 40 (of_nat k :: u64)) = unat (of_nat k :: u64)"
      by (simp only: unsigned_take_bit_eq)
  qed
  moreover have "PHYS_MASK = push_bit 12 (mask 40)" by (simp add: mask_eq_exp_minus_1)
  ultimately show "(of_nat n :: u64) AND PHYS_MASK = of_nat n"
    by (simp only: push_bit_and [symmetric])
qed

lemma alloc_in_use:
  assumes ok: "pfa_ok 0 p" and a: "allocates p lo hi 1 (n, p')"
  shows "pfa_ok 0 p'" "in_use p \<subseteq> in_use p'" "n \<noteq> 0 \<Longrightarrow> of_nat n \<in> in_use p' - in_use p" "n \<noteq> 0 \<Longrightarrow> unat (of_nat n :: u64) = n"
proof -
  have st: "pfa_ok 0 p'" "block n 1 \<inter> used_frames p = {}" "block n 1 \<subseteq> used_frames p' - leaves p'"
      "(leaves p' - leaves p) \<inter> used_frames p = {}" "used_frames p \<subseteq> used_frames p'"
    using allocates_step [OF a ok, of "block n 1" p'] by (auto simp: blocked_def)
  show "pfa_ok 0 p'" by (rule st)
  show "in_use p \<subseteq> in_use p'" using st(4,5) by (auto simp: in_use_def)
  assume n: "n \<noteq> 0"
  then have b: "n div PAGE_SIZE \<in> block n 1" by (simp add: block_def)
  have "n div PAGE_SIZE \<in> free_frames p" using a b by (auto simp: allocates_def takes_def)
  then have "n div PAGE_SIZE < 2 ^ 40" using ok by (auto simp: free_frames_def pfa_ok_def pfa_shape_def)
  from page_word [OF _ this] have w: "unat (of_nat n :: u64) = n" "(of_nat n :: u64) AND PHYS_MASK = of_nat n"
    using a by (auto simp: allocates_def)
  then show "unat (of_nat n :: u64) = n" by blast
  show "of_nat n \<in> in_use p' - in_use p" using w st(2,3) b by (auto simp: in_use_def frame_of_def)
qed

lemma zero_page_phys:
  assumes ok: "pfa_ok 0 p" and y: "y \<in> in_use p"
  shows "pfa_ok 0 (pmm_zero_page_phys True p (unat y))" "in_use (pmm_zero_page_phys True p (unat y)) = in_use p"
proof -
  let ?p = "pmm_zero_page_phys True p (unat y)"
  have e: "?p = mem_zero (frame_of y * PAGE_SIZE) PAGE_SIZE p"
    by (simp add: pmm_zero_page_phys_def align_down_def frame_of_def)
  have sh: "pfa_shape p" and nl: "frame_of y \<notin> leaves p" using ok y by (auto simp: pfa_ok_def in_use_def)
  have fx: "fixed ?p = fixed p" unfolding e by simp
  have u: "used_frames ?p = used_frames p" "leaves ?p = leaves p" unfolding e using used_mem_zero [OF sh nl] by simp_all
  have fr: "free_frames ?p = free_frames p" by (simp only: free_eq u fixed_usable [OF fx] fixedD [OF fx])
  show "in_use ?p = in_use p" by (simp only: in_use_def u)
  have "pfa_shape ?p" "leaves_apart ?p = leaves_apart p" "pfa_cached_free ?p = pfa_cached_free p" unfolding e using sh by simp_all
  then show "pfa_ok 0 ?p" using ok by (auto simp only: pfa_ok_def leaves_ok_def count_ok_def u fr fixed_usable [OF fx] fixedD [OF fx])
qed

lemma page_of_frame:
  assumes "w AND PHYS_MASK = w"
  shows "unat w = unat w div PAGE_SIZE * PAGE_SIZE"
proof -
  have "take_bit 12 w = take_bit 12 (w AND PHYS_MASK)" using assms by simp
  also have "\<dots> = 0" by (simp only: take_bit_and) simp
  finally have "take_bit 12 (unat w) = 0" by (metis unsigned_take_bit_eq unsigned_0)
  then have "unat w mod PAGE_SIZE = 0" by (simp add: take_bit_eq_mod)
  then show ?thesis by (metis add.right_neutral div_mult_mod_eq)
qed

lemma free_in_use:
  assumes ok: "pfa_ok 0 p" and y: "y \<in> in_use p"
  shows "pfa_ok 0 (pfa_free p (unat y))" "in_use p - {y} \<subseteq> in_use (pfa_free p (unat y))"
proof -
  have nl: "unat y div PAGE_SIZE \<notin> leaves p" using y by (simp add: in_use_def frame_of_def)
  note f = pfa_free_effect [OF ok nl]
  show "pfa_ok 0 (pfa_free p (unat y))" by (rule f)
  show "in_use p - {y} \<subseteq> in_use (pfa_free p (unat y))"
  proof
    fix z assume z: "z \<in> in_use p - {y}"
    have "frame_of z \<noteq> unat y div PAGE_SIZE"
    proof
      assume "frame_of z = unat y div PAGE_SIZE"
      then have "unat z = unat y" using page_of_frame [of z] page_of_frame [of y] z y by (auto simp: in_use_def frame_of_def)
      then show False using z word_unat_eq_iff [of z y] by simp
    qed
    then show "z \<in> in_use (pfa_free p (unat y))" using f(2) z by (auto simp: releases_frames_def in_use_def split: if_splits)
  qed
qed

subsection \<open>Tables are made\<close>

text \<open>Changes that keep the pages the space maps.\<close>

definition quiet :: "u64 \<Rightarrow> vmm \<Rightarrow> vmm \<Rightarrow> bool" where
  "quiet t s s' \<longleftrightarrow> evolves t s s' \<and> same_pages t s s'"

lemma quiet_refl [simp]: "space_ok t s \<Longrightarrow> quiet t s s"
  by (simp add: quiet_def)

lemma quiet_trans: "quiet t a b \<Longrightarrow> quiet t b c \<Longrightarrow> quiet t a c"
  unfolding quiet_def using evolves_trans same_pages_trans by blast

lemma quiet_ok: "quiet t s s' \<Longrightarrow> space_ok t s'"
  by (auto simp: quiet_def evolves_ok)

lemma quiet_page: "quiet t s s' \<Longrightarrow> user_addr v \<Longrightarrow> user_page (vm_table s') t v = user_page (vm_table s) t v"
  by (simp add: quiet_def same_pages_def)

text \<open>The allocator goes on and the tables stay.\<close>

lemma quiet_alloc:
  assumes "space_ok t s" and "pfa_ok 0 p" and "in_use (vm_pfa s) \<subseteq> in_use p"
  shows "quiet t s (s\<lparr>vm_pfa := p\<rparr>)"
  using assms by (auto simp: quiet_def evolves_def same_pages_def space_ok_def)

text \<open>A fresh page is zeroed.\<close>

lemma quiet_zero:
  assumes ok: "space_ok t s" and y: "y \<in> in_use (vm_pfa s) - tables_of (vm_table s) t"
  defines "s' \<equiv> zero_page y s"
  shows "space_ok t s'" "in_use (vm_pfa s') = in_use (vm_pfa s)" "tables_of (vm_table s') t = tables_of (vm_table s) t"
    "vm_table s' y = (\<lambda>i. 0)" "same_pages t s s'" "\<And>z. z \<noteq> y \<Longrightarrow> vm_table s' z = vm_table s z"
    "\<And>q. q \<in> user_paths \<Longrightarrow> table_at (vm_table s') t q = table_at (vm_table s) t q"
proof -
  have m: "y AND PHYS_MASK = y" and iu: "y \<in> in_use (vm_pfa s)" using y by (auto simp: in_use_def)
  have tb: "vm_table s' = (vm_table s)(y := (\<lambda>i. 0))" and pf: "vm_pfa s' = pmm_zero_page_phys True (vm_pfa s) (unat y)"
    by (simp_all add: s'_def zero_page_def m)
  then show "vm_table s' z = vm_table s z" if "z \<noteq> y" for z using that by simp
  have other: "\<forall>z. z \<noteq> y \<longrightarrow> vm_table s' z = vm_table s z" using tb by simp
  have tr: "tree_ok (vm_table s) t" and po: "pfa_ok 0 (vm_pfa s)" and no: "y \<notin> tables_of (vm_table s) t" using ok y by (auto simp: space_ok_def)
  note o = outside_tree [OF tr no other]
  note z = zero_page_phys [OF po iu]
  show "in_use (vm_pfa s') = in_use (vm_pfa s)" unfolding pf by (rule z)
  show "tables_of (vm_table s') t = tables_of (vm_table s) t" by (rule o)
  show "vm_table s' y = (\<lambda>i. 0)" using tb by simp
  show "same_pages t s s'" using o(3) by (simp add: same_pages_def)
  show "space_ok t s'" using ok z o(1,2) unfolding space_ok_def pf by simp
  show "table_at (vm_table s') t q = table_at (vm_table s) t q" if "q \<in> user_paths" for q
    using outside_path [OF no that other] .
qed

lemma quiet_widen:
  assumes ok: "space_ok t s" and q: "q \<in> user_paths" "table_at (vm_table s) t q = Some x" "length q \<le> 2"
    and e: "same_link (vm_table s x j) e" "e AND 0x80 = vm_table s x j AND 0x80"
  defines "s' \<equiv> s\<lparr>vm_table := set_entry x j e (vm_table s)\<rparr>"
  shows "quiet t s s'" "table_at (vm_table s') t p = table_at (vm_table s) t p"
proof -
  have "tree_ok (vm_table s) t" using ok by (simp add: space_ok_def)
  note w = widened_tree [OF this q e]
  show "table_at (vm_table s') t p = table_at (vm_table s) t p" using w(4) by (simp add: s'_def)
  have ts: "tables_of (vm_table s') t = tables_of (vm_table s) t" "vm_pfa s' = vm_pfa s" using w(2) by (simp_all add: s'_def)
  have "space_ok t s'" using ok w(1) unfolding space_ok_def ts by (simp add: s'_def)
  moreover have "vm_table s' y = vm_table s y" if "y \<notin> tables_of (vm_table s) t" for y
    using that table_in [OF q(1,2)] by (auto simp: s'_def set_entry_def)
  ultimately have "evolves t s s'" unfolding evolves_def ts by blast
  then show "quiet t s s'" using w(3) by (simp add: quiet_def same_pages_def s'_def)
qed

lemma ensure_table_effect:
  assumes ok: "space_ok t s" and q: "q \<in> user_paths" "table_at (vm_table s) t q = Some x" "q @ [j] \<in> user_paths"
    and r: "ensure_table s x j flags = (r, s')"
  shows "quiet t s s'" "r = Some y \<Longrightarrow> table_at (vm_table s') t (q @ [j]) = Some y"
proof -
  have tr: "tree_ok (vm_table s) t" and po: "pfa_ok 0 (vm_pfa s)" using ok by (auto simp: space_ok_def)
  have "quiet t s s' \<and> (r = Some y \<longrightarrow> table_at (vm_table s') t (q @ [j]) = Some y)"
  proof (cases "vm_table s x j AND 1 = 0")
    case True
    obtain n p where n: "pmm_alloc_page (vm_pfa s) = (n, p)" by force
    note a = alloc_in_use [OF po pmm_alloc_page_allocates [OF po, unfolded n]]
    let ?s0 = "s\<lparr>vm_pfa := p\<rparr>"
    have q0: "quiet t s ?s0" using quiet_alloc [OF ok a(1,2)] .
    show ?thesis
    proof (cases "n = 0")
      case True
      then show ?thesis using \<open>vm_table s x j AND 1 = 0\<close> r n q0 by (auto simp: ensure_table_def Let_def)
    next
      case False
      define ny :: u64 where "ny = of_nat n"
      let ?s1 = "zero_page ny ?s0"
      let ?e = "(ny AND PHYS_MASK) OR ((flags AND 7) OR 1)"
      have s': "s' = ?s1\<lparr>vm_table := set_entry x j ?e (vm_table ?s1)\<rparr>" and ry: "r = Some ny"
        using True False r n by (auto simp: ensure_table_def Let_def ny_def)
      have f: "ny \<in> in_use p - in_use (vm_pfa s)" using a(3) False by (simp add: ny_def)
      then have nt: "ny \<in> in_use (vm_pfa ?s0) - tables_of (vm_table ?s0) t" using ok by (auto simp: space_ok_def)
      note z = quiet_zero [OF quiet_ok [OF q0] nt]
      have m: "ny AND PHYS_MASK = ny" using f by (simp add: in_use_def)
      have xy: "x \<noteq> ny" using table_in [OF q(1,2)] nt by auto
      have nt1: "ny \<notin> tables_of (vm_table ?s1) t" and tr1: "tree_ok (vm_table ?s1) t" using z(1,3) nt by (auto simp: space_ok_def)
      have q1: "table_at (vm_table ?s1) t q = Some x" "vm_table ?s1 x j AND 1 = 0" using z(7) [OF q(1)] z(6) [OF xy] q(2) True by simp_all
      note l = linked_tree [OF tr1 q(1) q1(1) q(3) q1(2) nt1 z(4) table_entry(1) _ table_entry(3), of ny flags,
          unfolded table_entry(2), OF m]
      have ts: "tables_of (vm_table s') t = insert ny (tables_of (vm_table s) t)" unfolding s' using l(2) z(3) by simp
      have iu: "in_use (vm_pfa s') = in_use p" unfolding s' using z(2) by simp
      have "space_ok t s'"
        using z(1) l(1) ts f ok a(2) unfolding space_ok_def iu by (auto simp: s')
      moreover have "w \<in> in_use (vm_pfa s') - tables_of (vm_table s') t \<and> vm_table s' w = vm_table s w"
        if w: "w \<in> in_use (vm_pfa s) - tables_of (vm_table s) t" for w
      proof -
        have "w \<noteq> ny" "w \<noteq> x" using f w table_in [OF q(1,2)] by auto
        then show ?thesis using w ts iu a(2) z(6) [of w] by (auto simp: s' set_entry_def)
      qed
      moreover have "same_pages t s s'" using z(5) l(3) q0 by (simp add: quiet_def same_pages_def s')
      ultimately have "quiet t s s'" unfolding quiet_def evolves_def by blast
      moreover have "table_at (vm_table s') t (q @ [j]) = Some ny" using l(4) by (simp add: s')
      ultimately show ?thesis using ry by auto
    qed
  next
    case False
    have w: "same_link (vm_table s x j) (vm_table s x j OR (flags AND 7))"
      using False widened_entry(1,3) by (auto simp: same_link_def)
    have l2: "length q \<le> 2" using q(3) by (auto simp: user_paths_def)
    have "table_at (vm_table s) t (q @ [j]) = Some (vm_table s x j AND PHYS_MASK)" using table_at_snoc [OF q(2)] False by simp
    moreover note quiet_widen [OF ok q(1,2) l2 w widened_entry(2)]
    ultimately show ?thesis using False r ok by (auto simp: ensure_table_def Let_def split: if_splits)
  qed
  then show "quiet t s s'" "r = Some y \<Longrightarrow> table_at (vm_table s') t (q @ [j]) = Some y" by auto
qed

subsection \<open>Empty tables are pruned\<close>

text \<open>
  Between clearing and freeing: the chain holds tables that have left the tree; the pages
  of the space are those of the start.
\<close>

definition pruned :: "u64 \<Rightarrow> tables \<Rightarrow> u64 list \<times> tables \<Rightarrow> bool" where
  "pruned t tbl d \<longleftrightarrow> tree_ok (snd d) t \<and> distinct (fst d) \<and> set (fst d) \<inter> tables_of (snd d) t = {} \<and>
     set (fst d) \<union> tables_of (snd d) t = tables_of tbl t \<and>
     (\<forall>v. user_addr v \<longrightarrow> user_page (snd d) t v = user_page tbl t v) \<and> (\<forall>y. y \<notin> tables_of tbl t \<longrightarrow> snd d y = tbl y)"

lemma pruned_start: "tree_ok tbl t \<Longrightarrow> pruned t tbl ([], tbl)"
  by (simp add: pruned_def)

lemma clear_if_empty_pruned:
  assumes pr: "pruned t tbl d" and q: "q \<in> user_paths" "table_at (snd d) t q = Some x" "q @ [j] \<in> user_paths"
    and y: "table_at (snd d) t (q @ [j]) = Some y"
  shows "pruned t tbl (clear_if_empty x j y d)"
    "p \<in> user_paths \<Longrightarrow> \<nexists>r. p = q @ j # r \<Longrightarrow> table_at (snd (clear_if_empty x j y d)) t p = table_at (snd d) t p"
proof -
  obtain chain tb where d: "d = (chain, tb)" by force
  have "pruned t tbl (clear_if_empty x j y d) \<and>
    (p \<in> user_paths \<longrightarrow> (\<nexists>r. p = q @ j # r) \<longrightarrow> table_at (snd (clear_if_empty x j y d)) t p = table_at (snd d) t p)"
  proof (cases "vmm_table_empty tb y")
    case False
    then show ?thesis using pr d by (simp add: clear_if_empty_def)
  next
    case True
    have pr': "tree_ok tb t" "distinct chain" "set chain \<inter> tables_of tb t = {}" "set chain \<union> tables_of tb t = tables_of tbl t"
      "\<And>v. user_addr v \<Longrightarrow> user_page tb t v = user_page tbl t v" "\<And>y. y \<notin> tables_of tbl t \<Longrightarrow> tb y = tbl y"
      using pr by (auto simp: pruned_def d)
    have q': "table_at tb t q = Some x" and y': "table_at tb t (q @ [j]) = Some y" using q y d by auto
    note c = cleared_tree [OF pr'(1) q(1) q' q(3) y' True]
    let ?t1 = "set_entry x j 0 tb"
    define l where "l = (case chain of [] \<Rightarrow> 0 | h # hs \<Rightarrow> h)"
    let ?t2 = "set_entry y 0 l ?t1"
    have e: "clear_if_empty x j y d = (y # chain, ?t2)"
      using True by (simp add: clear_if_empty_def d vmm_defer_table_free_def l_def)
    have yin: "y \<in> tables_of tb t" and xin: "x \<in> tables_of tb t" using table_in [OF q(3) y'] table_in [OF q(1) q'] .
    have out: "y \<notin> tables_of ?t1 t" using c(2) by simp
    have o0: "\<forall>z. z \<noteq> y \<longrightarrow> ?t2 z = ?t1 z" by (simp add: set_entry_def)
    note o = outside_tree [OF c(1) out o0]
    have tt: "tables_of ?t2 t = tables_of tb t - {y}" using o(2) c(2) by simp
    have "pruned t tbl (y # chain, ?t2)"
      unfolding pruned_def fst_conv snd_conv tt
    proof (intro conjI allI impI)
      show "tree_ok ?t2 t" by (rule o)
      show "distinct (y # chain)" using pr'(2,3) yin by auto
      show "set (y # chain) \<inter> (tables_of tb t - {y}) = {}" using pr'(3) by auto
      show "set (y # chain) \<union> (tables_of tb t - {y}) = tables_of tbl t" using pr'(4) yin by auto
      show "user_page ?t2 t v = user_page tbl t v" if "user_addr v" for v using o(3) [OF that] c(3) [OF that] pr'(5) [OF that] by simp
      show "?t2 z = tbl z" if "z \<notin> tables_of tbl t" for z using that xin yin pr'(4,6) by (auto simp: set_entry_def)
    qed
    moreover have "table_at ?t2 t p = table_at tb t p" if "p \<in> user_paths" "\<nexists>r. p = q @ j # r"
      using outside_path [OF out that(1) o0] set_entry_path [OF pr'(1) q(1) q' that, of 0] by simp
    ultimately show ?thesis unfolding e by (simp add: d)
  qed
  then show "pruned t tbl (clear_if_empty x j y d)"
    "p \<in> user_paths \<Longrightarrow> \<nexists>r. p = q @ j # r \<Longrightarrow> table_at (snd (clear_if_empty x j y d)) t p = table_at (snd d) t p" by auto
qed

lemma prune_at_pruned:
  assumes pr: "pruned t tbl d" and u: "user_addr v"
  shows "pruned t tbl (prune_at t v d)"
proof -
  let ?a = "page_index 39 v" and ?b = "page_index 30 v" and ?c = "page_index 21 v" and ?tb = "snd d"
  have up: "[?a] \<in> user_paths" "[?a, ?b] \<in> user_paths" "[?a, ?b, ?c] \<in> user_paths" "[] \<in> user_paths"
    using u by (auto simp: user_paths_def user_addr_def)
  define e4 where "e4 = ?tb t ?a"
  define t3 where "t3 = e4 AND PHYS_MASK"
  define e3 where "e3 = ?tb t3 ?b"
  define t2 where "t2 = e3 AND PHYS_MASK"
  define e2 where "e2 = ?tb t2 ?c"
  show ?thesis
  proof (cases "e4 AND 1 = 0 \<or> e3 AND 1 = 0")
    case True
    then have "prune_at t v d = d" by (auto simp: prune_at_def Let_def e4_def e3_def t3_def)
    then show ?thesis using pr by simp
  next
    case False
    have p1: "table_at ?tb t [?a] = Some t3" using False by (simp add: e4_def t3_def)
    have p2: "table_at ?tb t [?a, ?b] = Some t2" using False by (simp add: e4_def t3_def e3_def t2_def)
    define d1 where "d1 = (if e2 AND 1 \<noteq> 0 \<and> e2 AND 0x80 = 0 then clear_if_empty t2 ?c (e2 AND PHYS_MASK) d else d)"
    have e: "prune_at t v d = clear_if_empty t ?a t3 (clear_if_empty t3 ?b t2 d1)"
      using False by (simp add: prune_at_def Let_def d1_def e4_def e3_def e2_def t3_def t2_def)
    have p3: "table_at ?tb t ([?a, ?b] @ [?c]) = Some (e2 AND PHYS_MASK)" if "e2 AND 1 \<noteq> 0"
      using table_at_snoc [OF p2, of ?c] that by (simp add: e2_def)
    have up3: "[?a, ?b] @ [?c] \<in> user_paths" using up by simp
    have i1: "pruned t tbl d1 \<and> table_at (snd d1) t [?a] = Some t3 \<and> table_at (snd d1) t [?a, ?b] = Some t2"
    proof (cases "e2 AND 1 \<noteq> 0 \<and> e2 AND 0x80 = 0")
      case True
      note c = clear_if_empty_pruned [OF pr up(2) p2 up3 p3]
      have "d1 = clear_if_empty t2 ?c (e2 AND PHYS_MASK) d" using True by (simp add: d1_def)
      then show ?thesis using c(1) c(2) [OF _ up(1)] c(2) [OF _ up(2)] p1 p2 True by (simp del: table_at.simps)
    next
      case False
      then have "d1 = d" by (auto simp: d1_def)
      then show ?thesis using pr p1 p2 by (simp del: table_at.simps)
    qed
    then have i1: "pruned t tbl d1" "table_at (snd d1) t [?a] = Some t3" "table_at (snd d1) t [?a, ?b] = Some t2" by blast+
    have up2: "[?a] @ [?b] \<in> user_paths" and p2': "table_at (snd d1) t ([?a] @ [?b]) = Some t2" using up i1(3) by simp_all
    note c2 = clear_if_empty_pruned [OF i1(1) up(1) i1(2) up2 p2']
    let ?d2 = "clear_if_empty t3 ?b t2 d1"
    have "table_at (snd ?d2) t ([] @ [?a]) = Some t3" using c2(2) [OF up(1)] i1(2) by simp
    from clear_if_empty_pruned(1) [OF c2(1) up(4) _ _ this] up(1) show ?thesis unfolding e by simp
  qed
qed

text \<open>
  A table of page directory pointers is looked at only when the entry of the address in it
  is present; one without any entry is therefore never given back.
\<close>

lemma prune_skips_empty_pdpt:
  assumes "vmm_table_empty (snd d) (snd d t (page_index 39 v) AND PHYS_MASK)"
  shows "prune_at t v d = d"
proof -
  have "snd d (snd d t (page_index 39 v) AND PHYS_MASK) (page_index 30 v) AND 1 = 0"
    using assms by (simp add: vmm_table_empty_def list_all_iff)
  then show ?thesis by (simp add: prune_at_def Let_def)
qed

lemma prune_from_pruned:
  assumes "pruned t tbl d" shows "pruned t tbl (prune_from t v finish d)"
  using assms
proof (induction t v finish d rule: prune_from.induct)
  case (1 t v finish d)
  show ?case
  proof (cases "v < finish \<and> \<not> page_index 39 (of_nat v) \<ge> vmm_user_pml4_limit")
    case True
    then have "user_addr (of_nat v)" by (simp add: user_addr_def)
    with 1 True show ?thesis using prune_at_pruned by (subst prune_from.simps) simp
  next
    case False
    then show ?thesis using 1(2) by (subst prune_from.simps) auto
  qed
qed

lemma free_deferred:
  assumes "space_ok t s" and "distinct chain" and "set chain \<subseteq> in_use (vm_pfa s) - tables_of (vm_table s) t"
  defines "s' \<equiv> vmm_free_deferred_tables chain s"
  shows "space_ok t s' \<and> tables_of (vm_table s') t = tables_of (vm_table s) t \<and> same_pages t s s' \<and>
    in_use (vm_pfa s) - set chain \<subseteq> in_use (vm_pfa s') \<and> (\<forall>y. y \<notin> set chain \<longrightarrow> vm_table s' y = vm_table s y)"
  using assms(1-3) unfolding s'_def
proof (induction chain arbitrary: s)
  case Nil
  then show ?case by (simp add: vmm_free_deferred_tables_def)
next
  case (Cons c chain)
  let ?s1 = "s\<lparr>vm_table := set_entry c 0 0 (vm_table s), vm_pfa := pfa_free (vm_pfa s) (unat c)\<rparr>"
  have tr: "tree_ok (vm_table s) t" and po: "pfa_ok 0 (vm_pfa s)" and tu: "tables_of (vm_table s) t \<subseteq> in_use (vm_pfa s)"
    using Cons.prems by (auto simp: space_ok_def)
  have c: "c \<in> in_use (vm_pfa s)" "c \<notin> tables_of (vm_table s) t" using Cons.prems by auto
  have o0: "\<forall>y. y \<noteq> c \<longrightarrow> vm_table ?s1 y = vm_table s y" by (simp add: set_entry_def)
  note o = outside_tree [OF tr c(2) o0]
  note f = free_in_use [OF po c(1)]
  have ok1: "space_ok t ?s1" using o(1,2) f tu c(2) unfolding space_ok_def by auto
  have ch: "set chain \<subseteq> in_use (vm_pfa ?s1) - tables_of (vm_table ?s1) t" using Cons.prems f(2) o(2) by auto
  have e: "vmm_free_deferred_tables (c # chain) s = vmm_free_deferred_tables chain ?s1" by (simp add: vmm_free_deferred_tables_def)
  have sp: "same_pages t s ?s1" using o(3) by (simp add: same_pages_def)
  from Cons.IH [OF ok1 _ ch] Cons.prems show ?case unfolding e
    using sp same_pages_trans [OF sp] o(2) f(2) o0 by auto
qed

lemma prune_quiet:
  assumes ok: "space_ok t s" shows "quiet t s (vmm_prune_user_range s t v sz)"
proof -
  have "quiet t s (vmm_free_deferred_tables (fst d) (s\<lparr>vm_table := snd d\<rparr>))" if "pruned t (vm_table s) d" for d
  proof -
    let ?s1 = "s\<lparr>vm_table := snd d\<rparr>"
    have d: "tree_ok (snd d) t" "distinct (fst d)" "set (fst d) \<inter> tables_of (snd d) t = {}"
      "set (fst d) \<union> tables_of (snd d) t = tables_of (vm_table s) t" "same_pages t s ?s1"
      "\<forall>y. y \<notin> tables_of (vm_table s) t \<longrightarrow> snd d y = vm_table s y"
      using that by (auto simp: pruned_def same_pages_def)
    have "space_ok t ?s1" "set (fst d) \<subseteq> in_use (vm_pfa ?s1) - tables_of (vm_table ?s1) t"
      using ok d(1,3,4) by (auto simp: space_ok_def)
    note f = free_deferred [OF this(1) d(2) this(2)]
    let ?s2 = "vmm_free_deferred_tables (fst d) ?s1"
    have "evolves t s ?s2" unfolding evolves_def using f d(3,4,6) by auto
    moreover have "same_pages t s ?s2" using f same_pages_trans [OF d(5)] by blast
    ultimately show ?thesis by (simp add: quiet_def)
  qed
  note q = this [OF prune_from_pruned [OF pruned_start]]
  have "tree_ok (vm_table s) t" using ok by (simp add: space_ok_def)
  then show ?thesis using q ok by (auto simp: vmm_prune_user_range_def Let_def split: prod.splits) (metis fst_conv snd_conv)+
qed

subsection \<open>Mapping a page\<close>

definition page_entry :: "u64 \<Rightarrow> u64 \<Rightarrow> u64" where
  "page_entry phys flags = (phys AND PHYS_MASK) OR (flags AND 0x8000000000000FFF)"

lemma map_page_effect:
  assumes ok: "space_ok t s" and u: "user_addr v" "v < KERNEL_VMA" and m: "vmm_map_page_in_pml4 s t v phys flags = (r, s')"
  shows "evolves t s s' \<and> (r = 0 \<or> r = -1) \<and> (\<forall>v'. user_addr v' \<longrightarrow> user_page (vm_table s') t v' =
     (if r = 0 \<and> page_key v' = page_key v then if flags AND 1 = 0 then None else Some (page_entry phys flags)
      else user_page (vm_table s) t v'))"
proof -
  let ?a = "page_index 39 v" and ?b = "page_index 30 v" and ?c = "page_index 21 v"
  have up: "[] \<in> user_paths" "[?a] \<in> user_paths" "[?a, ?b] \<in> user_paths" "[?a, ?b, ?c] \<in> user_paths"
    using u by (auto simp: user_paths_def user_addr_def)
  have fl: "\<not> KERNEL_VMA \<le> v" using u(2) by (simp only: not_le)
  have quiet_fail: ?thesis if "r = -1" "quiet t s s'" using that by (auto simp: quiet_def same_pages_def)
  obtain r1 s1 where e1: "ensure_table s t ?a flags = (r1, s1)" by force
  have p0: "table_at (vm_table s) t [] = Some t" "[] @ [?a] \<in> user_paths" using up by auto
  note m1 = ensure_table_effect [OF ok up(1) p0 e1]
  show ?thesis
  proof (cases r1)
    case None
    then show ?thesis using m e1 m1(1) quiet_fail by (simp add: vmm_map_page_in_pml4_def Let_def fl)
  next
    case (Some t3)
    have p1: "table_at (vm_table s1) t [?a] = Some t3" "[?a] @ [?b] \<in> user_paths" using m1(2) [OF Some] up by auto
    obtain r2 s2 where e2: "ensure_table s1 t3 ?b flags = (r2, s2)" by force
    note m2 = ensure_table_effect [OF quiet_ok [OF m1(1)] up(2) p1 e2]
    note q2 = quiet_trans [OF m1(1) m2(1)]
    show ?thesis
    proof (cases r2)
      case None
      then have "r = -1" "s' = vmm_prune_user_range s2 t v 0x1000" using m e1 Some e2 by (auto simp: vmm_map_page_in_pml4_def Let_def fl)
      then show ?thesis using quiet_fail quiet_trans [OF q2 prune_quiet [OF quiet_ok [OF q2]]] by simp
    next
      case (Some t2)
      have p2: "table_at (vm_table s2) t [?a, ?b] = Some t2" "[?a, ?b] @ [?c] \<in> user_paths" using m2(2) [OF Some] up by auto
      obtain r3 s3 where e3: "ensure_table s2 t2 ?c flags = (r3, s3)" by force
      note m3 = ensure_table_effect [OF quiet_ok [OF q2] up(3) p2 e3]
      note q3 = quiet_trans [OF q2 m3(1)]
      show ?thesis
      proof (cases r3)
        case None
        then have "r = -1" "s' = vmm_prune_user_range s3 t v 0x1000"
          using m e1 \<open>r1 = Some t3\<close> e2 Some e3 by (auto simp: vmm_map_page_in_pml4_def Let_def fl)
        then show ?thesis using quiet_fail quiet_trans [OF q3 prune_quiet [OF quiet_ok [OF q3]]] by simp
      next
        case (Some t1)
        have p3: "table_at (vm_table s3) t [?a, ?b, ?c] = Some t1" using m3(2) [OF Some] by simp
        have r: "r = 0" and s': "s' = s3\<lparr>vm_table := set_entry t1 (page_index 12 v) (page_entry phys flags) (vm_table s3)\<rparr>"
          using m e1 \<open>r1 = Some t3\<close> e2 \<open>r2 = Some t2\<close> e3 Some by (auto simp: vmm_map_page_in_pml4_def Let_def fl page_entry_def)
        have ok3: "space_ok t s3" using q3 by (rule quiet_ok)
        then have "tree_ok (vm_table s3) t" by (simp add: space_ok_def)
        note l = leaf_tree [OF this up(4) p3, where j = "page_index 12 v" and e = "page_entry phys flags"]
        have l3: "length [?a, ?b, ?c] = 3" by simp
        have "evolves t s3 s'" unfolding evolves_def
          using ok3 l(1,2) [OF l3] table_in [OF up(4) p3] by (auto simp: s' space_ok_def set_entry_def)
        then have "evolves t s s'" using q3 evolves_trans by (auto simp: quiet_def)
        moreover have "page_entry phys flags AND 1 = flags AND 1" unfolding page_entry_def by (rule leaf_entry_parts)
        ultimately show ?thesis using l(3) [OF l3] quiet_page [OF q3] r by (auto simp: s' page_key_def page_path_def)
      qed
    qed
  qed
qed

subsection \<open>Reading, unmapping and protecting a page\<close>

lemma walk_user_page:
  assumes tr: "tree_ok tbl t" and u: "user_addr v"
  shows "case walk_levels tbl t v eff [39, 30, 21, 12] of
      None \<Rightarrow> user_page tbl t v = None
    | Some (e, eff', large) \<Rightarrow> \<not> large \<and> user_page tbl t v = (if e AND 1 = 0 then None else Some e)"
proof -
  let ?a = "page_index 39 v" and ?b = "page_index 30 v" and ?c = "page_index 21 v"
  have up: "[?a, ?b] \<in> user_paths" using u by (auto simp: user_paths_def user_addr_def)
  define t3 where "t3 = tbl t ?a AND PHYS_MASK"
  define t2 where "t2 = tbl t3 ?b AND PHYS_MASK"
  have "tbl t2 ?c AND 0x80 = 0" if "tbl t ?a AND 1 \<noteq> 0" "tbl t3 ?b AND 1 \<noteq> 0" "tbl t2 ?c AND 1 \<noteq> 0"
    by (rule tree_small [OF tr up]) (use that in \<open>simp_all add: t3_def t2_def\<close>)
  then show ?thesis by (simp add: Let_def user_page_def page_path_def t3_def t2_def)
qed

lemma get_phys_user:
  assumes tr: "tree_ok tbl t" and u: "user_addr v" "v < KERNEL_VMA" and m: "t AND PHYS_MASK = t"
  shows "vmm_get_phys_in_pml4 tbl boot t v = (case user_page tbl t v of None \<Rightarrow> 0 | Some e \<Rightarrow> e AND PHYS_MASK)"
proof -
  have "pt_kernel_walk_leaf tbl boot t v = None" using u(2) by (simp add: pt_kernel_walk_leaf_def)
  then show ?thesis using walk_user_page [OF tr u(1), of "PTE_PRESENT OR PTE_WRITE OR PTE_USER"]
    by (simp add: vmm_get_phys_in_pml4_def vmm_walk_leaf_def m split: option.splits prod.splits if_splits del: walk_levels.simps)
qed

lemma page_key_same: "page_key v' = page_key v \<Longrightarrow> user_page tbl t v' = user_page tbl t v"
  unfolding user_page_def page_key_def by (auto split: option.split)

lemma page_table_of:
  assumes "user_page tbl t v = Some e"
  obtains x where "table_at tbl t (page_path v) = Some x" "tbl x (page_index 12 v) = e" "e AND 1 \<noteq> 0"
  using assms by (auto simp: user_page_def split: option.splits if_splits)

lemma unmap_page_effect:
  assumes tr: "tree_ok tbl t" and u: "user_addr v" and m: "vmm_unmap_page_in_pml4_flags tbl t v = (phys, fl, tbl')"
  shows "tree_ok tbl' t \<and> tables_of tbl' t = tables_of tbl t \<and> (\<forall>y. y \<notin> tables_of tbl t \<longrightarrow> tbl' y = tbl y) \<and>
    phys = (case user_page tbl t v of None \<Rightarrow> 0 | Some e \<Rightarrow> e AND PHYS_MASK) \<and>
    (\<forall>v'. user_addr v' \<longrightarrow> user_page tbl' t v' = (if page_key v' = page_key v then None else user_page tbl t v'))"
proof -
  let ?a = "page_index 39 v" and ?b = "page_index 30 v" and ?c = "page_index 21 v" and ?d = "page_index 12 v"
  have up: "[?a, ?b] \<in> user_paths" using u by (auto simp: user_paths_def user_addr_def)
  define t3 where "t3 = tbl t ?a AND PHYS_MASK"
  define t2 where "t2 = tbl t3 ?b AND PHYS_MASK"
  have small: "tbl t2 ?c AND 0x80 = 0" if "tbl t ?a AND 1 \<noteq> 0" "tbl t3 ?b AND 1 \<noteq> 0" "tbl t2 ?c AND 1 \<noteq> 0"
    by (rule tree_small [OF tr up]) (use that in \<open>simp_all add: t3_def t2_def\<close>)
  show ?thesis
  proof (cases "user_page tbl t v")
    case None
    then have "phys = 0" "tbl' = tbl" using m small
      by (auto simp: vmm_unmap_page_in_pml4_flags_def Let_def user_page_def page_path_def t3_def t2_def split: if_splits)
    moreover have "user_page tbl t v' = None" if "page_key v' = page_key v" for v'
      using None page_key_same [OF that] by simp
    ultimately show ?thesis using tr None by auto
  next
    case (Some e)
    obtain x where x: "table_at tbl t (page_path v) = Some x" "tbl x ?d = e" "e AND 1 \<noteq> 0" using page_table_of [OF Some] .
    then have r: "phys = e AND PHYS_MASK" "tbl' = set_entry x ?d 0 tbl" using m small
      by (auto simp: vmm_unmap_page_in_pml4_flags_def Let_def page_path_def t3_def t2_def split: if_splits)
    have "length (page_path v) = 3" by (simp add: page_path_def)
    note l = leaf_tree [OF tr page_path_user [OF u] x(1) this, where j = ?d and e = 0]
    show ?thesis using l r Some table_in [OF page_path_user [OF u] x(1)] by (auto simp: page_key_def set_entry_def)
  qed
qed

definition softly :: "u64 \<Rightarrow> tables \<Rightarrow> tables \<Rightarrow> bool" where
  "softly t tbl tbl' \<longleftrightarrow> tree_ok tbl' t \<and> tables_of tbl' t = tables_of tbl t \<and> (\<forall>p. table_at tbl' t p = table_at tbl t p) \<and>
     (\<forall>v. user_addr v \<longrightarrow> user_page tbl' t v = user_page tbl t v) \<and> (\<forall>y. y \<notin> tables_of tbl t \<longrightarrow> tbl' y = tbl y)"

lemma softly_trans: "softly t a b \<Longrightarrow> softly t b c \<Longrightarrow> softly t a c"
  by (simp add: softly_def)

lemma widen_entry_softly:
  assumes tr: "tree_ok tbl t" and q: "q \<in> user_paths" "table_at tbl t q = Some x" "length q \<le> 2"
  shows "softly t tbl (widen_entry x j flags tbl)"
proof (cases "tbl x j AND PTE_PRESENT \<noteq> 0")
  case True
  have "same_link (tbl x j) (tbl x j OR (flags AND 6))" using widened_entry(4,6) by (auto simp: same_link_def)
  note w = widened_tree [OF tr q this widened_entry(5)]
  have e: "widen_entry x j flags tbl = set_entry x j (tbl x j OR (flags AND 6)) tbl" using True by (simp add: widen_entry_def)
  show ?thesis unfolding e softly_def using w table_in [OF q(1,2)] by (auto simp: set_entry_def)
next
  case False
  then show ?thesis using tr by (simp add: widen_entry_def softly_def)
qed

definition protected_entry :: "u64 \<Rightarrow> u64 \<Rightarrow> u64" where
  "protected_entry e flags =
     (let changed = PTE_PRESENT OR PTE_WRITE OR PTE_USER OR PTE_NX OR PTE_COW in (e AND NOT changed) OR (flags AND changed))"

lemma protected_entry_parts:
  "protected_entry e flags AND PHYS_MASK = e AND PHYS_MASK" "protected_entry e flags AND 1 = flags AND 1"
  by (simp_all add: protected_entry_def bit.conj_disj_distrib2 and.assoc)

lemma user_page_entry:
  assumes "table_at tbl t (page_path v) = r"
  shows "user_page tbl t v =
    (case r of None \<Rightarrow> None | Some x \<Rightarrow> if tbl x (page_index 12 v) AND 1 = 0 then None else Some (tbl x (page_index 12 v)))"
  using assms by (simp add: user_page_def)

text \<open>What protecting a page means for the space.\<close>

definition protected_space :: "u64 \<Rightarrow> tables \<Rightarrow> u64 \<Rightarrow> u64 \<Rightarrow> int \<Rightarrow> tables \<Rightarrow> bool" where
  "protected_space t tbl v flags r tbl' \<longleftrightarrow>
     tree_ok tbl' t \<and> tables_of tbl' t = tables_of tbl t \<and> (\<forall>y. y \<notin> tables_of tbl t \<longrightarrow> tbl' y = tbl y) \<and>
     r = (if user_page tbl t v = None then -1 else 0) \<and>
     (\<forall>v'. user_addr v' \<longrightarrow> user_page tbl' t v' =
        (case user_page tbl t v' of
           None \<Rightarrow> None
         | Some e \<Rightarrow> if page_key v' \<noteq> page_key v then Some e else if flags AND 1 = 0 then None else Some (protected_entry e flags)))"

lemma widen_level:
  assumes s: "softly t tbl b" and q: "q \<in> user_paths" "table_at b t q = Some x" "length q \<le> 2"
    and v: "user_addr v" "page_path v = q @ j # r"
  shows "softly t tbl (widen_entry x j flags b)" "b x j AND 1 = 0 \<Longrightarrow> user_page tbl t v = None"
    "b x j AND 1 \<noteq> 0 \<Longrightarrow> table_at (widen_entry x j flags b) t (q @ [j]) = Some (b x j AND PHYS_MASK)"
proof -
  let ?b = "widen_entry x j flags b"
  have s': "softly t b ?b" by (rule widen_entry_softly [OF _ q]) (use s in \<open>simp add: softly_def\<close>)
  show "softly t tbl ?b" using softly_trans [OF s s'] .
  show "user_page tbl t v = None" if "b x j AND 1 = 0"
  proof -
    have "table_at b t (page_path v) = None" unfolding v(2) using q(2) that by (simp add: table_at_append)
    then show ?thesis using s v(1) by (auto simp: softly_def user_page_def)
  qed
  show "table_at ?b t (q @ [j]) = Some (b x j AND PHYS_MASK)" if "b x j AND 1 \<noteq> 0"
    using s' table_at_snoc [OF q(2), of j] that by (simp only: softly_def if_False)
qed

lemma protect_nothing:
  assumes "softly t tbl tbl'" and none: "user_page tbl t v = None"
  shows "protected_space t tbl v flags (-1) tbl'"
proof -
  have "user_page tbl t v' = None" if "page_key v' = page_key v" for v' using none page_key_same [OF that] by simp
  then show ?thesis using assms by (auto simp: protected_space_def softly_def split: option.splits)
qed

lemma protect_leaf:
  assumes s: "softly t tbl b" and u: "user_addr v" and x: "table_at b t (page_path v) = Some x"
    and e: "b x (page_index 12 v) AND 1 \<noteq> 0"
  shows "protected_space t tbl v flags 0 (set_entry x (page_index 12 v) (protected_entry (b x (page_index 12 v)) flags) b)"
proof -
  let ?d = "page_index 12 v"
  let ?b = "set_entry x ?d (protected_entry (b x ?d) flags) b"
  have sf: "tree_ok b t" "tables_of b t = tables_of tbl t" "\<forall>y. y \<notin> tables_of tbl t \<longrightarrow> b y = tbl y"
    "\<And>v. user_addr v \<Longrightarrow> user_page b t v = user_page tbl t v" using s by (auto simp: softly_def)
  have "user_page tbl t v = Some (b x ?d)" using sf(4) [OF u] user_page_entry [OF x] e by simp
  then have same: "user_page tbl t v' = Some (b x ?d)" if "page_key v' = page_key v" for v' using page_key_same [OF that] by simp
  note pv = page_path_user [OF u]
  have l3: "length (page_path v) = 3" by (simp add: page_path_def)
  note l = leaf_tree [OF sf(1) pv x l3, where j = ?d and e = "protected_entry (b x ?d) flags"]
  have "x \<in> tables_of tbl t" using table_in [OF pv x] sf(2) by simp
  then have "\<forall>y. y \<notin> tables_of tbl t \<longrightarrow> ?b y = tbl y" using sf(3) by (auto simp: set_entry_def)
  moreover have "user_page ?b t v' =
     (case user_page tbl t v' of
        None \<Rightarrow> None
      | Some e \<Rightarrow> if page_key v' \<noteq> page_key v then Some e else if flags AND 1 = 0 then None else Some (protected_entry e flags))"
    if "user_addr v'" for v'
    using l(3) [OF that] same [of v'] sf(4) [OF that] unfolding page_key_def [of v, symmetric] protected_entry_parts(2)
    by (auto split: option.splits)
  ultimately show ?thesis using l(1,2) sf(2) same [OF refl] by (simp add: protected_space_def)
qed

lemma protect_page_effect:
  assumes tr: "tree_ok tbl t" and u: "user_addr v" "v < KERNEL_VMA" "t \<noteq> 0"
    and m: "vmm_protect_page_in_pml4 tbl t v flags = (r, tbl')"
  shows "protected_space t tbl v flags r tbl'"
proof -
  let ?a = "page_index 39 v" and ?b = "page_index 30 v" and ?c = "page_index 21 v" and ?d = "page_index 12 v"
  have up: "[] \<in> user_paths" "[?a] \<in> user_paths" "[?a, ?b] \<in> user_paths" using u by (auto simp: user_paths_def user_addr_def)
  have pv: "page_path v = [] @ ?a # [?b, ?c]" "page_path v = [?a] @ ?b # [?c]" "page_path v = [?a, ?b] @ ?c # []"
    by (simp_all add: page_path_def)
  have no: "\<not> KERNEL_VMA \<le> v" using u(2) by (simp only: not_le)
  define tbl1 where "tbl1 = widen_entry t ?a flags tbl"
  define t3 where "t3 = tbl t ?a AND PHYS_MASK"
  define tbl2 where "tbl2 = widen_entry t3 ?b flags tbl1"
  define t2 where "t2 = tbl1 t3 ?b AND PHYS_MASK"
  define tbl3 where "tbl3 = widen_entry t2 ?c flags tbl2"
  define t1 where "t1 = tbl2 t2 ?c AND PHYS_MASK"
  note defs = tbl1_def tbl2_def tbl3_def t3_def t2_def t1_def
  have res: "(r, tbl') = (if tbl t ?a AND 1 = 0 then (-1, tbl1) else if tbl1 t3 ?b AND 1 = 0 then (-1, tbl2)
      else if tbl2 t2 ?c AND 1 = 0 \<or> tbl2 t2 ?c AND 0x80 \<noteq> 0 then (-1, tbl3) else if tbl3 t1 ?d AND 1 = 0 then (-1, tbl3)
      else (0, set_entry t1 ?d (protected_entry (tbl3 t1 ?d) flags) tbl3))"
    unfolding m [symmetric] vmm_protect_page_in_pml4_def Let_def protected_entry_def defs using no u(3) by simp
  have s0: "softly t tbl tbl" using tr by (simp add: softly_def)
  have w1: "softly t tbl tbl1" "tbl t ?a AND 1 = 0 \<Longrightarrow> user_page tbl t v = None"
    "tbl t ?a AND 1 \<noteq> 0 \<Longrightarrow> table_at tbl1 t [?a] = Some t3"
    using widen_level [OF s0 up(1) table_at.simps(1) _ u(1) pv(1)] by (simp_all only: tbl1_def t3_def append_Nil list.size) simp_all
  show ?thesis
  proof (cases "tbl t ?a AND 1 = 0")
    case True
    then show ?thesis using res protect_nothing w1(1,2) by simp
  next
    case e4: False
    have w2: "softly t tbl tbl2" "tbl1 t3 ?b AND 1 = 0 \<Longrightarrow> user_page tbl t v = None"
      "tbl1 t3 ?b AND 1 \<noteq> 0 \<Longrightarrow> table_at tbl2 t [?a, ?b] = Some t2"
      using widen_level [OF w1(1) up(2) w1(3) [OF e4] _ u(1) pv(2)] by (simp_all only: tbl2_def t2_def append.simps list.size) simp_all
    show ?thesis
    proof (cases "tbl1 t3 ?b AND 1 = 0")
      case True
      then show ?thesis using res e4 protect_nothing w2(1,2) by simp
    next
      case e3: False
      have w3: "softly t tbl tbl3" "tbl2 t2 ?c AND 1 = 0 \<Longrightarrow> user_page tbl t v = None"
        "tbl2 t2 ?c AND 1 \<noteq> 0 \<Longrightarrow> table_at tbl3 t [?a, ?b, ?c] = Some t1"
        using widen_level [OF w2(1) up(3) w2(3) [OF e3] _ u(1) pv(3)] by (simp_all only: tbl3_def t1_def append.simps list.size) simp_all
      have "tree_ok tbl2 t" using w2(1) by (simp add: softly_def)
      from tree_small [OF this up(3) w2(3) [OF e3]] have small: "tbl2 t2 ?c AND 1 \<noteq> 0 \<Longrightarrow> tbl2 t2 ?c AND 0x80 = 0" by simp
      show ?thesis
      proof (cases "tbl2 t2 ?c AND 1 = 0")
        case True
        then show ?thesis using res e4 e3 protect_nothing w3(1,2) by simp
      next
        case e2: False
        have x: "table_at tbl3 t (page_path v) = Some t1" unfolding page_path_def using w3(3) [OF e2] .
        show ?thesis
        proof (cases "tbl3 t1 ?d AND 1 = 0")
          case True
          have "user_page tbl t v = None" using w3(1) user_page_entry [OF x] True u(1) by (simp add: softly_def)
          then show ?thesis using res e4 e3 e2 small True protect_nothing w3(1) by simp
        next
          case False
          then show ?thesis using res e4 e3 e2 small protect_leaf [OF _ u(1) x False] w3(1) by simp
        qed
      qed
    qed
  qed
qed

end
