(* ===== verification/Vmm_Range.thy ===== *)
theory Vmm_Range
  imports Vmm_Space
begin

text \<open>
  Mapping a range of pages: every page of the range gets a frame of its own, or the pages
  mapped so far are taken back.
\<close>

unbundle bit_operations_syntax

subsection \<open>Addresses of the user half\<close>

definition low_addr :: "u64 \<Rightarrow> bool" where
  "low_addr v \<longleftrightarrow> unat v < 2 ^ 47"

definition page_number :: "u64 \<Rightarrow> nat" where
  "page_number v = unat v div PAGE_SIZE"

lemma page_index_nat: "page_index k v = unat v div 2 ^ k mod 512"
proof -
  have m: "(0x1FF :: u64) = mask 9" by (simp add: mask_eq_exp_minus_1)
  have "page_index k v = unat (take_bit 9 (drop_bit k v))" unfolding page_index_def m take_bit_eq_mask ..
  also have "\<dots> = take_bit 9 (drop_bit k (unat v))" by (simp only: unsigned_take_bit_eq unat_drop_bit_eq)
  also have "\<dots> = unat v div 2 ^ k mod 512" by (simp add: take_bit_eq_mod drop_bit_eq_div)
  finally show ?thesis .
qed

lemma low_addr_user:
  assumes "low_addr v" shows "user_addr v" "v < KERNEL_VMA"
proof -
  have "unat v div 2 ^ 39 < 256" using assms by (simp add: low_addr_def div_less_iff_less_mult)
  then show "user_addr v" by (simp add: user_addr_def page_index_nat)
  show "v < KERNEL_VMA" using assms by (simp add: low_addr_def word_less_nat_alt)
qed

lemma page_key_low:
  assumes "low_addr a" and "low_addr b"
  shows "page_key a = page_key b \<longleftrightarrow> page_number a = page_number b"
proof -
  define m where "m = page_number a"
  define n where "n = page_number b"
  have b: "m < 2 ^ 36" "n < 2 ^ 36" using assms by (auto simp: m_def n_def low_addr_def page_number_def div_less_iff_less_mult)
  have k: "page_index 39 v = page_number v div 512 div 512 div 512 mod 512" "page_index 30 v = page_number v div 512 div 512 mod 512"
    "page_index 21 v = page_number v div 512 mod 512" "page_index 12 v = page_number v mod 512" for v
    by (simp_all add: page_index_nat page_number_def div_mult2_eq [symmetric])
  have top: "x div 512 div 512 div 512 mod 512 = x div 512 div 512 div 512" if "x < 2 ^ 36" for x :: nat
    using that by (simp add: div_mult2_eq [symmetric] div_less_iff_less_mult)
  have "m = n" if "m div 512 div 512 div 512 = n div 512 div 512 div 512" "m div 512 div 512 mod 512 = n div 512 div 512 mod 512"
    "m div 512 mod 512 = n div 512 mod 512" "m mod 512 = n mod 512"
  proof -
    have "m div 512 div 512 = n div 512 div 512" using that(1,2) by (metis div_mult_mod_eq)
    then have "m div 512 = n div 512" using that(3) by (metis div_mult_mod_eq)
    then show ?thesis using that(4) by (metis div_mult_mod_eq)
  qed
  then show ?thesis using top [OF b(1)] top [OF b(2)] by (auto simp: page_key_def page_path_def k m_def n_def)
qed

lemma page_number_add: "unat start mod PAGE_SIZE = 0 \<Longrightarrow> unat start + i * PAGE_SIZE < 2 ^ 64 \<Longrightarrow>
    page_number (start + of_nat i * 0x1000) = page_number start + i \<and> unat (start + of_nat i * 0x1000) = unat start + i * PAGE_SIZE"
proof -
  assume a: "unat start mod PAGE_SIZE = 0" and b: "unat start + i * PAGE_SIZE < 2 ^ 64"
  have "start + of_nat i * 0x1000 = of_nat (unat start + i * PAGE_SIZE)" by simp
  moreover have "unat (of_nat (unat start + i * PAGE_SIZE) :: u64) = unat start + i * PAGE_SIZE" using b by (simp only: unat_of_nat) simp
  ultimately have "unat (start + of_nat i * 0x1000) = unat start + i * PAGE_SIZE" by (simp only:)
  then show ?thesis using a by (simp add: page_number_def)
qed

lemma page_range_low:
  assumes al: "unat start mod PAGE_SIZE = 0" "unat finish mod PAGE_SIZE = 0" and fin: "unat finish \<le> 2 ^ 47"
  shows "distinct (map page_number (page_range start finish))" "\<forall>v \<in> set (page_range start finish). low_addr v"
    "page_number ` set (page_range start finish) = {page_number start..<page_number finish}"
    "\<forall>v \<in> set (page_range start finish). unat v = page_number v * PAGE_SIZE"
proof -
  let ?n = "(unat finish - unat start + 0xFFF) div 0x1000"
  have n: "?n = page_number finish - page_number start"
  proof -
    define q where "q = page_number start"
    define k where "k = page_number finish"
    have "unat start = q * 4096" "unat finish = k * 4096" using al by (auto simp: q_def k_def page_number_def)
    then have "?n = ((k - q) * 4096 + 4095) div 4096" by (simp add: diff_mult_distrib)
    also have "\<dots> = k - q" by simp
    finally show ?thesis by (simp add: q_def k_def)
  qed
  have bound: "unat start + i * PAGE_SIZE < 2 ^ 47" if "i < ?n" for i
  proof -
    have "page_number start + i + 1 \<le> page_number finish" using that n by simp
    then have "(page_number start + i + 1) * PAGE_SIZE \<le> page_number finish * PAGE_SIZE" by (rule mult_le_mono1)
    moreover have "page_number start * PAGE_SIZE = unat start" "page_number finish * PAGE_SIZE = unat finish"
      using al by (auto simp: page_number_def)
    ultimately show ?thesis using fin by (simp add: algebra_simps)
  qed
  have p: "page_number (start + of_nat i * 0x1000) = page_number start + i \<and> unat (start + of_nat i * 0x1000) = unat start + i * PAGE_SIZE"
    if "i < ?n" for i using page_number_add [OF al(1), of i] bound [OF that] by simp
  have m: "map page_number (page_range start finish) = map (\<lambda>i. page_number start + i) [0..<?n]"
    unfolding page_range_def map_map o_def by (rule map_cong [OF refl]) (use p in auto)
  show "distinct (map page_number (page_range start finish))" unfolding m by (simp add: distinct_map)
  have "page_number ` set (page_range start finish) = set (map page_number (page_range start finish))" by simp
  also have "\<dots> = {page_number start..<page_number finish}" unfolding m n
    by (auto simp: image_iff)
  finally show "page_number ` set (page_range start finish) = {page_number start..<page_number finish}" .
  show "\<forall>v \<in> set (page_range start finish). low_addr v" using p bound by (auto simp: page_range_def low_addr_def)
  have "page_number start * PAGE_SIZE = unat start" using al by (auto simp: page_number_def)
  then show "\<forall>v \<in> set (page_range start finish). unat v = page_number v * PAGE_SIZE"
    using p by (auto simp: page_range_def algebra_simps)
qed

subsection \<open>Frames for pages\<close>

lemma fresh_page:
  assumes ok: "space_ok t s" and a: "pfa_alloc False (vm_pfa s) = (n, fl, p)"
  shows "quiet t s (s\<lparr>vm_pfa := p\<rparr>)"
    "n \<noteq> 0 \<Longrightarrow> quiet t s (zero_page (of_nat n) (s\<lparr>vm_pfa := p\<rparr>)) \<and> of_nat n \<noteq> (0 :: u64) \<and> of_nat n \<notin> in_use (vm_pfa s) \<and>
       of_nat n \<in> in_use (vm_pfa (zero_page (of_nat n) (s\<lparr>vm_pfa := p\<rparr>))) -
         tables_of (vm_table (zero_page (of_nat n) (s\<lparr>vm_pfa := p\<rparr>))) t"
proof -
  have po: "pfa_ok 0 (vm_pfa s)" and tu: "tables_of (vm_table s) t \<subseteq> in_use (vm_pfa s)" using ok by (auto simp: space_ok_def)
  have "allocates (vm_pfa s) 0 (bitmap_entries_used (vm_pfa s)) 1 (n, p)"
    using pfa_alloc_allocates [OF po] by (simp add: a drop_flag_def)
  note al = alloc_in_use [OF po this]
  let ?s0 = "s\<lparr>vm_pfa := p\<rparr>"
  show q0: "quiet t s ?s0" using quiet_alloc [OF ok al(1,2)] .
  assume n: "n \<noteq> 0"
  define y :: u64 where "y = of_nat n"
  have y: "y \<in> in_use p - in_use (vm_pfa s)" "unat y = n" using al(3,4) n by (auto simp: y_def)
  then have y0: "y \<in> in_use (vm_pfa ?s0) - tables_of (vm_table ?s0) t" using tu by auto
  note z = quiet_zero [OF quiet_ok [OF q0] y0]
  have "evolves t s (zero_page y ?s0)" unfolding evolves_def
  proof (intro conjI ballI)
    fix w assume w: "w \<in> in_use (vm_pfa s) - tables_of (vm_table s) t"
    then have "w \<noteq> y" using y by auto
    then show "vm_table (zero_page y ?s0) w = vm_table s w" using z(6) by simp
    show "w \<in> in_use (vm_pfa (zero_page y ?s0)) - tables_of (vm_table (zero_page y ?s0)) t" using w z(2,3) al(2) by auto
  qed (rule z)
  moreover have "same_pages t s (zero_page y ?s0)" using z(5) by (simp add: same_pages_def)
  moreover have "y \<noteq> 0" using y(2) n by auto
  ultimately show "quiet t s (zero_page (of_nat n) ?s0) \<and> of_nat n \<noteq> (0 :: u64) \<and> of_nat n \<notin> in_use (vm_pfa s) \<and>
       of_nat n \<in> in_use (vm_pfa (zero_page (of_nat n) ?s0)) - tables_of (vm_table (zero_page (of_nat n) ?s0)) t"
    unfolding y_def [symmetric] using y(1) y0 z(2,3) by (simp add: quiet_def)
qed

text \<open>Changes that may give some frames back.\<close>

definition evolves_but :: "u64 set \<Rightarrow> u64 \<Rightarrow> vmm \<Rightarrow> vmm \<Rightarrow> bool" where
  "evolves_but F t s s' \<longleftrightarrow> space_ok t s' \<and>
     (\<forall>y \<in> in_use (vm_pfa s) - tables_of (vm_table s) t - F.
        y \<in> in_use (vm_pfa s') - tables_of (vm_table s') t \<and> vm_table s' y = vm_table s y)"

lemma evolves_but_trans: "evolves_but F t a b \<Longrightarrow> evolves_but G t b c \<Longrightarrow> evolves_but (F \<union> G) t a c"
  unfolding evolves_but_def by (metis (no_types, lifting) DiffD1 DiffD2 DiffI UnCI)

lemma evolves_but_fresh: "evolves t s a \<Longrightarrow> evolves_but F t a b \<Longrightarrow> F \<inter> (in_use (vm_pfa s) - tables_of (vm_table s) t) = {} \<Longrightarrow> evolves t s b"
  unfolding evolves_but_def evolves_def by (metis (no_types, lifting) DiffI disjoint_iff)

lemma free_page_effect:
  assumes ok: "space_ok t s" and y: "y \<in> in_use (vm_pfa s) - tables_of (vm_table s) t"
  shows "evolves_but {y} t s (free_page y s)" "vm_table (free_page y s) = vm_table s"
proof -
  have po: "pfa_ok 0 (vm_pfa s)" using ok by (simp add: space_ok_def)
  have yi: "y \<in> in_use (vm_pfa s)" using y by simp
  note f = free_in_use [OF po yi]
  have "tables_of (vm_table s) t \<subseteq> in_use (pfa_free (vm_pfa s) (unat y))" using ok y f(2) by (auto simp: space_ok_def)
  then show "evolves_but {y} t s (free_page y s)" using ok f unfolding evolves_but_def space_ok_def free_page_def by auto
qed (simp add: free_page_def)

subsection \<open>Taking pages back\<close>

text \<open>Pages that are mapped with the given flags to frames of their own.\<close>

definition mapped_to :: "u64 \<Rightarrow> vmm \<Rightarrow> u64 \<Rightarrow> (u64 \<Rightarrow> u64) \<Rightarrow> u64 set \<Rightarrow> bool" where
  "mapped_to t s flags f V \<longleftrightarrow> inj_on f V \<and>
     (\<forall>v \<in> V. user_page (vm_table s) t v = Some (page_entry (f v) flags) \<and> f v \<noteq> 0 \<and>
        f v \<in> in_use (vm_pfa s) - tables_of (vm_table s) t)"

lemma mapped_to_keep:
  assumes "mapped_to t s flags f V" and "evolves_but F t s s'" and "f ` V \<inter> F = {}"
    and "\<And>v. v \<in> V \<Longrightarrow> user_page (vm_table s') t v = user_page (vm_table s) t v"
  shows "mapped_to t s' flags f V"
  using assms unfolding mapped_to_def evolves_but_def by (auto simp: image_iff)

lemma page_entry_phys: "y AND PHYS_MASK = y \<Longrightarrow> page_entry y flags AND PHYS_MASK = y"
  unfolding page_entry_def using leaf_entry_parts(1) [of y flags] by (rule trans)

lemma unmap_free_effect:
  assumes ok: "space_ok t s" and v: "low_addr v" and e: "user_page (vm_table s) t v = Some (page_entry y flags)"
    and y: "y \<noteq> 0" "y \<in> in_use (vm_pfa s) - tables_of (vm_table s) t"
  shows "evolves_but {y} t s (unmap_free t s v)"
    "user_addr v' \<Longrightarrow> user_page (vm_table (unmap_free t s v)) t v' =
       (if page_key v' = page_key v then None else user_page (vm_table s) t v')"
proof -
  have tr: "tree_ok (vm_table s) t" using ok by (simp add: space_ok_def)
  obtain phys fl tbl where m: "vmm_unmap_page_in_pml4_flags (vm_table s) t v = (phys, fl, tbl)" by (metis prod_cases3)
  note um = unmap_page_effect [OF tr low_addr_user(1) [OF v] m]
  have "y AND PHYS_MASK = y" using y by (simp add: in_use_def)
  then have ph: "phys = y" using um e page_entry_phys by simp
  let ?s1 = "s\<lparr>vm_table := tbl\<rparr>"
  have s': "unmap_free t s v = free_page y ?s1" using m ph y by (simp add: unmap_free_def vmm_unmap_page_in_pml4_def)
  have ev: "evolves_but {} t s ?s1" using um ok unfolding evolves_but_def space_ok_def by auto
  have "y \<in> in_use (vm_pfa ?s1) - tables_of (vm_table ?s1) t" using y um by simp
  note f = free_page_effect [OF _ this]
  have "space_ok t ?s1" using ev by (simp add: evolves_but_def)
  from evolves_but_trans [OF ev f(1) [OF this]] show "evolves_but {y} t s (unmap_free t s v)" by (simp add: s')
  show "user_page (vm_table (unmap_free t s v)) t v' = (if page_key v' = page_key v then None else user_page (vm_table s) t v')"
    if "user_addr v'" using um that by (simp add: s' free_page_def)
qed

lemma unmap_all:
  assumes "space_ok t s" and "\<forall>v \<in> set ds. low_addr v" and "distinct (map page_number ds)" and "mapped_to t s flags f (set ds)"
  shows "evolves_but (f ` set ds) t s (foldl (unmap_free t) s ds) \<and>
    (\<forall>v'. user_addr v' \<longrightarrow> user_page (vm_table (foldl (unmap_free t) s ds)) t v' =
       (if page_key v' \<in> page_key ` set ds then None else user_page (vm_table s) t v'))"
  using assms
proof (induction ds arbitrary: s)
  case Nil
  then show ?case by (simp add: evolves_but_def)
next
  case (Cons d ds)
  let ?s1 = "unmap_free t s d"
  have d: "low_addr d" "user_page (vm_table s) t d = Some (page_entry (f d) flags)" "f d \<noteq> 0"
    "f d \<in> in_use (vm_pfa s) - tables_of (vm_table s) t" using Cons.prems by (auto simp: mapped_to_def)
  note u = unmap_free_effect [OF Cons.prems(1) d(1,2,3,4)]
  have kd: "page_key w \<noteq> page_key d" if "w \<in> set ds" for w
    using that Cons.prems(2,3) page_key_low [of w d] d(1) by (auto simp: image_iff)
  have "mapped_to t s flags f (set ds)" using Cons.prems(4) by (auto simp: mapped_to_def)
  then have m1: "mapped_to t ?s1 flags f (set ds)"
    by (rule mapped_to_keep [OF _ u(1)])
      (use Cons.prems u(2) kd low_addr_user in \<open>auto simp: mapped_to_def inj_on_def image_iff\<close>)
  have ok1: "space_ok t ?s1" using u(1) by (simp add: evolves_but_def)
  note ih = Cons.IH [OF ok1 _ _ m1]
  have "evolves_but ({f d} \<union> f ` set ds) t s (foldl (unmap_free t) ?s1 ds)"
    using evolves_but_trans [OF u(1)] ih Cons.prems by simp
  then show ?case using ih u(2) Cons.prems by auto
qed

subsection \<open>Mapping page after page\<close>

lemma map_next_page:
  assumes ok: "space_ok t s" and v: "low_addr v" and fl: "flags AND 1 \<noteq> 0" and a: "pfa_alloc False (vm_pfa s) = (n, w, p)" "n \<noteq> 0"
    and m: "vmm_map_page_in_pml4 (zero_page (of_nat n) (s\<lparr>vm_pfa := p\<rparr>)) t v (of_nat n) flags = (r, s2)"
  shows "r < 0 \<Longrightarrow> quiet t s (free_page (of_nat n) s2)"
    "\<not> r < 0 \<Longrightarrow> evolves t s s2 \<and> mapped_to t s2 flags (\<lambda>u. of_nat n) {v} \<and> of_nat n \<notin> in_use (vm_pfa s) \<and>
       (\<forall>v'. user_addr v' \<longrightarrow> page_key v' \<noteq> page_key v \<longrightarrow> user_page (vm_table s2) t v' = user_page (vm_table s) t v')"
proof -
  let ?y = "of_nat n :: u64" and ?s1 = "zero_page (of_nat n) (s\<lparr>vm_pfa := p\<rparr>)"
  have f: "quiet t s ?s1" "?y \<noteq> 0" "?y \<notin> in_use (vm_pfa s)" "?y \<in> in_use (vm_pfa ?s1) - tables_of (vm_table ?s1) t"
    using fresh_page(2) [OF ok a] by auto
  note me = map_page_effect [OF quiet_ok [OF f(1)] low_addr_user [OF v] m]
  have ev: "evolves t s s2" using f(1) me evolves_trans by (auto simp: quiet_def)
  have y2: "?y \<in> in_use (vm_pfa s2) - tables_of (vm_table s2) t" using me f(4) unfolding evolves_def by blast
  show "quiet t s (free_page ?y s2)" if "r < 0"
  proof -
    note fr = free_page_effect [OF evolves_ok [OF ev] y2]
    have "evolves t s (free_page ?y s2)" using evolves_but_fresh [OF ev fr(1)] f(3) by simp
    moreover have "same_pages t s (free_page ?y s2)" using me that quiet_page [OF f(1)] by (auto simp: same_pages_def fr(2))
    ultimately show ?thesis by (simp add: quiet_def)
  qed
  show "evolves t s s2 \<and> mapped_to t s2 flags (\<lambda>u. ?y) {v} \<and> ?y \<notin> in_use (vm_pfa s) \<and>
       (\<forall>v'. user_addr v' \<longrightarrow> page_key v' \<noteq> page_key v \<longrightarrow> user_page (vm_table s2) t v' = user_page (vm_table s) t v')" if "\<not> r < 0"
    using ev y2 f me that fl quiet_page [OF f(1)] low_addr_user [OF v] by (auto simp: mapped_to_def)
qed

text \<open>
  Mapping the pages vs after the pages ds: the pages us mapped in addition, which are all
  of vs on success, and the frames g they have.
\<close>

definition mapped_more :: "u64 \<Rightarrow> u64 \<Rightarrow> vmm \<Rightarrow> u64 list \<Rightarrow> u64 list \<Rightarrow> (u64 \<Rightarrow> u64) \<Rightarrow> u64 list option \<Rightarrow> vmm \<Rightarrow> u64 list \<Rightarrow>
    (u64 \<Rightarrow> u64) \<Rightarrow> bool" where
  "mapped_more t flags s vs ds f res s' us g \<longleftrightarrow>
     (case res of None \<Rightarrow> us = rev vs | Some d \<Rightarrow> d = us @ ds) \<and> set us \<subseteq> set vs \<and> distinct (map page_number (us @ ds)) \<and>
     evolves t s s' \<and> mapped_to t s' flags g (set (us @ ds)) \<and>
     g ` set us \<inter> (in_use (vm_pfa s) - tables_of (vm_table s) t) = {} \<and> (\<forall>v \<in> set ds. g v = f v) \<and>
     (\<forall>v'. user_addr v' \<longrightarrow> page_key v' \<notin> page_key ` set us \<longrightarrow> user_page (vm_table s') t v' = user_page (vm_table s) t v')"

lemma mapped_stop:
  assumes q: "quiet t s s'" and d: "\<forall>v \<in> set ds. low_addr v" "distinct (map page_number ds)" and m: "mapped_to t s flags f (set ds)"
  shows "mapped_more t flags s vs ds f (Some ds) s' [] f"
proof -
  have "evolves_but {} t s s'" using q by (simp add: quiet_def evolves_def evolves_but_def)
  from mapped_to_keep [OF m this] have "mapped_to t s' flags f (set ds)" using quiet_page [OF q] d(1) low_addr_user by auto
  then show ?thesis using q d(2) by (simp add: mapped_more_def quiet_def same_pages_def)
qed

text \<open>One more page joins the pages mapped so far.\<close>

lemma mapped_join:
  assumes low: "\<forall>u \<in> set (v # ds). low_addr u" and dist: "distinct (map page_number (v # ds))"
    and m: "mapped_to t s flags f (set ds)" and ev: "evolves t s s2" and y: "mapped_to t s2 flags (\<lambda>u. y) {v}" "y \<notin> in_use (vm_pfa s)"
    and same: "\<And>v'. user_addr v' \<Longrightarrow> page_key v' \<noteq> page_key v \<Longrightarrow> user_page (vm_table s2) t v' = user_page (vm_table s) t v'"
  shows "mapped_to t s2 flags (f(v := y)) (set (v # ds))" "v \<notin> set ds"
proof -
  have key: "page_key d \<noteq> page_key v" if "d \<in> set ds" for d using that low dist page_key_low [of d v] by (auto simp: image_iff)
  have "evolves_but {} t s s2" using ev by (simp add: evolves_def evolves_but_def)
  from mapped_to_keep [OF m this] have mo: "mapped_to t s2 flags f (set ds)" using same key low_addr_user low by auto
  have fd: "f d \<noteq> y" "d \<noteq> v" if "d \<in> set ds" for d using that m y(2) key [OF that] by (auto simp: mapped_to_def)
  then show "v \<notin> set ds" by blast
  have "inj_on (f(v := y)) (set (v # ds))" using mo fd by (auto simp: mapped_to_def inj_on_def)
  then show "mapped_to t s2 flags (f(v := y)) (set (v # ds))" using mo y(1) fd(2) unfolding mapped_to_def by auto
qed

lemma mapped_extend:
  assumes ev: "evolves t s s2" and y: "y \<notin> in_use (vm_pfa s)" and vd: "v \<notin> set ds"
    and same: "\<And>v'. user_addr v' \<Longrightarrow> page_key v' \<noteq> page_key v \<Longrightarrow> user_page (vm_table s2) t v' = user_page (vm_table s) t v'"
    and more: "mapped_more t flags s2 vs (v # ds) (f(v := y)) res s' us g"
  shows "mapped_more t flags s (v # vs) ds f res s' (us @ [v]) g"
proof -
  have "g x \<notin> in_use (vm_pfa s) - tables_of (vm_table s) t" if "x \<in> set us" for x
    using more that ev unfolding mapped_more_def evolves_def by blast
  moreover have "g v = y" "\<forall>d \<in> set ds. g d = f d" using more vd by (auto simp: mapped_more_def)
  moreover have "evolves t s s'" using more ev evolves_trans by (auto simp: mapped_more_def)
  ultimately show ?thesis using more same y unfolding mapped_more_def by (auto split: option.splits)
qed

lemma map_pages_effect:
  assumes "space_ok t s" and "\<forall>v \<in> set (vs @ ds). low_addr v" and "distinct (map page_number (vs @ ds))" and "flags AND 1 \<noteq> 0"
    and "mapped_to t s flags f (set ds)" and "map_pages s t vs flags ds = (res, s')"
  shows "\<exists>us g. mapped_more t flags s vs ds f res s' us g"
  using assms
proof (induction vs arbitrary: s ds f)
  case Nil
  then have "mapped_more t flags s [] ds f res s' [] f" by (auto simp: mapped_more_def)
  then show ?case by blast
next
  case (Cons v vs)
  obtain n w p where a: "pfa_alloc False (vm_pfa s) = (n, w, p)" by (metis prod_cases3)
  have lv: "low_addr v" "\<forall>u \<in> set ds. low_addr u" "distinct (map page_number ds)" using Cons.prems by auto
  note stop = mapped_stop [OF _ lv(2,3) Cons.prems(5), of s' "v # vs"]
  show ?case
  proof (cases "n = 0")
    case True
    then have "res = Some ds" "s' = s\<lparr>vm_pfa := p\<rparr>" using Cons.prems(6) a by auto
    then show ?thesis using stop fresh_page(1) [OF Cons.prems(1) a] by blast
  next
    case False
    obtain r s2 where m: "vmm_map_page_in_pml4 (zero_page (of_nat n) (s\<lparr>vm_pfa := p\<rparr>)) t v (of_nat n) flags = (r, s2)" by force
    note nx = map_next_page [OF Cons.prems(1) lv(1) Cons.prems(4) a False m]
    show ?thesis
    proof (cases "r < 0")
      case True
      then have "res = Some ds" "s' = free_page (of_nat n) s2" using Cons.prems(6) a False m by auto
      then show ?thesis using stop nx(1) [OF True] by blast
    next
      case g: False
      have mp: "map_pages s2 t vs flags (v # ds) = (res, s')" using Cons.prems(6) a False m g by simp
      have n2: "evolves t s s2" "mapped_to t s2 flags (\<lambda>u. of_nat n) {v}" "of_nat n \<notin> in_use (vm_pfa s)"
        "\<And>v'. user_addr v' \<Longrightarrow> page_key v' \<noteq> page_key v \<Longrightarrow> user_page (vm_table s2) t v' = user_page (vm_table s) t v'"
        using nx(2) [OF g] by auto
      have d: "\<forall>u \<in> set (v # ds). low_addr u" "distinct (map page_number (v # ds))"
        "\<forall>u \<in> set (vs @ v # ds). low_addr u" "distinct (map page_number (vs @ v # ds))" using Cons.prems(2,3) by auto
      note j = mapped_join [OF d(1,2) Cons.prems(5) n2]
      from Cons.IH [OF evolves_ok [OF n2(1)] d(3,4) Cons.prems(4) j(1) mp] show ?thesis
        using mapped_extend [OF n2(1,3) j(2) n2(4)] by blast
    qed
  qed
qed

text \<open>
  The pages us that were mapped, and what became of them: all pages of the range, or none
  of them after the way back.
\<close>

lemma map_range_cases:
  assumes ok: "space_ok t s" and fl: "flags AND 1 \<noteq> 0" and al: "unat start mod PAGE_SIZE = 0" "unat finish mod PAGE_SIZE = 0"
    and fin: "unat finish \<le> 2 ^ 47" and r: "map_pages s t (page_range start finish) flags [] = (res, s1)"
  defines "s' \<equiv> case res of None \<Rightarrow> s1 | Some ds \<Rightarrow> vmm_prune_user_range (foldl (unmap_free t) s1 ds) t start (finish - start)"
  shows "evolves t s s' \<and> (\<exists>us g. set us \<subseteq> set (page_range start finish) \<and>
    (\<forall>v. user_addr v \<longrightarrow> page_key v \<notin> page_key ` set us \<longrightarrow> user_page (vm_table s') t v = user_page (vm_table s) t v) \<and>
    (set us = set (page_range start finish) \<and> mapped_to t s' flags g (set us) \<and>
       g ` set us \<inter> (in_use (vm_pfa s) - tables_of (vm_table s) t) = {} \<or>
     (\<forall>v. user_addr v \<longrightarrow> page_key v \<in> page_key ` set us \<longrightarrow> user_page (vm_table s') t v = None)))"
proof -
  let ?V = "page_range start finish"
  note pr = page_range_low [OF al fin]
  have "\<exists>us g. mapped_more t flags s ?V [] undefined res s1 us g"
    by (rule map_pages_effect [OF ok _ _ fl _ r]) (use pr(1,2) in \<open>auto simp: mapped_to_def\<close>)
  then obtain us g where u: "case res of None \<Rightarrow> us = rev ?V | Some d \<Rightarrow> d = us @ []" "set us \<subseteq> set ?V" "distinct (map page_number us)"
    "evolves t s s1" "mapped_to t s1 flags g (set us)" "g ` set us \<inter> (in_use (vm_pfa s) - tables_of (vm_table s) t) = {}"
    "\<And>v'. user_addr v' \<Longrightarrow> page_key v' \<notin> page_key ` set us \<Longrightarrow> user_page (vm_table s1) t v' = user_page (vm_table s) t v'"
    unfolding mapped_more_def append_Nil2 by blast
  show ?thesis
  proof (cases res)
    case None
    then have "us = rev ?V" "s' = s1" using u(1) by (simp_all add: s'_def)
    then show ?thesis using u by (intro conjI exI [of _ us] exI [of _ g]) auto
  next
    case (Some ds)
    then have ds: "ds = us" using u(1) by simp
    let ?s2 = "foldl (unmap_free t) s1 us"
    have low: "\<forall>v \<in> set us. low_addr v" using u(2) pr(2) by blast
    note ua = unmap_all [OF evolves_ok [OF u(4)] low u(3) u(5)]
    have ev: "evolves t s ?s2" using evolves_but_fresh [OF u(4) _ u(6)] ua by blast
    have q: "quiet t ?s2 s'" unfolding s'_def Some using prune_quiet [OF evolves_ok [OF ev]] by (simp add: ds)
    have pg: "user_page (vm_table s') t v = (if page_key v \<in> page_key ` set us then None else user_page (vm_table s) t v)" if "user_addr v" for v
      using quiet_page [OF q that] ua u(7) [OF that] that by auto
    have "evolves t s s'" using evolves_trans [OF ev] q by (simp add: quiet_def)
    then show ?thesis using pg u(2) by (intro conjI exI [of _ us] exI [of _ g]) auto
  qed
qed

lemma map_range_local:
  assumes "space_ok t s" and "flags AND 1 \<noteq> 0" and "unat start mod PAGE_SIZE = 0" "unat finish mod PAGE_SIZE = 0"
    and "unat finish \<le> 2 ^ 47" and "map_pages s t (page_range start finish) flags [] = (res, s1)"
  defines "s' \<equiv> case res of None \<Rightarrow> s1 | Some ds \<Rightarrow> vmm_prune_user_range (foldl (unmap_free t) s1 ds) t start (finish - start)"
  shows "evolves t s s' \<and> (\<forall>v. user_addr v \<longrightarrow> page_key v \<notin> page_key ` set (page_range start finish) \<longrightarrow>
    user_page (vm_table s') t v = user_page (vm_table s) t v)"
  using map_range_cases [OF assms(1-6), folded s'_def] by blast

lemma map_range_effect:
  assumes "space_ok t s" and "flags AND 1 \<noteq> 0" and al: "unat start mod PAGE_SIZE = 0" "unat finish mod PAGE_SIZE = 0"
    and fin: "unat finish \<le> 2 ^ 47" and "map_pages s t (page_range start finish) flags [] = (res, s1)"
    and un: "\<forall>v \<in> set (page_range start finish). user_page (vm_table s) t v = None"
  defines "s' \<equiv> case res of None \<Rightarrow> s1 | Some ds \<Rightarrow> vmm_prune_user_range (foldl (unmap_free t) s1 ds) t start (finish - start)"
  shows "(\<exists>g. mapped_to t s' flags g (set (page_range start finish)) \<and>
        g ` set (page_range start finish) \<inter> (in_use (vm_pfa s) - tables_of (vm_table s) t) = {}) \<or>
     (\<forall>v \<in> set (page_range start finish). user_page (vm_table s') t v = None)"
proof -
  let ?V = "page_range start finish"
  obtain us g where u: "\<And>v. user_addr v \<Longrightarrow> page_key v \<notin> page_key ` set us \<Longrightarrow> user_page (vm_table s') t v = user_page (vm_table s) t v"
    "set us = set ?V \<and> mapped_to t s' flags g (set us) \<and> g ` set us \<inter> (in_use (vm_pfa s) - tables_of (vm_table s) t) = {} \<or>
     (\<forall>v. user_addr v \<longrightarrow> page_key v \<in> page_key ` set us \<longrightarrow> user_page (vm_table s') t v = None)"
    using map_range_cases [OF assms(1-6), folded s'_def] by blast
  have "user_addr v" if "v \<in> set ?V" for v using page_range_low(2) [OF al fin] that low_addr_user by blast
  then have none: "user_page (vm_table s') t v = None" if "\<forall>v. user_addr v \<longrightarrow> page_key v \<in> page_key ` set us \<longrightarrow> user_page (vm_table s') t v = None"
    "v \<in> set ?V" for v using u(1) [of v] un that by (cases "page_key v \<in> page_key ` set us") auto
  from u(2) show ?thesis
  proof (elim disjE conjE)
    assume "set us = set ?V" "mapped_to t s' flags g (set us)" "g ` set us \<inter> (in_use (vm_pfa s) - tables_of (vm_table s) t) = {}"
    then show ?thesis by auto
  qed (use none in blast)
qed

lemma page_down_nat: "unat (page_down a) = unat a div PAGE_SIZE * PAGE_SIZE"
proof -
  have m: "page_down a = a AND NOT (mask 12)" by (simp add: page_down_def mask_eq_exp_minus_1)
  have "page_down a = push_bit 12 (drop_bit 12 a)" unfolding m by (rule bit_word_eqI) (auto simp: bit_simps)
  then have "page_down a = (a div 4096) * 4096" by (simp add: push_bit_eq_mult drop_bit_eq_div)
  moreover have "unat a div 4096 * 4096 < 2 ^ 64"
    using unsigned_less [of a, where ?'a = nat] div_times_less_eq_dividend [of "unat a" 4096] by (simp add: order_le_less_trans)
  ultimately show ?thesis by (simp add: unat_mult_lem unat_word_ariths unat_div)
qed

end
