(* ===== verification/Vmm_Apart.thy ===== *)
theory Vmm_Apart
  imports Vmm_Range
begin

text \<open>
  Several address spaces over one allocator: the contract under which operations on one
  space leave the others alone, its interpretation on the operations of vmm\_map.c, and the
  properties of user address spaces.
\<close>

unbundle bit_operations_syntax

subsection \<open>Spaces apart\<close>

inductive spaces_reach :: "('o \<Rightarrow> 't \<Rightarrow> 's \<Rightarrow> 's) \<Rightarrow> ('t \<Rightarrow> 's \<Rightarrow> 'o \<Rightarrow> bool) \<Rightarrow> 't set \<Rightarrow> 's \<Rightarrow> ('t \<times> 'o) list \<Rightarrow> 's \<Rightarrow> bool"
  for step allowed T s0 where
  spaces_start: "spaces_reach step allowed T s0 [] s0"
| spaces_op: "spaces_reach step allowed T s0 ops s \<Longrightarrow> t \<in> T \<Longrightarrow> allowed t s op \<Longrightarrow>
    spaces_reach step allowed T s0 ((t, op) # ops) (step op t s)"

locale apart_spaces =
  fixes ok :: "'t \<Rightarrow> 's \<Rightarrow> bool" and tabs :: "'t \<Rightarrow> 's \<Rightarrow> 'x set" and page :: "'t \<Rightarrow> 's \<Rightarrow> 'k \<Rightarrow> 'e"
    and allowed :: "'t \<Rightarrow> 's \<Rightarrow> 'o \<Rightarrow> bool" and step :: "'o \<Rightarrow> 't \<Rightarrow> 's \<Rightarrow> 's" and touches :: "'o \<Rightarrow> 'k set"
  assumes step_ok: "ok t s \<Longrightarrow> allowed t s op \<Longrightarrow> ok t (step op t s)"
    and step_local: "ok t s \<Longrightarrow> allowed t s op \<Longrightarrow> k \<notin> touches op \<Longrightarrow> page t (step op t s) k = page t s k"
    and step_other: "ok t s \<Longrightarrow> allowed t s op \<Longrightarrow> ok u s \<Longrightarrow> tabs t s \<inter> tabs u s = {} \<Longrightarrow>
          ok u (step op t s) \<and> tabs t (step op t s) \<inter> tabs u (step op t s) = {} \<and> tabs u (step op t s) = tabs u s \<and>
          page u (step op t s) = page u s"
begin

definition separate :: "'t set \<Rightarrow> 's \<Rightarrow> bool" where
  "separate T s \<longleftrightarrow> (\<forall>t \<in> T. ok t s) \<and> (\<forall>t \<in> T. \<forall>u \<in> T. t \<noteq> u \<longrightarrow> tabs t s \<inter> tabs u s = {})"

lemma separate_step:
  assumes sep: "separate T s" and t: "t \<in> T" and a: "allowed t s op"
  shows "separate T (step op t s)"
proof -
  let ?s = "step op t s"
  have o: "ok t s" using sep t by (simp add: separate_def)
  have other: "ok u ?s \<and> tabs t ?s \<inter> tabs u ?s = {} \<and> tabs u ?s = tabs u s" if "u \<in> T" "u \<noteq> t" for u
    using step_other [OF o a, of u] sep t that unfolding separate_def by blast
  have "ok u ?s" if "u \<in> T" for u using step_ok [OF o a] other [OF that] by (cases "u = t") auto
  moreover have "tabs u ?s \<inter> tabs w ?s = {}" if "u \<in> T" "w \<in> T" "u \<noteq> w" for u w
  proof -
    consider "u = t" | "w = t" | "u \<noteq> t" "w \<noteq> t" by blast
    then show ?thesis
    proof cases
      case 1
      then show ?thesis using other [of w] that by auto
    next
      case 2
      then show ?thesis using other [of u] that by auto
    next
      case 3
      then show ?thesis using other [of u] other [of w] that sep by (auto simp: separate_def)
    qed
  qed
  ultimately show ?thesis by (simp add: separate_def)
qed

lemma reach_separate:
  assumes "spaces_reach step allowed T s0 ops s" and "separate T s0"
  shows "separate T s"
  using assms by (induction rule: spaces_reach.induct) (auto intro: separate_step)

lemma untouched:
  assumes "spaces_reach step allowed T s0 ops s" and "separate T s0" and "t \<in> T" and "\<forall>op. (t, op) \<in> set ops \<longrightarrow> k \<notin> touches op"
  shows "page t s k = page t s0 k"
  using assms
proof (induction rule: spaces_reach.induct)
  case (spaces_op ops s u op)
  have sep: "separate T s" using reach_separate [OF spaces_op(1) spaces_op.prems(1)] .
  have "page t (step op u s) k = page t s k"
  proof (cases "u = t")
    case True
    then show ?thesis using step_local [of t s op k] sep spaces_op by (auto simp: separate_def)
  next
    case False
    have "page t (step op u s) = page t s"
      using step_other [of u s op t] sep spaces_op False unfolding separate_def by auto
    then show ?thesis by simp
  qed
  then show ?case using spaces_op by auto
qed simp

end

subsection \<open>The operations of vmm\_map.c\<close>

datatype vm_op =
  Vm_map u64 u64 u64
| Vm_map_range u64 u64 u64
| Vm_unmap u64
| Vm_protect u64 u64
| Vm_prune u64 u64

fun vm_step :: "vm_op \<Rightarrow> u64 \<Rightarrow> vmm \<Rightarrow> vmm" where
  "vm_step (Vm_map v phys flags) t s = snd (vmm_map_page_in_pml4 s t v phys flags)"
| "vm_step (Vm_map_range v sz flags) t s = vmm_map_range_in_pml4 s t v sz flags"
| "vm_step (Vm_unmap v) t s = s\<lparr>vm_table := snd (vmm_unmap_page_in_pml4 (vm_table s) t v)\<rparr>"
| "vm_step (Vm_protect v flags) t s = s\<lparr>vm_table := snd (vmm_protect_page_in_pml4 (vm_table s) t v flags)\<rparr>"
| "vm_step (Vm_prune v sz) t s = vmm_prune_user_range s t v sz"

fun vm_allowed :: "u64 \<Rightarrow> vmm \<Rightarrow> vm_op \<Rightarrow> bool" where
  "vm_allowed t s (Vm_map v phys flags) = low_addr v"
| "vm_allowed t s (Vm_map_range v sz flags) = (unat v + unat sz + PAGE_SIZE \<le> 2 ^ 47 \<and> flags AND 1 \<noteq> 0)"
| "vm_allowed t s (Vm_unmap v) = low_addr v"
| "vm_allowed t s (Vm_protect v flags) = (low_addr v \<and> t \<noteq> 0)"
| "vm_allowed t s (Vm_prune v sz) = True"

text \<open>The numbers of the pages of a range of bytes.\<close>

definition range_pages :: "u64 \<Rightarrow> u64 \<Rightarrow> nat set" where
  "range_pages v sz = {n. unat v div PAGE_SIZE \<le> n \<and> n * PAGE_SIZE < unat v + unat sz}"

fun vm_touches :: "vm_op \<Rightarrow> nat set" where
  "vm_touches (Vm_map v phys flags) = {page_number v}"
| "vm_touches (Vm_map_range v sz flags) = range_pages v sz"
| "vm_touches (Vm_unmap v) = {page_number v}"
| "vm_touches (Vm_protect v flags) = {page_number v}"
| "vm_touches (Vm_prune v sz) = {}"

definition vm_page :: "u64 \<Rightarrow> vmm \<Rightarrow> nat \<Rightarrow> u64 option" where
  "vm_page t s n = (if n < 2 ^ 35 then user_page (vm_table s) t (of_nat (n * PAGE_SIZE)) else None)"

lemma vm_page_low: "low_addr v \<Longrightarrow> vm_page t s (page_number v) = user_page (vm_table s) t v"
proof -
  assume v: "low_addr v"
  let ?w = "of_nat (page_number v * PAGE_SIZE) :: u64"
  have n: "page_number v < 2 ^ 35" using v by (simp add: low_addr_def page_number_def div_less_iff_less_mult)
  then have u: "unat ?w = page_number v * PAGE_SIZE" by (simp only: unat_of_nat) simp
  then have "low_addr ?w" "page_number ?w = page_number v" using n by (simp_all only: low_addr_def page_number_def) simp_all
  then have "page_key ?w = page_key v" using page_key_low v by blast
  from page_key_same [OF this] n show ?thesis by (simp add: vm_page_def)
qed

lemma vm_page_cases:
  assumes "n < 2 ^ 35" obtains v where "low_addr v" "page_number v = n"
proof -
  have u: "unat (of_nat (n * PAGE_SIZE) :: u64) = n * PAGE_SIZE" using assms by (simp only: unat_of_nat) simp
  then have "low_addr (of_nat (n * PAGE_SIZE))" "page_number (of_nat (n * PAGE_SIZE)) = n"
    using assms by (simp_all only: low_addr_def page_number_def) simp_all
  then show ?thesis using that by blast
qed

text \<open>The pages of a space seen by their numbers.\<close>

lemma vm_page_eqI:
  assumes "\<And>v. low_addr v \<Longrightarrow> page_number v = n \<Longrightarrow> user_page (vm_table s') t v = user_page (vm_table s) t v"
  shows "vm_page t s' n = vm_page t s n"
proof (cases "n < 2 ^ 35")
  case True
  then obtain v where "low_addr v" "page_number v = n" by (rule vm_page_cases)
  then show ?thesis using vm_page_low [of v t s'] vm_page_low [of v t s] assms by auto
qed (simp add: vm_page_def)

lemma other_space:
  assumes ev: "evolves t s s'" and ok: "space_ok u s" and apart: "tables_of (vm_table s) t \<inter> tables_of (vm_table s) u = {}"
  shows "space_ok u s' \<and> tables_of (vm_table s') t \<inter> tables_of (vm_table s') u = {} \<and>
    tables_of (vm_table s') u = tables_of (vm_table s) u \<and> vm_page u s' = vm_page u s"
proof -
  have keep: "y \<in> in_use (vm_pfa s') \<and> y \<notin> tables_of (vm_table s') t \<and> vm_table s' y = vm_table s y"
    if "y \<in> tables_of (vm_table s) u" for y using that ev ok apart unfolding evolves_def space_ok_def by blast
  have path: "table_at (vm_table s') u p = table_at (vm_table s) u p" if "p \<in> user_paths" for p
  proof (rule table_at_cong)
    fix r k q y assume "p = r @ k # q" and r: "table_at (vm_table s) u r = Some y"
    then have "r \<in> user_paths" using that user_paths_prefix by blast
    then show "same_link (vm_table s y k) (vm_table s' y k)" using keep [OF table_in [OF _ r]] by simp
  qed
  have ts: "tables_of (vm_table s') u = tables_of (vm_table s) u" unfolding tables_of_def using path by auto
  have "tree_ok (vm_table s') u"
  proof (rule tree_sub)
    show "tree_ok (vm_table s) u" using ok by (simp add: space_ok_def)
    fix p y i assume a: "p \<in> user_paths" "length p = 2" "table_at (vm_table s) u p = Some y" "i < (512::nat)" "vm_table s' y i AND 1 \<noteq> 0"
    then have "vm_table s' y = vm_table s y" using keep [OF table_in [OF a(1,3)]] by simp
    then show "vm_table s' y i AND 0x80 = 0" using a ok unfolding space_ok_def tree_ok_def by auto
  qed (use path in auto)
  moreover have "pfa_ok 0 (vm_pfa s')" using ev by (simp add: evolves_def space_ok_def)
  ultimately have "space_ok u s'" using keep ts by (auto simp: space_ok_def)
  moreover have "vm_page u s' n = vm_page u s n" for n
  proof (rule vm_page_eqI)
    fix v assume v: "low_addr v"
    note pv = page_path_user [OF low_addr_user(1) [OF v]]
    show "user_page (vm_table s') u v = user_page (vm_table s) u v"
      by (rule user_page_cong [OF path [OF pv]]) (use keep [OF table_in [OF pv]] in auto)
  qed
  ultimately show ?thesis using ts keep by (auto simp: fun_eq_iff)
qed

lemma word_of_unat: "unat (w :: u64) = n \<Longrightarrow> of_nat n = w"
  by auto

text \<open>A range of bytes in the user half, rounded to pages.\<close>

lemma range_bounds:
  assumes "unat v + unat sz + PAGE_SIZE \<le> 2 ^ 47"
  defines "start \<equiv> page_down v" and "finish \<equiv> page_down (v + sz + 0xFFF)"
  shows "unat start mod PAGE_SIZE = 0" "unat finish mod PAGE_SIZE = 0" "unat finish \<le> 2 ^ 47" "\<not> KERNEL_VMA \<le> start"
    "{page_number start..<page_number finish} = range_pages v sz" "\<not> sz > 0xFFFFFFFFFFFFFFFF - v"
    "\<not> v + sz > 0xFFFFFFFFFFFFFFFF - 0xFFF"
proof -
  have vs: "unat (v + sz) = unat v + unat sz" using assms(1) by (simp add: unat_word_ariths)
  then have e: "unat (v + sz + 0xFFF) = unat v + unat sz + 0xFFF" using assms(1) by (simp add: unat_word_ariths)
  have f: "unat finish = (unat v + unat sz + 0xFFF) div PAGE_SIZE * PAGE_SIZE" unfolding finish_def page_down_nat e ..
  have st: "unat start = unat v div PAGE_SIZE * PAGE_SIZE" unfolding start_def page_down_nat ..
  show "unat start mod PAGE_SIZE = 0" "unat finish mod PAGE_SIZE = 0" unfolding st f by simp_all
  have "unat finish \<le> unat v + unat sz + 0xFFF" unfolding f by (rule div_times_less_eq_dividend)
  then show "unat finish \<le> 2 ^ 47" using assms(1) by simp
  have "unat start \<le> unat v" unfolding st by (rule div_times_less_eq_dividend)
  then have "unat start < 2 ^ 47" using assms(1) by simp
  then show "\<not> KERNEL_VMA \<le> start" using low_addr_user(2) [of start] by (simp add: low_addr_def not_le)
  have "n < (k + 0xFFF) div PAGE_SIZE \<longleftrightarrow> n * PAGE_SIZE < k" for n k :: nat
    using less_eq_div_iff_mult_less_eq [of "PAGE_SIZE" "n + 1" "k + 0xFFF"] by auto
  then show "{page_number start..<page_number finish} = range_pages v sz"
    by (auto simp: page_number_def f st range_pages_def)
  have "unat (0xFFFFFFFFFFFFFFFF - v) = 0xFFFFFFFFFFFFFFFF - unat v"
    using unat_sub [of v "0xFFFFFFFFFFFFFFFF :: u64"] assms(1) by (simp add: word_le_nat_alt)
  then show "\<not> sz > 0xFFFFFFFFFFFFFFFF - v" using assms(1) by (simp add: word_less_nat_alt)
  show "\<not> v + sz > 0xFFFFFFFFFFFFFFFF - 0xFFF" using vs assms(1) by (simp add: word_less_nat_alt)
qed

lemma map_range_eq:
  assumes "unat v + unat sz + PAGE_SIZE \<le> 2 ^ 47" and "sz \<noteq> 0"
  defines "start \<equiv> page_down v" and "finish \<equiv> page_down (v + sz + 0xFFF)"
  shows "vmm_map_range_in_pml4 s t v sz flags =
    (case map_pages s t (page_range start finish) flags [] of
       (res, s1) \<Rightarrow> case res of None \<Rightarrow> s1
         | Some ds \<Rightarrow> vmm_prune_user_range (foldl (unmap_free t) s1 ds) t start (finish - start))"
proof -
  note b = range_bounds [OF assms(1)]
  show ?thesis using assms(2) b(4,6,7)
    by (simp add: vmm_map_range_in_pml4_def Let_def start_def finish_def del: map_pages.simps split: prod.splits option.splits)
qed

lemma in_range_key:
  assumes b: "unat v + unat sz + PAGE_SIZE \<le> 2 ^ 47" and w: "low_addr w"
  defines "V \<equiv> set (page_range (page_down v) (page_down (v + sz + 0xFFF)))"
  shows "page_number w \<in> range_pages v sz \<longleftrightarrow> page_key w \<in> page_key ` V"
    "page_number w \<in> range_pages v sz \<Longrightarrow> of_nat (page_number w * PAGE_SIZE) \<in> V \<and> page_key (of_nat (page_number w * PAGE_SIZE)) = page_key w"
proof -
  note r = range_bounds [OF b]
  note pr = page_range_low [OF r(1-3)]
  have low: "low_addr x" if "x \<in> V" for x using pr(2) that by (simp add: V_def)
  have V: "page_number ` V = range_pages v sz" using pr(3) r(5) by (simp add: V_def)
  have x: "of_nat (page_number x * PAGE_SIZE) = x" if "x \<in> V" for x :: u64
    using word_of_unat pr(4) that unfolding V_def by blast
  show m: "page_number w \<in> range_pages v sz \<longleftrightarrow> page_key w \<in> page_key ` V"
    unfolding V [symmetric] using page_key_low [OF w] low by (auto simp: image_iff)
  show "of_nat (page_number w * PAGE_SIZE) \<in> V \<and> page_key (of_nat (page_number w * PAGE_SIZE)) = page_key w"
    if "page_number w \<in> range_pages v sz"
  proof -
    have "page_number w \<in> page_number ` V" using that V by simp
    then obtain y where "page_number w = page_number y" and y1: "y \<in> V" ..
    then have y: "y \<in> V" "page_number y = page_number w" by simp_all
    have e: "of_nat (page_number w * PAGE_SIZE) = y" using x [OF y(1)] unfolding y(2) .
    show ?thesis unfolding e using y page_key_low [OF low [OF y(1)] w] by blast
  qed
qed

lemma map_range_unmapped:
  assumes ok: "space_ok t s" and b: "unat v + unat sz + PAGE_SIZE \<le> 2 ^ 47" and fl: "flags AND 1 \<noteq> 0" and sz: "sz \<noteq> 0"
    and un: "\<forall>n \<in> range_pages v sz. vm_page t s n = None"
  defines "s' \<equiv> vmm_map_range_in_pml4 s t v sz flags"
  shows "(\<exists>g. inj_on g (range_pages v sz) \<and> (\<forall>n \<in> range_pages v sz. vm_page t s' n = Some (page_entry (g n) flags) \<and> g n \<noteq> 0 \<and>
       g n \<in> in_use (vm_pfa s') - tables_of (vm_table s') t \<and> g n \<notin> in_use (vm_pfa s) - tables_of (vm_table s) t)) \<or>
     (\<forall>n \<in> range_pages v sz. vm_page t s' n = None)"
proof -
  let ?V = "page_range (page_down v) (page_down (v + sz + 0xFFF))"
  note r = range_bounds [OF b]
  note pr = page_range_low [OF r(1-3)]
  obtain res s1 where m: "map_pages s t ?V flags [] = (res, s1)" by force
  have s': "s' = (case res of None \<Rightarrow> s1 | Some ds \<Rightarrow> vmm_prune_user_range (foldl (unmap_free t) s1 ds) t (page_down v)
      (page_down (v + sz + 0xFFF) - page_down v))" unfolding s'_def map_range_eq [OF b sz] m by simp
  have "\<forall>u \<in> set ?V. user_page (vm_table s) t u = None"
    using un pr(2,3) r(5) vm_page_low by (metis imageI)
  note e = map_range_effect [OF ok fl r(1-3) m this, folded s']
  have num: "of_nat (n * PAGE_SIZE) \<in> set ?V \<and> page_number (of_nat (n * PAGE_SIZE)) = n \<and> vm_page t s' n = user_page (vm_table s') t (of_nat (n * PAGE_SIZE))"
    if n: "n \<in> range_pages v sz" for n
  proof -
    obtain w where w: "w \<in> set ?V" "page_number w = n" using n pr(3) r(5) by (metis imageE)
    then have "of_nat (n * PAGE_SIZE) = w" using word_of_unat [of w "n * PAGE_SIZE"] pr(4) by auto
    then show ?thesis using w pr(2) vm_page_low [of w t s'] by (simp del: of_nat_mult)
  qed
  show ?thesis
  proof (cases "\<forall>u \<in> set ?V. user_page (vm_table s') t u = None")
    case True
    then show ?thesis using num by auto
  next
    case False
    then obtain g where g: "mapped_to t s' flags g (set ?V)" "g ` set ?V \<inter> (in_use (vm_pfa s) - tables_of (vm_table s) t) = {}"
      using e by auto
    let ?g = "\<lambda>n. g (of_nat (n * PAGE_SIZE))"
    have "inj_on ?g (range_pages v sz)"
    proof (rule inj_onI)
      fix a b assume ab: "a \<in> range_pages v sz" "b \<in> range_pages v sz" "?g a = ?g b"
      then have eq: "of_nat (a * PAGE_SIZE) = (of_nat (b * PAGE_SIZE) :: u64)" using g(1) num unfolding mapped_to_def inj_on_def by blast
      show "a = b" using num [OF ab(1)] num [OF ab(2)] unfolding eq by (simp del: of_nat_mult)
    qed
    moreover have "vm_page t s' n = Some (page_entry (?g n) flags) \<and> ?g n \<noteq> 0 \<and>
       ?g n \<in> in_use (vm_pfa s') - tables_of (vm_table s') t \<and> ?g n \<notin> in_use (vm_pfa s) - tables_of (vm_table s) t"
      if "n \<in> range_pages v sz" for n
    proof -
      define u :: u64 where "u = of_nat (n * PAGE_SIZE)"
      have u: "u \<in> set ?V" "vm_page t s' n = user_page (vm_table s') t u" using num [OF that] by (simp_all only: u_def)
      have "user_page (vm_table s') t u = Some (page_entry (g u) flags)" "g u \<noteq> 0" "g u \<in> in_use (vm_pfa s') - tables_of (vm_table s') t"
        using g(1) u(1) unfolding mapped_to_def by blast+
      moreover have "g u \<notin> in_use (vm_pfa s) - tables_of (vm_table s) t" using g(2) u(1) by blast
      ultimately show ?thesis using u(2) by (simp only: u_def simp_thms)
    qed
    ultimately show ?thesis by (intro disjI1 exI [of _ ?g]) blast
  qed
qed

lemma low_phys:
  assumes ok: "space_ok t s" and v: "low_addr v"
  shows "vmm_get_phys_in_pml4 (vm_table s) boot t v = (case vm_page t s (page_number v) of None \<Rightarrow> 0 | Some e \<Rightarrow> e AND PHYS_MASK)"
proof -
  have "t \<in> in_use (vm_pfa s)" "tree_ok (vm_table s) t" using ok root_table [of t "vm_table s"] by (auto simp: space_ok_def)
  then have "t AND PHYS_MASK = t" "tree_ok (vm_table s) t" by (auto simp: in_use_def)
  from get_phys_user [OF this(2) low_addr_user [OF v] this(1)] show ?thesis by (simp add: vm_page_low [OF v])
qed

text \<open>A change of the tables alone.\<close>

lemma tables_evolve:
  assumes "space_ok t s" and "tree_ok tbl t" and "tables_of tbl t = tables_of (vm_table s) t"
    and "\<forall>y. y \<notin> tables_of (vm_table s) t \<longrightarrow> tbl y = vm_table s y"
  shows "evolves t s (s\<lparr>vm_table := tbl\<rparr>)"
  using assms by (auto simp: evolves_def space_ok_def)

lemma vm_map_step:
  assumes ok: "space_ok t s" and v: "low_addr v" and m: "vmm_map_page_in_pml4 s t v phys flags = (r, s')"
  shows "evolves t s s'" "r = 0 \<or> r = -1" "vm_page t s' n = (if r = 0 \<and> n = page_number v
      then if flags AND 1 = 0 then None else Some (page_entry phys flags) else vm_page t s n)"
proof -
  note e = map_page_effect [OF ok low_addr_user [OF v] m]
  then show "evolves t s s'" "r = 0 \<or> r = -1" by auto
  show "vm_page t s' n = (if r = 0 \<and> n = page_number v
      then if flags AND 1 = 0 then None else Some (page_entry phys flags) else vm_page t s n)"
  proof (cases "r = 0 \<and> n = page_number v")
    case True
    then show ?thesis using e vm_page_low [OF v, of t s'] low_addr_user(1) [OF v] by simp
  next
    case False
    have "vm_page t s' n = vm_page t s n"
      by (rule vm_page_eqI) (use e False page_key_low [OF _ v] low_addr_user(1) in auto)
    then show ?thesis using False by auto
  qed
qed

lemma vm_unmap_step:
  assumes ok: "space_ok t s" and v: "low_addr v" and m: "vmm_unmap_page_in_pml4 (vm_table s) t v = (phys, tbl)"
  shows "evolves t s (s\<lparr>vm_table := tbl\<rparr>)" "phys = (case vm_page t s (page_number v) of None \<Rightarrow> 0 | Some e \<Rightarrow> e AND PHYS_MASK)"
    "vm_page t (s\<lparr>vm_table := tbl\<rparr>) n = (if n = page_number v then None else vm_page t s n)"
proof -
  have tr: "tree_ok (vm_table s) t" using ok by (simp add: space_ok_def)
  obtain fl where "vmm_unmap_page_in_pml4_flags (vm_table s) t v = (phys, fl, tbl)"
    using m by (auto simp: vmm_unmap_page_in_pml4_def split: prod.splits)
  note e = unmap_page_effect [OF tr low_addr_user(1) [OF v] this]
  show "evolves t s (s\<lparr>vm_table := tbl\<rparr>)" using tables_evolve [OF ok] e by blast
  show "phys = (case vm_page t s (page_number v) of None \<Rightarrow> 0 | Some e \<Rightarrow> e AND PHYS_MASK)" using e by (simp add: vm_page_low [OF v])
  show "vm_page t (s\<lparr>vm_table := tbl\<rparr>) n = (if n = page_number v then None else vm_page t s n)"
  proof (cases "n = page_number v")
    case True
    then show ?thesis using e vm_page_low [OF v, of t "s\<lparr>vm_table := tbl\<rparr>"] low_addr_user(1) [OF v] by simp
  next
    case False
    have "vm_page t (s\<lparr>vm_table := tbl\<rparr>) n = vm_page t s n"
      by (rule vm_page_eqI) (use e False page_key_low [OF _ v] low_addr_user(1) in auto)
    then show ?thesis using False by simp
  qed
qed

lemma vm_protect_step:
  assumes ok: "space_ok t s" and v: "low_addr v" and t: "t \<noteq> 0" and m: "vmm_protect_page_in_pml4 (vm_table s) t v flags = (r, tbl)"
  shows "evolves t s (s\<lparr>vm_table := tbl\<rparr>)" "r = (if vm_page t s (page_number v) = None then -1 else 0)"
    "vm_page t (s\<lparr>vm_table := tbl\<rparr>) n = (case vm_page t s n of None \<Rightarrow> None
       | Some e \<Rightarrow> if n \<noteq> page_number v then Some e else if flags AND 1 = 0 then None else Some (protected_entry e flags))"
proof -
  have tr: "tree_ok (vm_table s) t" using ok by (simp add: space_ok_def)
  note e = protect_page_effect [OF tr low_addr_user [OF v] t m, unfolded protected_space_def]
  show "evolves t s (s\<lparr>vm_table := tbl\<rparr>)" using tables_evolve [OF ok] e by blast
  show "r = (if vm_page t s (page_number v) = None then -1 else 0)" using e by (simp add: vm_page_low [OF v])
  show "vm_page t (s\<lparr>vm_table := tbl\<rparr>) n = (case vm_page t s n of None \<Rightarrow> None
       | Some e \<Rightarrow> if n \<noteq> page_number v then Some e else if flags AND 1 = 0 then None else Some (protected_entry e flags))"
  proof (cases "n = page_number v")
    case True
    then show ?thesis using e vm_page_low [OF v, of t "s\<lparr>vm_table := tbl\<rparr>"] vm_page_low [OF v, of t s] low_addr_user(1) [OF v]
      by (simp split: option.splits)
  next
    case False
    have "vm_page t (s\<lparr>vm_table := tbl\<rparr>) n = vm_page t s n"
      by (rule vm_page_eqI) (use e False page_key_low [OF _ v] low_addr_user(1) in \<open>auto split: option.splits\<close>)
    then show ?thesis using False by (simp split: option.splits)
  qed
qed

lemma vm_range_step:
  assumes ok: "space_ok t s" and b: "unat v + unat sz + PAGE_SIZE \<le> 2 ^ 47" and fl: "flags AND 1 \<noteq> 0"
  defines "s' \<equiv> vmm_map_range_in_pml4 s t v sz flags"
  shows "evolves t s s'" "n \<notin> range_pages v sz \<Longrightarrow> vm_page t s' n = vm_page t s n"
proof -
  have "evolves t s s' \<and> (n \<notin> range_pages v sz \<longrightarrow> vm_page t s' n = vm_page t s n)"
  proof (cases "sz = 0")
    case True
    then show ?thesis using ok by (simp add: s'_def vmm_map_range_in_pml4_def)
  next
    case False
    let ?V = "page_range (page_down v) (page_down (v + sz + 0xFFF))"
    note r = range_bounds [OF b]
    obtain res s1 where m: "map_pages s t ?V flags [] = (res, s1)" by force
    have s': "s' = (case res of None \<Rightarrow> s1 | Some ds \<Rightarrow> vmm_prune_user_range (foldl (unmap_free t) s1 ds) t (page_down v)
        (page_down (v + sz + 0xFFF) - page_down v))" unfolding s'_def map_range_eq [OF b False] m by simp
    note e = map_range_local [OF ok fl r(1-3) m, folded s']
    have "vm_page t s' n = vm_page t s n" if "n \<notin> range_pages v sz"
      by (rule vm_page_eqI) (use e that in_range_key(1) [OF b] low_addr_user(1) in auto)
    then show ?thesis using e by blast
  qed
  then show "evolves t s s'" "n \<notin> range_pages v sz \<Longrightarrow> vm_page t s' n = vm_page t s n" by auto
qed

lemma vm_step_effect:
  assumes ok: "space_ok t s" and a: "vm_allowed t s op"
  shows "evolves t s (vm_step op t s) \<and> (\<forall>n. n \<notin> vm_touches op \<longrightarrow> vm_page t (vm_step op t s) n = vm_page t s n)"
proof (cases op)
  case (Vm_map v phys flags)
  obtain r s' where m: "vmm_map_page_in_pml4 s t v phys flags = (r, s')" by force
  from vm_map_step [OF ok _ m] show ?thesis using Vm_map a m by simp
next
  case (Vm_map_range v sz flags)
  from vm_range_step [OF ok, of v sz flags] show ?thesis using Vm_map_range a by simp
next
  case (Vm_unmap v)
  obtain phys tbl where m: "vmm_unmap_page_in_pml4 (vm_table s) t v = (phys, tbl)" by force
  from vm_unmap_step [OF ok _ m] show ?thesis using Vm_unmap a m by simp
next
  case (Vm_protect v flags)
  obtain r tbl where m: "vmm_protect_page_in_pml4 (vm_table s) t v flags = (r, tbl)" by force
  from vm_protect_step [OF ok _ _ m] show ?thesis using Vm_protect a m by (auto split: option.splits)
next
  case (Vm_prune v sz)
  have q: "quiet t s (vmm_prune_user_range s t v sz)" by (rule prune_quiet [OF ok])
  have "vm_page t (vmm_prune_user_range s t v sz) n = vm_page t s n" for n
    by (rule vm_page_eqI) (use quiet_page [OF q] low_addr_user(1) in auto)
  then show ?thesis using Vm_prune q by (simp add: quiet_def)
qed

interpretation vs: apart_spaces space_ok "\<lambda>t s. tables_of (vm_table s) t" vm_page vm_allowed vm_step vm_touches
proof (unfold_locales, goal_cases)
  case (1 t s op)
  then show ?case using vm_step_effect evolves_ok by blast
next
  case (2 t s op k)
  then show ?case using vm_step_effect by blast
next
  case (3 t s op u)
  then show ?case using vm_step_effect other_space by blast
qed

end
