(* ===== verification/Vmm_Props.thy ===== *)
theory Vmm_Props
  imports Vmm_Apart
begin

text \<open>The properties of mapping, unmapping and protecting user pages, with a small example.\<close>

unbundle bit_operations_syntax

subsection \<open>An example with two spaces\<close>

text \<open>
  One space has its tables at 0x1000, 0x2000, 0x3000 and 0x4000 and maps its page 5 to the
  frame at 0x9000; the other one, at 0x5000, has no page yet. Three frames are free.
\<close>

definition two_tables :: tables where
  "two_tables t i =
     (if t = 0x1000 \<and> i = 0 then 0x2007 else if t = 0x2000 \<and> i = 0 then 0x3007
      else if t = 0x3000 \<and> i = 0 then 0x4007 else if t = 0x4000 \<and> i = 5 then 0x9007 else 0)"

definition two_spaces :: vmm where
  "two_spaces = \<lparr>vm_table = two_tables, vm_pfa = small_full\<rparr>"

lemma path_cases:
  assumes "p \<in> user_paths"
  obtains "p = []" | a where "p = [a]" | a b where "p = [a, b]" | a b c where "p = [a, b, c]"
proof -
  have "length p \<le> 3" using assms by (simp add: user_paths_def)
  then consider "length p = 0" | "length p = 1" | "length p = 2" | "length p = 3" by linarith
  then show ?thesis
  proof cases
    case 4
    then obtain a b c where "p = [a, b, c]" by (auto simp: length_Suc_conv numeral_3_eq_3)
    then show ?thesis using that by blast
  qed (use that in \<open>auto simp: length_Suc_conv numeral_2_eq_2\<close>)
qed

lemma first_paths:
  assumes "p \<in> user_paths" and "table_at two_tables 0x1000 p = Some x"
  shows "(p, x) \<in> {([], 0x1000), ([0], 0x2000), ([0, 0], 0x3000), ([0, 0, 0], 0x4000)}"
  using assms(1)
  by (cases rule: path_cases) (use assms(2) in \<open>auto simp: two_tables_def split: if_splits\<close>)

lemma second_paths: "table_at two_tables 0x5000 p = Some x \<Longrightarrow> p = [] \<and> x = 0x5000"
  by (cases p) (auto simp: two_tables_def split: if_splits)

lemma small_full_ok: "pfa_ok 0 small_full"
proof -
  have "(3 :: u64) = of_nat (card {f. f < 13 \<and> 8 \<le> f \<and> \<not> bit (3 :: u8) (f - 8)})" unfolding small_full_free by simp
  from small_ok [OF _ _ this] show ?thesis by (simp add: example_refs_def)
qed

lemma two_spaces_ok: "space_ok 0x1000 two_spaces" "space_ok 0x5000 two_spaces"
  "tables_of (vm_table two_spaces) 0x1000 \<inter> tables_of (vm_table two_spaces) 0x5000 = {}"
proof -
  have low: "y \<in> in_use small_full" if "y \<in> {0x1000, 0x2000, 0x3000, 0x4000, 0x5000}" for y
    using that by (auto simp: in_use_def frame_of_def small_used small_leaves)
  have t1: "tables_of two_tables 0x1000 \<subseteq> {0x1000, 0x2000, 0x3000, 0x4000}"
    unfolding tables_of_def using first_paths by fastforce
  have t2: "tables_of two_tables 0x5000 \<subseteq> {0x5000}" unfolding tables_of_def using second_paths by auto
  show "tables_of (vm_table two_spaces) 0x1000 \<inter> tables_of (vm_table two_spaces) 0x5000 = {}"
    using t1 t2 by (auto simp: two_spaces_def)
  have "tree_ok two_tables 0x1000" unfolding tree_ok_def
  proof (intro conjI ballI allI impI)
    fix p q x assume "p \<in> user_paths" "q \<in> user_paths" "table_at two_tables 0x1000 p = Some x" "table_at two_tables 0x1000 q = Some x"
    then show "p = q" using first_paths [of p x] first_paths [of q x] by auto
  next
    fix p x and i :: nat assume "p \<in> user_paths" "length p = 2" "table_at two_tables 0x1000 p = Some x" "i < 512" "two_tables x i AND 1 \<noteq> 0"
    then show "two_tables x i AND 0x80 = 0" using first_paths [of p x] by (auto simp: two_tables_def split: if_splits)
  qed
  moreover have "tree_ok two_tables 0x5000" unfolding tree_ok_def
  proof (intro conjI ballI allI impI)
    fix p x and i :: nat assume "length p = 2" "table_at two_tables 0x5000 p = Some x"
    then show "two_tables x i AND 0x80 = 0" using second_paths [of p x] by simp
  qed (use second_paths in blast)
  ultimately show "space_ok 0x1000 two_spaces" "space_ok 0x5000 two_spaces"
    using t1 t2 low small_full_ok by (auto simp: space_ok_def two_spaces_def)
qed

lemma two_spaces_page: "vm_page 0x1000 two_spaces 5 = Some 0x9007"
  by (simp add: vm_page_def user_page_def page_path_def page_index_nat two_spaces_def two_tables_def)

subsection \<open>Properties\<close>

text \<open>
  C33. Mapping a page. In a well-formed address space vmm\_map\_page\_in\_pml4 returns 0 or
  -1 and leaves the space well-formed. After 0 with a present entry the address translates
  to the given page; every other page, and after -1 every page at all, translates as
  before, although tables may have been made, widened, or pruned again on the way.
\<close>

theorem map_page_translates:
  assumes "space_ok t s" and "low_addr v" and "vmm_map_page_in_pml4 s t v phys flags = (r, s')"
  shows "space_ok t s' \<and> (r = 0 \<or> r = -1) \<and>
    (r = 0 \<and> flags AND 1 \<noteq> 0 \<longrightarrow> vmm_get_phys_in_pml4 (vm_table s') boot t v = phys AND PHYS_MASK) \<and>
    (\<forall>w. low_addr w \<and> (r \<noteq> 0 \<or> page_number w \<noteq> page_number v) \<longrightarrow>
       vmm_get_phys_in_pml4 (vm_table s') boot t w = vmm_get_phys_in_pml4 (vm_table s) boot t w)"
proof -
  note m = vm_map_step [OF assms]
  have ok: "space_ok t s'" using evolves_ok [OF m(1)] .
  have "page_entry phys flags AND PHYS_MASK = phys AND PHYS_MASK" unfolding page_entry_def by (rule leaf_entry_parts)
  then show ?thesis using m(2,3) ok low_phys [OF ok] low_phys [OF assms(1)] assms(2) by auto
qed

lemma ex_index: "page_index k 0x7000 = (if k = 12 then 7 else 0)" if "k \<in> {39, 30, 21, 12}" for k
  using that by (auto simp: page_index_nat)

theorem map_page_translates_witness:
  "vmm_get_phys_in_pml4 (vm_table (snd (vmm_map_page_in_pml4 two_spaces 0x1000 0x7000 0x6000 7))) 0 0x1000 0x7000 = 0x6000 \<and>
   vmm_get_phys_in_pml4 (vm_table (snd (vmm_map_page_in_pml4 two_spaces 0x1000 0x7000 0x6000 7))) 0 0x1000 0x5000 =
   vmm_get_phys_in_pml4 (vm_table two_spaces) 0 0x1000 0x5000"
proof -
  obtain r s' where m: "vmm_map_page_in_pml4 two_spaces 0x1000 0x7000 0x6000 7 = (r, s')" by force
  have "r = 0" using m
    by (simp add: vmm_map_page_in_pml4_def ensure_table_def Let_def ex_index two_spaces_def two_tables_def word_le_nat_alt)
  then show ?thesis using map_page_translates [OF two_spaces_ok(1) _ m, of 0] m
    by (simp add: low_addr_def page_number_def)
qed



text \<open>
  C3. Address spaces stay apart. Start with any set of well-formed address spaces with no
  table in common and run any sequence of mapping (single pages and ranges), unmapping,
  protecting and pruning on any of them. Every space stays well-formed, no two of them ever
  share a table, and a page translates as at the start in its space as long as no operation
  on that very space named it.
\<close>

theorem spaces_stay_apart:
  assumes "spaces_reach vm_step vm_allowed T s0 ops s" and "\<forall>t \<in> T. space_ok t s0"
    and "\<forall>t \<in> T. \<forall>u \<in> T. t \<noteq> u \<longrightarrow> tables_of (vm_table s0) t \<inter> tables_of (vm_table s0) u = {}"
  shows "(\<forall>t \<in> T. space_ok t s) \<and> (\<forall>t \<in> T. \<forall>u \<in> T. t \<noteq> u \<longrightarrow> tables_of (vm_table s) t \<inter> tables_of (vm_table s) u = {}) \<and>
    (\<forall>t \<in> T. \<forall>w. low_addr w \<and> (\<forall>op. (t, op) \<in> set ops \<longrightarrow> page_number w \<notin> vm_touches op) \<longrightarrow>
       vmm_get_phys_in_pml4 (vm_table s) boot t w = vmm_get_phys_in_pml4 (vm_table s0) boot t w)"
proof -
  have sep: "vs.separate T s0" using assms(2,3) by (simp add: vs.separate_def)
  have s: "vs.separate T s" using vs.reach_separate [OF assms(1) sep] .
  have "vmm_get_phys_in_pml4 (vm_table s) boot t w = vmm_get_phys_in_pml4 (vm_table s0) boot t w"
    if t: "t \<in> T" and w: "low_addr w" "\<forall>op. (t, op) \<in> set ops \<longrightarrow> page_number w \<notin> vm_touches op" for t w
    using vs.untouched [OF assms(1) sep t w(2)] low_phys [OF _ w(1)] s assms(2) t by (simp add: vs.separate_def)
  then show ?thesis using s by (auto simp: vs.separate_def)
qed

theorem spaces_stay_apart_witness:
  "\<exists>s. spaces_reach vm_step vm_allowed {0x1000, 0x5000} two_spaces [(0x5000, Vm_map 0x5000 0x6000 7)] s \<and>
     vmm_get_phys_in_pml4 (vm_table s) 0 0x1000 0x5000 = 0x9000"
proof -
  let ?s = "vm_step (Vm_map 0x5000 0x6000 7) 0x5000 two_spaces"
  have r: "spaces_reach vm_step vm_allowed {0x1000, 0x5000} two_spaces [(0x5000, Vm_map 0x5000 0x6000 7)] ?s"
    by (rule spaces_op [OF spaces_start]) (simp_all add: low_addr_def)
  have ok: "\<forall>t \<in> {0x1000, 0x5000}. space_ok t two_spaces" using two_spaces_ok by simp
  have ap: "\<forall>t \<in> {0x1000, 0x5000}. \<forall>u \<in> {0x1000, 0x5000}. t \<noteq> u \<longrightarrow>
      tables_of (vm_table two_spaces) t \<inter> tables_of (vm_table two_spaces) u = {}" using two_spaces_ok(3) by auto
  have "vmm_get_phys_in_pml4 (vm_table ?s) 0 0x1000 0x5000 = vmm_get_phys_in_pml4 (vm_table two_spaces) 0 0x1000 0x5000"
    using spaces_stay_apart [OF r ok ap, of 0] by (simp add: low_addr_def)
  also have "\<dots> = 0x9000"
    using low_phys [OF two_spaces_ok(1), of "0x5000" 0] two_spaces_page by (simp add: low_addr_def page_number_def)
  finally show ?thesis using r by blast
qed

text \<open>
  C34. Unmapping and protecting. vmm\_unmap\_page\_in\_pml4 returns the page an address
  translated to, 0 for none, and afterwards exactly this page is gone.
  vmm\_protect\_page\_in\_pml4 returns 0 exactly on mapped pages, keeps the page the address
  translates to when the new flags are present ones, and changes no other page.
\<close>

theorem unmap_and_protect:
  assumes "space_ok t s" and "low_addr v" and "t \<noteq> 0" and "flags AND 1 \<noteq> 0"
    and "vmm_unmap_page_in_pml4 (vm_table s) t v = (phys, tbl)" and "vmm_protect_page_in_pml4 (vm_table s) t v flags = (r, tbl')"
  shows "phys = vmm_get_phys_in_pml4 (vm_table s) boot t v \<and> vmm_get_phys_in_pml4 tbl boot t v = 0 \<and>
    (r = 0 \<longleftrightarrow> vm_page t s (page_number v) \<noteq> None) \<and>
    vmm_get_phys_in_pml4 tbl' boot t v = vmm_get_phys_in_pml4 (vm_table s) boot t v \<and>
    (\<forall>w. low_addr w \<and> page_number w \<noteq> page_number v \<longrightarrow>
       vmm_get_phys_in_pml4 tbl boot t w = vmm_get_phys_in_pml4 (vm_table s) boot t w \<and>
       vmm_get_phys_in_pml4 tbl' boot t w = vmm_get_phys_in_pml4 (vm_table s) boot t w)"
proof -
  note u = vm_unmap_step [OF assms(1,2,5)] and p = vm_protect_step [OF assms(1-3,6)]
  have lu: "vmm_get_phys_in_pml4 tbl boot t w = (case vm_page t (s\<lparr>vm_table := tbl\<rparr>) (page_number w) of None \<Rightarrow> 0 | Some e \<Rightarrow> e AND PHYS_MASK)"
    if "low_addr w" for w using low_phys [OF evolves_ok [OF u(1)] that, of boot] by simp
  have lp: "vmm_get_phys_in_pml4 tbl' boot t w = (case vm_page t (s\<lparr>vm_table := tbl'\<rparr>) (page_number w) of None \<Rightarrow> 0 | Some e \<Rightarrow> e AND PHYS_MASK)"
    if "low_addr w" for w using low_phys [OF evolves_ok [OF p(1)] that, of boot] by simp
  have "vmm_get_phys_in_pml4 tbl' boot t w = vmm_get_phys_in_pml4 (vm_table s) boot t w" if "low_addr w" for w
    unfolding lp [OF that] low_phys [OF assms(1) that] p(3) using assms(4) protected_entry_parts(1) by (simp split: option.splits)
  moreover have "vmm_get_phys_in_pml4 tbl boot t w = (if page_number w = page_number v then 0 else vmm_get_phys_in_pml4 (vm_table s) boot t w)"
    if "low_addr w" for w unfolding lu [OF that] low_phys [OF assms(1) that] u(3) by simp
  ultimately show ?thesis using u(2) p(2) low_phys [OF assms(1,2)] assms(2) by auto
qed

theorem unmap_and_protect_witness:
  "fst (vmm_unmap_page_in_pml4 two_tables 0x1000 0x5000) = 0x9000 \<and>
   vmm_get_phys_in_pml4 (snd (vmm_unmap_page_in_pml4 two_tables 0x1000 0x5000)) 0 0x1000 0x5000 = 0 \<and>
   fst (vmm_protect_page_in_pml4 two_tables 0x1000 0x5000 5) = 0"
proof -
  obtain phys tbl where m: "vmm_unmap_page_in_pml4 (vm_table two_spaces) 0x1000 0x5000 = (phys, tbl)" by force
  obtain r tbl' where p: "vmm_protect_page_in_pml4 (vm_table two_spaces) 0x1000 0x5000 5 = (r, tbl')" by force
  show ?thesis using two_spaces_page unmap_and_protect [OF two_spaces_ok(1) _ _ _ m p, of 0] m p
      low_phys [OF two_spaces_ok(1), of "0x5000" 0]
    by (simp add: low_addr_def page_number_def two_spaces_def)
qed

end
