(* ===== verification/Vmm_Copy.thy ===== *)
theory Vmm_Copy
  imports Vmm_Props
begin

text \<open>
  Copying to and from user memory: the copy by pages is a copy byte by byte through the
  translation of each address.
\<close>

unbundle bit_operations_syntax

subsection \<open>Bytes of pages\<close>

definition phys_byte :: "(u64 \<Rightarrow> u64) \<Rightarrow> u64 \<Rightarrow> nat" where
  "phys_byte page_of a = page_byte (page_of (page_down a)) a"

lemma offset_nat: "unat (a AND 0xFFF :: u64) = unat a mod PAGE_SIZE"
proof -
  have "(0xFFF :: u64) = mask 12" by (simp add: mask_eq_exp_minus_1)
  then have "a AND 0xFFF = take_bit 12 a" by (simp only: take_bit_eq_mask)
  then have "unat (a AND 0xFFF) = take_bit 12 (unat a)" by (simp only: unsigned_take_bit_eq)
  then show ?thesis by (simp add: take_bit_eq_mod)
qed

lemma in_chunk:
  assumes "i < copy_chunk a n"
  shows "page_down (a + of_nat i) = page_down a" "phys_byte page_of (a + of_nat i) = phys_byte page_of a + i"
proof -
  define q where "q = unat a div PAGE_SIZE"
  define m where "m = unat a mod PAGE_SIZE"
  have a: "unat a = q * PAGE_SIZE + m" "m < PAGE_SIZE" by (simp_all add: q_def m_def)
  have "i < PAGE_SIZE - m" using assms by (simp add: copy_chunk_def offset_nat m_def)
  then have i: "m + i < PAGE_SIZE" by simp
  have "q * PAGE_SIZE + m < 2 ^ 64" using unsigned_less [of a, where ?'a = nat] a(1) by simp
  then have "q < 2 ^ 52" by simp
  then have "q * PAGE_SIZE + (m + i) < 2 ^ 64" using i by simp
  then have u: "unat (a + of_nat i) = q * PAGE_SIZE + (m + i)"
    using a(1) i by (simp add: unat_word_ariths unat_of_nat)
  have "unat (page_down (a + of_nat i)) = unat (page_down a)" unfolding page_down_nat u a(1) using i a(2) by simp
  then show pd: "page_down (a + of_nat i) = page_down a" by (rule word_unat_eq_iff [THEN iffD2])
  have "unat ((a + of_nat i) AND 0xFFF) = unat (a AND 0xFFF) + i" unfolding offset_nat u a(1) using i a(2) by simp
  then show "phys_byte page_of (a + of_nat i) = phys_byte page_of a + i" by (simp add: phys_byte_def page_byte_def pd)
qed

subsection \<open>Copying byte by byte\<close>

definition write_bytes :: "(nat \<Rightarrow> nat) \<Rightarrow> u8 list \<Rightarrow> (nat \<Rightarrow> u8) \<Rightarrow> nat \<Rightarrow> u8" where
  "write_bytes pa bs mem = foldl (\<lambda>m i. m(pa i := bs ! i)) mem [0..<length bs]"

lemma write_fold:
  assumes "inj_on pa {..<n}" and "n \<le> length bs"
  shows "foldl (\<lambda>m i. m(pa i := bs ! i)) mem [0..<n] = (\<lambda>x. if x \<in> pa ` {..<n} then bs ! (the_inv_into {..<n} pa x) else mem x)"
  using assms
proof (induction n)
  case (Suc n)
  have i: "inj_on pa {..<n}" using Suc.prems(1) by (auto simp: inj_on_def)
  have "the_inv_into {..<Suc n} pa (pa k) = k" if "k < Suc n" for k using the_inv_into_f_f [OF Suc.prems(1)] that by simp
  moreover have "the_inv_into {..<n} pa (pa k) = k" if "k < n" for k using the_inv_into_f_f [OF i] that by simp
  moreover have "pa n \<noteq> pa k" if "k < n" for k using inj_onD [OF Suc.prems(1), of n k] that by auto
  then have "pa n \<notin> pa ` {..<n}" by blast
  ultimately show ?case using Suc.IH [OF i] Suc.prems(2)
    by (auto simp: fun_eq_iff lessThan_Suc)
qed simp

lemma store_bytes_fold:
  "n \<le> length bs \<Longrightarrow> store_bytes p (take n bs) mem = foldl (\<lambda>m i. m(p + i := bs ! i)) mem [0..<n]"
proof (induction n)
  case (Suc n)
  have "store_bytes p (take (Suc n) bs) mem = (store_bytes p (take n bs) mem)(p + n := bs ! n)"
    using Suc.prems by (auto simp: store_bytes_def fun_eq_iff)
  then show ?case using Suc by simp
next
  case 0
  show ?case by (auto simp: store_bytes_def fun_eq_iff)
qed

lemma copy_out_bytes:
  assumes "\<forall>i < length bs. page_of (page_down (a + of_nat i)) \<noteq> 0"
  shows "copy_out page_of a bs mem = write_bytes (\<lambda>i. phys_byte page_of (a + of_nat i)) bs mem"
  using assms
proof (induction page_of a bs mem rule: copy_out.induct)
  case (1 page_of a bs mem)
  show ?case
  proof (cases "bs = []")
    case True
    then show ?thesis by (simp add: copy_out.simps write_bytes_def)
  next
    case False
    define n where "n = copy_chunk a (length bs)"
    have n: "0 < n" "n \<le> length bs" using copy_chunk_pos [of "length bs" a] False by (auto simp: n_def)
    let ?pa = "\<lambda>i. phys_byte page_of (a + of_nat i)"
    have p: "page_of (page_down a) \<noteq> 0" using 1(2) [rule_format, of 0] False by simp
    let ?m1 = "store_bytes (page_byte (page_of (page_down a)) a) (take n bs) mem"
    have s1: "?m1 = foldl (\<lambda>m i. m(?pa i := bs ! i)) mem [0..<n]"
    proof -
      have "?m1 = foldl (\<lambda>m i. m(phys_byte page_of a + i := bs ! i)) mem [0..<n]"
        using store_bytes_fold [OF n(2)] by (simp add: phys_byte_def)
      also have "\<dots> = foldl (\<lambda>m i. m(?pa i := bs ! i)) mem [0..<n]"
        by (rule foldl_cong) (use in_chunk(2) n_def in auto)
      finally show ?thesis .
    qed
    have shift: "a + of_nat n + of_nat i = a + of_nat (n + i)" for i by (simp add: algebra_simps)
    have "copy_out page_of a bs mem = copy_out page_of (a + of_nat n) (drop n bs) ?m1"
      using False p by (subst copy_out.simps) (simp add: Let_def n_def)
    also have "\<dots> = write_bytes (\<lambda>i. phys_byte page_of (a + of_nat n + of_nat i)) (drop n bs) ?m1"
    proof (rule 1(1) [OF False n_def refl p], intro allI impI)
      fix i assume "i < length (drop n bs)"
      then have "n + i < length bs" by simp
      then show "page_of (page_down (a + of_nat n + of_nat i)) \<noteq> 0" unfolding shift using 1(2) by blast
    qed
    also have "\<dots> = foldl (\<lambda>m i. m(?pa (n + i) := bs ! (n + i))) ?m1 [0..<length bs - n]"
      unfolding write_bytes_def shift by (rule foldl_cong) (use n in auto)
    also have "\<dots> = foldl (\<lambda>m i. m(?pa i := bs ! i)) ?m1 [n..<length bs]"
    proof -
      have "[n..<length bs] = map (\<lambda>i. n + i) [0..<length bs - n]" using n(2) by (simp add: map_add_upt add.commute)
      then show ?thesis by (simp add: foldl_map)
    qed
    also have "\<dots> = foldl (\<lambda>m i. m(?pa i := bs ! i)) mem ([0..<n] @ [n..<length bs])" by (simp add: s1)
    also have "[0..<n] @ [n..<length bs] = [0..<length bs]" using upt_add_eq_append [of 0 n "length bs - n"] n(2) by simp
    finally show ?thesis unfolding write_bytes_def .
  qed
qed

lemma copy_in_bytes:
  assumes "\<forall>i < sz. page_of (page_down (a + of_nat i)) \<noteq> 0"
  shows "copy_in page_of a sz mem = map (\<lambda>i. mem (phys_byte page_of (a + of_nat i))) [0..<sz]"
  using assms
proof (induction page_of a sz mem rule: copy_in.induct)
  case (1 page_of a sz mem)
  show ?case
  proof (cases "sz = 0")
    case True
    then show ?thesis by (simp add: copy_in.simps)
  next
    case False
    define n where "n = copy_chunk a sz"
    have n: "0 < n" "n \<le> sz" using copy_chunk_pos [of sz a] False by (auto simp: n_def)
    have p: "page_of (page_down a) \<noteq> 0" using 1(2) [rule_format, of 0] False by simp
    have shift: "a + of_nat n + of_nat i = a + of_nat (n + i)" for i by (simp add: algebra_simps)
    have "copy_in page_of a sz mem = load_bytes (page_byte (page_of (page_down a)) a) n mem @ copy_in page_of (a + of_nat n) (sz - n) mem"
      using False p by (subst copy_in.simps) (simp add: Let_def n_def)
    also have "load_bytes (page_byte (page_of (page_down a)) a) n mem = map (\<lambda>i. mem (phys_byte page_of (a + of_nat i))) [0..<n]"
      unfolding load_bytes_def by (rule map_cong [OF refl]) (use in_chunk(2) n_def in \<open>auto simp: phys_byte_def [of page_of a]\<close>)
    also have "copy_in page_of (a + of_nat n) (sz - n) mem = map (\<lambda>i. mem (phys_byte page_of (a + of_nat n + of_nat i))) [0..<sz - n]"
    proof (rule 1(1) [OF False n_def refl p], intro allI impI)
      fix i assume "i < sz - n"
      then have "n + i < sz" by simp
      then show "page_of (page_down (a + of_nat n + of_nat i)) \<noteq> 0" unfolding shift using 1(2) by blast
    qed
    also have "\<dots> = map (\<lambda>i. mem (phys_byte page_of (a + of_nat i))) [n..<sz]"
    proof -
      have "[n..<sz] = map (\<lambda>i. n + i) [0..<sz - n]" using n(2) by (simp add: map_add_upt add.commute)
      then show ?thesis unfolding shift by (simp add: o_def del: of_nat_add)
    qed
    finally show ?thesis using upt_add_eq_append [of 0 n "sz - n"] n(2) by (simp flip: map_append)
  qed
qed

subsection \<open>Copying to mapped pages\<close>

lemma used_mem_outside:
  assumes sh: "pfa_shape p" and m: "\<forall>x. x div PAGE_SIZE \<in> leaves p \<longrightarrow> m x = pf_mem p x"
  shows "used_frames (p\<lparr>pf_mem := m\<rparr>) = used_frames p" "leaves (p\<lparr>pf_mem := m\<rparr>) = leaves p"
proof -
  show "leaves (p\<lparr>pf_mem := m\<rparr>) = leaves p" by (simp add: leaves_def)
  have "m (bit_byte p f) = pf_mem p (bit_byte p f)" if "has_leaf p f" for f
  proof -
    have "f div CHUNK_FRAMES < pfa_directory_entries p"
      using chunk_in_directory [OF sh has_leaf_directory [OF sh that]] .
    then have "bit_byte p f div PAGE_SIZE \<in> leaves p" using that bit_byte_page [of p f] by (auto simp: leaves_def has_leaf_def)
    then show ?thesis using m by blast
  qed
  moreover have "bit_byte (p\<lparr>pf_mem := m\<rparr>) f = bit_byte p f" for f by (simp add: bit_byte_def)
  ultimately show "used_frames (p\<lparr>pf_mem := m\<rparr>) = used_frames p" by (auto simp: used_frames_def raw_eq)
qed

lemma pfa_ok_mem:
  assumes ok: "pfa_ok d p" and m: "\<forall>x. x div PAGE_SIZE \<in> leaves p \<longrightarrow> m x = pf_mem p x"
  shows "pfa_ok d (p\<lparr>pf_mem := m\<rparr>)"
proof -
  let ?p = "p\<lparr>pf_mem := m\<rparr>"
  have sh: "pfa_shape p" using ok by (simp add: pfa_ok_def)
  note u = used_mem_outside [OF sh m]
  have fx: "fixed ?p = fixed p" by simp
  have fr: "free_frames ?p = free_frames p" by (simp only: free_eq u fixed_usable [OF fx] fixedD [OF fx])
  have "pfa_shape ?p" "leaves_apart ?p = leaves_apart p" "pfa_cached_free ?p = pfa_cached_free p" using sh by simp_all
  then show ?thesis using ok by (auto simp only: pfa_ok_def leaves_ok_def count_ok_def u fr fixed_usable [OF fx] fixedD [OF fx])
qed

definition phys_of :: "u64 \<Rightarrow> vmm \<Rightarrow> u64 \<Rightarrow> u64 \<Rightarrow> u64" where
  "phys_of boot s t w = vmm_get_phys_in_pml4 (vm_table s) boot t w"

lemma phys_of_page:
  assumes "space_ok t s" and "low_addr v" and "low_addr w" and "page_number v = page_number w"
  shows "phys_of boot s t v = phys_of boot s t w"
  using low_phys [OF assms(1,2)] low_phys [OF assms(1,3)] assms(4) by (simp add: phys_of_def)

lemma low_page_down: "low_addr w \<Longrightarrow> low_addr (page_down w) \<and> page_number (page_down w) = page_number w"
proof -
  assume w: "low_addr w"
  have "unat (page_down w) \<le> unat w" unfolding page_down_nat by (rule div_times_less_eq_dividend)
  then show ?thesis using w by (simp add: low_addr_def page_number_def page_down_nat)
qed

lemma phys_byte_low:
  assumes ok: "space_ok t s" and w: "low_addr w" and m: "phys_of boot s t w AND PHYS_MASK = phys_of boot s t w"
  shows "phys_byte (get_page_phys_in_pd (vm_table s) boot t) w = frame_of (phys_of boot s t w) * PAGE_SIZE + unat w mod PAGE_SIZE"
proof -
  have "get_page_phys_in_pd (vm_table s) boot t (page_down w) = phys_of boot s t w"
    using phys_of_page [OF ok _ w, of "page_down w" boot] low_page_down [OF w] by (simp add: get_page_phys_in_pd_def phys_of_def)
  then show ?thesis by (simp add: phys_byte_def page_byte_def offset_nat page_down_nat frame_of_def)
qed

text \<open>
  The bytes of a range whose pages are mapped to distinct pages in use have distinct
  physical addresses.
\<close>

definition range_mapped :: "u64 \<Rightarrow> vmm \<Rightarrow> u64 \<Rightarrow> u64 \<Rightarrow> nat \<Rightarrow> bool" where
  "range_mapped boot s t a n \<longleftrightarrow> unat a + n \<le> 2 ^ 47 \<and>
     (\<forall>i < n. phys_of boot s t (a + of_nat i) \<in> in_use (vm_pfa s) - {0}) \<and>
     (\<forall>i < n. \<forall>j < n. phys_of boot s t (a + of_nat i) = phys_of boot s t (a + of_nat j) \<longrightarrow>
        page_number (a + of_nat i) = page_number (a + of_nat j))"

lemma range_addr:
  assumes "unat a + n \<le> 2 ^ 47" and "i < n"
  shows "unat (a + of_nat i) = unat a + i" "low_addr (a + of_nat i)"
proof -
  have "i < 2 ^ 64" "unat a + i < 2 ^ 64" using assms by simp_all
  then show "unat (a + of_nat i) = unat a + i" by (simp add: unat_word_ariths unat_of_nat)
  then show "low_addr (a + of_nat i)" using assms by (simp add: low_addr_def)
qed

lemma same_div_mod: "(x :: nat) div k = y div k \<Longrightarrow> x mod k = y mod k \<Longrightarrow> x = y"
  by (metis div_mult_mod_eq)

lemma range_mapped_bytes:
  assumes ok: "space_ok t s" and r: "range_mapped boot s t a n"
  defines "pa \<equiv> \<lambda>i. phys_byte (get_page_phys_in_pd (vm_table s) boot t) (a + of_nat i)"
  shows "inj_on pa {..<n}" "\<And>i. i < n \<Longrightarrow> get_page_phys_in_pd (vm_table s) boot t (page_down (a + of_nat i)) \<noteq> 0"
    "\<And>i. i < n \<Longrightarrow> pa i div PAGE_SIZE = frame_of (phys_of boot s t (a + of_nat i))"
proof -
  have b: "unat a + n \<le> 2 ^ 47" using r by (simp add: range_mapped_def)
  have iu: "phys_of boot s t (a + of_nat i) \<in> in_use (vm_pfa s)" "phys_of boot s t (a + of_nat i) \<noteq> 0" if "i < n" for i
    using r that by (auto simp: range_mapped_def)
  have m: "phys_of boot s t (a + of_nat i) AND PHYS_MASK = phys_of boot s t (a + of_nat i)" if "i < n" for i
    using iu(1) [OF that] by (simp add: in_use_def)
  have pa: "pa i = frame_of (phys_of boot s t (a + of_nat i)) * PAGE_SIZE + (unat a + i) mod PAGE_SIZE" if "i < n" for i
    using phys_byte_low [OF ok range_addr(2) [OF b that] m [OF that]] range_addr(1) [OF b that] by (simp add: pa_def)
  show fr: "pa i div PAGE_SIZE = frame_of (phys_of boot s t (a + of_nat i))" if "i < n" for i using pa [OF that] by simp
  show "get_page_phys_in_pd (vm_table s) boot t (page_down (a + of_nat i)) \<noteq> 0" if "i < n" for i
    using phys_of_page [OF ok _ range_addr(2) [OF b that], of _ boot] low_page_down [OF range_addr(2) [OF b that]] iu(2) [OF that]
    by (simp add: get_page_phys_in_pd_def phys_of_def)
  show "inj_on pa {..<n}"
  proof (rule inj_onI)
    fix i j assume ij: "i \<in> {..<n}" "j \<in> {..<n}" "pa i = pa j"
    then have i: "i < n" and j: "j < n" by auto
    have "frame_of (phys_of boot s t (a + of_nat i)) = frame_of (phys_of boot s t (a + of_nat j))" using fr [OF i] fr [OF j] ij(3) by simp
    then have "unat (phys_of boot s t (a + of_nat i)) = unat (phys_of boot s t (a + of_nat j))"
      using page_of_frame [OF m [OF i]] page_of_frame [OF m [OF j]] by (simp add: frame_of_def)
    then have "phys_of boot s t (a + of_nat i) = phys_of boot s t (a + of_nat j)" by (rule word_unat_eq_iff [THEN iffD2])
    then have "page_number (a + of_nat i) = page_number (a + of_nat j)" using r i j unfolding range_mapped_def by blast
    then have d: "(unat a + i) div PAGE_SIZE = (unat a + j) div PAGE_SIZE"
      by (simp only: page_number_def range_addr(1) [OF b i] range_addr(1) [OF b j])
    have "(unat a + i) mod PAGE_SIZE = (unat a + j) mod PAGE_SIZE" using pa [OF i] pa [OF j] ij(3) fr [OF i] fr [OF j] by simp
    from same_div_mod [OF d this] show "i = j" by simp
  qed
qed

text \<open>
  C14. Copying to user memory and back. Let the pages of a range of a well-formed address
  space be mapped to distinct pages in use. vmm\_copy\_to\_pml4 followed by
  vmm\_read\_from\_pml4 on the same range returns the bytes written, across any number of
  page boundaries; no byte outside the pages of the range changes, and neither the tables
  nor the allocator and its bitmap are affected.
\<close>

theorem copy_to_read_back:
  assumes "space_ok t s" and "range_mapped boot s t a (length bs)"
  shows "vmm_read_from_pml4 boot (vmm_copy_to_pml4 boot s t a bs) t a (length bs) = bs \<and>
    space_ok t (vmm_copy_to_pml4 boot s t a bs) \<and> used_frames (vm_pfa (vmm_copy_to_pml4 boot s t a bs)) = used_frames (vm_pfa s) \<and>
    (\<forall>x. (\<forall>i < length bs. frame_of (phys_of boot s t (a + of_nat i)) \<noteq> x div PAGE_SIZE) \<longrightarrow>
       pf_mem (vm_pfa (vmm_copy_to_pml4 boot s t a bs)) x = pf_mem (vm_pfa s) x)"
proof -
  let ?s = "vmm_copy_to_pml4 boot s t a bs" and ?p = "get_page_phys_in_pd (vm_table s) boot t" and ?n = "length bs"
  define pa where "pa = (\<lambda>i. phys_byte ?p (a + of_nat i))"
  note b = range_mapped_bytes [OF assms, folded pa_def]
  have mapped: "\<forall>i < ?n. ?p (page_down (a + of_nat i)) \<noteq> 0" using b(2) by blast
  define m where "m = (\<lambda>x. if x \<in> pa ` {..<?n} then bs ! (the_inv_into {..<?n} pa x) else pf_mem (vm_pfa s) x)"
  have "write_bytes pa bs (pf_mem (vm_pfa s)) = m" unfolding write_bytes_def m_def by (rule write_fold [OF b(1)]) simp
  then have s: "?s = s\<lparr>vm_pfa := (vm_pfa s)\<lparr>pf_mem := m\<rparr>\<rparr>"
    unfolding vmm_copy_to_pml4_def copy_out_bytes [OF mapped] pa_def by (simp only:)
  have at: "m (pa i) = bs ! i" if "i < ?n" for i using the_inv_into_f_f [OF b(1)] that by (simp add: m_def)
  have out: "m x = pf_mem (vm_pfa s) x" if fr: "\<forall>i < ?n. frame_of (phys_of boot s t (a + of_nat i)) \<noteq> x div PAGE_SIZE" for x
  proof -
    have "x \<noteq> pa i" if "i < ?n" for i
      using fr b(3) [OF that] that unfolding pa_def by auto
    then have "x \<notin> pa ` {..<?n}" by blast
    then show ?thesis by (simp add: m_def)
  qed
  have sh: "pfa_ok 0 (vm_pfa s)" "pfa_shape (vm_pfa s)" using assms(1) by (auto simp: space_ok_def pfa_ok_def)
  have "frame_of (phys_of boot s t (a + of_nat i)) \<notin> leaves (vm_pfa s)" if "i < ?n" for i
    using assms(2) that by (auto simp: range_mapped_def in_use_def)
  then have lf: "\<forall>x. x div PAGE_SIZE \<in> leaves (vm_pfa s) \<longrightarrow> m x = pf_mem (vm_pfa s) x" using out by metis
  have "vmm_read_from_pml4 boot ?s t a ?n = map (\<lambda>i. m (pa i)) [0..<?n]"
    unfolding s vmm_read_from_pml4_def pa_def using copy_in_bytes [of ?n ?p a m] mapped by simp
  also have "\<dots> = bs" using at by (intro nth_equalityI) auto
  finally show ?thesis using assms(1) pfa_ok_mem [OF sh(1) lf] used_mem_outside [OF sh(2) lf] out
    unfolding s by (simp add: space_ok_def in_use_def)
qed

lemma two_spaces_mapped: "range_mapped 0 two_spaces 0x1000 0x5010 3"
proof -
  have a: "0x5010 + of_nat i \<in> {0x5010, 0x5011, 0x5012 :: u64}" if "i < 3" for i
    using that by (auto simp: numeral_3_eq_3 less_Suc_eq)
  have "low_addr w \<and> page_number w = 5" if "w \<in> {0x5010, 0x5011, 0x5012}" for w
    using that by (auto simp: page_number_def low_addr_def)
  then have p: "phys_of 0 two_spaces 0x1000 w = 0x9000 \<and> page_number w = 5" if "w \<in> {0x5010, 0x5011, 0x5012}" for w
    using that low_phys [OF two_spaces_ok(1), of w 0] two_spaces_page by (simp add: phys_of_def)
  have "(0x9000 :: u64) \<in> in_use small_full"
  proof -
    have "(9 :: nat) \<notin> {f. f < 13 \<and> 8 \<le> f \<and> \<not> bit (3 :: u8) (f - 8)}" unfolding small_full_free by simp
    then show ?thesis by (simp add: in_use_def frame_of_def small_used small_leaves)
  qed
  then show ?thesis using p [OF a] by (simp add: range_mapped_def two_spaces_def)
qed

theorem copy_to_read_back_witness:
  "vmm_read_from_pml4 0 (vmm_copy_to_pml4 0 two_spaces 0x1000 0x5010 [1, 2, 3]) 0x1000 0x5010 3 = [1, 2, 3]"
  using copy_to_read_back [OF two_spaces_ok(1), of 0 "0x5010" "[1, 2, 3]"] two_spaces_mapped by (simp add: numeral_3_eq_3)

end
