(* ===== verification/Uaccess.thy ===== *)
theory Uaccess
  imports Vmm_Copy
begin

text \<open>
  Access to user memory from system calls, kernel/arch/x86\_64/uaccess.c: the check of a
  range, which brings pages in where it can, and the copies of bytes and strings.

  The four handlers of page faults, which read files, grow areas and copy shared pages, are
  parameters: functions on the state of the address spaces and the faulting address. Their code
  (task.c and idt.c) is in the kernel and is not modelled, as it rests on files, memory areas and
  the scheduler; the theorems hold for all functions in their place.
\<close>

unbundle bit_operations_syntax

record fault_handlers =
  task_handle_file_page_fault :: "vmm \<Rightarrow> u64 \<Rightarrow> bool \<times> vmm"
  task_handle_anon_page_fault :: "vmm \<Rightarrow> u64 \<Rightarrow> bool \<Rightarrow> bool \<times> vmm"
  cow_handle_fault :: "vmm \<Rightarrow> u64 \<Rightarrow> int \<times> vmm"
  task_handle_file_write_fault :: "vmm \<Rightarrow> u64 \<Rightarrow> bool \<times> vmm"

text \<open>
  The current task: whether there is one and it is a user task, its address space, and the
  handlers.
\<close>

record user_context =
  uc_user :: bool
  uc_pml4 :: u64
  uc_boot :: u64
  uc_faults :: fault_handlers

definition page_flags :: "user_context \<Rightarrow> vmm \<Rightarrow> u64 \<Rightarrow> u64" where
  "page_flags c s a = vmm_get_flags_in_pml4 (vm_table s) (uc_boot c) (uc_pml4 c) a"

definition user_page_fault_in :: "user_context \<Rightarrow> vmm \<Rightarrow> u64 \<Rightarrow> bool \<Rightarrow> bool \<times> vmm" where
  "user_page_fault_in c s a write =
     (let H = uc_faults c; flags = page_flags c s a;
          (ok1, flags1, s1) =
            (if flags AND PTE_PRESENT = 0
             then (let (ok, s') = (case task_handle_file_page_fault H s a of
                                     (True, s') \<Rightarrow> (True, s')
                                   | (False, s') \<Rightarrow> task_handle_anon_page_fault H s' a write)
                   in (ok, page_flags c s' a, s'))
             else (True, flags, s));
          (ok2, flags2, s2) =
            (if ok1 \<and> write \<and> flags1 AND PTE_WRITE = 0 \<and> flags1 AND PTE_COW \<noteq> 0
             then (case cow_handle_fault H s1 a of (r, s') \<Rightarrow> (r = 1, page_flags c s' a, s'))
             else (ok1, flags1, s1))
      in if ok2 \<and> write \<and> flags2 AND PTE_WRITE = 0 then task_handle_file_write_fault H s2 a else (ok2, s2))"

definition user_page_access_ok :: "user_context \<Rightarrow> vmm \<Rightarrow> u64 \<Rightarrow> bool \<Rightarrow> bool \<times> vmm" where
  "user_page_access_ok c s a write =
     (let flags = page_flags c s a;
          (ok, s1) = (if flags AND PTE_PRESENT = 0 \<or> (write \<and> flags AND PTE_WRITE = 0)
                      then user_page_fault_in c s a write else (True, s)) in
      if \<not> ok then (False, s1)
      else (let flags1 = page_flags c s1 a in
        (\<not> (flags1 AND PTE_PRESENT = 0 \<or> flags1 AND PTE_USER = 0) \<and> \<not> (write \<and> flags1 AND PTE_WRITE = 0), s1)))"

fun user_pages_ok :: "user_context \<Rightarrow> vmm \<Rightarrow> u64 list \<Rightarrow> bool \<Rightarrow> bool \<times> vmm" where
  "user_pages_ok c s [] write = (True, s)"
| "user_pages_ok c s (page # pages) write =
     (case user_page_access_ok c s page write of
        (ok, s1) \<Rightarrow> if \<not> ok then (False, s1) else user_pages_ok c s1 pages write)"

text \<open>The pages from the first to the last one, both page aligned.\<close>

definition pages_upto :: "u64 \<Rightarrow> u64 \<Rightarrow> u64 list" where
  "pages_upto page last_page =
     map (\<lambda>i. page + of_nat i * 0x1000) [0..<(unat last_page - unat page) div 0x1000 + 1]"

definition user_access_ok :: "user_context \<Rightarrow> vmm \<Rightarrow> u64 \<Rightarrow> nat \<Rightarrow> bool \<Rightarrow> bool \<times> vmm" where
  "user_access_ok c s start sz write =
     (if \<not> uc_user c then (False, s)
      else if sz = 0 then (True, s)
      else if start < 0x1000 \<or> start \<ge> KERNEL_VMA then (False, s)
      else if sz - 1 > unat (0xFFFFFFFFFFFFFFFF - start) then (False, s)
      else (let end0 = start + of_nat sz - 1 in
        if end0 \<ge> KERNEL_VMA then (False, s)
        else user_pages_ok c s (pages_upto (page_down start) (page_down end0)) write))"

text \<open>
  The result, and the bytes stored to the destination, which is a null pointer or not. Reading
  stops at a page that is not mapped; the rest of the destination then keeps its bytes.
\<close>

definition copy_from_user :: "user_context \<Rightarrow> vmm \<Rightarrow> bool \<Rightarrow> u64 \<Rightarrow> nat \<Rightarrow> int \<times> u8 list \<times> vmm" where
  "copy_from_user c s dest_null src sz =
     (if dest_null \<and> sz \<noteq> 0 then (-1, [], s)
      else (case user_access_ok c s src sz False of
              (ok, s1) \<Rightarrow>
                if \<not> ok then (-1, [], s1)
                else (0, if sz \<noteq> 0 then vmm_read_from_pml4 (uc_boot c) s1 (uc_pml4 c) src sz else [], s1)))"

definition copy_to_user :: "user_context \<Rightarrow> vmm \<Rightarrow> u64 \<Rightarrow> bool \<Rightarrow> u8 list \<Rightarrow> int \<times> vmm" where
  "copy_to_user c s dest src_null bs =
     (if src_null \<and> length bs \<noteq> 0 then (-1, s)
      else (case user_access_ok c s dest (length bs) True of
              (ok, s1) \<Rightarrow>
                if \<not> ok then (-1, s1)
                else (0, if length bs \<noteq> 0 then vmm_copy_to_pml4 (uc_boot c) s1 (uc_pml4 c) dest bs else s1)))"

function clear_loop :: "user_context \<Rightarrow> vmm \<Rightarrow> u64 \<Rightarrow> nat \<Rightarrow> vmm" where
  "clear_loop c s address remaining =
     (if remaining = 0 then s
      else (let chunk = (if remaining < 64 then remaining else 64) in
            clear_loop c (vmm_copy_to_pml4 (uc_boot c) s (uc_pml4 c) address (replicate chunk 0)) (address + of_nat chunk)
              (remaining - chunk)))"
  by pat_completeness auto
termination
  by (relation "measure (\<lambda>(c, s, address, remaining). remaining)") auto

declare clear_loop.simps [simp del]

definition clear_user :: "user_context \<Rightarrow> vmm \<Rightarrow> u64 \<Rightarrow> nat \<Rightarrow> int \<times> vmm" where
  "clear_user c s dest sz =
     (case user_access_ok c s dest sz True of
        (ok, s1) \<Rightarrow> if \<not> ok then (-1, s1) else (0, clear_loop c s1 dest sz))"

subsection \<open>Strings\<close>

text \<open>
  The scan of one page in parts of 128 bytes: failure, the index of the terminator, or the
  index to go on from. The buffer keeps what a part does not overwrite.
\<close>

datatype scan_result = Scan_failed | Scan_found nat | Scan_more nat

definition fill_buffer :: "u8 list \<Rightarrow> u8 list \<Rightarrow> u8 list" where
  "fill_buffer buf bs = bs @ drop (length bs) buf"

definition find_zero :: "u8 list \<Rightarrow> nat \<Rightarrow> nat option" where
  "find_zero buf part = find (\<lambda>i. buf ! i = 0) [0..<part]"

function scan_page :: "user_context \<Rightarrow> vmm \<Rightarrow> u8 list \<Rightarrow> u64 \<Rightarrow> nat \<Rightarrow> nat \<Rightarrow> scan_result \<times> u8 list \<times> vmm" where
  "scan_page c s buf src index chunk =
     (if chunk = 0 then (Scan_more index, buf, s)
      else (let part = (if chunk < 128 then chunk else 128) in
        case copy_from_user c s False (src + of_nat index) part of
          (r, bs, s1) \<Rightarrow>
            let buf1 = fill_buffer buf bs in
            if r < 0 then (Scan_failed, buf1, s1)
            else (case find_zero buf1 part of
                    Some i \<Rightarrow> (Scan_found (index + i), buf1, s1)
                  | None \<Rightarrow> scan_page c s1 buf1 src (index + part) (chunk - part))))"
  by pat_completeness auto
termination
  by (relation "measure (\<lambda>(c, s, buf, src, index, chunk). chunk)") auto

declare scan_page.simps [simp del]

text \<open>The bytes from an address up to the end of its page, but no more than are left.\<close>

definition page_rest :: "u64 \<Rightarrow> nat \<Rightarrow> nat" where
  "page_rest current left = (let chunk = unat (page_down current + 0x1000 - current) in if chunk > left then left else chunk)"

lemma page_rest_eq: "page_rest a left = copy_chunk a left"
proof -
  have "unat (a AND 0xFFF) < 0x1000" using offset_nat [of a] by simp
  have "unat (page_down a) + unat (a AND 0xFFF) = unat a" unfolding page_down_nat offset_nat by (rule div_mult_mod_eq)
  then have "unat (page_down a + (a AND 0xFFF)) = unat a"
    using unsigned_less [of a, where ?'a = nat] by (simp add: unat_word_ariths)
  then have m: "a = page_down a + (a AND 0xFFF)" by (rule word_unat_eq_iff [THEN iffD2, symmetric])
  then have "a - page_down a = a AND 0xFFF" by (simp add: algebra_simps)
  then have "page_down a + 0x1000 - a = 0x1000 - (a AND 0xFFF)" by (simp add: algebra_simps)
  moreover have "unat (0x1000 - (a AND 0xFFF)) = 0x1000 - unat (a AND 0xFFF)"
    using \<open>unat (a AND 0xFFF) < 0x1000\<close> by (subst unat_sub) (auto simp: word_le_nat_alt)
  ultimately have "unat (page_down a + 0x1000 - a) = PAGE_SIZE - unat (a AND 0xFFF)" by (simp only:)
  then show ?thesis by (simp only: page_rest_def copy_chunk_def Let_def) (simp add: min_def)
qed

lemma page_rest_pos: "0 < left \<Longrightarrow> 0 < page_rest a left \<and> page_rest a left \<le> left"
  unfolding page_rest_eq by (rule copy_chunk_pos)

lemma scan_page_more:
  "scan_page c s buf src index chunk = (Scan_more i, buf', s') \<Longrightarrow> i = index + chunk"
proof (induction c s buf src index chunk rule: scan_page.induct)
  case (1 c s buf src index chunk)
  show ?case
  proof (cases "chunk = 0")
    case True
    then show ?thesis using 1(2) by (simp add: scan_page.simps)
  next
    case False
    define part where "part = (if chunk < 128 then chunk else (128 :: nat))"
    obtain r bs s1 where cp: "copy_from_user c s False (src + of_nat index) part = (r, bs, s1)" by (metis prod_cases3)
    have p: "part \<le> chunk" by (simp add: part_def)
    have "\<not> r < 0" "find_zero (fill_buffer buf bs) part = None"
      and n: "scan_page c s1 (fill_buffer buf bs) src (index + part) (chunk - part) = (Scan_more i, buf', s')"
      using 1(2) False cp unfolding scan_page.simps [of c s buf src index chunk] part_def [symmetric]
      by (auto simp: Let_def split: if_splits option.splits)
    from 1(1) [OF False part_def cp [symmetric] refl refl this(1,2) n] p show ?thesis by simp
  qed
qed

function strnlen_loop :: "user_context \<Rightarrow> vmm \<Rightarrow> u8 list \<Rightarrow> u64 \<Rightarrow> nat \<Rightarrow> nat \<Rightarrow> nat option \<times> vmm" where
  "strnlen_loop c s buf src max_size index =
     (if index < max_size
      then (let current = src + of_nat index in
        if current < src then (None, s)
        else (case scan_page c s buf src index (page_rest current (max_size - index)) of
                (Scan_failed, buf1, s1) \<Rightarrow> (None, s1)
              | (Scan_found i, buf1, s1) \<Rightarrow> (Some i, s1)
              | (Scan_more i, buf1, s1) \<Rightarrow> strnlen_loop c s1 buf1 src max_size i))
      else (None, s))"
  by pat_completeness auto
termination
proof (relation "measure (\<lambda>(c, s, buf, src, max_size, index). max_size - index)", goal_cases)
  case (2 c s buf src max_size index current r q i buf1 s1)
  then have "i = index + page_rest current (max_size - index)" using scan_page_more by metis
  then have "index < i" "i \<le> max_size" using 2(1) page_rest_pos [of "max_size - index" current] by auto
  then show ?case using 2(1) by simp
qed simp

declare strnlen_loop.simps [simp del]

text \<open>The length found; None is -1. The buffer is the stack memory before the call.\<close>

definition strnlen_user :: "user_context \<Rightarrow> vmm \<Rightarrow> u8 list \<Rightarrow> u64 \<Rightarrow> nat \<Rightarrow> nat option \<times> vmm" where
  "strnlen_user c s buf src max_size =
     (if src = 0 then (None, s)
      else if src < 0x1000 \<or> src \<ge> KERNEL_VMA then (None, s)
      else strnlen_loop c s buf src max_size 0)"

definition copy_string_from_user :: "user_context \<Rightarrow> vmm \<Rightarrow> u8 list \<Rightarrow> bool \<Rightarrow> u64 \<Rightarrow> nat \<Rightarrow> int \<times> u8 list \<times> vmm" where
  "copy_string_from_user c s buf dest_null src dest_size =
     (if dest_null \<or> dest_size = 0 then (-1, [], s)
      else (case strnlen_user c s buf src dest_size of
              (None, s1) \<Rightarrow> (-1, [], s1)
            | (Some n, s1) \<Rightarrow>
                (case copy_from_user c s1 False src (n + 1) of
                   (r, bs, s2) \<Rightarrow> if r < 0 then (-1, bs, s2) else (0, bs, s2))))"

definition copy_string_from_user_alloc :: "user_context \<Rightarrow> vmm \<Rightarrow> u8 list \<Rightarrow> bool \<Rightarrow> u64 \<Rightarrow> u8 list option \<times> vmm" where
  "copy_string_from_user_alloc c s buf kmalloc_ok src =
     (if src = 0 then (None, s)
      else if src < 0x1000 \<or> src \<ge> KERNEL_VMA then (None, s)
      else (let maximum0 = unat (KERNEL_VMA - src); maximum = (if maximum0 > 65536 then 65536 else maximum0) in
        case strnlen_user c s buf src maximum of
          (None, s1) \<Rightarrow> (None, s1)
        | (Some n, s1) \<Rightarrow>
            if n = 2 ^ 64 - 1 then (None, s1)
            else if \<not> kmalloc_ok then (None, s1)
            else (case copy_from_user c s1 False src (n + 1) of
                    (r, bs, s2) \<Rightarrow> if r < 0 then (None, s2) else (Some bs, s2))))"

end
