(* ===== verification/Uaccess_Props.thy ===== *)
theory Uaccess_Props
  imports Uaccess
begin

text \<open>
  What the checks and copies of uaccess.c do: ranges that reach outside the user half are
  refused before anything happens, and strings in accessible memory are copied exactly.
\<close>

unbundle bit_operations_syntax

subsection \<open>Accessible memory\<close>

definition user_byte :: "user_context \<Rightarrow> vmm \<Rightarrow> u64 \<Rightarrow> u8" where
  "user_byte c s a = pf_mem (vm_pfa s) (phys_byte (get_page_phys_in_pd (vm_table s) (uc_boot c) (uc_pml4 c)) a)"

text \<open>A page the task may read without a fault.\<close>

definition readable :: "user_context \<Rightarrow> vmm \<Rightarrow> u64 \<Rightarrow> bool" where
  "readable c s page \<longleftrightarrow> page_flags c s page AND PTE_PRESENT \<noteq> 0 \<and> page_flags c s page AND PTE_USER \<noteq> 0 \<and>
     get_page_phys_in_pd (vm_table s) (uc_boot c) (uc_pml4 c) page \<noteq> 0"

definition user_range :: "user_context \<Rightarrow> vmm \<Rightarrow> u64 \<Rightarrow> nat \<Rightarrow> bool" where
  "user_range c s a n \<longleftrightarrow> uc_user c \<and> 0x1000 \<le> unat a \<and> unat a + n \<le> 2 ^ 47 \<and>
     (\<forall>i < n. readable c s (page_down (a + of_nat i)))"

lemma page_readable: "readable c s page \<Longrightarrow> user_page_access_ok c s page False = (True, s)"
  by (simp add: user_page_access_ok_def readable_def Let_def)

lemma pages_readable: "\<forall>p \<in> set pages. readable c s p \<Longrightarrow> user_pages_ok c s pages False = (True, s)"
  by (induction pages) (simp_all add: page_readable)

lemma pages_upto_in:
  assumes b: "unat a + n \<le> 2 ^ 47" "0 < n" and p: "p \<in> set (pages_upto (page_down a) (page_down (a + of_nat n - 1)))"
  shows "\<exists>i < n. p = page_down (a + of_nat i)"
proof -
  have e: "a + of_nat n - 1 = a + of_nat (n - 1)" using b(2) by simp
  have ue: "unat (a + of_nat n - 1) = unat a + (n - 1)" unfolding e using range_addr(1) [OF b(1), of "n - 1"] b(2) by simp
  obtain k where k: "p = page_down a + of_nat k * 0x1000"
      "k < (unat (page_down (a + of_nat n - 1)) - unat (page_down a)) div 0x1000 + 1"
    using p by (auto simp: pages_upto_def)
  let ?q = "unat a div PAGE_SIZE" and ?l = "(unat a + (n - 1)) div PAGE_SIZE"
  have "?q \<le> ?l" by (rule div_le_mono) simp
  moreover have "k < ?l - ?q + 1" using k(2) unfolding page_down_nat ue by (simp add: diff_mult_distrib [symmetric])
  ultimately have kl: "?q + k \<le> ?l" by linarith
  have lm: "?l * PAGE_SIZE \<le> unat a + (n - 1)" by (rule div_times_less_eq_dividend)
  have m: "(?q + k) * PAGE_SIZE \<le> ?l * PAGE_SIZE" using kl by (rule mult_le_mono1)
  define i where "i = (?q + k) * PAGE_SIZE - unat a"
  have i: "i < n" using m lm b(2) by (simp add: i_def)
  have num: "(unat a + i) div PAGE_SIZE = ?q + k"
  proof (cases "k = 0")
    case True
    have "i = 0" using div_times_less_eq_dividend [of "unat a" PAGE_SIZE] True by (simp add: i_def)
    then show ?thesis using True by simp
  next
    case False
    have "unat a < (?q + 1) * PAGE_SIZE" using dividend_less_div_times [of PAGE_SIZE "unat a"] by simp
    also have "\<dots> \<le> (?q + k) * PAGE_SIZE" using False by (intro mult_le_mono1) simp
    finally have "unat a + i = (?q + k) * PAGE_SIZE" by (simp add: i_def)
    then show ?thesis by simp
  qed
  have "unat p = (?q + k) * PAGE_SIZE"
  proof -
    have "p = of_nat (unat (page_down a) + k * PAGE_SIZE)" by (simp add: k(1))
    moreover have "unat (page_down a) + k * PAGE_SIZE = (?q + k) * PAGE_SIZE" unfolding page_down_nat by (simp add: algebra_simps)
    moreover have "(?q + k) * PAGE_SIZE < 2 ^ 64" using m lm b by simp
    ultimately show ?thesis by (simp only: unat_of_nat) simp
  qed
  then have "unat p = unat (page_down (a + of_nat i))" unfolding page_down_nat range_addr(1) [OF b(1) i] num .
  then have "p = page_down (a + of_nat i)" by (rule word_unat_eq_iff [THEN iffD2])
  then show ?thesis using i by blast
qed

lemma access_ok_range:
  assumes r: "user_range c s a n" shows "user_access_ok c s a n False = (True, s)"
proof (cases "n = 0")
  case True
  then show ?thesis using r by (simp add: user_access_ok_def user_range_def)
next
  case False
  then have n: "0 < n" by simp
  have b: "uc_user c" "0x1000 \<le> unat a" "unat a + n \<le> 2 ^ 47" "\<And>i. i < n \<Longrightarrow> readable c s (page_down (a + of_nat i))"
    using r by (auto simp: user_range_def)
  have "low_addr a" using b(3) n by (simp add: low_addr_def)
  then have 1: "\<not> (a < 0x1000 \<or> a \<ge> KERNEL_VMA)" using b(2) low_addr_user(2) by (auto simp: word_less_nat_alt not_le)
  have "unat (0xFFFFFFFFFFFFFFFF - a) = 0xFFFFFFFFFFFFFFFF - unat a"
    using unat_sub [of a "0xFFFFFFFFFFFFFFFF :: u64"] b(3) by (simp add: word_le_nat_alt)
  then have 2: "\<not> n - 1 > unat (0xFFFFFFFFFFFFFFFF - a)" using b(3) by simp
  have "a + of_nat n - 1 = a + of_nat (n - 1)" using n by simp
  moreover have "low_addr (a + of_nat (n - 1))" using range_addr(2) [OF b(3), of "n - 1"] n by simp
  ultimately have "low_addr (a + of_nat n - 1)" by (simp only:)
  then have 3: "\<not> a + of_nat n - 1 \<ge> KERNEL_VMA" using low_addr_user(2) by (simp add: not_le)
  have "user_pages_ok c s (pages_upto (page_down a) (page_down (a + of_nat n - 1))) False = (True, s)"
    by (rule pages_readable) (use pages_upto_in [OF b(3) n] b(4) in blast)
  then show ?thesis using b(1) False 1 2 3 by (simp add: user_access_ok_def Let_def)
qed

lemma copy_from_user_range:
  assumes r: "user_range c s a n"
  shows "copy_from_user c s False a n = (0, map (\<lambda>i. user_byte c s (a + of_nat i)) [0..<n], s)"
proof -
  have "\<forall>i < n. get_page_phys_in_pd (vm_table s) (uc_boot c) (uc_pml4 c) (page_down (a + of_nat i)) \<noteq> 0"
    using r by (simp add: user_range_def readable_def)
  from copy_in_bytes [OF this] show ?thesis
    by (simp add: copy_from_user_def access_ok_range [OF r] vmm_read_from_pml4_def user_byte_def)
qed

lemma page_user_range:
  assumes r: "user_range c s a 1" and p: "unat a mod PAGE_SIZE + part \<le> PAGE_SIZE"
  shows "user_range c s a part"
proof -
  have b: "unat a < 2 ^ 47" "readable c s (page_down a)" "uc_user c" "0x1000 \<le> unat a" using r by (auto simp: user_range_def)
  have "readable c s (page_down (a + of_nat i))" if "i < part" for i
    using in_chunk(1) [of i a part] that p b(2) by (simp add: copy_chunk_def offset_nat)
  moreover have "unat a + part \<le> 2 ^ 47"
  proof -
    define q where "q = unat a div PAGE_SIZE"
    define m where "m = unat a mod PAGE_SIZE"
    have a: "unat a = q * PAGE_SIZE + m" by (simp add: q_def m_def)
    then have "q < 2 ^ 35" using b(1) by simp
    then have "q * PAGE_SIZE + PAGE_SIZE \<le> 2 ^ 47" by simp
    moreover have "m + part \<le> PAGE_SIZE" using p by (simp add: m_def)
    ultimately show ?thesis using a by linarith
  qed
  ultimately show ?thesis using b by (simp add: user_range_def)
qed

subsection \<open>Strings\<close>

text \<open>A terminated string: the bytes before position n are not zero, the byte there is.\<close>

definition user_string :: "user_context \<Rightarrow> vmm \<Rightarrow> u64 \<Rightarrow> nat \<Rightarrow> bool" where
  "user_string c s a n \<longleftrightarrow> user_range c s a (n + 1) \<and> (\<forall>i < n. user_byte c s (a + of_nat i) \<noteq> 0) \<and>
     user_byte c s (a + of_nat n) = 0"

lemma string_addr:
  assumes "user_string c s a n" and "index \<le> n"
  shows "unat (a + of_nat index) = unat a + index" "user_range c s (a + of_nat index) 1" "\<not> a + of_nat index < a"
proof -
  have r: "user_range c s a (n + 1)" using assms(1) by (simp add: user_string_def)
  then have b: "unat a + (n + 1) \<le> 2 ^ 47" by (simp add: user_range_def)
  have i: "index < n + 1" using assms(2) by simp
  show u: "unat (a + of_nat index) = unat a + index" using range_addr(1) [OF b i] .
  show "user_range c s (a + of_nat index) 1" using r i u by (simp add: user_range_def)
  show "\<not> a + of_nat index < a" by (simp add: word_less_nat_alt u)
qed

lemma find_zero_part:
  assumes "length bs = part"
  shows "find_zero (fill_buffer buf bs) part = find (\<lambda>i. bs ! i = 0) [0..<part]"
  unfolding find_zero_def fill_buffer_def using assms by (intro find_cong) (auto simp: nth_append)

lemma find_first:
  "find P [0..<k] = (if \<exists>i < k. P i then Some (LEAST i. P i) else None)"
proof (induction k)
  case (Suc k)
  have a: "find P (xs @ ys) = (case find P xs of None \<Rightarrow> find P ys | Some x \<Rightarrow> Some x)" for xs ys :: "nat list"
    by (induction xs) auto
  show ?case
  proof (cases "\<exists>i < k. P i")
    case True
    then have "\<exists>i < Suc k. P i" using less_Suc_eq by blast
    then show ?thesis using Suc True by (simp add: a)
  next
    case False
    have "P k \<Longrightarrow> (LEAST i. P i) = k" using False by (intro Least_equality) (auto simp: not_less)
    moreover have "(\<exists>i < Suc k. P i) \<longleftrightarrow> P k" using False less_Suc_eq by blast
    ultimately show ?thesis using Suc False by (simp add: a)
  qed
qed simp

text \<open>The search in one part, and the place in the page after it.\<close>

lemma part_zero:
  assumes u: "user_string c s a n" and i: "index \<le> n"
  defines "bs \<equiv> \<lambda>part. map (\<lambda>i. user_byte c s (a + of_nat index + of_nat i)) [0..<part]"
  shows "find_zero (fill_buffer buf (bs part)) part = (if n < index + part then Some (n - index) else None)"
proof -
  have byte: "bs part ! k = user_byte c s (a + of_nat (index + k))" if "k < part" for k
    using that by (simp add: bs_def algebra_simps)
  have nz: "user_byte c s (a + of_nat j) \<noteq> 0" if "j < n" for j using u that by (simp add: user_string_def)
  have zn: "user_byte c s (a + of_nat n) = 0" using u by (simp add: user_string_def)
  have len: "length (bs part) = part" by (simp add: bs_def)
  show ?thesis
  proof (cases "n < index + part")
    case True
    let ?i = "n - index"
    have i: "?i < part" "bs part ! ?i = 0" using True i byte [of ?i] zn by (simp_all del: of_nat_diff of_nat_add)
    have "(LEAST k. bs part ! k = 0) = ?i"
    proof (rule Least_equality)
      fix k assume k: "bs part ! k = 0"
      show "?i \<le> k"
      proof (rule ccontr)
        assume "\<not> ?i \<le> k"
        then have "index + k < n" "k < part" using i(1) by simp_all
        then show False using k byte [of k] nz [of "index + k"] by simp
      qed
    qed (rule i)
    then show ?thesis unfolding find_zero_part [OF len] find_first using i True by auto
  next
    case False
    then have "bs part ! k \<noteq> 0" if "k < part" for k using that byte [of k] nz [of "index + k"] by simp
    then show ?thesis unfolding find_zero_part [OF len] find_first using False by auto
  qed
qed

lemma part_end:
  fixes x :: nat
  assumes "x mod PAGE_SIZE + chunk \<le> PAGE_SIZE" and "part \<le> chunk"
  shows "(x + part) mod PAGE_SIZE + (chunk - part) \<le> PAGE_SIZE"
proof (cases "chunk = part")
  case True
  then show ?thesis by simp
next
  case False
  then have lt: "x mod PAGE_SIZE + part < PAGE_SIZE" using assms by simp
  have "(x + part) mod PAGE_SIZE = (x mod PAGE_SIZE + part) mod PAGE_SIZE" by (simp add: mod_add_left_eq)
  also have "\<dots> = x mod PAGE_SIZE + part" using lt by (rule mod_less)
  finally show ?thesis using assms by simp
qed

lemma scan_page_string:
  assumes "user_string c s a n" and "index \<le> n" and "unat (a + of_nat index) mod PAGE_SIZE + chunk \<le> PAGE_SIZE"
  shows "\<exists>buf'. scan_page c s buf a index chunk =
    (if n < index + chunk then Scan_found n else Scan_more (index + chunk), buf', s)"
  using assms(2,3)
proof (induction chunk arbitrary: index buf rule: less_induct)
  case (less chunk)
  show ?case
  proof (cases "chunk = 0")
    case True
    then show ?thesis using less.prems(1) by (simp add: scan_page.simps)
  next
    case False
    define part where "part = (if chunk < 128 then chunk else (128 :: nat))"
    have part: "0 < part" "part \<le> chunk" using False by (auto simp: part_def)
    note ad = string_addr [OF assms(1)]
    have r: "user_range c s (a + of_nat index) part"
      by (rule page_user_range [OF ad(2) [OF less.prems(1)]]) (use less.prems(2) part in simp)
    define bs where "bs = map (\<lambda>i. user_byte c s (a + of_nat index + of_nat i)) [0..<part]"
    have cp: "copy_from_user c s False (a + of_nat index) part = (0, bs, s)" unfolding bs_def by (rule copy_from_user_range [OF r])
    note zero = part_zero [OF assms(1) less.prems(1), where part = part and buf = buf, folded bs_def]
    show ?thesis
    proof (cases "n < index + part")
      case True
      then have "scan_page c s buf a index chunk = (Scan_found n, fill_buffer buf bs, s)"
        using False cp zero less.prems(1) unfolding scan_page.simps [of c s buf a index chunk] part_def [symmetric] by (simp add: Let_def)
      then show ?thesis using True part by auto
    next
      case F: False
      have "scan_page c s buf a index chunk = scan_page c s (fill_buffer buf bs) a (index + part) (chunk - part)"
        using False cp zero F unfolding scan_page.simps [of c s buf a index chunk] part_def [symmetric] by (simp add: Let_def)
      moreover have "unat (a + of_nat (index + part)) mod PAGE_SIZE + (chunk - part) \<le> PAGE_SIZE"
        using part_end [OF less.prems(2) part(2)] ad(1) [of index] ad(1) [of "index + part"] less.prems(1) F by (simp add: add.assoc)
      moreover have "index + part \<le> n" "chunk - part < chunk" using F part False by simp_all
      ultimately show ?thesis using less.IH [of "chunk - part" "index + part" "fill_buffer buf bs"] part by auto
    qed
  qed
qed

lemma strnlen_loop_string:
  assumes "user_string c s a n" and "n < max_size" and "index \<le> n"
  shows "strnlen_loop c s buf a max_size index = (Some n, s)"
  using assms(3)
proof (induction "max_size - index" arbitrary: index buf rule: less_induct)
  case less
  let ?cur = "a + of_nat index" and ?chunk = "page_rest (a + of_nat index) (max_size - index)"
  have i: "index < max_size" using less.prems assms(2) by simp
  have ch: "0 < ?chunk" "?chunk \<le> max_size - index" using page_rest_pos [of "max_size - index" ?cur] i by auto
  have "unat ?cur mod PAGE_SIZE + ?chunk \<le> PAGE_SIZE" unfolding page_rest_eq copy_chunk_def offset_nat
    using mod_less_divisor [of PAGE_SIZE "unat ?cur"] by (simp add: min_def) linarith
  from scan_page_string [OF assms(1) less.prems this]
  obtain buf' where sp: "scan_page c s buf a index ?chunk = (if n < index + ?chunk then Scan_found n else Scan_more (index + ?chunk), buf', s)"
    by blast
  have step: "strnlen_loop c s buf a max_size index =
      (if n < index + ?chunk then (Some n, s) else strnlen_loop c s buf' a max_size (index + ?chunk))"
    unfolding strnlen_loop.simps [of c s buf a max_size index] using i string_addr(3) [OF assms(1) less.prems] sp by (simp add: Let_def)
  show ?case
  proof (cases "n < index + ?chunk")
    case True
    then show ?thesis using step by simp
  next
    case False
    have "strnlen_loop c s buf' a max_size (index + ?chunk) = (Some n, s)"
      by (rule less.hyps) (use False ch i in linarith)+
    then show ?thesis using step False by simp
  qed
qed

lemma access_outside:
  assumes "0 < n" and "unat a < 0x1000 \<or> unat a + n > unat KERNEL_VMA"
  shows "user_access_ok c s a n write = (False, s)"
proof (rule ccontr)
  assume x: "user_access_ok c s a n write \<noteq> (False, s)"
  have "uc_user c" "\<not> a < 0x1000" "\<not> a \<ge> KERNEL_VMA" "\<not> n - 1 > unat (0xFFFFFFFFFFFFFFFF - a)" "\<not> a + of_nat n - 1 \<ge> KERNEL_VMA"
    using x assms(1) by (auto simp: user_access_ok_def Let_def split: if_splits)
  note h = this
  have a: "0x1000 \<le> unat a" using h(2) by (simp add: word_less_nat_alt)
  have "unat (0xFFFFFFFFFFFFFFFF - a) = 0xFFFFFFFFFFFFFFFF - unat a"
    using unat_sub [of a "0xFFFFFFFFFFFFFFFF :: u64"] unsigned_less [of a, where ?'a = nat] by (simp add: word_le_nat_alt)
  then have n: "unat a + (n - 1) < 2 ^ 64" using h(4) unsigned_less [of a, where ?'a = nat] by simp
  have "a + of_nat n - 1 = a + of_nat (n - 1)" using assms(1) by simp
  then have e: "a + of_nat n - 1 = of_nat (unat a + (n - 1))" by simp
  have "unat (a + of_nat n - 1) = unat a + (n - 1)" unfolding e using n by (simp only: unat_of_nat) simp
  then have "unat a + (n - 1) < unat KERNEL_VMA" using h(5) by (simp add: word_le_nat_alt)
  then show False using assms a by simp
qed

lemma strnlen_string:
  assumes u: "user_string c s a n" and n: "n < max_size"
  shows "strnlen_user c s buf a max_size = (Some n, s)"
proof -
  have r: "user_range c s a (n + 1)" using u by (simp add: user_string_def)
  then have b: "0x1000 \<le> unat a" "low_addr a" by (auto simp: user_range_def low_addr_def)
  then have "\<not> (a < 0x1000 \<or> a \<ge> KERNEL_VMA)" "a \<noteq> 0" using low_addr_user(2) by (auto simp: word_less_nat_alt not_le)
  then show ?thesis using strnlen_loop_string [OF u n] by (simp add: strnlen_user_def)
qed

text \<open>
  C13. User memory is guarded. copy\_to\_user refuses every nonempty range that starts below
  the first page or reaches the kernel, wrap-around included, before any page is touched or
  brought in, whatever the fault handlers would do. A string in memory the task may read is
  copied by copy\_string\_from\_user with its terminator and nothing after it, wherever it
  lies with respect to pages and to the parts of 128 bytes in which it is searched, when
  the terminator fits the destination.
\<close>

theorem user_memory_guarded:
  "(bs \<noteq> [] \<and> (unat b < 0x1000 \<or> unat b + length bs > unat KERNEL_VMA) \<longrightarrow> copy_to_user c s b src_null bs = (-1, s)) \<and>
   (user_string c s a n \<and> n < dest_size \<longrightarrow> copy_string_from_user c s buf False a dest_size =
      (0, map (\<lambda>i. user_byte c s (a + of_nat i)) [0..<n] @ [0], s))"
proof (intro conjI impI)
  assume "bs \<noteq> [] \<and> (unat b < 0x1000 \<or> unat b + length bs > unat KERNEL_VMA)"
  then have "user_access_ok c s b (length bs) True = (False, s)" using access_outside by simp
  then show "copy_to_user c s b src_null bs = (-1, s)" by (simp add: copy_to_user_def)
next
  assume h: "user_string c s a n \<and> n < dest_size"
  then have "user_range c s a (n + 1)" "user_byte c s (a + of_nat n) = 0" by (auto simp: user_string_def)
  then have "copy_from_user c s False a (n + 1) = (0, map (\<lambda>i. user_byte c s (a + of_nat i)) [0..<n] @ [0], s)"
    using copy_from_user_range by simp
  then show "copy_string_from_user c s buf False a dest_size = (0, map (\<lambda>i. user_byte c s (a + of_nat i)) [0..<n] @ [0], s)"
    using strnlen_string [of c s a n dest_size buf] h by (simp add: copy_string_from_user_def)
qed

definition no_faults :: fault_handlers where
  "no_faults = \<lparr>task_handle_file_page_fault = (\<lambda>s a. (False, s)), task_handle_anon_page_fault = (\<lambda>s a w. (False, s)),
     cow_handle_fault = (\<lambda>s a. (0, s)), task_handle_file_write_fault = (\<lambda>s a. (False, s))\<rparr>"

definition small_context :: user_context where
  "small_context = \<lparr>uc_user = True, uc_pml4 = 0x1000, uc_boot = 0, uc_faults = no_faults\<rparr>"

definition small_string :: vmm where
  "small_string = \<lparr>vm_table = two_tables, vm_pfa = small_full\<lparr>pf_mem := (\<lambda>x. if x = 0x9010 then 0x61 else 0)\<rparr>\<rparr>"

lemma small_string_ok: "user_string small_context small_string 0x5010 1" "user_byte small_context small_string 0x5010 = 0x61"
proof -
  have d: "page_down 0x5010 = 0x5000" "page_down 0x5011 = 0x5000" by (simp_all add: page_down_def)
  have p: "get_page_phys_in_pd two_tables 0 0x1000 0x5000 = 0x9000"
    by (simp add: get_page_phys_in_pd_def vmm_get_phys_in_pml4_def vmm_walk_leaf_def pt_kernel_walk_leaf_def Let_def page_index_nat two_tables_def)
  have "vmm_get_flags_in_pml4 two_tables 0 0x1000 0x5000 = 7"
    by (simp add: vmm_get_flags_in_pml4_def vmm_walk_leaf_def pt_kernel_walk_leaf_def Let_def page_index_nat two_tables_def narrow_flags_def)
  then have r: "readable small_context small_string 0x5000"
    using p by (simp add: readable_def page_flags_def small_context_def small_string_def)
  have b: "user_byte small_context small_string 0x5010 = 0x61" "user_byte small_context small_string 0x5011 = 0"
    using p by (simp_all add: user_byte_def phys_byte_def d page_byte_def small_context_def small_string_def page_down_nat offset_nat)
  then show "user_byte small_context small_string 0x5010 = 0x61" by blast
  have "readable small_context small_string (page_down (0x5010 + of_nat i))" if "i < 2" for i
    using that r d by (auto simp: less_2_cases_iff)
  then show "user_string small_context small_string 0x5010 1"
    using b by (simp add: user_string_def user_range_def) (simp add: small_context_def)
qed

theorem user_memory_guarded_witness:
  "copy_to_user small_context small_string 0xFFFFFFFF7FFFFFFF False [1, 2] = (-1, small_string) \<and>
   copy_string_from_user small_context small_string [] False 0x5010 16 = (0, [0x61, 0], small_string)"
  using user_memory_guarded [of "[1, 2]" "0xFFFFFFFF7FFFFFFF" small_context small_string False "0x5010" 1 16 "[]"] small_string_ok
  by simp

end
