(* ===== verification/Fsname.thy ===== *)
theory Fsname
  imports Prelude
begin

text \<open>
  kernel/lib/fsname.c: the conversion of file names between the UTF-8 of the system-call
  interface and the UTF-16 that exFAT and FAT store. A C string is the list of its bytes
  before the terminator; reading at or after the end gives the terminator. The units that
  a conversion stores through its output pointer, in order, are a list, kept also when the
  conversion fails half way.
\<close>

unbundle bit_operations_syntax

definition FSNAME_MAX :: nat where
  "FSNAME_MAX = 255"

definition at_byte :: "u8 list \<Rightarrow> u8" where
  "at_byte p = (case p of [] \<Rightarrow> 0 | b # _ \<Rightarrow> b)"

primrec utf8_tail :: "nat \<Rightarrow> u32 \<Rightarrow> u8 list \<Rightarrow> (u32 \<times> u8 list) option" where
  "utf8_tail 0 c p = Some (c, p)"
| "utf8_tail (Suc k) c p =
     (if at_byte p AND 0xC0 \<noteq> 0x80 then None
      else utf8_tail k (push_bit 6 c OR ucast (at_byte p AND 0x3F)) (tl p))"

definition utf8_head :: "u32 \<Rightarrow> nat" where
  "utf8_head c = (if 0xF0 \<le> c then 3 else if 0xE0 \<le> c then 2 else if 0xC0 \<le> c then 1 else 0)"

definition fsname_forbidden :: "u32 \<Rightarrow> bool" where
  "fsname_forbidden c \<longleftrightarrow>
     c < 0x20 \<or> c = 0x7F \<or>
     (c < 0x80 \<and> c \<in> {0x22, 0x2A, 0x2F, 0x3A, 0x3C, 0x3E, 0x3F, 0x5C, 0x7C, 0}) \<or>
     (0xD800 \<le> c \<and> c < 0xE000) \<or> 0x10FFFF < c"

definition utf16_units :: "u32 \<Rightarrow> u16 list" where
  "utf16_units c =
     (if 0x10000 \<le> c then
        (let c' = c - 0x10000
         in [ucast (0xD800 OR drop_bit 10 c'), ucast (0xDC00 OR (c' AND 0x3FF))])
      else [ucast c])"

lemma utf8_tail_length: "utf8_tail k c p = Some (c', p') \<Longrightarrow> length p' \<le> length p"
proof (induction k arbitrary: c p)
  case (Suc k)
  from Suc.prems have "length p' \<le> length (tl p)"
    by (intro Suc.IH) (auto split: if_splits)
  then show ?case by simp
qed simp

function utf16_loop :: "u8 list \<Rightarrow> u16 list \<Rightarrow> int \<times> u16 list" where
  "utf16_loop p out =
     (case p of
        [] \<Rightarrow> (int (length out), out)
      | b # p1 \<Rightarrow>
          (let c = ucast b :: u32; k = utf8_head c in
           if (0x80 \<le> c \<and> k = 0) \<or> 0xF8 \<le> c then (-1, out)
           else (case utf8_tail k (if k = 0 then c else c AND drop_bit k 0x3F) p1 of
                   None \<Rightarrow> (-1, out)
                 | Some (c, p2) \<Rightarrow>
                     if fsname_forbidden c then (-1, out)
                     else if FSNAME_MAX \<le> length out + (if 0x10000 \<le> c then 1 else 0) then (-1, out)
                     else utf16_loop p2 (out @ utf16_units c))))"
  by pat_completeness auto
termination
  by (relation "measure (\<lambda>(p, out). length p)") (auto dest!: sym [THEN utf8_tail_length] simp: utf8_tail_length less_Suc_eq_le)

declare utf16_loop.simps [simp del]

definition fsname_to_utf16 :: "u8 list \<Rightarrow> int \<times> u16 list" where
  "fsname_to_utf16 s = (if s = [0x2E] \<or> s = [0x2E, 0x2E] then (-1, []) else utf16_loop s [])"

definition utf8_bytes :: "u32 \<Rightarrow> u8 list" where
  "utf8_bytes c =
     (if c < 0x80 then [ucast c]
      else if c < 0x800 then [ucast (0xC0 OR drop_bit 6 c), ucast (0x80 OR (c AND 0x3F))]
      else if c < 0x10000 then
        [ucast (0xE0 OR drop_bit 12 c), ucast (0x80 OR (drop_bit 6 c AND 0x3F)),
         ucast (0x80 OR (c AND 0x3F))]
      else
        [ucast (0xF0 OR drop_bit 18 c), ucast (0x80 OR (drop_bit 12 c AND 0x3F)),
         ucast (0x80 OR (drop_bit 6 c AND 0x3F)), ucast (0x80 OR (c AND 0x3F))])"

fun utf8_loop :: "u16 list \<Rightarrow> u8 list" where
  "utf8_loop [] = []"
| "utf8_loop [c] = utf8_bytes (ucast c)"
| "utf8_loop (c # d # s) =
     (if 0xD800 \<le> c \<and> c < 0xDC00 \<and> 0xDC00 \<le> d \<and> d < 0xE000
      then utf8_bytes (0x10000 + push_bit 10 (ucast c - 0xD800) + (ucast d - 0xDC00)) @ utf8_loop s
      else utf8_bytes (ucast c) @ utf8_loop (d # s))"

definition fsname_to_utf8 :: "u16 list \<Rightarrow> u8 list" where
  "fsname_to_utf8 s = utf8_loop s @ [0]"

subsection \<open>One character\<close>




















subsection \<open>Whole names\<close>





















text \<open>
  The dot names are compared before decoding, so their longer spellings pass: the two bytes
  C0 AE, which no UTF-8 text contains, are stored as the name of the directory itself, which
  the interface then refuses to look up again.
\<close>

theorem overlong_dot_accepted:
  "fsname_to_utf16 [0xC0, 0xAE] = (1, [0x2E]) \<and> fsname_to_utf8 [0x2E] = [0x2E, 0] \<and>
   fsname_to_utf16 [0x2E] = (-1, [])"
  by code_simp


end
