(* ===== verification/Hkdf.thy ===== *)
theory Hkdf
  imports Hmac
begin

text \<open>
  modules/lebtls/hkdf.c: the key derivation of RFC 5869 over HMAC-SHA-256 and the labelled
  form of it that TLS 1.3 (RFC 8446, section 7.1) uses. A buffer passed by pointer is None
  for the null pointer. Sizes are 64-bit words and the block counter is a 32-bit word, as in
  the code. The contents of the uninitialised hash contexts of the i-th call of hmac\_sha256
  and the outcome of the i-th call of kmalloc are arguments.
\<close>

unbundle bit_operations_syntax

type_synonym hmac_stack = "sha256_ctx \<times> sha256_ctx \<times> sha256_ctx"

definition hmac_on :: "hmac_stack \<Rightarrow> u8 list \<Rightarrow> u8 list \<Rightarrow> u8 list" where
  "hmac_on st key data = (case st of (c0, c1, c2) \<Rightarrow> hmac_sha256 c0 c1 c2 key data)"

definition lebtls_hkdf_extract ::
    "hmac_stack \<Rightarrow> u8 list option \<Rightarrow> nat \<Rightarrow> u8 list option \<Rightarrow> nat \<Rightarrow> u8 list option \<Rightarrow> int \<times> u8 list option" where
  "lebtls_hkdf_extract st salt salt_len ikm ikm_len out =
     (case out of
        None \<Rightarrow> (-1, out)
      | Some buf \<Rightarrow>
          (let key = (case salt of
                        None \<Rightarrow> replicate 32 0
                      | Some s \<Rightarrow> if salt_len = 0 then replicate 32 0 else take salt_len s)
           in case ikm of
                None \<Rightarrow> (-1, out)
              | Some m \<Rightarrow>
                  if ikm_len = 0 then (-1, out)
                  else (0, Some (hmac_on st key (take ikm_len m) @ drop 32 buf))))"

text \<open>Storing bytes at an offset of a buffer, as memcpy does.\<close>

definition put_bytes :: "u8 list \<Rightarrow> nat \<Rightarrow> u8 list \<Rightarrow> u8 list" where
  "put_bytes out off bs = take off out @ bs @ drop (off + length bs) out"

text \<open>
  The loop of lebtls\_hkdf\_expand; its first argument counts the rounds that are left, i is
  the block number and t the last block.
\<close>

primrec hkdf_rounds ::
    "nat \<Rightarrow> (u32 \<Rightarrow> hmac_stack) \<Rightarrow> (u32 \<Rightarrow> bool) \<Rightarrow> u8 list \<Rightarrow> u8 list \<Rightarrow> u64 \<Rightarrow> u64 \<Rightarrow>
     u32 \<Rightarrow> u8 list \<Rightarrow> u64 \<Rightarrow> u8 list \<Rightarrow> int \<times> u8 list" where
  "hkdf_rounds 0 st kmalloc_ok secret info info_len out_len i t dn out = (0, out)"
| "hkdf_rounds (Suc left) st kmalloc_ok secret info info_len out_len i t dn out =
     (let prev = (if i > 1 then 32 else 0 :: u64);
          msg_len = prev + info_len + 1
      in if msg_len < prev then (-1, out)
         else if \<not> kmalloc_ok i then (-1, out)
         else
           (let msg = take (unat prev) t @ take (unat info_len) info @ [ucast i];
                t = hmac_on (st i) (take 32 secret) msg;
                tk = (if out_len - dn > 32 then 32 else out_len - dn);
                out = put_bytes out (unat dn) (take (unat tk) t)
            in hkdf_rounds left st kmalloc_ok secret info info_len out_len (i + 1) t (dn + tk) out))"

definition hkdf_blocks :: "u64 \<Rightarrow> u32" where
  "hkdf_blocks out_len = ucast ((out_len + 32 - 1) div 32)"

definition lebtls_hkdf_expand ::
    "(u32 \<Rightarrow> hmac_stack) \<Rightarrow> (u32 \<Rightarrow> bool) \<Rightarrow> u8 list \<Rightarrow> u8 list option \<Rightarrow> u8 list option \<Rightarrow> u64 \<Rightarrow>
     u8 list option \<Rightarrow> u64 \<Rightarrow> int \<times> u8 list option" where
  "lebtls_hkdf_expand st kmalloc_ok t0 secret info info_len out out_len =
     (case (secret, out) of
        (Some key, Some buf) \<Rightarrow>
          if out_len = 0 then (0, out)
          else if info = None \<and> info_len > 0 then (-1, out)
          else
            (let n = hkdf_blocks out_len
             in if n = 0 \<or> n > 255 then (-1, out)
                else (case hkdf_rounds (unat n) st kmalloc_ok key
                             (case info of None \<Rightarrow> [] | Some m \<Rightarrow> m) info_len out_len 1 t0 0 buf of
                        (r, buf') \<Rightarrow> (r, Some buf')))
      | _ \<Rightarrow> (-1, out))"

definition tls13_prefix :: "u8 list" where
  "tls13_prefix = [0x74, 0x6C, 0x73, 0x31, 0x33, 0x20]"

definition lebtls_hkdf_label ::
    "(u32 \<Rightarrow> hmac_stack) \<Rightarrow> bool \<Rightarrow> (u32 \<Rightarrow> bool) \<Rightarrow> u8 list \<Rightarrow> u8 list option \<Rightarrow> u8 list option \<Rightarrow>
     u8 list option \<Rightarrow> u64 \<Rightarrow> u8 list option \<Rightarrow> u64 \<Rightarrow> int \<times> u8 list option" where
  "lebtls_hkdf_label st info_ok kmalloc_ok t0 secret label ctx ctx_len out out_len =
     (case (secret, label, out) of
        (Some _, Some lab, Some _) \<Rightarrow>
          if ctx = None \<and> ctx_len > 0 then (-1, out)
          else if out_len = 0 \<or> out_len > 255 then (-1, out)
          else if length lab > 255 - 7 then (-1, out)
          else if ctx_len > 255 then (-1, out)
          else if \<not> info_ok then (-1, out)
          else
            (let info = [ucast (drop_bit 8 out_len AND 0xFF), ucast (out_len AND 0xFF),
                         word_of_nat (6 + length lab)] @ tls13_prefix @ lab @ [ucast ctx_len] @
                        take (unat ctx_len) (case ctx of None \<Rightarrow> [] | Some c \<Rightarrow> c)
             in lebtls_hkdf_expand st kmalloc_ok t0 secret (Some info)
                  (2 + 1 + 6 + word_of_nat (length lab) + 1 + ctx_len) out out_len)
      | _ \<Rightarrow> (-1, out))"

subsection \<open>The derivation of RFC 5869\<close>

definition rfc_extract :: "u8 list \<Rightarrow> u8 list \<Rightarrow> u8 list" where
  "rfc_extract salt ikm = rfc_hmac fips_sha256 64 salt ikm"

primrec rfc_block :: "u8 list \<Rightarrow> u8 list \<Rightarrow> nat \<Rightarrow> u8 list" where
  "rfc_block prk info 0 = []"
| "rfc_block prk info (Suc n) =
     rfc_hmac fips_sha256 64 prk (rfc_block prk info n @ info @ [word_of_nat (Suc n)])"

definition rfc_expand :: "u8 list \<Rightarrow> u8 list \<Rightarrow> nat \<Rightarrow> u8 list" where
  "rfc_expand prk info len =
     take len (concat (map (rfc_block prk info) [1..<Suc ((len + 31) div 32)]))"

definition rfc_prefix :: "u8 list" where
  "rfc_prefix = map of_char ''tls13 ''"

definition rfc_label :: "u8 list \<Rightarrow> u8 list \<Rightarrow> u8 list \<Rightarrow> nat \<Rightarrow> u8 list" where
  "rfc_label secret label ctx len =
     rfc_expand secret
       (be_bytes 2 len @ [word_of_nat (length (rfc_prefix @ label))] @ rfc_prefix @ label @
        [word_of_nat (length ctx)] @ ctx) len"

lemma rfc_prefix_tls13: "rfc_prefix = tls13_prefix"
  by (simp add: rfc_prefix_def tls13_prefix_def of_char_def)

definition stack_ok :: "hmac_stack \<Rightarrow> bool" where
  "stack_ok st = (case st of (c0, c1, c2) \<Rightarrow>
     length (s2_data c0) = 64 \<and> length (s2_data c1) = 64 \<and> length (s2_data c2) = 64)"

lemma hmac_on_rfc: "stack_ok st \<Longrightarrow> hmac_on st key data = rfc_hmac fips_sha256 64 key data"
proof (cases st)
  case (fields c0 c1 c2)
  assume "stack_ok st"
  then show ?thesis
    unfolding fields hmac_on_def stack_ok_def hmac_sha256_def Let_def sha256_hash_def prod.case
    by (intro k256.hmac_two_passes [OF _ _ _ refl]) (simp_all add: ready256_def)
qed

lemma length_rfc_hmac: "length (rfc_hmac fips_sha256 64 key data) = 32"
  by (simp add: rfc_hmac_def k256.digest_length)

lemma length_hkdf_block: "0 < i \<Longrightarrow> length (rfc_block prk info i) = 32"
  by (cases i) (simp_all add: length_rfc_hmac)


subsection \<open>The loop\<close>

lemma msg_len_fits:
  fixes info_len :: u64
  assumes "unat info_len < 2 ^ 64 - 33" and "prev \<in> {0, 32}"
  shows "\<not> prev + info_len + 1 < prev"
  using assms by (auto simp: word_less_nat_alt unat_word_ariths)

lemma put_bytes_append:
  assumes "length bs = k" and "off + k \<le> length out"
  shows "take (off + k) (put_bytes out off bs) = take off out @ bs"
    and "drop (off + k + m) (put_bytes out off bs) = drop (off + k + m) out"
    and "length (put_bytes out off bs) = length out"
  using assms by (auto simp: put_bytes_def ac_simps)

lemma take_block:
  "length b = n \<Longrightarrow> take (l - n * j) (b @ r) = take (min n (l - n * j)) b @ take (l - n * Suc j) r"
  by (simp add: min_def ac_simps)

lemma hkdf_rounds_rfc:
  fixes out_len :: u64
  defines "L \<equiv> unat out_len"
  assumes st: "\<And>i. stack_ok (st i)" and km: "\<And>i. kmalloc_ok i"
    and info: "unat info_len < 2 ^ 64 - 33"
    and n: "j + left \<le> 255" "L \<le> 32 * (j + left)" "32 * (j + left) < L + 32" and L: "L \<le> length out"
    and t: "0 < j \<longrightarrow> t = rfc_block (take 32 secret) (take (unat info_len) info) j"
    and dn0: "0 < left \<longrightarrow> unat dn = 32 * j"
  shows "hkdf_rounds left st kmalloc_ok secret info info_len out_len (word_of_nat (Suc j)) t dn out =
    (0, take (min (32 * j) L) out @
        take (L - 32 * j) (concat (map (rfc_block (take 32 secret) (take (unat info_len) info)) [Suc j..<Suc (j + left)])) @
        drop L out)"
  using n L t dn0
proof (induction left arbitrary: j t dn out)
  case 0
  then show ?case by (simp add: min_absorb2)
next
  case (Suc left)
  let ?T = "rfc_block (take 32 secret) (take (unat info_len) info)"
  let ?i = "word_of_nat (Suc j) :: u32"
  let ?prev = "if ?i > 1 then 32 else 0 :: u64"
  let ?tk = "if out_len - dn > 32 then 32 else out_len - dn"
  have i: "unat ?i = Suc j" using Suc.prems(1) by (simp add: unat_of_nat del: of_nat_Suc)
  have prev: "?prev = (if j = 0 then 0 else 32)" using i by (simp add: word_less_nat_alt)
  have pos: "unat dn = 32 * j" "32 * j < L" using Suc.prems by auto
  have tk: "unat ?tk = min 32 (L - 32 * j)"
    using pos by (auto simp: word_less_nat_alt unat_sub_if' L_def min_def)
  have "take (unat ?prev) t = ?T j"
    using Suc.prems(5) by (cases "j = 0") (simp_all only: prev, simp_all add: length_hkdf_block)
  moreover have "ucast ?i = (word_of_nat (Suc j) :: u8)"
    using i by (simp add: word_unat_eq_iff [where 'a = 8] unsigned_ucast_eq [where 'b = 32] take_bit_eq_mod
        unat_of_nat del: of_nat_Suc)
  ultimately have msg: "hmac_on (st ?i) (take 32 secret) (take (unat ?prev) t @ take (unat info_len) info @ [ucast ?i]) = ?T (Suc j)"
    by (simp add: hmac_on_rfc st del: of_nat_Suc)
  define tk where "tk = ?tk"
  define out' where "out' = put_bytes out (unat dn) (take (unat tk) (?T (Suc j)))"
  have len: "length (take (unat tk) (?T (Suc j))) = unat tk" "unat tk = min 32 (L - 32 * j)"
    using tk by (simp_all add: tk_def length_rfc_hmac)
  have step: "hkdf_rounds (Suc left) st kmalloc_ok secret info info_len out_len ?i t dn out =
    hkdf_rounds left st kmalloc_ok secret info info_len out_len (word_of_nat (Suc (Suc j))) (?T (Suc j)) (dn + tk) out'"
    unfolding hkdf_rounds.simps Let_def tk_def [symmetric] msg out'_def [symmetric]
    using msg_len_fits [OF info, of ?prev] km by (simp add: add.commute)
  have bound: "unat dn + unat tk \<le> length out" "32 * j + unat tk = min (32 * Suc j) L"
    using pos len(2) Suc.prems(4) by (auto simp: min_def)
  then obtain m where m: "L = unat dn + unat tk + m" using pos by (metis le_add_diff_inverse min.cobounded2)
  have o': "length out' = length out" "take (min (32 * Suc j) L) out' = take (32 * j) out @ take (unat tk) (?T (Suc j))"
      "drop L out' = drop L out"
    using put_bytes_append [OF len(1) bound(1)] unfolding out'_def [symmetric]
    by (simp_all only: pos(1) bound(2), simp only: m pos(1))
  have "hkdf_rounds left st kmalloc_ok secret info info_len out_len (word_of_nat (Suc (Suc j))) (?T (Suc j)) (dn + tk) out' =
    (0, take (min (32 * Suc j) L) out' @
        take (L - 32 * Suc j) (concat (map ?T [Suc (Suc j)..<Suc (Suc j + left)])) @ drop L out')"
  proof (rule Suc.IH)
    show "0 < left \<longrightarrow> unat (dn + tk) = 32 * Suc j"
      using Suc.prems pos(1) len(2) by (auto simp: unat_word_ariths min_def)
  qed (use Suc.prems o'(1) in auto)
  also have "\<dots> = (0, take (min (32 * j) L) out @
        take (L - 32 * j) (concat (map ?T [Suc j..<Suc (j + Suc left)])) @ drop L out)"
  proof -
    have "[Suc j..<Suc (j + Suc left)] = Suc j # [Suc (Suc j)..<Suc (Suc j + left)]"
      by (simp add: upt_conv_Cons del: upt_Suc)
    then have c: "concat (map ?T [Suc j..<Suc (j + Suc left)]) =
        ?T (Suc j) @ concat (map ?T [Suc (Suc j)..<Suc (Suc j + left)])"
      by (simp only: list.map concat.simps)
    have "take (L - 32 * j) (?T (Suc j) @ r) = take (unat tk) (?T (Suc j)) @ take (L - 32 * Suc j) r" for r
      unfolding len(2) by (rule take_block) (rule length_hkdf_block, simp)
    then show ?thesis
      using pos(2) by (simp only: o' c append_assoc min_absorb1 less_imp_le)
  qed
  finally show ?case unfolding step .
qed

lemma block_count:
  fixes out_len :: u64
  assumes "unat out_len + 31 < 2 ^ 37"
  shows "unat (hkdf_blocks out_len) = (unat out_len + 31) div 32"
proof -
  have "out_len + 32 - 1 = out_len + 31" by simp
  moreover from assms have "unat (out_len + 31) = unat out_len + 31" by (simp add: unat_word_ariths)
  ultimately have "unat ((out_len + 32 - 1) div 32) = (unat out_len + 31) div 32"
    by (simp only: unat_div_distrib) simp
  moreover from assms have "(unat out_len + 31) div 32 < 2 ^ 32" by simp
  ultimately show ?thesis
    by (simp only: hkdf_blocks_def unsigned_ucast_eq) (simp add: take_bit_nat_eq_self)
qed

lemma hkdf_expand_rfc:
  assumes "\<And>i. stack_ok (st i)" and "\<And>i. kmalloc_ok i"
    and "length m = unat info_len" and "unat info_len < 2 ^ 64 - 33"
    and len: "0 < out_len" "unat out_len \<le> 255 * 32" "unat out_len \<le> length buf" and "length secret = 32"
  shows "lebtls_hkdf_expand st kmalloc_ok t0 (Some secret) (Some m) info_len (Some buf) out_len =
    (0, Some (rfc_expand secret m (unat out_len) @ drop (unat out_len) buf))"
proof -
  let ?n = "hkdf_blocks out_len"
  have n: "unat ?n = (unat out_len + 31) div 32" by (rule block_count) (use len in simp)
  have pos: "0 < unat out_len" using len(1) by (simp add: word_less_nat_alt)
  have "\<not> (?n = 0 \<or> ?n > 255)"
    using pos len(2) n by (auto simp: word_less_nat_alt simp flip: unat_eq_0)
  moreover have "hkdf_rounds (unat ?n) st kmalloc_ok secret m info_len out_len (word_of_nat (Suc 0)) t0 0 buf =
    (0, take (min (32 * 0) (unat out_len)) buf @
      take (unat out_len - 32 * 0) (concat (map (rfc_block (take 32 secret) (take (unat info_len) m)) [Suc 0..<Suc (0 + unat ?n)])) @
        drop (unat out_len) buf)"
    by (rule hkdf_rounds_rfc) (use assms pos in \<open>auto simp: n\<close>)
  then have "hkdf_rounds (unat ?n) st kmalloc_ok secret m info_len out_len 1 t0 0 buf =
    (0, rfc_expand secret m (unat out_len) @ drop (unat out_len) buf)"
    using assms(3,8) by (simp add: rfc_expand_def n del: upt_Suc)
  ultimately show ?thesis
    using len(1) by (auto simp add: lebtls_hkdf_expand_def Let_def)
qed

text \<open>
  C17. lebtls\_hkdf\_extract and lebtls\_hkdf\_expand compute the two functions of RFC 5869: extract
  takes 32 zero bytes for a missing salt, and expand stores exactly the first bytes of the
  chain of blocks, for every length up to the 255 blocks that the RFC allows, and nothing
  behind them. A longer request, as long as its block count fits in 32 bits, is refused with
  nothing stored.
\<close>

theorem hkdf_refines_rfc5869:
  assumes "stack_ok e" and "\<And>i. stack_ok (st i)" and "\<And>i. kmalloc_ok i"
    and "length prk = 32" and "0 < length ikm" and "length info < 2 ^ 63"
    and "0 < out_len" and "unat out_len \<le> length buf"
  shows "lebtls_hkdf_extract e salt (case salt of None \<Rightarrow> 0 | Some s \<Rightarrow> length s) (Some ikm) (length ikm) (Some r) =
      (0, Some (rfc_extract (case salt of None \<Rightarrow> replicate 32 0 | Some s \<Rightarrow> if s = [] then replicate 32 0 else s) ikm @
        drop 32 r)) \<and>
    (unat out_len \<le> 255 * 32 \<longrightarrow>
      lebtls_hkdf_expand st kmalloc_ok t0 (Some prk) (Some info) (word_of_nat (length info)) (Some buf) out_len =
        (0, Some (rfc_expand prk info (unat out_len) @ drop (unat out_len) buf))) \<and>
    (255 * 32 < unat out_len \<and> unat out_len + 31 < 2 ^ 37 \<longrightarrow>
      lebtls_hkdf_expand st kmalloc_ok t0 (Some prk) (Some info) (word_of_nat (length info)) (Some buf) out_len =
        (-1, Some buf))"
proof (intro conjI impI)
  show "lebtls_hkdf_extract e salt (case salt of None \<Rightarrow> 0 | Some s \<Rightarrow> length s) (Some ikm) (length ikm) (Some r) =
      (0, Some (rfc_extract (case salt of None \<Rightarrow> replicate 32 0 | Some s \<Rightarrow> if s = [] then replicate 32 0 else s) ikm @
        drop 32 r))"
    using assms(1,5) by (auto simp: lebtls_hkdf_extract_def rfc_extract_def hmac_on_rfc Let_def split: option.splits)
next
  assume "unat out_len \<le> 255 * 32"
  then show "lebtls_hkdf_expand st kmalloc_ok t0 (Some prk) (Some info) (word_of_nat (length info)) (Some buf) out_len =
      (0, Some (rfc_expand prk info (unat out_len) @ drop (unat out_len) buf))"
    using assms by (intro hkdf_expand_rfc) (simp_all add: unat_of_nat)
next
  assume len: "255 * 32 < unat out_len \<and> unat out_len + 31 < 2 ^ 37"
  then have "255 < hkdf_blocks out_len"
    using div_le_mono [of 8192 "unat out_len + 31" 32] by (simp add: word_less_nat_alt block_count)
  with assms(7) show "lebtls_hkdf_expand st kmalloc_ok t0 (Some prk) (Some info) (word_of_nat (length info)) (Some buf) out_len =
      (-1, Some buf)"
    by (auto simp: lebtls_hkdf_expand_def Let_def)
qed

definition zero_stack :: hmac_stack where
  "zero_stack = (let c = \<lparr>s2_data = replicate 64 0, s2_datalen = 0, s2_bitlen = 0, s2_state = []\<rparr> in (c, c, c))"

lemma stack_ok_zero: "stack_ok zero_stack"
  by (simp add: zero_stack_def stack_ok_def Let_def)

theorem hkdf_refines_rfc5869_witness:
  "lebtls_hkdf_expand (\<lambda>_. zero_stack) (\<lambda>_. True) [] (Some (replicate 32 1)) (Some [1, 2]) 2
     (Some (replicate 50 9)) 42 =
   (0, Some (rfc_expand (replicate 32 1) [1, 2] 42 @ replicate 8 9))"
  using hkdf_refines_rfc5869 [of zero_stack "\<lambda>_. zero_stack" "\<lambda>_. True" "replicate 32 1" "[1]" "[1, 2]"
      42 "replicate 50 9" None "[]" "[]"]
  by (simp add: stack_ok_zero)

lemma ucast_byte: "(ucast (x :: u64) :: u8) = word_of_nat (unat x)"
  by (simp add: word_unat_eq_iff unsigned_ucast_eq unat_of_nat take_bit_eq_mod)

lemma ucast_low_byte: "(ucast ((x :: u64) AND 0xFF) :: u8) = ucast x"
proof -
  have "x AND 0xFF = take_bit 8 x" by (simp add: take_bit_eq_mask mask_eq_exp_minus_1)
  then show ?thesis by (simp only:) (intro bit_word_eqI, auto simp: bit_simps)
qed

lemma be_bytes_2: "[ucast (drop_bit 8 x AND 0xFF), ucast (x AND 0xFF)] = be_bytes 2 (unat (x :: u64))"
proof -
  have u: "unat (drop_bit 8 x) = unat x div 256" by (simp only: unat_drop_bit_eq) (simp add: drop_bit_eq_div)
  have "ucast (drop_bit 8 x AND 0xFF) = (word_of_nat (unat x div 256) :: u8)"
    unfolding ucast_low_byte by (simp only: ucast_byte u)
  then show ?thesis by (simp add: be_bytes_def numeral_2_eq_2 ucast_low_byte)
qed

text \<open>
  C35. lebtls\_hkdf\_label computes HKDF-Expand-Label of RFC 8446 for a label of at most 248 bytes,
  a context of at most 255 and an output of at most 255 bytes, and refuses everything else
  with nothing stored.
\<close>

theorem hkdf_label_refines_rfc8446:
  assumes "\<And>i. stack_ok (st i)" and "\<And>i. kmalloc_ok i" and "length secret = 32"
    and "unat ctx_len = length ctx" and "unat out_len \<le> length buf"
  shows "lebtls_hkdf_label st True kmalloc_ok t0 (Some secret) (Some label) (Some ctx) ctx_len (Some buf) out_len =
    (if length label \<le> 248 \<and> length ctx \<le> 255 \<and> 0 < out_len \<and> unat out_len \<le> 255
     then (0, Some (rfc_label secret label ctx (unat out_len) @ drop (unat out_len) buf))
     else (-1, Some buf))"
proof (cases "length label \<le> 248 \<and> length ctx \<le> 255 \<and> 0 < out_len \<and> unat out_len \<le> 255")
  case True
  let ?info = "be_bytes 2 (unat out_len) @ [word_of_nat (length (tls13_prefix @ label))] @ tls13_prefix @ label @
        [word_of_nat (length ctx)] @ ctx"
  let ?len = "2 + 1 + 6 + word_of_nat (length label) + 1 + ctx_len"
  have len: "unat ?len = length ?info"
    using True assms(4) by (simp add: unat_word_ariths unat_of_nat tls13_prefix_def)
  have ex: "lebtls_hkdf_expand st kmalloc_ok t0 (Some secret) (Some ?info) ?len (Some buf) out_len =
    (0, Some (rfc_expand secret ?info (unat out_len) @ drop (unat out_len) buf))"
    using assms True len by (intro hkdf_expand_rfc) (simp_all add: tls13_prefix_def)
  have c: "ucast ctx_len = (word_of_nat (length ctx) :: u8)" by (simp only: ucast_byte assms(4))
  have info: "[ucast (drop_bit 8 out_len AND 0xFF), ucast (out_len AND 0xFF), word_of_nat (6 + length label)] @
      tls13_prefix @ label @ [ucast ctx_len] @ take (unat ctx_len) ctx = ?info"
    unfolding be_bytes_2 [symmetric] by (simp add: c assms(4) tls13_prefix_def)
  have g: "(Some ctx = None \<and> ctx_len > 0) = False" "(out_len = 0 \<or> out_len > 255) = False"
      "(length label > 255 - 7) = False" "(ctx_len > 255) = False" "(\<not> True) = False"
    using True assms(4) by (auto simp: word_less_nat_alt)
  show ?thesis
    unfolding lebtls_hkdf_label_def rfc_label_def rfc_prefix_tls13 Let_def prod.case option.case g if_False info ex
    using True by simp
next
  case False
  then show ?thesis
    using assms(4) by (auto simp: lebtls_hkdf_label_def word_less_nat_alt unat_eq_0)
qed

theorem hkdf_label_refines_rfc8446_witness:
  "lebtls_hkdf_label (\<lambda>_. zero_stack) True (\<lambda>_. True) [] (Some (replicate 32 1)) (Some [0x69, 0x76])
     (Some []) 0 (Some (replicate 12 0)) 12 =
   (0, Some (rfc_label (replicate 32 1) [0x69, 0x76] [] 12))"
  using hkdf_label_refines_rfc8446 [of "\<lambda>_. zero_stack" "\<lambda>_. True" "replicate 32 1" 0 "[]" 12 "replicate 12 0"
      "[]" "[0x69, 0x76]"]
  by (simp add: stack_ok_zero)

text \<open>
  The number of blocks is computed in 64 bits and kept in 32, before it is compared with 255:
  a request for 128 GiB and 32 bytes counts as one block, and expand reports success after
  storing 32 bytes. The callers in the module ask for at most 32 bytes.
\<close>

lemma hkdf_expand_truncates:
  assumes "\<And>i. stack_ok (st i)" and "\<And>i. kmalloc_ok i"
  shows "lebtls_hkdf_expand st kmalloc_ok t0 (Some secret) None 0 (Some buf) 0x2000000020 =
    (0, Some (put_bytes buf 0 (rfc_block (take 32 secret) [] 1)))"
  using assms
  by (simp add: lebtls_hkdf_expand_def hkdf_blocks_def hmac_on_rfc length_rfc_hmac numeral_One)

end
