(* ===== verification/Aes.thy ===== *)
theory Aes
  imports Prelude
begin

text \<open>
  modules/lebtls/aead.c, first half: the AES-128 block cipher. The S-box table and its flag
  are static variables of the file; they are a record that the functions that fill or read
  the table take and return. A block is a list of sixteen bytes, the key schedule a list of
  eleven blocks.
\<close>

unbundle bit_operations_syntax

definition gcm_xtime :: "u8 \<Rightarrow> u8" where
  "gcm_xtime v = push_bit 1 v XOR (if v AND 0x80 \<noteq> 0 then 0x1B else 0x00)"

primrec gfmul_loop :: "nat \<Rightarrow> u8 \<Rightarrow> u8 \<Rightarrow> u8 \<Rightarrow> u8" where
  "gfmul_loop 0 r a b = r"
| "gfmul_loop (Suc n) r a b =
     gfmul_loop n (if b AND 1 \<noteq> 0 then r XOR a else r) (gcm_xtime a) (drop_bit 1 b)"

definition gcm_gfmul :: "u8 \<Rightarrow> u8 \<Rightarrow> u8" where
  "gcm_gfmul a b = gfmul_loop 8 0 a b"

primrec inverse_loop :: "nat \<Rightarrow> u8 \<Rightarrow> u8 \<Rightarrow> u8" where
  "inverse_loop 0 iv x = iv"
| "inverse_loop (Suc n) iv x = inverse_loop n (gcm_gfmul iv x) x"

primrec rotate_loop :: "nat \<Rightarrow> u8 \<Rightarrow> u8 \<Rightarrow> u8" where
  "rotate_loop 0 r x = r"
| "rotate_loop (Suc n) r x = (let y = push_bit 1 x OR drop_bit 7 x in rotate_loop n (r XOR y) y)"

definition gcm_sbox :: "u8 \<Rightarrow> u8" where
  "gcm_sbox v =
     (let iv = (if v = 0 then 0 else inverse_loop 254 1 v)
      in rotate_loop 4 (iv XOR 0x63) iv)"

record sbox_state =
  gcm_sbox_tab :: "u8 list"
  gcm_sbox_ready :: bool

definition gcm_sbox_init :: "sbox_state \<Rightarrow> sbox_state" where
  "gcm_sbox_init g =
     (if gcm_sbox_ready g then g
      else g\<lparr>gcm_sbox_tab := map (\<lambda>i. gcm_sbox (word_of_nat i)) [0..<256], gcm_sbox_ready := True\<rparr>)"

definition sbox_at :: "sbox_state \<Rightarrow> u8 \<Rightarrow> u8" where
  "sbox_at g b = gcm_sbox_tab g ! unat b"

text \<open>One row of the schedule from the row before it; k runs over the twelve later bytes.\<close>

definition expand_row :: "sbox_state \<Rightarrow> u8 \<Rightarrow> u8 list \<Rightarrow> u8 list" where
  "expand_row g rcon prev =
     (let t = [sbox_at g (prev ! 13) XOR rcon, sbox_at g (prev ! 14), sbox_at g (prev ! 15), sbox_at g (prev ! 12)];
          row = map (\<lambda>k. prev ! k XOR t ! k) [0..<4]
      in foldl (\<lambda>row k. row @ [prev ! k XOR row ! (k - 4)]) row [4..<16])"

primrec expand_rows :: "nat \<Rightarrow> sbox_state \<Rightarrow> u8 \<Rightarrow> u8 list \<Rightarrow> u8 list list" where
  "expand_rows 0 g rcon prev = []"
| "expand_rows (Suc n) g rcon prev =
     (let row = expand_row g rcon prev in row # expand_rows n g (gcm_xtime rcon) row)"

definition gcm_key_expand :: "sbox_state \<Rightarrow> u8 list \<Rightarrow> sbox_state \<times> u8 list list" where
  "gcm_key_expand g key =
     (let g = gcm_sbox_init g; row = take 16 key in (g, row # expand_rows 10 g 1 row))"

definition gcm_add_round_key :: "u8 list \<Rightarrow> u8 list \<Rightarrow> u8 list" where
  "gcm_add_round_key s rk = map (\<lambda>i. s ! i XOR rk ! i) [0..<16]"

definition gcm_sub_bytes :: "sbox_state \<Rightarrow> u8 list \<Rightarrow> sbox_state \<times> u8 list" where
  "gcm_sub_bytes g s = (let g = gcm_sbox_init g in (g, map (\<lambda>i. sbox_at g (s ! i)) [0..<16]))"

text \<open>The byte i of the result is the one the loops store at r + 4 * c = i.\<close>

definition gcm_shift_rows :: "u8 list \<Rightarrow> u8 list" where
  "gcm_shift_rows s = map (\<lambda>i. let r = i mod 4; c = i div 4 in s ! (r + 4 * ((c + r) mod 4))) [0..<16]"

definition mix_column :: "u8 \<Rightarrow> u8 \<Rightarrow> u8 \<Rightarrow> u8 \<Rightarrow> u8 list" where
  "mix_column a0 a1 a2 a3 =
     [gcm_xtime a0 XOR gcm_xtime a1 XOR a1 XOR a2 XOR a3,
      a0 XOR gcm_xtime a1 XOR gcm_xtime a2 XOR a2 XOR a3,
      a0 XOR a1 XOR gcm_xtime a2 XOR gcm_xtime a3 XOR a3,
      gcm_xtime a0 XOR a0 XOR a1 XOR a2 XOR gcm_xtime a3]"

definition gcm_mix_columns :: "u8 list \<Rightarrow> u8 list" where
  "gcm_mix_columns s =
     concat (map (\<lambda>c. mix_column (s ! (4 * c)) (s ! (4 * c + 1)) (s ! (4 * c + 2)) (s ! (4 * c + 3))) [0..<4])"

definition gcm_round :: "u8 list list \<Rightarrow> sbox_state \<times> u8 list \<Rightarrow> nat \<Rightarrow> sbox_state \<times> u8 list" where
  "gcm_round rk gs r =
     (case gcm_sub_bytes (fst gs) (snd gs) of
        (g, s) \<Rightarrow> (g, gcm_add_round_key (gcm_mix_columns (gcm_shift_rows s)) (rk ! r)))"

definition gcm_block_encrypt :: "sbox_state \<Rightarrow> u8 list list \<Rightarrow> u8 list \<Rightarrow> sbox_state \<times> u8 list" where
  "gcm_block_encrypt g rk inp =
     (case foldl (gcm_round rk) (g, gcm_add_round_key (take 16 inp) (rk ! 0)) [1..<10] of
        (g, s) \<Rightarrow>
          (case gcm_sub_bytes g s of
             (g, s) \<Rightarrow> (g, gcm_add_round_key (gcm_shift_rows s) (rk ! 10))))"

subsection \<open>The field with 256 elements\<close>

lemma xor_induct [case_names zero basis add]:
  fixes x :: "'a::len word"
  assumes "P 0" and "\<And>i. i < LENGTH('a) \<Longrightarrow> P (2 ^ i)" and "\<And>a b. P a \<Longrightarrow> P b \<Longrightarrow> P (a XOR b)"
  shows "P x"
proof -
  have "P (take_bit n x)" if "n \<le> LENGTH('a)" for n
    using that
  proof (induction n)
    case (Suc n)
    have "take_bit (Suc n) x = take_bit n x XOR (if bit x n then 2 ^ n else 0)"
      by (intro bit_word_eqI) (auto simp: bit_simps less_Suc_eq)
    with Suc assms show ?case by (simp del: take_bit_Suc)
  qed (simp add: assms)
  from this [of "LENGTH('a)"] show ?thesis by simp
qed

lemma less_8: "i < 8 \<longleftrightarrow> i \<in> {0, 1, 2, 3, 4, 5, 6, 7 :: nat}"
  by auto

lemma top_bit: "(v :: u8) AND 0x80 \<noteq> 0 \<longleftrightarrow> bit v 7"
  using and_exp_eq_0_iff_not_bit [of v 7] by simp

lemma low_bit: "(v :: u8) AND 1 \<noteq> 0 \<longleftrightarrow> bit v 0"
  using and_exp_eq_0_iff_not_bit [of v 0] by simp

lemma xtime_xor: "gcm_xtime (a XOR b) = gcm_xtime a XOR gcm_xtime b"
  unfolding gcm_xtime_def top_bit
  by (auto simp: push_bit_xor bit_xor_iff xor.assoc xor.left_commute xor.commute)

lemma xtime_0 [simp]: "gcm_xtime 0 = 0"
  by (simp add: gcm_xtime_def)

lemma gfmul_loop_left: "gfmul_loop n (r XOR q) (a XOR c) b = gfmul_loop n r a b XOR gfmul_loop n q c b"
proof (induction n arbitrary: r q a c b)
  case (Suc n)
  have "(if k then (r XOR q) XOR (a XOR c) else r XOR q) = (if k then r XOR a else r) XOR (if k then q XOR c else q)"
    for k by (auto simp: ac_simps)
  with Suc show ?case by (simp only: gfmul_loop.simps xtime_xor)
qed simp

lemma gfmul_loop_right: "gfmul_loop n (r XOR q) a (b XOR d) = gfmul_loop n r a b XOR gfmul_loop n q a d"
proof (induction n arbitrary: r q a b d)
  case (Suc n)
  have "(if bit (b XOR d) 0 then (r XOR q) XOR a else r XOR q) =
      (if bit b 0 then r XOR a else r) XOR (if bit d 0 then q XOR a else q)"
    by (auto simp: bit_xor_iff ac_simps)
  with Suc show ?case by (simp only: gfmul_loop.simps low_bit drop_bit_xor)
qed simp

lemma gfmul_loop_xtime: "gfmul_loop n (gcm_xtime r) (gcm_xtime a) b = gcm_xtime (gfmul_loop n r a b)"
  by (induction n arbitrary: r a b) (simp_all flip: xtime_xor)

lemma gfmul_xor_left: "gcm_gfmul (a XOR c) b = gcm_gfmul a b XOR gcm_gfmul c b"
  using gfmul_loop_left [of 8 0 0 a c b] by (simp add: gcm_gfmul_def)

lemma gfmul_xor_right: "gcm_gfmul a (b XOR d) = gcm_gfmul a b XOR gcm_gfmul a d"
  using gfmul_loop_right [of 8 0 0 a b d] by (simp add: gcm_gfmul_def)

lemma gfmul_xtime_left: "gcm_gfmul (gcm_xtime a) b = gcm_xtime (gcm_gfmul a b)"
  using gfmul_loop_xtime [of 8 0 a b] by (simp add: gcm_gfmul_def)

lemma gfmul_0 [simp]: "gcm_gfmul 0 b = 0" "gcm_gfmul a 0 = 0"
  using gfmul_xor_left [of 0 0 b] gfmul_xor_right [of a 0 0] by simp_all

lemma gfmul_loop_numeral [simp]:
  "gfmul_loop (numeral k) r a b =
     gfmul_loop (pred_numeral k) (if b AND 1 \<noteq> 0 then r XOR a else r) (gcm_xtime a) (drop_bit 1 b)"
  by (simp add: numeral_eq_Suc)

lemma gfmul_basis: "\<forall>i \<in> {0, 1, 2, 3, 4, 5, 6, 7}. \<forall>j \<in> {0, 1, 2, 3, 4, 5, 6, 7}.
    gcm_gfmul (2 ^ i) (2 ^ j) = gcm_gfmul (2 ^ j) (2 ^ i)"
  by (simp add: gcm_gfmul_def gcm_xtime_def)

lemma gfmul_commute: "gcm_gfmul a b = gcm_gfmul b a"
proof (induction a rule: xor_induct)
  case (basis i)
  show ?case
  proof (induction b rule: xor_induct)
    case (basis j)
    with \<open>i < LENGTH(8)\<close> have "i < 8" "j < 8" by simp_all
    with gfmul_basis show ?case unfolding less_8 by blast
  qed (simp_all add: gfmul_xor_left gfmul_xor_right)
qed (simp_all add: gfmul_xor_left gfmul_xor_right)

lemma gfmul_1 [simp]: "gcm_gfmul a 1 = a"
  by (simp add: gcm_gfmul_def)

lemma gfmul_1_left [simp]: "gcm_gfmul 1 a = a"
  by (simp add: gfmul_commute [of 1])

lemma gfmul_xtime_right: "gcm_gfmul a (gcm_xtime b) = gcm_xtime (gcm_gfmul a b)"
  by (simp add: gfmul_commute [of a] gfmul_xtime_left)

lemma xtime_power: "i < 7 \<Longrightarrow> gcm_xtime (2 ^ i) = 2 ^ Suc i"
proof -
  assume "i < 7"
  then have "i \<in> {0, 1, 2, 3, 4, 5, 6}" by auto
  then show ?thesis by (auto simp: gcm_xtime_def)
qed

lemma gfmul_assoc: "gcm_gfmul (gcm_gfmul a b) c = gcm_gfmul a (gcm_gfmul b c)"
proof (induction c rule: xor_induct)
  case (basis i)
  then have "i < 8" by simp
  then show ?case
  proof (induction i)
    case (Suc i)
    then have "2 ^ Suc i = gcm_xtime (2 ^ i)" by (simp only: xtime_power)
    with Suc show ?case by (simp only: gfmul_xtime_right)
  qed simp
qed (simp_all add: gfmul_xor_right)

primrec gf_power :: "u8 \<Rightarrow> nat \<Rightarrow> u8" where
  "gf_power x 0 = 1"
| "gf_power x (Suc n) = gcm_gfmul x (gf_power x n)"

lemma gf_power_add: "gf_power x (m + n) = gcm_gfmul (gf_power x m) (gf_power x n)"
  by (induction m) (simp_all add: gfmul_assoc)

lemma gf_power_mult: "gf_power (gf_power x m) n = gf_power x (m * n)"
  by (induction n) (simp_all add: gf_power_add)

lemma gf_power_1 [simp]: "gf_power 1 n = 1"
  by (induction n) simp_all

lemma inverse_loop_power: "inverse_loop n iv x = gcm_gfmul iv (gf_power x n)"
  by (induction n arbitrary: iv) (simp_all add: gfmul_assoc)

text \<open>The powers of three run through every element but zero.\<close>

primrec powers_of_3 :: "nat \<Rightarrow> u8 \<Rightarrow> u8 list" where
  "powers_of_3 0 v = []"
| "powers_of_3 (Suc n) v = v # powers_of_3 n (v XOR gcm_xtime v)"

lemma gfmul_3: "gcm_gfmul 3 v = v XOR gcm_xtime v"
proof -
  have e: "3 = 1 XOR gcm_xtime 1" by (simp add: gcm_xtime_def)
  show ?thesis unfolding e by (simp add: gfmul_xor_left gfmul_xtime_left)
qed

lemma powers_of_3_power: "powers_of_3 n (gf_power 3 m) = map (\<lambda>k. gf_power 3 (m + k)) [0..<n]"
proof (induction n arbitrary: m)
  case (Suc n)
  have "gf_power 3 m XOR gcm_xtime (gf_power 3 m) = gf_power 3 (Suc m)" by (simp add: gfmul_3)
  with Suc show ?case by (simp add: map_upt_Suc del: gf_power.simps upt_Suc)
qed simp

lemma powers_of_3_numeral:
  "powers_of_3 (numeral k) v = v # powers_of_3 (pred_numeral k) (v XOR gcm_xtime v)"
  by (simp add: numeral_eq_Suc)

lemma one_not_earlier: "1 \<notin> set (powers_of_3 254 3)"
  by (simp add: powers_of_3_numeral gcm_xtime_def)

primrec times_3 :: "nat \<Rightarrow> u8 \<Rightarrow> u8" where
  "times_3 0 v = v"
| "times_3 (Suc n) v = times_3 n (v XOR gcm_xtime v)"

lemma times_3_power: "times_3 n (gf_power 3 m) = gf_power 3 (m + n)"
proof (induction n arbitrary: m)
  case (Suc n)
  have "gf_power 3 m XOR gcm_xtime (gf_power 3 m) = gf_power 3 (Suc m)" by (simp add: gfmul_3)
  with Suc show ?case by (simp del: gf_power.simps)
qed simp

lemma times_3_numeral: "times_3 (numeral k) v = times_3 (pred_numeral k) (v XOR gcm_xtime v)"
  by (simp add: numeral_eq_Suc)

lemma power_of_3_255: "gf_power 3 255 = 1"
proof -
  have "times_3 255 1 = 1" by (simp add: times_3_numeral gcm_xtime_def)
  then show ?thesis using times_3_power [of 255 0] by simp
qed

lemma power_of_3_not_1: "0 < d \<Longrightarrow> d < 255 \<Longrightarrow> gf_power 3 d \<noteq> 1"
proof
  assume d: "0 < d" "d < 255" and one: "gf_power 3 d = 1"
  have "powers_of_3 254 (gf_power 3 1) = map (\<lambda>k. gf_power 3 (1 + k)) [0..<254]"
    by (rule powers_of_3_power)
  then have "powers_of_3 254 3 = map (\<lambda>k. gf_power 3 (1 + k)) [0..<254]" by simp
  moreover have "gf_power 3 (1 + (d - 1)) \<in> (\<lambda>k. gf_power 3 (1 + k)) ` {..<254}"
    using d by (intro imageI) simp
  ultimately show False using one d one_not_earlier by (simp add: atLeast0LessThan)
qed

lemma inj_powers_of_3: "inj_on (gf_power 3) {..<255}"
proof (rule linorder_inj_onI')
  fix k m assume km: "k \<in> {..<255}" "m \<in> {..<255}" "k < (m :: nat)"
  show "gf_power 3 k \<noteq> gf_power 3 m"
  proof
    assume eq: "gf_power 3 k = gf_power 3 m"
    have "gf_power 3 (m - k) = gcm_gfmul (gf_power 3 m) (gf_power 3 (255 - k))"
    proof -
      have "m + (255 - k) = (m - k) + 255" using km by simp
      then show ?thesis by (simp only: gf_power_add [symmetric]) (simp only: gf_power_add power_of_3_255 gfmul_1)
    qed
    also have "\<dots> = gf_power 3 (k + (255 - k))" by (simp only: eq [symmetric] gf_power_add)
    also have "\<dots> = 1" using km power_of_3_255 by simp
    finally have one: "gf_power 3 (m - k) = 1" .
    have "0 < m - k" "m - k < 255" using km by auto
    from power_of_3_not_1 [OF this] one show False ..
  qed
qed

lemma gf_power_nonzero: "gf_power 3 k \<noteq> 0"
proof
  assume "gf_power 3 k = 0"
  then have "gf_power 3 (k + 254 * k) = 0" by (simp only: gf_power_add gfmul_0)
  moreover have "gf_power 3 (k + 254 * k) = gf_power (gf_power 3 255) k" by (simp add: gf_power_mult)
  ultimately show False by (simp add: power_of_3_255)
qed

lemma power_of_3_all: "v \<noteq> 0 \<Longrightarrow> \<exists>k. v = gf_power 3 k"
proof -
  have "gf_power 3 ` {..<255} = UNIV - {0}"
  proof (rule card_subset_eq)
    show "card (gf_power 3 ` {..<255}) = card (UNIV - {0 :: u8})"
      by (simp add: card_image [OF inj_powers_of_3] card_Diff_singleton card_word)
  qed (auto simp: gf_power_nonzero)
  then show "v \<noteq> 0 \<Longrightarrow> \<exists>k. v = gf_power 3 k" by blast
qed

lemma gf_power_255: "v \<noteq> 0 \<Longrightarrow> gf_power v 255 = 1"
  using power_of_3_all [of v] power_of_3_255 by (metis gf_power_1 gf_power_mult mult.commute)

lemma sbox_inverse: "v \<noteq> 0 \<Longrightarrow> gcm_gfmul v (inverse_loop 254 1 v) = 1"
proof -
  assume "v \<noteq> 0"
  have "gcm_gfmul v (inverse_loop 254 1 v) = gf_power v (Suc 254)"
    by (simp only: inverse_loop_power gfmul_1_left gf_power.simps)
  also have "Suc 254 = 255" by simp
  finally show ?thesis using gf_power_255 \<open>v \<noteq> 0\<close> by simp
qed

subsection \<open>The field of FIPS 197\<close>

text \<open>
  Section 4.2 of the standard, apart from the code: bytes are polynomials with coefficients
  zero and one, multiplied as such and then reduced by long division modulo the polynomial
  with the coefficients 0x11B. The product has degree 14 at most.
\<close>

definition poly_mult :: "u8 \<Rightarrow> u8 \<Rightarrow> u16" where
  "poly_mult a b = foldr (\<lambda>i p. (if bit b i then push_bit i (ucast a) else 0) XOR p) [0..<8] 0"

definition poly_rem :: "u16 \<Rightarrow> u16" where
  "poly_rem p = foldl (\<lambda>p i. if bit p i then p XOR push_bit (i - 8) 0x11B else p) p [14, 13, 12, 11, 10, 9, 8]"

definition fips_times :: "u8 \<Rightarrow> u8 \<Rightarrow> u8" where
  "fips_times a b = ucast (poly_rem (poly_mult a b))"

definition all_bytes :: "u8 list" where
  "all_bytes = map word_of_nat [0..<256]"

definition fips_inverse :: "u8 \<Rightarrow> u8" where
  "fips_inverse v =
     (case find (\<lambda>w. fips_times v w = 1) all_bytes of None \<Rightarrow> 0 | Some w \<Rightarrow> w)"

lemma poly_mult_left: "poly_mult (a XOR c) b = poly_mult a b XOR poly_mult c b"
proof -
  have "foldr (\<lambda>i p. (if bit b i then push_bit i (ucast (a XOR c)) else 0) XOR p) is (0 :: u16) =
      foldr (\<lambda>i p. (if bit b i then push_bit i (ucast a) else 0) XOR p) is 0 XOR
      foldr (\<lambda>i p. (if bit b i then push_bit i (ucast c) else 0) XOR p) is 0" for "is"
    by (induction "is") (simp_all add: unsigned_xor_eq push_bit_xor ac_simps)
  then show ?thesis by (simp only: poly_mult_def)
qed

lemma poly_mult_right: "poly_mult a (b XOR d) = poly_mult a b XOR poly_mult a d"
proof -
  have "foldr (\<lambda>i p. (if bit (b XOR d) i then push_bit i (ucast a) else 0) XOR p) is (0 :: u16) =
      foldr (\<lambda>i p. (if bit b i then push_bit i (ucast a) else 0) XOR p) is 0 XOR
      foldr (\<lambda>i p. (if bit d i then push_bit i (ucast a) else 0) XOR p) is 0" for "is"
    by (induction "is") (auto simp add: bit_xor_iff ac_simps)
  then show ?thesis by (simp only: poly_mult_def)
qed

lemma poly_rem_xor: "poly_rem (p XOR q) = poly_rem p XOR poly_rem q"
proof -
  have "foldl (\<lambda>p i. if bit p i then p XOR push_bit (i - 8) 0x11B else p) (p XOR q :: u16) is =
      foldl (\<lambda>p i. if bit p i then p XOR push_bit (i - 8) 0x11B else p) p is XOR
      foldl (\<lambda>p i. if bit p i then p XOR push_bit (i - 8) 0x11B else p) q is" for "is"
  proof (induction "is" arbitrary: p q)
    case (Cons i "is")
    have "(if bit (p XOR q) i then (p XOR q) XOR push_bit (i - 8) 0x11B else p XOR q) =
        (if bit p i then p XOR push_bit (i - 8) 0x11B else p) XOR
        (if bit q i then q XOR push_bit (i - 8) 0x11B else q)"
      by (auto simp: bit_xor_iff ac_simps)
    then show ?case unfolding foldl_Cons using Cons by simp
  qed simp
  then show ?thesis by (simp only: poly_rem_def)
qed

lemma fips_times_xor:
  "fips_times (a XOR c) b = fips_times a b XOR fips_times c b"
  "fips_times a (b XOR d) = fips_times a b XOR fips_times a d"
  by (simp_all add: fips_times_def poly_mult_left poly_mult_right poly_rem_xor unsigned_xor_eq)

lemma fips_times_0 [simp]: "fips_times 0 b = 0" "fips_times a 0 = 0"
  using fips_times_xor(1) [of 0 0 b] fips_times_xor(2) [of a 0 0] by simp_all

lemma poly_mult_basis:
  "i < 8 \<Longrightarrow> poly_mult (2 ^ i) (2 ^ j) = (if j < 8 then 2 ^ (i + j) else 0)"
proof -
  assume i: "i < 8"
  have u: "(ucast (2 ^ i :: u8) :: u16) = 2 ^ i"
    using i by (intro bit_word_eqI) (auto simp: bit_simps)
  have p: "push_bit k (2 ^ i) = (2 ^ (i + k) :: u16)" for k
    by (simp add: push_bit_eq_mult power_add mult.commute)
  have "foldr (\<lambda>k p. (if bit (2 ^ j :: u8) k then push_bit k (ucast (2 ^ i :: u8)) else 0) XOR p) [m..<n] 0 =
      (if m \<le> j \<and> j < n then 2 ^ (i + j) else (0 :: u16))" if "n \<le> 8" for m n
    using that
  proof (induction "n - m" arbitrary: m)
    case (Suc d)
    then have "[m..<n] = m # [Suc m..<n]" by (simp add: upt_conv_Cons)
    with Suc(1) [of "Suc m"] Suc(2,3) show ?case
      by (auto simp: u p bit_exp_iff simp del: upt_Suc)
  qed auto
  from this [of 8 0] show ?thesis by (simp add: poly_mult_def del: upt_Suc)
qed

lemma xtime_powers: "i < 8 \<Longrightarrow> (gcm_xtime ^^ i) 1 = 2 ^ i"
  by (induction i) (simp_all add: xtime_power del: power_Suc)

lemma gfmul_xtime_powers: "gcm_gfmul ((gcm_xtime ^^ i) 1) b = (gcm_xtime ^^ i) b"
  by (induction i) (simp_all add: gfmul_xtime_left)

lemma gfmul_basis_power: "i < 8 \<Longrightarrow> j < 8 \<Longrightarrow> gcm_gfmul (2 ^ i) (2 ^ j) = (gcm_xtime ^^ (i + j)) 1"
  using gfmul_xtime_powers [of i "2 ^ j"] by (simp add: funpow_add flip: xtime_powers)

lemma funpow_numeral: "(f ^^ numeral k) x = f ((f ^^ pred_numeral k) x)"
  by (simp add: numeral_eq_Suc)

lemma less_15: "k < 15 \<longleftrightarrow> k \<in> {0, 1, 2, 3, 4, 5, 6, 7, 8, 9, 10, 11, 12, 13, 14 :: nat}"
  by (auto simp: numeral_eq_Suc less_Suc_eq)

lemma poly_rem_basis:
  "\<forall>k \<in> {0, 1, 2, 3, 4, 5, 6, 7, 8, 9, 10, 11, 12, 13, 14}. (gcm_xtime ^^ k) 1 = ucast (poly_rem (2 ^ k))"
  by (simp add: gcm_xtime_def poly_rem_def funpow_numeral)

lemma gfmul_fips: "gcm_gfmul a b = fips_times a b"
proof (induction a rule: xor_induct)
  case (basis i)
  show ?case
  proof (induction b rule: xor_induct)
    case (basis j)
    with \<open>i < LENGTH(8)\<close> have "i < 8" "j < 8" by simp_all
    then have "i + j \<in> {0, 1, 2, 3, 4, 5, 6, 7, 8, 9, 10, 11, 12, 13, 14}"
      unfolding less_15 [symmetric] by simp
    then have "(gcm_xtime ^^ (i + j)) 1 = ucast (poly_rem (2 ^ (i + j)))" by (rule poly_rem_basis [rule_format])
    with \<open>i < 8\<close> \<open>j < 8\<close> show ?case by (simp add: fips_times_def poly_mult_basis gfmul_basis_power)
  qed (simp_all add: gfmul_xor_right fips_times_xor)
qed (simp_all add: gfmul_xor_left fips_times_xor)

lemma gfmul_inverse_unique:
  assumes "gcm_gfmul v u = 1" and "gcm_gfmul v w = 1"
  shows "w = u"
proof -
  have "w = gcm_gfmul (gcm_gfmul u v) w" by (simp add: gfmul_commute [of u] assms(1))
  also have "\<dots> = u" by (simp add: gfmul_assoc assms(2))
  finally show ?thesis .
qed

lemma all_bytes_complete: "u \<in> set all_bytes"
proof -
  have "u = word_of_nat (unat u)" and "unat u \<in> set [0..<256]"
    using unsigned_less [of u, where 'a = nat] by simp_all
  then show ?thesis unfolding all_bytes_def set_map by (rule image_eqI)
qed

lemma inverse_fips: "fips_inverse v = (if v = 0 then 0 else inverse_loop 254 1 v)"
proof (cases "v = 0")
  case True
  then have "find (\<lambda>w. fips_times v w = 1) ws = None" for ws by (induction ws) simp_all
  with True show ?thesis by (simp add: fips_inverse_def)
next
  case False
  define u where "u = inverse_loop 254 1 v"
  have inv: "fips_times v u = 1" unfolding u_def using sbox_inverse [OF False] by (simp add: gfmul_fips)
  have "find (\<lambda>w. fips_times v w = 1) all_bytes \<noteq> None"
    using inv all_bytes_complete [of u] unfolding find_None_iff by blast
  then obtain w where w: "find (\<lambda>w. fips_times v w = 1) all_bytes = Some w" by blast
  then have "fips_times v w = 1" by (auto simp: find_Some_iff)
  then have "w = u" by (rule gfmul_inverse_unique [unfolded gfmul_fips, OF inv])
  with w False show ?thesis by (simp add: fips_inverse_def u_def)
qed

subsection \<open>The S-box\<close>

text \<open>The affine map of FIPS 197, section 5.1.1, on the bits of a byte.\<close>

definition affine_bit :: "u8 \<Rightarrow> nat \<Rightarrow> bool" where
  "affine_bit b i \<longleftrightarrow>
     ((((bit b i \<noteq> bit b ((i + 4) mod 8)) \<noteq> bit b ((i + 5) mod 8)) \<noteq> bit b ((i + 6) mod 8)) \<noteq>
      bit b ((i + 7) mod 8)) \<noteq> bit (0x63 :: u8) i"

lemma rotate_bit:
  assumes "i < 8"
  shows "bit (push_bit 1 x OR drop_bit 7 x :: u8) i = bit x ((i + 7) mod 8)"
proof (cases i)
  case 0
  then show ?thesis by (simp only: bit_or_iff bit_push_bit_iff bit_drop_bit_eq) simp
next
  case (Suc j)
  then have "(i + 7) mod 8 = j" using assms by simp
  moreover have "\<not> bit x (7 + i)" using Suc bit_imp_le_length [of x "7 + i"] by auto
  ultimately show ?thesis
    using assms Suc by (simp only: bit_or_iff bit_push_bit_iff bit_drop_bit_eq o_apply) simp
qed

lemma rotate_loop_bit:
  "i < 8 \<Longrightarrow> bit (rotate_loop (Suc n) r x) i =
     bit (rotate_loop n (r XOR (push_bit 1 x OR drop_bit 7 x)) (push_bit 1 x OR drop_bit 7 x)) i"
  by (simp only: rotate_loop.simps Let_def)

lemma sbox_affine:
  assumes "i < 8"
  shows "bit (rotate_loop 4 (b XOR 0x63) b) i = affine_bit b i"
proof -
  have four: "rotate_loop 4 r x = rotate_loop (Suc (Suc (Suc (Suc 0)))) r x" for r x
    by (simp only: numeral_eq_Suc pred_numeral_simps BitM.simps Num.BitM.simps One_nat_def)
  have m: "((i + 6) mod 8 + 7) mod 8 = (i + 5) mod 8" "((i + 5) mod 8 + 7) mod 8 = (i + 4) mod 8"
    "((i + 7) mod 8 + 7) mod 8 = (i + 6) mod 8"
    by presburger+
  have l: "(k mod 8 :: nat) < 8" for k by simp
  show ?thesis
    unfolding affine_bit_def four rotate_loop.simps Let_def
    by (simp only: bit_xor_iff rotate_bit assms l m) blast
qed

text \<open>The S-box of the standard: the affine map on the bits of the inverse.\<close>

definition fips_sbox :: "u8 \<Rightarrow> u8" where
  "fips_sbox v = horner_sum of_bool 2 (map (affine_bit (fips_inverse v)) [0..<8])"

lemma sbox_fips: "gcm_sbox v = fips_sbox v"
proof (rule bit_word_eqI)
  fix i assume "i < LENGTH(8)"
  then have "i < 8" by simp
  then show "bit (gcm_sbox v) i = bit (fips_sbox v) i"
    unfolding gcm_sbox_def Let_def fips_sbox_def
    by (simp add: sbox_affine inverse_fips bit_horner_sum_bit_word_iff del: upt_Suc)
qed

text \<open>
  C36. gcm\_gfmul is the multiplication of FIPS 197, that of polynomials modulo the one with
  the coefficients 0x11B; every byte but zero has the inverse that the standard asks for, and
  gcm\_sbox, which computes it as a power, is the S-box of the standard.
\<close>

theorem sbox_is_fips197:
  "gcm_gfmul v w = fips_times v w \<and> (v \<noteq> 0 \<longrightarrow> fips_times v (fips_inverse v) = 1) \<and> gcm_sbox v = fips_sbox v"
  using sbox_inverse [of v] by (simp add: gfmul_fips sbox_fips inverse_fips)

theorem sbox_is_fips197_witness:
  "fips_times 2 (fips_inverse 2) = 1 \<and> gcm_sbox 2 = fips_sbox 2"
  using sbox_is_fips197 [of 2 0] by simp

end
