(* ===== verification/Aes_Spec.thy ===== *)
theory Aes_Spec
  imports Aes
begin

text \<open>
  The cipher of FIPS 197, with the key schedule by words and the state as a matrix of bytes,
  over the multiplication and the S-box of the standard (theory Aes), and that the code of
  aead.c computes it with its own table.
\<close>

unbundle bit_operations_syntax

definition xor_bytes :: "u8 list \<Rightarrow> u8 list \<Rightarrow> u8 list" where
  "xor_bytes a b = map2 (XOR) a b"

fun fips_word :: "(u8 \<Rightarrow> u8) \<Rightarrow> u8 list \<Rightarrow> nat \<Rightarrow> u8 list" where
  "fips_word S key i =
     (if i < 4 then take 4 (drop (4 * i) key)
      else let t = fips_word S key (i - 1)
           in xor_bytes (fips_word S key (i - 4))
                (if i mod 4 = 0 then xor_bytes (map S (rotate1 t)) [(fips_times 2 ^^ (i div 4 - 1)) 1, 0, 0, 0]
                 else t))"

declare fips_word.simps [simp del]

type_synonym aes_state = "nat \<Rightarrow> nat \<Rightarrow> u8"

definition fips_add_round_key :: "(u8 \<Rightarrow> u8) \<Rightarrow> u8 list \<Rightarrow> nat \<Rightarrow> aes_state \<Rightarrow> aes_state" where
  "fips_add_round_key S key n m = (\<lambda>r c. m r c XOR fips_word S key (4 * n + c) ! r)"

definition fips_sub_bytes :: "(u8 \<Rightarrow> u8) \<Rightarrow> aes_state \<Rightarrow> aes_state" where
  "fips_sub_bytes S m = (\<lambda>r c. S (m r c))"

definition fips_shift_rows :: "aes_state \<Rightarrow> aes_state" where
  "fips_shift_rows m = (\<lambda>r c. m r ((c + r) mod 4))"

definition fips_mix_columns :: "aes_state \<Rightarrow> aes_state" where
  "fips_mix_columns m =
     (\<lambda>r c. fips_times 2 (m r c) XOR fips_times 3 (m ((r + 1) mod 4) c) XOR
        m ((r + 2) mod 4) c XOR m ((r + 3) mod 4) c)"

definition fips_rounds :: "(u8 \<Rightarrow> u8) \<Rightarrow> u8 list \<Rightarrow> aes_state \<Rightarrow> aes_state" where
  "fips_rounds S key m =
     foldl (\<lambda>m n. fips_add_round_key S key n (fips_mix_columns (fips_shift_rows (fips_sub_bytes S m)))) m [1..<10]"

definition fips_cipher :: "(u8 \<Rightarrow> u8) \<Rightarrow> u8 list \<Rightarrow> u8 list \<Rightarrow> u8 list" where
  "fips_cipher S key inp =
     (let m = fips_rounds S key (fips_add_round_key S key 0 (\<lambda>r c. inp ! (r + 4 * c)));
          m = fips_add_round_key S key 10 (fips_shift_rows (fips_sub_bytes S m))
      in map (\<lambda>i. m (i mod 4) (i div 4)) [0..<16])"

subsection \<open>The key schedule\<close>

lemma gfmul_2: "gcm_gfmul 2 v = gcm_xtime v"
proof -
  have "2 = gcm_xtime 1" by (simp add: gcm_xtime_def)
  then show ?thesis by (simp only: gfmul_xtime_left gfmul_1_left)
qed

lemma fips_times_2: "fips_times 2 = gcm_xtime"
  by (rule ext) (simp only: gfmul_2 flip: gfmul_fips)

lemma list_of_4: "length xs = 4 \<Longrightarrow> xs = [xs ! 0, xs ! 1, xs ! 2, xs ! 3]"
  by (intro nth_equalityI) (auto simp: less_Suc_eq numeral_eq_Suc)

lemma length_xor_bytes [simp]: "length (xor_bytes a b) = min (length a) (length b)"
  by (simp add: xor_bytes_def)

lemma length_fips_word: "length key = 16 \<Longrightarrow> length (fips_word S key i) = 4"
proof (induction i rule: less_induct)
  case (less i)
  then show ?case by (subst fips_word.simps) (auto simp: Let_def)
qed

definition fips_row :: "(u8 \<Rightarrow> u8) \<Rightarrow> u8 list \<Rightarrow> nat \<Rightarrow> u8 list" where
  "fips_row S key n =
     fips_word S key (4 * n) @ fips_word S key (4 * n + 1) @ fips_word S key (4 * n + 2) @ fips_word S key (4 * n + 3)"

lemma fips_word_first:
  "fips_word S key (4 * Suc n) =
     xor_bytes (fips_word S key (4 * n))
       (xor_bytes (map S (rotate1 (fips_word S key (4 * n + 3)))) [(gcm_xtime ^^ n) 1, 0, 0, 0])"
  by (subst fips_word.simps) (simp add: Let_def add.commute fips_times_2)

lemma fips_word_next:
  "0 < j \<Longrightarrow> j < 4 \<Longrightarrow> fips_word S key (4 * Suc n + j) =
     xor_bytes (fips_word S key (4 * n + j)) (fips_word S key (4 * Suc n + (j - 1)))"
proof -
  assume "0 < j" "j < 4"
  moreover have "(4 * Suc n + j) mod 4 = j mod 4" by (rule mod_mult_self4)
  ultimately have "(4 * Suc n + j) mod 4 \<noteq> 0" "4 * Suc n + j - 1 = 4 * Suc n + (j - 1)"
      "4 * Suc n + j - 4 = 4 * n + j" "\<not> 4 * Suc n + j < 4"
    by simp_all
  then show ?thesis by (subst fips_word.simps) (simp only: Let_def if_False)
qed

lemma expand_row_words:
  assumes "length a = 4" "length b = 4" "length c = 4" "length d = 4"
    and e: "e = xor_bytes a (xor_bytes (map (sbox_at g) (rotate1 d)) [rcon, 0, 0, 0])"
  shows "expand_row g rcon (a @ b @ c @ d) =
    e @ xor_bytes b e @ xor_bytes c (xor_bytes b e) @ xor_bytes d (xor_bytes c (xor_bytes b e))"
proof -
  obtain a0 a1 a2 a3 where a: "a = [a0, a1, a2, a3]" using list_of_4 assms(1) by blast
  obtain b0 b1 b2 b3 where b: "b = [b0, b1, b2, b3]" using list_of_4 assms(2) by blast
  obtain c0 c1 c2 c3 where c: "c = [c0, c1, c2, c3]" using list_of_4 assms(3) by blast
  obtain d0 d1 d2 d3 where d: "d = [d0, d1, d2, d3]" using list_of_4 assms(4) by blast
  show ?thesis
    by (simp add: e a b c d expand_row_def xor_bytes_def upt_rec ac_simps)
qed

lemma expand_row_fips:
  assumes "length key = 16" and "sbox_at g = S"
  shows "expand_row g ((gcm_xtime ^^ n) 1) (fips_row S key n) = fips_row S key (Suc n)"
proof -
  have "fips_word S key (4 * Suc n + 1) = xor_bytes (fips_word S key (4 * n + 1)) (fips_word S key (4 * Suc n))"
    "fips_word S key (4 * Suc n + 2) = xor_bytes (fips_word S key (4 * n + 2)) (fips_word S key (4 * Suc n + 1))"
    "fips_word S key (4 * Suc n + 3) = xor_bytes (fips_word S key (4 * n + 3)) (fips_word S key (4 * Suc n + 2))"
    using fips_word_next [of 1 S key n] fips_word_next [of 2 S key n] fips_word_next [of 3 S key n] by simp_all
  then show ?thesis
    unfolding fips_row_def
    by (subst expand_row_words [where e = "fips_word S key (4 * Suc n)"])
       (simp_all only: length_fips_word assms fips_word_first)
qed

lemma expand_rows_fips:
  assumes "length key = 16" and "sbox_at g = S"
  shows "expand_rows m g ((gcm_xtime ^^ n) 1) (fips_row S key n) = map (fips_row S key) [Suc n..<Suc (n + m)]"
proof (induction m arbitrary: n)
  case (Suc m)
  have "[Suc n..<Suc (n + Suc m)] = Suc n # [Suc (Suc n)..<Suc (Suc n + m)]"
    by (simp add: upt_conv_Cons del: upt_Suc)
  with Suc [of "Suc n"] show ?case
    by (simp add: expand_row_fips [OF assms] Let_def del: upt_Suc)
qed simp

lemma fips_row_0: "length key = 16 \<Longrightarrow> fips_row S key 0 = key"
proof -
  assume "length key = 16"
  have "fips_word S key 0 = take 4 key" "fips_word S key 1 = take 4 (drop 4 key)"
    "fips_word S key 2 = take 4 (drop 8 key)" "fips_word S key 3 = take 4 (drop 12 key)"
    by (simp_all add: fips_word.simps)
  with \<open>length key = 16\<close> show ?thesis
    unfolding fips_row_def mult_0_right add_0 by (intro nth_equalityI) (auto simp: nth_append)
qed

text \<open>The table in its initial state, or filled.\<close>

definition sbox_ok :: "sbox_state \<Rightarrow> bool" where
  "sbox_ok g \<longleftrightarrow> (gcm_sbox_ready g \<longrightarrow> gcm_sbox_tab g = map (\<lambda>i. gcm_sbox (word_of_nat i)) [0..<256])"

lemma sbox_init_ok: "sbox_ok g \<Longrightarrow> sbox_ok (gcm_sbox_init g) \<and> gcm_sbox_ready (gcm_sbox_init g)"
  by (simp add: sbox_ok_def gcm_sbox_init_def)

lemma sbox_init_again: "gcm_sbox_ready g \<Longrightarrow> gcm_sbox_init g = g"
  by (simp add: gcm_sbox_init_def)

lemma sbox_at_init: "sbox_ok g \<Longrightarrow> sbox_at (gcm_sbox_init g) = fips_sbox"
proof
  fix b :: u8
  assume "sbox_ok g"
  then have "gcm_sbox_tab (gcm_sbox_init g) = map (\<lambda>i. gcm_sbox (word_of_nat i)) [0..<256]"
    by (simp add: sbox_ok_def gcm_sbox_init_def)
  moreover have "unat b < 256" using unsigned_less [of b, where 'a = nat] by simp
  ultimately show "sbox_at (gcm_sbox_init g) b = fips_sbox b" by (simp add: sbox_at_def sbox_fips)
qed

lemma key_expand_fips:
  assumes "sbox_ok g" and "length key = 16"
  shows "gcm_key_expand g key = (gcm_sbox_init g, map (fips_row fips_sbox key) [0..<11])"
proof -
  have "expand_rows 10 (gcm_sbox_init g) ((gcm_xtime ^^ 0) 1) (fips_row fips_sbox key 0) =
      map (fips_row fips_sbox key) [Suc 0..<Suc (0 + 10)]"
    by (rule expand_rows_fips [OF assms(2) sbox_at_init [OF assms(1)]])
  then show ?thesis
    using assms(2) by (simp add: gcm_key_expand_def Let_def fips_row_0 upt_rec)
qed

subsection \<open>The rounds\<close>

definition holds_state :: "u8 list \<Rightarrow> aes_state \<Rightarrow> bool" where
  "holds_state s m \<longleftrightarrow> length s = 16 \<and> (\<forall>i < 16. s ! i = m (i mod 4) (i div 4))"

lemma holds_at: "holds_state s m \<Longrightarrow> r < 4 \<Longrightarrow> c < 4 \<Longrightarrow> s ! (r + 4 * c) = m r c"
  by (simp add: holds_state_def)

lemma fips_row_nth:
  assumes "length key = 16" and "i < 16"
  shows "fips_row S key n ! i = fips_word S key (4 * n + i div 4) ! (i mod 4)"
proof -
  have "i div 4 < 4" using assms by simp
  then have "i div 4 \<in> {0, 1, 2, 3}" by auto
  then show ?thesis
    using length_fips_word [OF assms(1), of S] minus_mult_div_eq_mod [of i 4, symmetric]
    by (auto simp: fips_row_def nth_append)
qed

lemma add_round_key_holds:
  assumes "holds_state s m" and "length key = 16"
  shows "holds_state (gcm_add_round_key s (fips_row S key n)) (fips_add_round_key S key n m)"
  using assms by (auto simp: holds_state_def gcm_add_round_key_def fips_add_round_key_def fips_row_nth)

lemma sub_bytes_holds:
  assumes "holds_state s m" and "sbox_ok g"
  shows "fst (gcm_sub_bytes g s) = gcm_sbox_init g"
    and "holds_state (snd (gcm_sub_bytes g s)) (fips_sub_bytes fips_sbox m)"
  using assms by (auto simp: holds_state_def gcm_sub_bytes_def fips_sub_bytes_def Let_def sbox_at_init)

lemma shift_rows_holds: "holds_state s m \<Longrightarrow> holds_state (gcm_shift_rows s) (fips_shift_rows m)"
  by (auto simp: holds_state_def gcm_shift_rows_def fips_shift_rows_def Let_def)

lemma upt_16: "[0..<16] = [0, 1, 2, 3, 4, 5, 6, 7, 8, 9, 10, 11, 12, 13, 14, 15 :: nat]"
  by (simp add: upt_rec)

lemma all_16: "(\<forall>i < 16. P i) \<longleftrightarrow>
    P 0 \<and> P 1 \<and> P 2 \<and> P 3 \<and> P 4 \<and> P 5 \<and> P 6 \<and> P 7 \<and> P 8 \<and> P 9 \<and> P 10 \<and> P 11 \<and> P 12 \<and> P 13 \<and>
    P 14 \<and> P (15 :: nat)"
proof -
  have "(\<forall>i < 16. P i) \<longleftrightarrow> (\<forall>i \<in> set [0..<16]. P i)" by (simp only: set_upt atLeast0LessThan) auto
  then show ?thesis by (simp only: upt_16) simp
qed

lemma mix_column_fips:
  "mix_column a0 a1 a2 a3 =
     [fips_times 2 a0 XOR fips_times 3 a1 XOR a2 XOR a3, fips_times 2 a1 XOR fips_times 3 a2 XOR a3 XOR a0,
      fips_times 2 a2 XOR fips_times 3 a3 XOR a0 XOR a1, fips_times 2 a3 XOR fips_times 3 a0 XOR a1 XOR a2]"
  by (simp add: mix_column_def gfmul_2 gfmul_3 ac_simps flip: gfmul_fips)

lemma upt_4: "[0..<4] = [0, 1, 2, 3 :: nat]"
  by (simp add: upt_rec)

lemma mix_columns_holds: "holds_state s m \<Longrightarrow> holds_state (gcm_mix_columns s) (fips_mix_columns m)"
  unfolding holds_state_def all_16 gcm_mix_columns_def fips_mix_columns_def mix_column_fips upt_4
  by (simp flip: numeral_2_eq_2)

definition fips_rows :: "u8 list \<Rightarrow> u8 list list" where
  "fips_rows key = map (fips_row fips_sbox key) [0..<11]"

lemma fips_rows_nth: "n < 11 \<Longrightarrow> fips_rows key ! n = fips_row fips_sbox key n"
  by (simp add: fips_rows_def del: upt_Suc)

definition fips_round :: "u8 list \<Rightarrow> aes_state \<Rightarrow> nat \<Rightarrow> aes_state" where
  "fips_round key m n =
     fips_add_round_key fips_sbox key n (fips_mix_columns (fips_shift_rows (fips_sub_bytes fips_sbox m)))"

lemma fips_rounds_fold: "fips_rounds fips_sbox key m = foldl (fips_round key) m [1..<10]"
  by (simp add: fips_rounds_def fips_round_def [abs_def])

lemma round_holds:
  assumes "holds_state s m" and "sbox_ok g" and "length key = 16" and "n < 11"
  obtains s' where "gcm_round (fips_rows key) (g, s) n = (gcm_sbox_init g, s')" and "holds_state s' (fips_round key m n)"
proof (rule that)
  show "gcm_round (fips_rows key) (g, s) n = (gcm_sbox_init g, snd (gcm_round (fips_rows key) (g, s) n))"
    using sub_bytes_holds(1) [OF assms(1,2)] by (auto simp add: gcm_round_def split: prod.splits)
  show "holds_state (snd (gcm_round (fips_rows key) (g, s) n)) (fips_round key m n)"
    using sub_bytes_holds(2) [OF assms(1,2)] assms(3,4)
    by (auto simp: gcm_round_def fips_round_def fips_rows_nth split: prod.splits
      intro!: add_round_key_holds mix_columns_holds shift_rows_holds)
qed

lemma rounds_hold:
  assumes "holds_state s m" and "sbox_ok g" and "length key = 16" and "set ns \<subseteq> {..<11}"
  shows "\<exists>s'. foldl (gcm_round (fips_rows key)) (g, s) ns = (if ns = [] then g else gcm_sbox_init g, s') \<and>
    holds_state s' (foldl (fips_round key) m ns)"
  using assms
proof (induction ns arbitrary: g s m)
  case (Cons n ns)
  then have n: "n < 11" by simp
  obtain s' where s': "gcm_round (fips_rows key) (g, s) n = (gcm_sbox_init g, s')" "holds_state s' (fips_round key m n)"
    by (rule round_holds [OF Cons.prems(1,2,3) n])
  have g: "sbox_ok (gcm_sbox_init g)" "gcm_sbox_init (gcm_sbox_init g) = gcm_sbox_init g"
    using sbox_init_ok [OF Cons.prems(2)] by (auto simp: sbox_init_again)
  from Cons.IH [OF s'(2) g(1)] Cons.prems s'(1) g(2) show ?case by auto
qed simp

lemma block_encrypt_fips:
  assumes "sbox_ok g" and "length key = 16" and "length inp = 16"
  shows "gcm_block_encrypt g (fips_rows key) inp = (gcm_sbox_init g, fips_cipher fips_sbox key inp)"
proof -
  let ?m = "fips_add_round_key fips_sbox key 0 (\<lambda>r c. inp ! (r + 4 * c))"
  have "holds_state inp (\<lambda>r c. inp ! (r + 4 * c))"
    using assms(3) by (simp add: holds_state_def)
  then have "holds_state (gcm_add_round_key (take 16 inp) (fips_rows key ! 0)) ?m"
    using assms(2,3) by (simp add: fips_rows_nth add_round_key_holds)
  moreover have "set [1..<10] \<subseteq> {..<11 :: nat}" by auto
  ultimately obtain s where
    s: "foldl (gcm_round (fips_rows key)) (g, gcm_add_round_key (take 16 inp) (fips_rows key ! 0)) [1..<10] = (gcm_sbox_init g, s)"
      "holds_state s (fips_rounds fips_sbox key ?m)"
    using rounds_hold [of _ ?m g key "[1..<10]"] assms(1,2)
    by (auto simp: fips_rounds_fold)
  let ?f = "fips_add_round_key fips_sbox key 10 (fips_shift_rows (fips_sub_bytes fips_sbox (fips_rounds fips_sbox key ?m)))"
  have g: "sbox_ok (gcm_sbox_init g)" "gcm_sbox_init (gcm_sbox_init g) = gcm_sbox_init g"
    using sbox_init_ok [OF assms(1)] by (auto simp: sbox_init_again)
  note sub = sub_bytes_holds [OF s(2) g(1)]
  have "holds_state (gcm_add_round_key (gcm_shift_rows (snd (gcm_sub_bytes (gcm_sbox_init g) s))) (fips_rows key ! 10)) ?f"
    using sub(2) assms(2) by (simp add: fips_rows_nth add_round_key_holds shift_rows_holds)
  then have "gcm_add_round_key (gcm_shift_rows (snd (gcm_sub_bytes (gcm_sbox_init g) s))) (fips_rows key ! 10) =
      fips_cipher fips_sbox key inp"
    by (intro nth_equalityI) (auto simp: holds_state_def fips_cipher_def Let_def simp del: upt_Suc)
  then show ?thesis
    using s(1) sub(1) g(2) by (auto simp add: gcm_block_encrypt_def split: prod.splits)
qed

text \<open>
  C37. With the table in its initial state or filled, gcm\_key\_expand and gcm\_block\_encrypt
  compute the AES-128 of FIPS 197, with the S-box and the field of the standard, and leave the
  table filled.
\<close>

theorem block_encrypt_is_fips197:
  assumes "sbox_ok g" and "length key = 16" and "length inp = 16"
  shows "(case gcm_key_expand g key of (g', rk) \<Rightarrow> gcm_block_encrypt g' rk inp) =
    (gcm_sbox_init g, fips_cipher fips_sbox key inp)"
  using assms sbox_init_ok [OF assms(1)]
  by (simp add: key_expand_fips block_encrypt_fips sbox_init_again flip: fips_rows_def)

theorem block_encrypt_is_fips197_witness:
  "let g = \<lparr>gcm_sbox_tab = replicate 256 0, gcm_sbox_ready = False\<rparr>; k = replicate 16 1; b = replicate 16 2
   in (case gcm_key_expand g k of (g', rk) \<Rightarrow> gcm_block_encrypt g' rk b) =
      (gcm_sbox_init g, fips_cipher fips_sbox k b)"
  unfolding Let_def by (rule block_encrypt_is_fips197) (simp_all add: sbox_ok_def)

end
