(* ===== verification/Gcm.thy ===== *)
theory Gcm
  imports Aes_Spec Hmac
begin

text \<open>
  modules/lebtls/aead.c, second half: the authenticated encryption AES-128-GCM. A buffer
  passed by pointer is None for the null pointer; the buffers of one call do not overlap,
  as in all calls of the module. The specification is that of NIST SP 800-38D, with blocks
  as 128-bit words.
\<close>

unbundle bit_operations_syntax

definition gcm_xor_block :: "u8 list \<Rightarrow> u8 list \<Rightarrow> u8 list" where
  "gcm_xor_block a b = map (\<lambda>i. a ! i XOR b ! i) [0..<16]"

primrec shift_bytes :: "bool \<Rightarrow> u8 list \<Rightarrow> u8 list" where
  "shift_bytes carry [] = []"
| "shift_bytes carry (b # bs) =
     (drop_bit 1 b OR push_bit 7 (if carry then 1 else 0)) # shift_bytes (b AND 1 \<noteq> 0) bs"

definition gcm_gf_shift :: "u8 list \<Rightarrow> u8 list" where
  "gcm_gf_shift v = shift_bytes False v"

definition gf_mul_step :: "u8 list \<times> u8 list \<Rightarrow> bool \<Rightarrow> u8 list \<times> u8 list" where
  "gf_mul_step zv x =
     (case zv of (z, v) \<Rightarrow>
        (if x then gcm_xor_block z v else z,
         if v ! 15 AND 1 \<noteq> 0 then (let w = gcm_gf_shift v in w[0 := w ! 0 XOR 0xE1]) else gcm_gf_shift v))"

text \<open>The bits of x in the order of the two loops.\<close>

definition gf_bits :: "u8 list \<Rightarrow> bool list" where
  "gf_bits x = concat (map (\<lambda>i. map (\<lambda>j. drop_bit j (x ! i) AND 1 \<noteq> 0) [7, 6, 5, 4, 3, 2, 1, 0]) [0..<16])"

definition gcm_gf_mul :: "u8 list \<Rightarrow> u8 list \<Rightarrow> u8 list" where
  "gcm_gf_mul x y = fst (foldl gf_mul_step (replicate 16 0, take 16 y) (gf_bits x))"

definition pad_block :: "u8 list \<Rightarrow> u8 list" where
  "pad_block d = d @ replicate (16 - length d) 0"

function ghash_data :: "u8 list \<Rightarrow> u8 list \<Rightarrow> u8 list \<Rightarrow> u8 list" where
  "ghash_data h y d =
     (if d = [] then y
      else ghash_data h (gcm_gf_mul (gcm_xor_block y (pad_block (take 16 d))) h) (drop 16 d))"
  by pat_completeness auto
termination
  by (relation "measure (\<lambda>(h, y, d). length d)") auto

declare ghash_data.simps [simp del]

definition length_block :: "nat \<Rightarrow> nat \<Rightarrow> u8 list" where
  "length_block aad_len data_len =
     (let a_bits = word_of_nat aad_len * 8 :: u64; d_bits = word_of_nat data_len * 8 :: u64
      in map (\<lambda>k. ucast (drop_bit k a_bits)) [56, 48, 40, 32, 24, 16, 8, 0] @
         map (\<lambda>k. ucast (drop_bit k d_bits)) [56, 48, 40, 32, 24, 16, 8, 0])"

definition gcm_ghash :: "u8 list \<Rightarrow> u8 list \<Rightarrow> u8 list \<Rightarrow> u8 list" where
  "gcm_ghash h aad data =
     gcm_gf_mul (gcm_xor_block (ghash_data h (ghash_data h (replicate 16 0) aad) data)
       (length_block (length aad) (length data))) h"

definition ctr_block :: "u8 list \<Rightarrow> u32 \<Rightarrow> u8 list" where
  "ctr_block nonce c =
     take 12 nonce @ [ucast (drop_bit 24 c), ucast (drop_bit 16 c), ucast (drop_bit 8 c), ucast c]"

function ctr_loop :: "sbox_state \<Rightarrow> u8 list list \<Rightarrow> u8 list \<Rightarrow> u32 \<Rightarrow> u8 list \<Rightarrow> sbox_state \<times> u8 list" where
  "ctr_loop g rk nonce c d =
     (if d = [] then (g, [])
      else (case gcm_block_encrypt g rk (ctr_block nonce c) of
              (g, stream) \<Rightarrow>
                (case ctr_loop g rk nonce (c + 1) (drop 16 d) of
                   (g, rest) \<Rightarrow> (g, map (\<lambda>i. d ! i XOR stream ! i) [0..<min 16 (length d)] @ rest))))"
  by pat_completeness auto
termination
  by (relation "measure (\<lambda>(g, rk, nonce, c, d). length d)") auto

declare ctr_loop.simps [simp del]

definition gcm_ctr :: "sbox_state \<Rightarrow> u8 list list \<Rightarrow> u8 list \<Rightarrow> u8 list \<Rightarrow> sbox_state \<times> u8 list" where
  "gcm_ctr g rk nonce d = ctr_loop g rk nonce 2 d"

text \<open>The tag as both operations compute it, from the hash key h and the ciphertext.\<close>

definition gcm_tag ::
    "sbox_state \<Rightarrow> u8 list list \<Rightarrow> u8 list \<Rightarrow> u8 list \<Rightarrow> u8 list \<Rightarrow> u8 list \<Rightarrow> sbox_state \<times> u8 list" where
  "gcm_tag g rk nonce h aad data =
     (case gcm_block_encrypt g rk (take 12 nonce @ [0, 0, 0, 1]) of
        (g, s0) \<Rightarrow> (g, gcm_xor_block (gcm_ghash h aad data) s0))"

definition readable :: "u8 list option \<Rightarrow> nat \<Rightarrow> u8 list" where
  "readable b n = (case b of None \<Rightarrow> [] | Some d \<Rightarrow> take n d)"

definition lebtls_aead_seal ::
    "sbox_state \<Rightarrow> u8 list option \<Rightarrow> u8 list option \<Rightarrow> u8 list option \<Rightarrow> nat \<Rightarrow> u8 list option \<Rightarrow> nat \<Rightarrow>
     u8 list option \<Rightarrow> int \<times> u8 list option \<times> sbox_state" where
  "lebtls_aead_seal g key nonce aad aad_len inp in_len out =
     (case (key, nonce, out) of
        (Some k, Some n, Some buf) \<Rightarrow>
          if aad = None \<and> aad_len > 0 then (-1, out, g)
          else if inp = None \<and> in_len > 0 then (-1, out, g)
          else
            (case gcm_key_expand g k of (g, rk) \<Rightarrow>
             case gcm_block_encrypt g rk (replicate 16 0) of (g, h) \<Rightarrow>
             case gcm_ctr g rk n (readable inp in_len) of (g, ct) \<Rightarrow>
             case gcm_tag g rk n h (readable aad aad_len) ct of (g, tag) \<Rightarrow>
               (0, Some (ct @ tag @ drop (in_len + 16) buf), g))
      | _ \<Rightarrow> (-1, out, g))"

definition lebtls_aead_open ::
    "sbox_state \<Rightarrow> u8 list option \<Rightarrow> u8 list option \<Rightarrow> u8 list option \<Rightarrow> nat \<Rightarrow> u8 list option \<Rightarrow> nat \<Rightarrow>
     u8 list option \<Rightarrow> int \<times> u8 list option \<times> sbox_state" where
  "lebtls_aead_open g key nonce aad aad_len inp in_len out =
     (case (key, nonce, out) of
        (Some k, Some n, Some buf) \<Rightarrow>
          if aad = None \<and> aad_len > 0 then (-1, out, g)
          else if inp = None \<and> in_len > 0 then (-1, out, g)
          else if in_len < 16 then (-1, out, g)
          else
            (case gcm_key_expand g k of (g, rk) \<Rightarrow>
             case gcm_block_encrypt g rk (replicate 16 0) of (g, h) \<Rightarrow>
             case gcm_tag g rk n h (readable aad aad_len) (readable inp (in_len - 16)) of (g, tag) \<Rightarrow>
               if crypto_constant_compare tag (drop (in_len - 16) (readable inp in_len)) 16 \<noteq> 0
               then (-1, out, g)
               else
                 (case gcm_ctr g rk n (readable inp (in_len - 16)) of
                    (g, pt) \<Rightarrow> (0, Some (pt @ drop (in_len - 16) buf), g)))
      | _ \<Rightarrow> (-1, out, g))"

subsection \<open>Blocks as 128-bit words\<close>

definition block_word :: "u8 list \<Rightarrow> 128 word" where
  "block_word b = word_of_nat (be_val b)"

lemma bit_le_val: "bit (le_val bs) n \<longleftrightarrow> n div 8 < length bs \<and> bit (bs ! (n div 8)) (n mod 8)"
proof (induction bs arbitrary: n)
  case (Cons b bs)
  have "unat b AND push_bit 8 (le_val bs) = 0"
    by (intro bit_eqI) (auto simp: bit_simps dest: bit_imp_le_length)
  then have "le_val (b # bs) = unat b OR push_bit 8 (le_val bs)"
    by (simp add: push_bit_eq_mult mult.commute flip: disjunctive_add_eq_or)
  then have e: "bit (le_val (b # bs)) n \<longleftrightarrow> bit b n \<or> 8 \<le> n \<and> bit (le_val bs) (n - 8)"
    by (simp add: bit_simps del: le_val.simps)
  show ?case
  proof (cases "n < 8")
    case True
    then show ?thesis unfolding e by simp
  next
    case False
    then obtain k where "n = 8 + k" using le_Suc_ex not_less by blast
    moreover have "\<not> bit b n" using False bit_imp_le_length [of b n] by auto
    moreover have "(8 + k) div 8 = Suc (k div 8)" by simp
    ultimately show ?thesis unfolding e using Cons [of k] by simp
  qed
qed simp

lemma bit_block_word:
  assumes "length b = 16"
  shows "bit (block_word b) n \<longleftrightarrow> n < 128 \<and> bit (b ! (15 - n div 8)) (n mod 8)"
proof -
  have "n < 128 \<Longrightarrow> rev b ! (n div 8) = b ! (15 - n div 8)"
    using assms by (subst rev_nth) auto
  then show ?thesis
    using assms by (auto simp: block_word_def be_val_def bit_simps bit_le_val)
qed


definition gf128_step :: "128 word \<times> 128 word \<Rightarrow> bool \<Rightarrow> 128 word \<times> 128 word" where
  "gf128_step zv x =
     (case zv of (z, v) \<Rightarrow>
        (if x then z XOR v else z, if bit v 0 then drop_bit 1 v XOR push_bit 120 0xE1 else drop_bit 1 v))"

definition gf128_mult :: "128 word \<Rightarrow> 128 word \<Rightarrow> 128 word" where
  "gf128_mult x y = fst (foldl gf128_step (0, y) (map (\<lambda>i. bit x (127 - i)) [0..<128]))"

lemma concat_blocks:
  "concat (map (\<lambda>i. map (f i) [0..<8]) [0..<n]) = map (\<lambda>k. f (k div 8) (k mod 8)) [0..<8 * n]"
proof (induction n)
  case (Suc n)
  have "[0..<8 * Suc n] = [0..<8 * n] @ map (\<lambda>k. k + 8 * n) [0..<8]"
    using upt_add_eq_append [of 0 "8 * n" 8] map_add_upt [of "8 * n" 8] by (simp add: add.commute)
  moreover have "map (\<lambda>k. f (k div 8) (k mod 8)) (map (\<lambda>k. k + 8 * n) [0..<8]) = map (f n) [0..<8]"
    by (simp del: upt_Suc)
  ultimately show ?case using Suc by (simp del: upt_Suc mult_Suc_right) simp
qed simp

lemma bit_test: "drop_bit j (b :: u8) AND 1 \<noteq> 0 \<longleftrightarrow> bit b j"
  by (simp only: low_bit bit_drop_bit_eq) simp

lemma mirror_bit: "i < 128 \<Longrightarrow> 15 - (127 - i) div 8 = i div 8 \<and> (127 - i) mod 8 = 7 - i mod (8 :: nat)"
proof -
  assume "i < 128"
  define q r where "q = i div 8" and "r = i mod 8"
  have i: "i = 8 * q + r" "r < 8" "q < 16" using \<open>i < 128\<close> by (auto simp: q_def r_def)
  then have "r \<le> 7" by simp
  then obtain k where k: "7 = r + k" unfolding nat_le_iff_add by blast
  with i have "127 - i = 8 * (15 - q) + k" by simp
  then have "(127 - i) div 8 = 15 - q" "(127 - i) mod 8 = 7 - r" using k by simp_all
  with i(3) show ?thesis by (simp add: q_def r_def)
qed

lemma gf_bits_word: "length x = 16 \<Longrightarrow> gf_bits x = map (\<lambda>i. bit (block_word x) (127 - i)) [0..<128]"
proof -
  assume l: "length x = 16"
  have "[7, 6, 5, 4, 3, 2, 1, 0] = map (\<lambda>j. 7 - j) [0..<8 :: nat]" by (simp add: upt_rec)
  then have "gf_bits x = concat (map (\<lambda>i. map (\<lambda>j. bit (x ! i) (7 - j)) [0..<8]) [0..<16])"
    by (simp only: gf_bits_def bit_test map_map o_def)
  also have "\<dots> = map (\<lambda>k. bit (x ! (k div 8)) (7 - k mod 8)) [0..<8 * 16]"
    by (rule concat_blocks)
  also have "\<dots> = map (\<lambda>i. bit (block_word x) (127 - i)) [0..<128]"
  proof (rule map_cong)
    fix i assume "i \<in> set [0..<128]"
    then have "i < 128" by simp
    then have "15 - (127 - i) div 8 = i div 8" "(127 - i) mod 8 = 7 - i mod 8"
      using mirror_bit [of i] by simp_all
    moreover have "127 - i < 128" by simp
    ultimately show "bit (x ! (i div 8)) (7 - i mod 8) = bit (block_word x) (127 - i)"
      by (simp add: bit_block_word [OF l])
  qed simp
  finally show ?thesis .
qed

lemma block_word_xor: "length a = 16 \<Longrightarrow> length b = 16 \<Longrightarrow> block_word (gcm_xor_block a b) = block_word a XOR block_word b"
  by (intro bit_word_eqI) (auto simp: bit_block_word gcm_xor_block_def bit_simps)

lemma length_shift_bytes [simp]: "length (shift_bytes c v) = length v"
  by (induction v arbitrary: c) simp_all

lemma shift_bytes_nth:
  "i < length v \<Longrightarrow> shift_bytes c v ! i =
     (drop_bit 1 (v ! i) OR push_bit 7 (if (if i = 0 then c else bit (v ! (i - 1)) 0) then 1 else 0))"
proof (induction v arbitrary: c i)
  case (Cons b bs)
  then show ?case by (cases i) (auto simp only: shift_bytes.simps nth_Cons_0 nth_Cons_Suc low_bit length_Cons, auto)
qed simp

lemma length_gf_shift [simp]: "length (gcm_gf_shift v) = length v"
  by (simp add: gcm_gf_shift_def)

lemma length_xor_block [simp]: "length (gcm_xor_block a b) = 16"
  by (simp add: gcm_xor_block_def)

lemma block_word_shift:
  assumes l: "length v = 16"
  shows "block_word (gcm_gf_shift v) = drop_bit 1 (block_word v)"
proof (rule bit_word_eqI)
  fix n assume "n < LENGTH(128)"
  then have n: "n < 128" by simp
  define q r where "q = n div 8" and "r = n mod 8"
  have nq: "n = 8 * q + r" "r < 8" "q < 16" using n by (auto simp: q_def r_def)
  have s: "bit (block_word (gcm_gf_shift v)) n \<longleftrightarrow>
      bit (drop_bit 1 (v ! (15 - q)) OR push_bit 7 (if 15 - q \<noteq> 0 \<and> bit (v ! (15 - q - 1)) 0 then 1 else 0)) r"
    using n l by (simp add: bit_block_word gcm_gf_shift_def shift_bytes_nth q_def r_def)
  show "bit (block_word (gcm_gf_shift v)) n = bit (drop_bit 1 (block_word v)) n"
  proof (cases "r = 7")
    case True
    then have "Suc n = 8 * Suc q" using nq by simp
    then have "Suc n div 8 = Suc q" "Suc n mod 8 = 0" by simp_all
    with True nq l show ?thesis unfolding s
      by (auto simp: bit_drop_bit_eq bit_block_word bit_or_iff bit_push_bit_iff dest: bit_imp_le_length)
  next
    case False
    then have "Suc n = 8 * q + Suc r" "Suc r < 8" using nq by simp_all
    then have "Suc n div 8 = q" "Suc n mod 8 = Suc r" "Suc n < 128" using nq by simp_all
    with False nq(2) l show ?thesis unfolding s
      by (auto simp: bit_drop_bit_eq bit_block_word bit_or_iff bit_push_bit_iff)
  qed
qed

lemma bit_E1: "m < 8 \<Longrightarrow> bit (0xE1 :: u8) m = bit (0xE1 :: 128 word) m"
  unfolding less_8 by auto

lemma block_word_reduce:
  assumes l: "length w = 16"
  shows "block_word (w[0 := w ! 0 XOR 0xE1]) = block_word w XOR push_bit 120 0xE1"
proof (rule bit_word_eqI)
  fix n assume "n < LENGTH(128)"
  then have n: "n < 128" by simp
  show "bit (block_word (w[0 := w ! 0 XOR 0xE1])) n = bit (block_word w XOR push_bit 120 0xE1) n"
  proof (cases "120 \<le> n")
    case True
    then have "n div 8 = 15" "n - 120 = n mod 8" using n by presburger+
    with True n l show ?thesis
      by (simp only: bit_xor_iff bit_push_bit_iff) (auto simp add: bit_block_word bit_xor_iff bit_E1)
  next
    case False
    then have "15 - n div 8 \<noteq> 0" by auto
    with False l show ?thesis
      by (simp only: bit_xor_iff bit_push_bit_iff) (simp add: bit_block_word)
  qed
qed

definition block_pair :: "u8 list \<times> u8 list \<Rightarrow> 128 word \<times> 128 word" where
  "block_pair zv = (block_word (fst zv), block_word (snd zv))"

lemma gf_mul_step_word:
  assumes "length (fst zv) = 16" "length (snd zv) = 16"
  shows "block_pair (gf_mul_step zv x) = gf128_step (block_pair zv) x"
    and "length (fst (gf_mul_step zv x)) = 16" "length (snd (gf_mul_step zv x)) = 16"
  using assms
  by (auto simp: block_pair_def gf_mul_step_def gf128_step_def block_word_xor block_word_shift block_word_reduce
      bit_block_word low_bit Let_def split: prod.splits)

lemma gf_mul_steps_word:
  assumes "length (fst zv) = 16" "length (snd zv) = 16"
  shows "block_pair (foldl gf_mul_step zv xs) = foldl gf128_step (block_pair zv) xs \<and>
    length (fst (foldl gf_mul_step zv xs)) = 16"
  using assms
proof (induction xs arbitrary: zv)
  case (Cons x xs)
  from Cons.IH [OF gf_mul_step_word(2,3) [OF Cons.prems]] gf_mul_step_word(1) [OF Cons.prems]
  show ?case by simp
qed simp

lemma block_word_0: "block_word (replicate 16 0) = 0"
  by (intro bit_word_eqI) (simp add: bit_block_word)

lemma gf_mul_word:
  assumes "length x = 16" "length y = 16"
  shows "block_word (gcm_gf_mul x y) = gf128_mult (block_word x) (block_word y)" "length (gcm_gf_mul x y) = 16"
  using gf_mul_steps_word [of "(replicate 16 0, take 16 y)" "gf_bits x"] assms
  by (auto simp: gcm_gf_mul_def gf128_mult_def gf_bits_word block_pair_def block_word_0 prod_eq_iff simp del: upt_Suc)

subsection \<open>The hash and the counter mode of SP 800-38D\<close>

text \<open>A string cut into blocks, the last one filled with zeros.\<close>

fun sp_blocks :: "u8 list \<Rightarrow> 128 word list" where
  "sp_blocks d = (if d = [] then [] else block_word (pad_block (take 16 d)) # sp_blocks (drop 16 d))"

declare sp_blocks.simps [simp del]

definition sp_ghash :: "128 word \<Rightarrow> 128 word list \<Rightarrow> 128 word" where
  "sp_ghash h xs = foldl (\<lambda>y x. gf128_mult (y XOR x) h) 0 xs"

definition sp_tag_input :: "u8 list \<Rightarrow> u8 list \<Rightarrow> 128 word list" where
  "sp_tag_input aad ct =
     sp_blocks aad @ sp_blocks ct @ [word_of_nat (8 * length aad * 2 ^ 64 + 8 * length ct)]"

text \<open>The counter blocks of a twelve-byte nonce and the keystream from a counter on.\<close>

definition sp_counter :: "u8 list \<Rightarrow> nat \<Rightarrow> u8 list" where
  "sp_counter nonce c = nonce @ be_bytes 4 c"

definition sp_gctr :: "(u8 list \<Rightarrow> u8 list) \<Rightarrow> u8 list \<Rightarrow> nat \<Rightarrow> u8 list \<Rightarrow> u8 list" where
  "sp_gctr E nonce c d =
     xor_bytes d (concat (map (\<lambda>i. E (sp_counter nonce (c + i))) [0..<(length d + 15) div 16]))"

definition sp_tag :: "(u8 list \<Rightarrow> u8 list) \<Rightarrow> u8 list \<Rightarrow> u8 list \<Rightarrow> u8 list \<Rightarrow> 128 word" where
  "sp_tag E nonce aad ct =
     sp_ghash (block_word (E (replicate 16 0))) (sp_tag_input aad ct) XOR block_word (E (sp_counter nonce 1))"

definition sp_encrypt :: "(u8 list \<Rightarrow> u8 list) \<Rightarrow> u8 list \<Rightarrow> u8 list \<Rightarrow> u8 list \<Rightarrow> u8 list \<times> 128 word" where
  "sp_encrypt E nonce aad p =
     (let ct = sp_gctr E nonce 2 p in (ct, sp_tag E nonce aad ct))"

lemma length_pad_block: "length d \<le> 16 \<Longrightarrow> length (pad_block d) = 16"
  by (simp add: pad_block_def)

lemma ghash_data_word:
  assumes "length h = 16" and "length y = 16"
  shows "block_word (ghash_data h y d) = foldl (\<lambda>y x. gf128_mult (y XOR x) (block_word h)) (block_word y) (sp_blocks d) \<and>
    length (ghash_data h y d) = 16"
  using assms
proof (induction h y d rule: ghash_data.induct)
  case (1 h y d)
  show ?case
  proof (cases "d = []")
    case True
    with 1 show ?thesis by (simp add: ghash_data.simps sp_blocks.simps)
  next
    case False
    let ?x = "gcm_xor_block y (pad_block (take 16 d))"
    have "length (gcm_gf_mul ?x h) = 16" "block_word (gcm_gf_mul ?x h) = gf128_mult (block_word y XOR block_word (pad_block (take 16 d))) (block_word h)"
      using 1(2,3) by (simp_all add: gf_mul_word block_word_xor length_pad_block)
    with 1(1) [OF False 1(2)] False show ?thesis
      by (simp add: ghash_data.simps [of h y d] sp_blocks.simps [of d])
  qed
qed

lemma be_val_append: "be_val (a @ b) = be_val a * 256 ^ length b + be_val b"
proof -
  have "le_val (xs @ ys) = le_val xs + 256 ^ length xs * le_val ys" for xs ys
    by (induction xs) (simp_all add: algebra_simps)
  then show ?thesis by (simp add: be_val_def)
qed

lemma length_block_word:
  assumes "8 * a < 2 ^ 64" and "8 * d < 2 ^ 64"
  shows "block_word (length_block a d) = word_of_nat (8 * a * 2 ^ 64 + 8 * d)"
proof -
  have "unat (word_of_nat a * 8 :: u64) = 8 * a" "unat (word_of_nat d * 8 :: u64) = 8 * d"
    using assms by (simp_all add: unat_word_ariths unat_of_nat)
  then have "length_block a d = be_bytes 8 (8 * a) @ be_bytes 8 (8 * d)"
    unfolding length_block_def Let_def byte_of_drop_bit be_bytes_8 by simp
  moreover have "be_val (be_bytes 8 (8 * a)) = 8 * a" "be_val (be_bytes 8 (8 * d)) = 8 * d"
    using assms by (simp_all add: be_val_be_bytes)
  ultimately show ?thesis by (simp only: block_word_def be_val_append length_be_bytes) simp
qed

definition word_block :: "128 word \<Rightarrow> u8 list" where
  "word_block w = be_bytes 16 (unat w)"

lemma be_bytes_be_val: "be_bytes (length b) (be_val b) = b"
  by (metis be_bytes_def be_val_def le_bytes_le_val length_rev rev_rev_ident)

lemma word_block_word: "length b = 16 \<Longrightarrow> word_block (block_word b) = b"
proof -
  assume l: "length b = 16"
  have "be_val b < 256 ^ 16" using le_val_bound [of "rev b"] l by (simp add: be_val_def)
  then have "unat (block_word b) = be_val b" by (simp add: block_word_def unat_of_nat)
  then show ?thesis using l be_bytes_be_val [of b] by (simp add: word_block_def)
qed

lemma be_bytes_mod: "be_bytes n (v mod 256 ^ n) = be_bytes n v"
  using le_bytes_le_val [of "le_bytes n v"] by (simp add: be_bytes_def le_val_le_bytes)

lemma sp_counter_mod: "sp_counter nonce (c mod 2 ^ 32) = sp_counter nonce c"
  using be_bytes_mod [of 4 c] by (simp add: sp_counter_def)

lemma ctr_block_counter: "length nonce = 12 \<Longrightarrow> ctr_block nonce c = sp_counter nonce (unat c)"
  using byte_of_drop_bit [of 0 c]
  by (simp add: ctr_block_def sp_counter_def be_bytes_4 byte_of_drop_bit)

lemma length_fips_cipher [simp]: "length (fips_cipher S key b) = 16"
  by (simp add: fips_cipher_def Let_def)

lemma sp_gctr_Nil: "sp_gctr E nonce c [] = []"
  by (simp add: sp_gctr_def xor_bytes_def)

lemma xor_bytes_split:
  "length s = n \<Longrightarrow> xor_bytes (take n d @ drop n d) (s @ r) = xor_bytes (take n d) s @ xor_bytes (drop n d) r"
  by (simp add: xor_bytes_def zip_append2)

lemma sp_gctr_step:
  assumes "d \<noteq> []" and E: "\<And>b. length (E b) = 16"
  shows "sp_gctr E nonce c d =
    map (\<lambda>i. d ! i XOR E (sp_counter nonce c) ! i) [0..<min 16 (length d)] @ sp_gctr E nonce (Suc c) (drop 16 d)"
proof -
  let ?n = "(length (drop 16 d) + 15) div 16"
  have n: "(length d + 15) div 16 = Suc ?n"
  proof (cases "length d \<le> 16")
    case True
    moreover from assms(1) have "length d + 15 = 16 + (length d - 1)" by (cases d) simp_all
    ultimately show ?thesis by simp
  qed (simp add: le_div_geq)
  have "map (\<lambda>i. E (sp_counter nonce (c + i))) [0..<Suc ?n] =
      E (sp_counter nonce c) # map (\<lambda>i. E (sp_counter nonce (Suc c + i))) [0..<?n]"
    by (simp add: map_upt_Suc del: upt_Suc)
  then have "sp_gctr E nonce c d =
      xor_bytes (take 16 d @ drop 16 d) (E (sp_counter nonce c) @ concat (map (\<lambda>i. E (sp_counter nonce (Suc c + i))) [0..<?n]))"
    unfolding sp_gctr_def n by simp
  also have "\<dots> = xor_bytes (take 16 d) (E (sp_counter nonce c)) @ sp_gctr E nonce (Suc c) (drop 16 d)"
    unfolding sp_gctr_def by (rule xor_bytes_split) (simp add: E)
  also have "xor_bytes (take 16 d) (E (sp_counter nonce c)) =
      map (\<lambda>i. d ! i XOR E (sp_counter nonce c) ! i) [0..<min 16 (length d)]"
    by (intro nth_equalityI) (auto simp: xor_bytes_def E)
  finally show ?thesis .
qed

lemma length_sp_gctr:
  assumes "\<And>b. length (E b) = 16"
  shows "length (sp_gctr E nonce c d) = length d"
proof (induction "length d" arbitrary: c d rule: less_induct)
  case less
  show ?case
  proof (cases "d = []")
    case False
    then have "length (drop 16 d) < length d" by simp
    from less [OF this] show ?thesis
      by (subst sp_gctr_step [OF False assms]) simp
  qed (simp add: sp_gctr_Nil)
qed

lemma sp_gctr_mod: "sp_gctr E nonce (c mod 2 ^ 32) d = sp_gctr E nonce c d"
proof -
  have "sp_counter nonce (c mod 2 ^ 32 + i) = sp_counter nonce (c + i)" for i
    using sp_counter_mod [of nonce "c mod 2 ^ 32 + i"] sp_counter_mod [of nonce "c + i"] by (simp only: mod_add_left_eq)
  then show ?thesis by (simp only: sp_gctr_def)
qed

text \<open>Encryption with the keystream is its own inverse.\<close>

lemma xor_bytes_twice: "length d \<le> length s \<Longrightarrow> xor_bytes (xor_bytes d s) s = d"
  by (intro nth_equalityI) (auto simp: xor_bytes_def xor.assoc)

lemma sp_gctr_twice:
  assumes "\<And>b. length (E b) = 16"
  shows "sp_gctr E nonce c (sp_gctr E nonce c d) = d"
proof -
  let ?s = "concat (map (\<lambda>i. E (sp_counter nonce (c + i))) [0..<(length d + 15) div 16])"
  have "length ?s = 16 * ((length d + 15) div 16)"
    using assms by (simp add: length_concat o_def sum_list_triv)
  then have "length d \<le> length ?s" by simp
  then have "xor_bytes (sp_gctr E nonce c d) ?s = d"
    unfolding sp_gctr_def by (rule xor_bytes_twice)
  then show ?thesis
    unfolding sp_gctr_def [of E nonce c "sp_gctr E nonce c d"] length_sp_gctr [OF assms] .
qed

subsection \<open>The code computes it\<close>

definition table_filled :: "sbox_state \<Rightarrow> bool" where
  "table_filled g \<longleftrightarrow> sbox_ok g \<and> gcm_sbox_ready g"

abbreviation aes128 :: "u8 list \<Rightarrow> u8 list \<Rightarrow> u8 list" where
  "aes128 key \<equiv> fips_cipher fips_sbox key"

lemma block_encrypt_filled:
  "table_filled g \<Longrightarrow> length key = 16 \<Longrightarrow> length b = 16 \<Longrightarrow> gcm_block_encrypt g (fips_rows key) b = (g, aes128 key b)"
  by (simp add: table_filled_def block_encrypt_fips sbox_init_again)

lemma ctr_loop_gctr:
  assumes "table_filled g" and "length key = 16" and "length nonce = 12"
  shows "ctr_loop g (fips_rows key) nonce c d = (g, sp_gctr (aes128 key) nonce (unat c) d)"
proof (induction "length d" arbitrary: c d rule: less_induct)
  case less
  show ?case
  proof (cases "d = []")
    case True
    then show ?thesis by (simp add: ctr_loop.simps sp_gctr_Nil)
  next
    case False
    have "length (ctr_block nonce c) = 16" using assms(3) by (simp add: ctr_block_def)
    then have e: "gcm_block_encrypt g (fips_rows key) (ctr_block nonce c) = (g, aes128 key (sp_counter nonce (unat c)))"
      using assms by (simp add: block_encrypt_filled ctr_block_counter)
    have "sp_gctr (aes128 key) nonce (unat (c + 1)) (drop 16 d) = sp_gctr (aes128 key) nonce (Suc (unat c)) (drop 16 d)"
      using sp_gctr_mod [of "aes128 key" nonce "Suc (unat c)"] by (simp add: unat_word_ariths)
    with less [of "drop 16 d" "c + 1"] False e show ?thesis
      by (subst ctr_loop.simps) (simp add: sp_gctr_step [OF False])
  qed
qed

lemma gcm_ghash_word:
  assumes "length h = 16" and "8 * length aad < 2 ^ 64" and "8 * length data < 2 ^ 64"
  shows "block_word (gcm_ghash h aad data) = sp_ghash (block_word h) (sp_tag_input aad data)" "length (gcm_ghash h aad data) = 16"
proof -
  let ?a = "ghash_data h (replicate 16 0) aad"
  have a: "block_word ?a = foldl (\<lambda>y x. gf128_mult (y XOR x) (block_word h)) 0 (sp_blocks aad)" "length ?a = 16"
    using ghash_data_word [OF assms(1), of "replicate 16 0" aad] by (simp_all add: block_word_0)
  have l: "length (length_block (length aad) (length data)) = 16" by (simp add: length_block_def Let_def)
  show "block_word (gcm_ghash h aad data) = sp_ghash (block_word h) (sp_tag_input aad data)"
    using ghash_data_word [OF assms(1) a(2), of data] assms l
    by (simp add: gcm_ghash_def gf_mul_word block_word_xor length_block_word sp_ghash_def sp_tag_input_def a(1))
  show "length (gcm_ghash h aad data) = 16"
    using assms(1) by (simp add: gcm_ghash_def gf_mul_word)
qed

lemma gcm_tag_word:
  assumes "table_filled g" and "length key = 16" and "length nonce = 12"
    and "8 * length aad < 2 ^ 64" and "8 * length ct < 2 ^ 64"
  shows "gcm_tag g (fips_rows key) nonce (aes128 key (replicate 16 0)) aad ct = (g, word_block (sp_tag (aes128 key) nonce aad ct))"
proof -
  have c: "take 12 nonce @ [0, 0, 0, 1] = sp_counter nonce 1"
    using assms(3) by (simp add: sp_counter_def be_bytes_4)
  have "length (sp_counter nonce 1) = 16" using assms(3) by (simp add: sp_counter_def)
  with assms have "gcm_tag g (fips_rows key) nonce (aes128 key (replicate 16 0)) aad ct =
      (g, gcm_xor_block (gcm_ghash (aes128 key (replicate 16 0)) aad ct) (aes128 key (sp_counter nonce 1)))"
    unfolding gcm_tag_def c by (simp add: block_encrypt_filled)
  moreover have "block_word (gcm_xor_block (gcm_ghash (aes128 key (replicate 16 0)) aad ct) (aes128 key (sp_counter nonce 1))) =
      sp_tag (aes128 key) nonce aad ct"
    using assms(4,5) by (simp add: block_word_xor gcm_ghash_word sp_tag_def)
  ultimately show ?thesis
    by (metis length_xor_block word_block_word)
qed

lemma filled_init: "sbox_ok g \<Longrightarrow> table_filled (gcm_sbox_init g)"
  by (simp add: table_filled_def sbox_init_ok)

lemma aead_seal_gcm:
  assumes "sbox_ok g" and "length key = 16" and "length nonce = 12"
    and "8 * length aad < 2 ^ 64" and "8 * length p < 2 ^ 64"
  defines "ct \<equiv> sp_gctr (aes128 key) nonce 2 p"
  shows "lebtls_aead_seal g (Some key) (Some nonce) (Some aad) (length aad) (Some p) (length p) (Some buf) =
    (0, Some (ct @ word_block (sp_tag (aes128 key) nonce aad ct) @ drop (length p + 16) buf), gcm_sbox_init g)"
  using filled_init [OF assms(1)] assms(1-5)
  by (simp add: lebtls_aead_seal_def key_expand_fips block_encrypt_filled gcm_ctr_def ctr_loop_gctr gcm_tag_word
      readable_def ct_def length_sp_gctr flip: fips_rows_def)

lemma aead_open_gcm:
  assumes "sbox_ok g" and "length key = 16" and "length nonce = 12" and "length t = 16"
    and "8 * length aad < 2 ^ 64" and "8 * length ct < 2 ^ 64"
  shows "lebtls_aead_open g (Some key) (Some nonce) (Some aad) (length aad) (Some (ct @ t)) (length ct + 16) (Some buf) =
    (if t = word_block (sp_tag (aes128 key) nonce aad ct)
     then (0, Some (sp_gctr (aes128 key) nonce 2 ct @ drop (length ct) buf), gcm_sbox_init g)
     else (-1, Some buf, gcm_sbox_init g))"
proof -
  let ?t = "word_block (sp_tag (aes128 key) nonce aad ct)"
  have "length ?t = 16" by (simp add: word_block_def)
  with assms(4) have "crypto_constant_compare ?t t 16 = (if ?t = t then 0 else -1)"
    by (simp add: constant_compare_correct)
  then show ?thesis
    using filled_init [OF assms(1)] assms
    by (auto simp: lebtls_aead_open_def key_expand_fips block_encrypt_filled gcm_ctr_def ctr_loop_gctr gcm_tag_word
      readable_def simp flip: fips_rows_def)
qed

text \<open>
  C6. lebtls\_aead\_seal and lebtls\_aead\_open are the two functions of GCM of SP 800-38D over
  AES-128 for twelve-byte nonces. Seal stores the ciphertext, encrypted with the counter
  blocks from 2 on, and behind it the tag, and nothing more. Open accepts exactly the tag of
  its ciphertext and data, stores the decryption then, and stores nothing otherwise.
\<close>

theorem aead_refines_gcm:
  assumes "sbox_ok g" and "length key = 16" and "length nonce = 12" and "length t = 16"
    and "8 * length aad < 2 ^ 64" and "8 * length d < 2 ^ 64"
  shows "lebtls_aead_seal g (Some key) (Some nonce) (Some aad) (length aad) (Some d) (length d) (Some buf) =
      (case sp_encrypt (fips_cipher fips_sbox key) nonce aad d of
         (ct, tag) \<Rightarrow> (0, Some (ct @ word_block tag @ drop (length d + 16) buf), gcm_sbox_init g)) \<and>
    lebtls_aead_open g (Some key) (Some nonce) (Some aad) (length aad) (Some (d @ t)) (length d + 16) (Some buf) =
      (if t = word_block (sp_tag (fips_cipher fips_sbox key) nonce aad d)
       then (0, Some (sp_gctr (fips_cipher fips_sbox key) nonce 2 d @ drop (length d) buf), gcm_sbox_init g)
       else (-1, Some buf, gcm_sbox_init g))"
  using assms
  by (simp add: aead_seal_gcm aead_open_gcm sp_encrypt_def Let_def)

theorem aead_refines_gcm_witness:
  "let g = \<lparr>gcm_sbox_tab = replicate 256 0, gcm_sbox_ready = False\<rparr>; k = replicate 16 1; n = replicate 12 2
   in lebtls_aead_seal g (Some k) (Some n) (Some [7]) 1 (Some [8, 9]) 2 (Some (replicate 20 0)) =
      (case sp_encrypt (fips_cipher fips_sbox k) n [7] [8, 9] of
         (ct, tag) \<Rightarrow> (0, Some (ct @ word_block tag @ replicate 2 0), gcm_sbox_init g))"
  using aead_refines_gcm [of "\<lparr>gcm_sbox_tab = replicate 256 0, gcm_sbox_ready = False\<rparr>" "replicate 16 1"
      "replicate 12 2" "replicate 16 0" "[7]" "[8, 9]" "replicate 20 0"]
  unfolding Let_def by (simp add: sbox_ok_def flip: numeral_2_eq_2)

end
