(* ===== verification/Traffic.thy ===== *)
theory Traffic
  imports Gcm Hkdf
begin

text \<open>
  modules/lebtls/traffic.c: the protection of TLS 1.3 records. The sequence number of a
  direction is passed by pointer and returned updated; a buffer passed by pointer is None for
  the null pointer, and the pointers for the results are one boolean. A record that is handed
  out is the list of its bytes. The outcomes of kmalloc and the contents of the memory it
  returns are arguments.
\<close>

unbundle bit_operations_syntax

definition LEBTLS_RT_APP_DATA :: u8 where
  "LEBTLS_RT_APP_DATA = 23"

definition traffic_nonce :: "u8 list \<Rightarrow> u64 \<Rightarrow> u8 list" where
  "traffic_nonce iv seq =
     foldl (\<lambda>nonce i. nonce[11 - i := nonce ! (11 - i) XOR ucast (drop_bit (i * 8) seq AND 0xFF)])
       (take 12 iv) [0..<8]"

definition traffic_header :: "u64 \<Rightarrow> u8 list" where
  "traffic_header n = [LEBTLS_RT_APP_DATA, 0x03, 0x03, ucast (drop_bit 8 n AND 0xFF), ucast (n AND 0xFF)]"

definition lebtls_traffic_seal ::
    "sbox_state \<Rightarrow> bool \<Rightarrow> u8 list option \<Rightarrow> u64 option \<Rightarrow> u8 list option \<Rightarrow> u8 list option \<Rightarrow> bool \<Rightarrow> u8 \<Rightarrow>
     u8 list option \<Rightarrow> u64 \<Rightarrow> int \<times> u64 option \<times> u8 list option \<times> sbox_state" where
  "lebtls_traffic_seal g pt_ok rec_mem seq_io key iv outs_ok outer_type inp in_len =
     (case (seq_io, key, iv) of
        (Some seq, Some k, Some v) \<Rightarrow>
          if \<not> outs_ok then (-1, seq_io, None, g)
          else if in_len > 16384 then (-1, seq_io, None, g)
          else if inp = None \<and> in_len > 0 then (-1, seq_io, None, g)
          else
            (case rec_mem of
               None \<Rightarrow> (-1, seq_io, None, g)
             | Some mem \<Rightarrow>
                 if \<not> pt_ok then (-1, seq_io, None, g)
                 else
                   (let pt = readable inp (unat in_len) @ [outer_type];
                        nonce = traffic_nonce v seq;
                        hdr = traffic_header (in_len + 1 + 16)
                    in case lebtls_aead_seal g (Some k) (Some nonce) (Some hdr) 5 (Some pt) (unat (in_len + 1))
                              (Some (drop 5 mem)) of
                         (r, out, g') \<Rightarrow>
                           if r < 0 then (-1, Some (seq + 1), None, g')
                           else (0, Some (seq + 1),
                             Some (hdr @ (case out of None \<Rightarrow> [] | Some b \<Rightarrow> take (unat (in_len + 1 + 16)) b)), g')))
      | _ \<Rightarrow> (-1, seq_io, None, g))"

definition lebtls_traffic_open ::
    "sbox_state \<Rightarrow> u8 list option \<Rightarrow> u64 option \<Rightarrow> u8 list option \<Rightarrow> u8 list option \<Rightarrow> bool \<Rightarrow> u8 list option \<Rightarrow> u64 \<Rightarrow>
     int \<times> u64 option \<times> (u8 list \<times> u8) option \<times> sbox_state" where
  "lebtls_traffic_open g pt_mem seq_io key iv outs_ok rcd rec_len =
     (case (seq_io, key, iv, rcd) of
        (Some seq, Some k, Some v, Some body) \<Rightarrow>
          if \<not> outs_ok then (-1, seq_io, None, g)
          else if rec_len < 16 then (-1, seq_io, None, g)
          else if rec_len - 16 = 0 then (-1, seq_io, None, g)
          else
            (case pt_mem of
               None \<Rightarrow> (-1, seq_io, None, g)
             | Some mem \<Rightarrow>
                 (let pt_len = rec_len - 16
                  in case lebtls_aead_open g (Some k) (Some (traffic_nonce v seq)) (Some (traffic_header rec_len)) 5
                            (Some body) (unat rec_len) (Some mem) of
                       (r, out, g') \<Rightarrow>
                         if r < 0 then (-1, seq_io, None, g')
                         else (let pt = (case out of None \<Rightarrow> [] | Some b \<Rightarrow> take (unat pt_len) b)
                               in (0, Some (seq + 1), Some (take (unat (pt_len - 1)) pt, pt ! unat (pt_len - 1)), g'))))
      | _ \<Rightarrow> (-1, seq_io, None, g))"

subsection \<open>Nonces\<close>

lemma list_of_12:
  "length xs = 12 \<Longrightarrow> \<exists>a b c d e f g h i j k l. xs = [a, b, c, d, e, f, g, h, i, j, k, l]"
  by (auto simp: numeral_eq_Suc length_Suc_conv)

text \<open>The nonce of RFC 8446, section 5.3: the sequence number, padded on the left, on the vector.\<close>

lemma traffic_nonce_rfc:
  assumes "length iv = 12"
  shows "traffic_nonce iv seq = xor_bytes iv (replicate 4 0 @ be_bytes 8 (unat seq))"
proof -
  obtain a b c d e f g h i j k l where iv: "iv = [a, b, c, d, e, f, g, h, i, j, k, l]"
    using list_of_12 [OF assms] by blast
  have up: "[0..<8] = [0, 1, 2, 3, 4, 5, 6, 7 :: nat]" by (simp add: upt_rec)
  have z: "replicate 4 0 = [0, 0, 0, 0 :: u8]" by (simp add: numeral_eq_Suc)
  have b: "be_bytes 8 (unat seq) = map (\<lambda>n. ucast (drop_bit n seq)) [56, 48, 40, 32, 24, 16, 8, 0]"
    by (simp only: be_bytes_8 byte_of_drop_bit)
  show ?thesis
    unfolding traffic_nonce_def iv up b z ucast_low_byte xor_bytes_def by simp
qed

lemma length_traffic_nonce: "length iv = 12 \<Longrightarrow> length (traffic_nonce iv seq) = 12"
  by (simp add: traffic_nonce_rfc)

lemma xor_bytes_cancel: "length a = length b \<Longrightarrow> length b = length c \<Longrightarrow> xor_bytes a b = xor_bytes a c \<Longrightarrow> b = c"
proof -
  assume l: "length a = length b" "length b = length c" and "xor_bytes a b = xor_bytes a c"
  then have "xor_bytes a b ! i = xor_bytes a c ! i" for i by simp
  then have "a ! i XOR b ! i = a ! i XOR c ! i" if "i < length b" for i
    using that l by (metis (no_types, lifting) length_zip min_less_iff_conj nth_map nth_zip split_conv xor_bytes_def)
  then have "a ! i XOR (a ! i XOR b ! i) = a ! i XOR (a ! i XOR c ! i)" if "i < length b" for i
    using that by simp
  then have "b ! i = c ! i" if "i < length b" for i
    using that by (simp add: xor.assoc [symmetric])
  with l show ?thesis by (intro nth_equalityI) simp_all
qed

lemma traffic_nonce_inj:
  assumes "length iv = 12" and "traffic_nonce iv m = traffic_nonce iv n"
  shows "m = n"
proof -
  have "replicate 4 0 @ be_bytes 8 (unat m) = replicate 4 0 @ be_bytes 8 (unat n)"
    by (rule xor_bytes_cancel [of iv]) (use assms in \<open>simp_all add: traffic_nonce_rfc\<close>)
  then have "be_val (be_bytes 8 (unat m)) = be_val (be_bytes 8 (unat n))" by simp
  moreover have "unat m < 256 ^ 8" "unat n < 256 ^ 8"
    using unsigned_less [of m, where 'a = nat] unsigned_less [of n, where 'a = nat] by simp_all
  ultimately show ?thesis by (simp add: be_val_be_bytes word_unat_eq_iff)
qed

subsection \<open>One record\<close>

text \<open>What a record of type ty with content m carries on the wire, without its header.\<close>

definition sealed :: "u8 list \<Rightarrow> u8 list \<Rightarrow> u64 \<Rightarrow> u8 list \<Rightarrow> u8 list" where
  "sealed key iv seq p =
     (let nonce = traffic_nonce iv seq; ct = sp_gctr (aes128 key) nonce 2 p
      in ct @ word_block (sp_tag (aes128 key) nonce (traffic_header (word_of_nat (length p + 16))) ct))"

lemma length_sealed: "length (sealed key iv seq p) = length p + 16"
  by (simp add: sealed_def Let_def length_sp_gctr word_block_def)

lemma length_traffic_header: "length (traffic_header n) = 5"
  by (simp add: traffic_header_def)

lemma traffic_seal_sealed:
  assumes "sbox_ok g" and "length key = 16" and "length iv = 12" and "length m \<le> 16384"
  shows "lebtls_traffic_seal g True (Some mem) (Some seq) (Some key) (Some iv) True ty (Some m) (word_of_nat (length m)) =
    (0, Some (seq + 1), Some (traffic_header (word_of_nat (length m + 17)) @ sealed key iv seq (m @ [ty])), gcm_sbox_init g)"
proof -
  define n :: u64 where "n = word_of_nat (length m)"
  define w where "w = n + 1 + 16"
  define h where "h = traffic_header w"
  have n: "unat n = length m" "(n > 16384) = False" "unat (n + 1) = length (m @ [ty])" "unat w = length m + 17"
    using assms(4) by (simp_all add: n_def w_def unat_of_nat word_less_nat_alt unat_word_ariths)
  have w: "word_of_nat (length m + 17) = w" "word_of_nat (length (m @ [ty]) + 16) = w"
    by (simp_all add: w_def n_def)
  have h: "length h = 5" by (simp add: h_def length_traffic_header)
  have pt: "readable (Some m) (unat n) @ [ty] = m @ [ty]" by (simp add: readable_def n)
  have "lebtls_aead_seal g (Some key) (Some (traffic_nonce iv seq)) (Some h) (length h) (Some (m @ [ty])) (length (m @ [ty])) (Some (drop 5 mem)) =
    (0, Some (sealed key iv seq (m @ [ty]) @ drop (length (m @ [ty]) + 16) (drop 5 mem)), gcm_sbox_init g)"
    unfolding sealed_def Let_def append_assoc w(2) h_def [symmetric]
    using assms by (intro aead_seal_gcm) (simp_all add: length_traffic_nonce h)
  note a = this [unfolded h, folded n(3)]
  have t: "take (unat w) (sealed key iv seq (m @ [ty]) @ r) = sealed key iv seq (m @ [ty])" for r
    by (simp add: n(4) length_sealed)
  show ?thesis
    unfolding lebtls_traffic_seal_def prod.case option.case Let_def n_def [symmetric] w_def [symmetric]
      h_def [symmetric] pt a t n(2) w(1) by simp
qed

definition unsealed :: "u8 list \<Rightarrow> u8 list \<Rightarrow> u64 \<Rightarrow> u8 list \<Rightarrow> u8 list" where
  "unsealed key iv seq b = sp_gctr (aes128 key) (traffic_nonce iv seq) 2 (take (length b - 16) b)"

lemma length_unsealed: "length (unsealed key iv seq b) = length b - 16"
  by (simp add: unsealed_def length_sp_gctr)

lemma unsealed_sealed: "unsealed key iv seq (sealed key iv seq p) = p"
  by (simp add: unsealed_def sealed_def Let_def word_block_def length_sp_gctr sp_gctr_twice)

lemma traffic_open_any:
  assumes "sbox_ok g" and "length key = 16" and "length iv = 12" and "16 < length b" and "length b < 2 ^ 60"
  shows "lebtls_traffic_open g (Some mem) (Some seq) (Some key) (Some iv) True (Some b) (word_of_nat (length b)) =
    (if b = sealed key iv seq (unsealed key iv seq b)
     then (0, Some (seq + 1), Some (butlast (unsealed key iv seq b), last (unsealed key iv seq b)), gcm_sbox_init g)
     else (-1, Some seq, None, gcm_sbox_init g))"
proof -
  define n :: u64 where "n = word_of_nat (length b)"
  define k where "k = length b - 16"
  define ct t where "ct = take k b" and "t = drop k b"
  define h where "h = traffic_header n"
  let ?p = "unsealed key iv seq b" and ?x = "traffic_nonce iv seq"
  have b: "b = ct @ t" "length ct = k" "length t = 16" "length b = k + 16" "0 < k"
    using assms(4) by (simp_all add: ct_def t_def k_def)
  have n0: "unat n = length b" using assms(5) by (simp add: n_def unat_of_nat)
  have n: "unat n = k + 16" "(n < 16) = False" "(n - 16 = 0) = False" "unat (n - 16) = k" "unat (n - 16 - 1) = k - 1"
    using n0 b(4,5) by (auto simp: word_less_nat_alt unat_sub_if' word_unat_eq_iff)
  have h: "length h = 5" by (simp add: h_def length_traffic_header)
  have p: "?p = sp_gctr (aes128 key) ?x 2 ct" "length ?p = k"
    by (simp_all add: unsealed_def ct_def k_def length_sp_gctr)
  have s: "sealed key iv seq ?p = ct @ word_block (sp_tag (aes128 key) ?x h ct)"
  proof -
    have "traffic_header (word_of_nat (k + 16)) = h" by (simp only: h_def n_def b(4))
    moreover have "sp_gctr (aes128 key) ?x 2 ?p = ct" by (simp only: p(1) sp_gctr_twice length_fips_cipher)
    ultimately show ?thesis by (simp only: sealed_def Let_def p(2))
  qed
  have "lebtls_aead_open g (Some key) (Some ?x) (Some h) (length h) (Some (ct @ t)) (length ct + 16) (Some mem) =
    (if t = word_block (sp_tag (aes128 key) ?x h ct)
     then (0, Some (sp_gctr (aes128 key) ?x 2 ct @ drop (length ct) mem), gcm_sbox_init g) else (-1, Some mem, gcm_sbox_init g))"
    using assms b by (intro aead_open_gcm) (simp_all add: length_traffic_nonce h)
  note a = this [unfolded h b(2) n(1) [symmetric] b(1) [symmetric] p(1) [symmetric]]
  have e: "b = sealed key iv seq ?p \<longleftrightarrow> t = word_block (sp_tag (aes128 key) ?x h ct)"
    unfolding s using b(1) by (metis same_append_eq)
  have l: "take (k - 1) ?p = butlast ?p" "?p ! (k - 1) = last ?p"
    using p(2) b(5) by (auto simp: butlast_conv_take last_conv_nth)
  show ?thesis
    unfolding lebtls_traffic_open_def prod.case option.case Let_def n_def [symmetric] h_def [symmetric] a e n(2-5)
    using l p(2) by (simp add: min_def)
qed

lemma traffic_open_short:
  assumes "length b \<le> 16"
  shows "lebtls_traffic_open g mem (Some seq) (Some key) (Some iv) True (Some b) (word_of_nat (length b)) = (-1, Some seq, None, g)"
proof -
  have n: "unat (word_of_nat (length b) :: u64) = length b" using assms by (simp add: unat_of_nat)
  show ?thesis
  proof (cases "length b < 16")
    case True
    then have "(word_of_nat (length b) :: u64) < 16" by (simp add: word_less_nat_alt n)
    then show ?thesis by (simp add: lebtls_traffic_open_def)
  next
    case False
    with assms have "length b = 16" by simp
    then show ?thesis by (simp add: lebtls_traffic_open_def)
  qed
qed

text \<open>
  C16. A record that lebtls\_traffic\_seal produces is opened by lebtls\_traffic\_open at the same
  sequence number to the same content and type, and both sequence numbers move on by one. The
  body of a record that is not exactly what sealing gives for some content at the
  sequence number of the receiver is refused, and the sequence number stays.
\<close>

theorem record_roundtrip:
  assumes "sbox_ok g" and "sbox_ok g'" and "length key = 16" and "length iv = 12"
    and "length m \<le> 16384" and "length b < 2 ^ 60"
  shows "(\<exists>body. lebtls_traffic_seal g True (Some mem) (Some seq) (Some key) (Some iv) True ty (Some m) (word_of_nat (length m)) =
      (0, Some (seq + 1), Some (traffic_header (word_of_nat (length body)) @ body), gcm_sbox_init g) \<and>
    lebtls_traffic_open g' (Some mem') (Some seq) (Some key) (Some iv) True (Some body) (word_of_nat (length body)) =
      (0, Some (seq + 1), Some (m, ty), gcm_sbox_init g')) \<and>
   ((\<forall>p. p \<noteq> [] \<longrightarrow> b \<noteq> sealed key iv seq p) \<longrightarrow>
      (\<exists>h. lebtls_traffic_open g' (Some mem') (Some seq) (Some key) (Some iv) True (Some b) (word_of_nat (length b)) =
        (-1, Some seq, None, h) \<and> sbox_ok h))"
proof (intro conjI impI)
  let ?b = "sealed key iv seq (m @ [ty])"
  have l: "length ?b = length m + 17" by (simp add: length_sealed)
  have "lebtls_traffic_open g' (Some mem') (Some seq) (Some key) (Some iv) True (Some ?b) (word_of_nat (length ?b)) =
      (0, Some (seq + 1), Some (m, ty), gcm_sbox_init g')"
    using traffic_open_any [OF assms(2,3,4), of ?b mem' seq] assms(5) l by (simp add: unsealed_sealed)
  moreover have "lebtls_traffic_seal g True (Some mem) (Some seq) (Some key) (Some iv) True ty (Some m) (word_of_nat (length m)) =
      (0, Some (seq + 1), Some (traffic_header (word_of_nat (length ?b)) @ ?b), gcm_sbox_init g)"
    unfolding l by (rule traffic_seal_sealed [OF assms(1,3,4,5)])
  ultimately show "\<exists>body. lebtls_traffic_seal g True (Some mem) (Some seq) (Some key) (Some iv) True ty (Some m) (word_of_nat (length m)) =
      (0, Some (seq + 1), Some (traffic_header (word_of_nat (length body)) @ body), gcm_sbox_init g) \<and>
    lebtls_traffic_open g' (Some mem') (Some seq) (Some key) (Some iv) True (Some body) (word_of_nat (length body)) =
      (0, Some (seq + 1), Some (m, ty), gcm_sbox_init g')"
    by blast
next
  assume no: "\<forall>p. p \<noteq> [] \<longrightarrow> b \<noteq> sealed key iv seq p"
  show "\<exists>h. lebtls_traffic_open g' (Some mem') (Some seq) (Some key) (Some iv) True (Some b) (word_of_nat (length b)) =
        (-1, Some seq, None, h) \<and> sbox_ok h"
  proof (cases "length b \<le> 16")
    case True
    then show ?thesis using assms(2) by (simp add: traffic_open_short)
  next
    case False
    then have "unsealed key iv seq b \<noteq> []" using length_unsealed [of key iv seq b] by auto
    with no have "b \<noteq> sealed key iv seq (unsealed key iv seq b)" by blast
    with False assms(2,3,4,6) show ?thesis by (simp add: traffic_open_any sbox_init_ok)
  qed
qed

definition empty_table :: sbox_state where
  "empty_table = \<lparr>gcm_sbox_tab = replicate 256 0, gcm_sbox_ready = False\<rparr>"

lemma empty_table_ok: "sbox_ok empty_table"
  by (simp add: empty_table_def sbox_ok_def)

theorem record_roundtrip_witness:
  "\<exists>body. lebtls_traffic_seal empty_table True (Some []) (Some 3) (Some (replicate 16 1)) (Some (replicate 12 2)) True 23
      (Some [5, 6]) 2 = (0, Some 4, Some (traffic_header (word_of_nat (length body)) @ body), gcm_sbox_init empty_table) \<and>
    lebtls_traffic_open empty_table (Some []) (Some 3) (Some (replicate 16 1)) (Some (replicate 12 2)) True (Some body)
      (word_of_nat (length body)) = (0, Some 4, Some ([5, 6], 23), gcm_sbox_init empty_table)"
  using record_roundtrip [of empty_table empty_table "replicate 16 1" "replicate 12 2" "[5, 6]" "[]" "[]" 3 23 "[]"]
  by (simp add: empty_table_ok)

text \<open>
  C38. The padding that RFC 8446, section 5.4, lets a peer append to the content is not removed:
  a record sealed with k + 1 zero bytes behind its type is opened as one of type 0, whose content
  ends with the type and k zero bytes, and every caller refuses a record of type 0.
\<close>

theorem padding_not_removed:
  assumes "sbox_ok g" and "length key = 16" and "length iv = 12" and "length m + k < 2 ^ 32"
  shows "(let body = sealed key iv seq (m @ [ty] @ replicate (Suc k) 0)
    in lebtls_traffic_open g (Some mem) (Some seq) (Some key) (Some iv) True (Some body) (word_of_nat (length body)) =
      (0, Some (seq + 1), Some (m @ [ty] @ replicate k 0, 0), gcm_sbox_init g))"
proof -
  let ?p = "m @ [ty] @ replicate (Suc k) 0"
  let ?b = "sealed key iv seq ?p"
  have "butlast ?p = m @ [ty] @ replicate k 0" "last ?p = 0"
    by (simp_all add: butlast_append butlast_conv_take [of "replicate (Suc k) 0"] del: replicate.simps(2))
  then show ?thesis
    unfolding Let_def using assms traffic_open_any [OF assms(1,2,3), of ?b mem seq]
    by (simp add: unsealed_sealed length_sealed del: replicate.simps(2))
qed

theorem padding_not_removed_witness:
  "(let body = sealed (replicate 16 1) (replicate 12 2) 0 ([5, 6] @ [23] @ replicate 1 0)
    in lebtls_traffic_open empty_table (Some []) (Some 0) (Some (replicate 16 1)) (Some (replicate 12 2)) True (Some body)
      (word_of_nat (length body)) = (0, Some 1, Some ([5, 6, 23], 0), gcm_sbox_init empty_table))"
  using padding_not_removed [of empty_table "replicate 16 1" "replicate 12 2" "[5, 6]" 0 0 23 "[]"]
  by (simp add: empty_table_ok)

end
