(* ===== verification/Traffic_Auth.thy ===== *)
theory Traffic_Auth
  imports Traffic
begin

text \<open>
  What the receivers of protected records rely on. A body authenticates at a sequence number
  when its last sixteen bytes are the GCM tag of RFC 8446, section 5.2, for the nonce of that
  number; this is stated apart from the code of traffic.c. The locale record\_protection is the
  contract of sealing and opening, interpreted on traffic.c; its clients are the two ends of a
  connection in the theories Tls\_Channel and Tls\_Conn.
\<close>

unbundle bit_operations_syntax

definition record_nonce :: "u8 list \<Rightarrow> u64 \<Rightarrow> u8 list" where
  "record_nonce iv seq = xor_bytes iv (replicate 4 0 @ be_bytes 8 (unat seq))"

definition record_header :: "nat \<Rightarrow> u8 list" where
  "record_header n = [23, 3, 3] @ be_bytes 2 n"

definition valid_tag :: "u8 list \<Rightarrow> u8 list \<Rightarrow> u8 list \<Rightarrow> bool" where
  "valid_tag key nonce b \<longleftrightarrow> 16 < length b \<and>
     drop (length b - 16) b =
       word_block (sp_tag (fips_cipher fips_sbox key) nonce (record_header (length b)) (take (length b - 16) b))"

subsection \<open>The contract of record protection\<close>

text \<open>
  A log lists what was sealed: for each message the nonce of its index from a first number on,
  and the body. The first number is that of the first message.
\<close>

definition logged :: "(u64 \<Rightarrow> 'n) \<Rightarrow> (u64 \<Rightarrow> 'm \<Rightarrow> 'b) \<Rightarrow> u64 \<Rightarrow> ('n \<times> 'b) list \<Rightarrow> 'm list \<Rightarrow> bool" where
  "logged nonce seal s made sent \<longleftrightarrow>
     length made = length sent \<and>
     (\<forall>i < length sent. made ! i = (nonce (s + word_of_nat i), seal (s + word_of_nat i) (sent ! i)))"

lemma logged_Nil [simp]: "logged nonce seal s [] []"
  by (simp add: logged_def)

lemma logged_snoc:
  "logged nonce seal s made sent \<Longrightarrow>
   logged nonce seal s (made @ [(nonce (s + word_of_nat (length sent)), seal (s + word_of_nat (length sent)) m)]) (sent @ [m])"
  by (auto simp: logged_def nth_append less_Suc_eq)

lemma index_of_number:
  assumes "s + word_of_nat i = s + (word_of_nat j :: u64)" and "i < 2 ^ 64" and "j < 2 ^ 64"
  shows "i = j"
proof -
  have "unat (word_of_nat i :: u64) = unat (word_of_nat j :: u64)" using assms(1) by simp
  then show ?thesis using assms(2,3) by (simp add: unat_of_nat)
qed

locale record_protection =
  fixes seal :: "u64 \<Rightarrow> 'm \<Rightarrow> 'b" and opened :: "u64 \<Rightarrow> 'b \<Rightarrow> 'm option"
  assumes opened_iff: "opened n b = Some m \<longleftrightarrow> b = seal n m"
begin

lemma seal_inj: "seal n m = seal n m' \<Longrightarrow> m = m'"
  using opened_iff [of n "seal n m"] by (metis option.inject)

text \<open>
  What the log holds under the nonce of a number was sealed under that number, as long as
  numbers do not wrap and different numbers have different nonces.
\<close>

lemma logged_number:
  assumes "logged nonce seal s made sent" and "inj nonce" and "length sent \<le> 2 ^ 64" and "j < 2 ^ 64"
    and "(nonce (s + word_of_nat j), b) \<in> set made"
  shows "j < length sent \<and> b = seal (s + word_of_nat j) (sent ! j)"
proof -
  from assms(1,5) obtain i where i: "i < length sent" "nonce (s + word_of_nat j) = nonce (s + word_of_nat i)"
      "b = seal (s + word_of_nat i) (sent ! i)"
    by (auto simp: logged_def in_set_conv_nth)
  then have "j = i" using index_of_number [of s j i] assms(2-4) by (auto dest: injD)
  with i show ?thesis by simp
qed

lemma accepted_message:
  assumes "logged nonce seal s made sent" and "inj nonce" and "length sent \<le> 2 ^ 64" and "j < 2 ^ 64"
    and "(nonce (s + word_of_nat j), b) \<in> set made" and "opened (s + word_of_nat j) b = Some x"
  shows "j < length sent \<and> x = sent ! j"
  using logged_number [OF assms(1-5)] assms(6) by (auto simp: opened_iff dest: seal_inj)

end

definition record_seal :: "u8 list \<Rightarrow> u8 list \<Rightarrow> u64 \<Rightarrow> u8 list \<times> u8 \<Rightarrow> u8 list" where
  "record_seal key iv seq x = sealed key iv seq (fst x @ [snd x])"

definition record_opened :: "u8 list \<Rightarrow> u8 list \<Rightarrow> u64 \<Rightarrow> u8 list \<Rightarrow> (u8 list \<times> u8) option" where
  "record_opened key iv seq b =
     (let p = unsealed key iv seq b
      in if 16 < length b \<and> b = sealed key iv seq p then Some (butlast p, last p) else None)"

interpretation rp: record_protection "record_seal key iv" "record_opened key iv" for key iv
proof
  fix n :: u64 and b and x :: "u8 list \<times> u8"
  have "unsealed key iv n b \<noteq> []" if "16 < length b" using length_unsealed [of key iv n b] that by auto
  then show "record_opened key iv n b = Some x \<longleftrightarrow> b = record_seal key iv n x"
    by (cases x) (auto simp: record_opened_def record_seal_def Let_def unsealed_sealed length_sealed)
qed

subsection \<open>Nonces and tags of the standard\<close>

lemma nonce_record: "length iv = 12 \<Longrightarrow> traffic_nonce iv seq = record_nonce iv seq"
  by (simp add: traffic_nonce_rfc record_nonce_def)

lemma inj_record_nonce: "length iv = 12 \<Longrightarrow> inj (record_nonce iv)"
  by (auto simp: inj_def traffic_nonce_inj simp flip: nonce_record)

lemma header_record: "n < 2 ^ 64 \<Longrightarrow> traffic_header (word_of_nat n) = record_header n"
  using be_bytes_2 [of "word_of_nat n"]
  by (simp add: traffic_header_def record_header_def LEBTLS_RT_APP_DATA_def unat_of_nat)

lemma valid_tag_opened:
  assumes "length iv = 12" and "length b < 2 ^ 64"
  shows "valid_tag key (record_nonce iv seq) b \<longleftrightarrow> record_opened key iv seq b \<noteq> None"
proof (cases "16 < length b")
  case True
  let ?p = "unsealed key iv seq b" and ?ct = "take (length b - 16) b"
  have h: "traffic_header (word_of_nat (length ?p + 16)) = record_header (length b)"
    using True assms(2) header_record [of "length b"] by (simp add: length_unsealed)
  have ct: "sp_gctr (aes128 key) (traffic_nonce iv seq) 2 ?p = ?ct"
    unfolding unsealed_def by (simp add: sp_gctr_twice)
  have "sealed key iv seq ?p = ?ct @ word_block (sp_tag (aes128 key) (record_nonce iv seq) (record_header (length b)) ?ct)"
    unfolding sealed_def Let_def h ct by (simp only: nonce_record [OF assms(1)])
  then have "b = sealed key iv seq ?p \<longleftrightarrow>
      drop (length b - 16) b = word_block (sp_tag (aes128 key) (record_nonce iv seq) (record_header (length b)) ?ct)"
    by (metis append_take_drop_id same_append_eq)
  with True show ?thesis by (simp add: valid_tag_def record_opened_def Let_def)
qed (simp add: valid_tag_def record_opened_def Let_def)

lemma open_result:
  assumes "sbox_ok g" and "length key = 16" and "length iv = 12" and "length b < 2 ^ 60"
    and op: "lebtls_traffic_open g mem (Some seq) (Some key) (Some iv) True (Some b) (word_of_nat (length b)) = (r, s, x, g')"
  shows "sbox_ok g'" and "x = None \<longrightarrow> s = Some seq"
    and "x \<noteq> None \<longrightarrow> s = Some (seq + 1) \<and> x = record_opened key iv seq b"
proof -
  have "sbox_ok g' \<and> (x = None \<longrightarrow> s = Some seq) \<and>
    (x \<noteq> None \<longrightarrow> s = Some (seq + 1) \<and> x = record_opened key iv seq b)"
  proof (cases "length b \<le> 16")
    case True
    with op assms(1) show ?thesis by (simp add: traffic_open_short)
  next
    case False
    show ?thesis
    proof (cases mem)
      case None
      with op assms(1) show ?thesis by (auto simp: lebtls_traffic_open_def split: if_splits)
    next
      case (Some mm)
      with False op assms(1) traffic_open_any [OF assms(1-3) _ assms(4), of mm seq] sbox_init_ok [OF assms(1)]
      show ?thesis by (auto simp: record_opened_def Let_def split: if_splits)
    qed
  qed
  then show "sbox_ok g'" and "x = None \<longrightarrow> s = Some seq"
    and "x \<noteq> None \<longrightarrow> s = Some (seq + 1) \<and> x = record_opened key iv seq b"
    by auto
qed

end
