(* ===== verification/Tls_Channel.thy ===== *)
theory Tls_Channel
  imports Traffic_Auth "HOL-Library.Sublist"
begin

text \<open>
  One direction of a protected connection under an adversary: any interleaving of
  lebtls\_traffic\_seal at one end and lebtls\_traffic\_open at the other, where the network may
  hand the receiver any bytes at all, lost, repeated, reordered or changed. Three histories
  are kept beside the state of the two ends: what the sender gave and the nonce and body of
  every record it made, what the receiver accepted, and whether the network ever delivered a
  body that carries a valid tag for the nonce the receiver used and that the sender did not
  make under this nonce, which is to forge a tag of GCM. The last one looks at what is
  delivered, never at what the code answers.
\<close>

subsection \<open>The channel\<close>

record channel =
  ch_write_seq :: u64
  ch_read_seq :: u64
  ch_tx :: sbox_state
  ch_rx :: sbox_state
  ch_sent :: "(u8 list \<times> u8) list"
  ch_log :: "(u8 list \<times> u8 list) list"
  ch_got :: "(u8 list \<times> u8) list"
  ch_forged :: bool

definition channel_start :: "sbox_state \<Rightarrow> sbox_state \<Rightarrow> channel" where
  "channel_start g h =
     \<lparr>ch_write_seq = 0, ch_read_seq = 0, ch_tx = g, ch_rx = h, ch_sent = [], ch_log = [], ch_got = [], ch_forged = False\<rparr>"

definition forged_tag :: "u8 list \<Rightarrow> u8 list \<Rightarrow> channel \<Rightarrow> u8 list \<Rightarrow> bool" where
  "forged_tag key iv c b \<longleftrightarrow>
     valid_tag key (record_nonce iv (ch_read_seq c)) b \<and> (record_nonce iv (ch_read_seq c), b) \<notin> set (ch_log c)"

inductive channel_step :: "u8 list \<Rightarrow> u8 list \<Rightarrow> channel \<Rightarrow> channel \<Rightarrow> bool" for key iv where
  seal: "lebtls_traffic_seal (ch_tx c) pt_ok mem (Some (ch_write_seq c)) (Some key) (Some iv) True ty (Some m) (word_of_nat (length m)) =
      (0, Some s, Some rcd, g) \<Longrightarrow> length m < 2 ^ 64 \<Longrightarrow>
    channel_step key iv c (c\<lparr>ch_write_seq := s, ch_tx := g, ch_sent := ch_sent c @ [(m, ty)],
      ch_log := ch_log c @ [(record_nonce iv (ch_write_seq c), drop 5 rcd)]\<rparr>)"
| seal_fails: "lebtls_traffic_seal (ch_tx c) pt_ok mem (Some (ch_write_seq c)) (Some key) (Some iv) True ty (Some m) (word_of_nat (length m)) =
      (-1, Some s, None, g) \<Longrightarrow> length m < 2 ^ 64 \<Longrightarrow>
    channel_step key iv c (c\<lparr>ch_write_seq := s, ch_tx := g\<rparr>)"
| deliver: "lebtls_traffic_open (ch_rx c) mem (Some (ch_read_seq c)) (Some key) (Some iv) True (Some b) (word_of_nat (length b)) =
      (r, Some s, x, g) \<Longrightarrow> length b < 2 ^ 60 \<Longrightarrow>
    channel_step key iv c
      (c\<lparr>ch_read_seq := s, ch_rx := g, ch_got := ch_got c @ (case x of None \<Rightarrow> [] | Some y \<Rightarrow> [y]),
         ch_forged := (ch_forged c \<or> forged_tag key iv c b)\<rparr>)"

inductive channel_reach :: "u8 list \<Rightarrow> u8 list \<Rightarrow> channel \<Rightarrow> bool" for key iv where
  start: "sbox_ok g \<Longrightarrow> sbox_ok h \<Longrightarrow> channel_reach key iv (channel_start g h)"
| step: "channel_reach key iv c \<Longrightarrow> channel_step key iv c d \<Longrightarrow> channel_reach key iv d"

definition channel_inv :: "u8 list \<Rightarrow> u8 list \<Rightarrow> channel \<Rightarrow> bool" where
  "channel_inv key iv c \<longleftrightarrow>
     sbox_ok (ch_tx c) \<and> sbox_ok (ch_rx c) \<and>
     ch_write_seq c = word_of_nat (length (ch_sent c)) \<and> ch_read_seq c = word_of_nat (length (ch_got c)) \<and>
     logged (record_nonce iv) (record_seal key iv) 0 (ch_log c) (ch_sent c) \<and>
     (\<not> ch_forged c \<and> length (ch_sent c) < 2 ^ 64 \<longrightarrow> prefix (ch_got c) (ch_sent c))"

subsection \<open>What one call can do\<close>

lemma seal_success:
  assumes "sbox_ok g" and "length key = 16" and "length iv = 12" and "length m < 2 ^ 64"
    and seal: "lebtls_traffic_seal g p mem (Some seq) (Some key) (Some iv) True ty (Some m) (word_of_nat (length m)) = (0, s, rcd, g')"
  shows "s = Some (seq + 1)" and "rcd = Some (traffic_header (word_of_nat (length m + 17)) @ sealed key iv seq (m @ [ty]))"
    and "sbox_ok g'"
proof -
  have n: "unat (word_of_nat (length m) :: u64) = length m" using assms(4) by (simp add: unat_of_nat)
  have "length m \<le> 16384"
    using seal by (auto simp: lebtls_traffic_seal_def word_less_nat_alt n split: if_splits)
  moreover have "p" and "mem \<noteq> None"
    using seal by (auto simp: lebtls_traffic_seal_def split: if_splits option.splits)
  moreover from \<open>mem \<noteq> None\<close> obtain b where "mem = Some b" by blast
  ultimately have "(0 :: int, s, rcd, g') = (0, Some (seq + 1), Some (traffic_header (word_of_nat (length m + 17)) @ sealed key iv seq (m @ [ty])), gcm_sbox_init g)"
    using traffic_seal_sealed [OF assms(1-3), of m b seq ty] seal by simp
  then show "s = Some (seq + 1)" "rcd = Some (traffic_header (word_of_nat (length m + 17)) @ sealed key iv seq (m @ [ty]))" "sbox_ok g'"
    using sbox_init_ok [OF assms(1)] by simp_all
qed

lemma seal_failure:
  assumes "sbox_ok g" and "length key = 16" and "length iv = 12" and "length m < 2 ^ 64"
    and seal: "lebtls_traffic_seal g p mem (Some seq) (Some key) (Some iv) True ty (Some m) (word_of_nat (length m)) = (-1, s, rcd, g')"
  shows "s = Some seq \<and> g' = g"
proof (cases "p \<and> mem \<noteq> None \<and> length m \<le> 16384")
  case True
  then obtain b where "mem = Some b" by blast
  with True traffic_seal_sealed [OF assms(1-3), of m b seq ty] seal show ?thesis by simp
next
  case False
  have "unat (word_of_nat (length m) :: u64) = length m" using assms(4) by (simp add: unat_of_nat)
  with False seal show ?thesis
    by (auto simp: lebtls_traffic_seal_def word_less_nat_alt split: if_splits option.splits)
qed

subsection \<open>The invariant\<close>

lemma channel_seal_inv:
  assumes k: "length key = 16" "length iv = 12" and inv: "channel_inv key iv c" and "length m < 2 ^ 64"
    and seal: "lebtls_traffic_seal (ch_tx c) p mem (Some (ch_write_seq c)) (Some key) (Some iv) True ty (Some m)
      (word_of_nat (length m)) = (0, Some s, Some rcd, g)"
  shows "channel_inv key iv (c\<lparr>ch_write_seq := s, ch_tx := g, ch_sent := ch_sent c @ [(m, ty)],
    ch_log := ch_log c @ [(record_nonce iv (ch_write_seq c), drop 5 rcd)]\<rparr>)"
proof -
  have tx: "sbox_ok (ch_tx c)" and w: "ch_write_seq c = word_of_nat (length (ch_sent c))" using inv by (simp_all add: channel_inv_def)
  note r = seal_success [OF tx k assms(4) seal]
  have "drop 5 rcd = record_seal key iv (0 + word_of_nat (length (ch_sent c))) (m, ty)"
    using r(2) w by (simp add: length_traffic_header record_seal_def)
  moreover have "s = word_of_nat (length (ch_sent c)) + 1" using r(1) w by simp
  ultimately show ?thesis
    using inv r(3) w logged_snoc [of "record_nonce iv" "record_seal key iv" 0 "ch_log c" "ch_sent c" "(m, ty)"]
    by (auto simp: channel_inv_def)
qed

text \<open>
  A body that is delivered and accepted carries a valid tag, so, unless it is forged, the log
  has it under the nonce of the receiver, which is that of one message only.
\<close>

lemma channel_deliver_inv:
  assumes k: "length key = 16" "length iv = 12" and inv: "channel_inv key iv c" and "length b < 2 ^ 60"
    and op: "lebtls_traffic_open (ch_rx c) mem (Some (ch_read_seq c)) (Some key) (Some iv) True (Some b)
      (word_of_nat (length b)) = (r, Some s, x, g)"
  shows "channel_inv key iv (c\<lparr>ch_read_seq := s, ch_rx := g, ch_got := ch_got c @ (case x of None \<Rightarrow> [] | Some y \<Rightarrow> [y]),
     ch_forged := (ch_forged c \<or> forged_tag key iv c b)\<rparr>)"
proof -
  let ?n = "length (ch_got c)"
  have rx: "sbox_ok (ch_rx c)" and w: "ch_read_seq c = word_of_nat ?n" using inv by (simp_all add: channel_inv_def)
  note o = open_result [OF rx k assms(4) op]
  show ?thesis
  proof (cases x)
    case None
    with inv o show ?thesis by (simp add: channel_inv_def)
  next
    case (Some y)
    have y: "s = word_of_nat ?n + 1" "record_opened key iv (0 + word_of_nat ?n) b = Some y"
      using o(3) Some w by simp_all
    have "prefix (ch_got c @ [y]) (ch_sent c)"
      if "\<not> ch_forged c" "\<not> forged_tag key iv c b" "length (ch_sent c) < 2 ^ 64"
    proof -
      have p: "prefix (ch_got c) (ch_sent c)" using inv that by (simp add: channel_inv_def)
      then have n: "?n < 2 ^ 64" using that(3) prefix_length_le [OF p] by simp
      have "valid_tag key (record_nonce iv (0 + word_of_nat ?n)) b"
        using y(2) valid_tag_opened [OF k(2), of b key] assms(4) by simp
      then have "(record_nonce iv (0 + word_of_nat ?n), b) \<in> set (ch_log c)"
        using that(2) w by (simp add: forged_tag_def)
      with rp.accepted_message [of "record_nonce iv" key iv 0 "ch_log c" "ch_sent c" ?n b y] inv inj_record_nonce [OF k(2)] that(3) n y(2)
      have "?n < length (ch_sent c)" "y = ch_sent c ! ?n" by (simp_all add: channel_inv_def)
      with p show ?thesis by (auto simp: prefix_def nth_append neq_Nil_conv split: if_splits)
    qed
    with inv o(1) y(1) Some show ?thesis by (simp add: channel_inv_def)
  qed
qed

lemma channel_step_inv:
  assumes k: "length key = 16" "length iv = 12" and "channel_step key iv c d" and inv: "channel_inv key iv c"
  shows "channel_inv key iv d"
  using assms(3)
proof cases
  case (seal pt_ok mem ty m s rcd g)
  show ?thesis unfolding seal(1) by (rule channel_seal_inv [OF k inv seal(3,2)])
next
  case (seal_fails pt_ok mem ty m s g)
  with seal_failure [OF _ k seal_fails(3,2)] inv show ?thesis
    by (simp add: channel_inv_def)
next
  case (deliver mem b r s x g)
  show ?thesis unfolding deliver(1) by (rule channel_deliver_inv [OF k inv deliver(3,2)])
qed

lemma channel_reach_inv:
  assumes "length key = 16" "length iv = 12" and "channel_reach key iv c"
  shows "channel_inv key iv c"
  using assms(3)
proof induction
  case (start g h)
  then show ?case by (simp add: channel_inv_def channel_start_def)
next
  case (step c d)
  then show ?case using channel_step_inv [OF assms(1,2)] by blast
qed

text \<open>
  C7. In every state that sealing, opening and an arbitrary network can bring a direction of a
  connection to, as long as the network delivered no forged tag and fewer than 2 to the 64
  records were sealed, what the receiver accepted is a prefix of what the sender sealed, each
  with its type: nothing is lost, repeated, reordered or changed unnoticed. The record
  number i was sealed under the nonce of i, and no nonce was used twice.
\<close>

theorem channel_in_order:
  assumes "length key = 16" and "length iv = 12" and "channel_reach key iv c" and "length (ch_sent c) < 2 ^ 64"
  shows "(\<not> ch_forged c \<longrightarrow> prefix (ch_got c) (ch_sent c)) \<and>
    ch_log c = map (\<lambda>i. (record_nonce iv (word_of_nat i),
      sealed key iv (word_of_nat i) (fst (ch_sent c ! i) @ [snd (ch_sent c ! i)]))) [0..<length (ch_sent c)] \<and>
    distinct (map fst (ch_log c))"
proof -
  note inv = channel_reach_inv [OF assms(1-3)]
  have log: "ch_log c = map (\<lambda>i. (record_nonce iv (word_of_nat i),
      sealed key iv (word_of_nat i) (fst (ch_sent c ! i) @ [snd (ch_sent c ! i)]))) [0..<length (ch_sent c)]"
    using inv by (intro nth_equalityI) (auto simp: channel_inv_def logged_def record_seal_def)
  have "inj_on (\<lambda>i. record_nonce iv (word_of_nat i)) {0..<length (ch_sent c)}"
    using assms(4) index_of_number [of 0] by (auto intro!: inj_onI dest!: injD [OF inj_record_nonce [OF assms(2)]])
  then have "distinct (map fst (ch_log c))" unfolding log by (simp add: distinct_map comp_def)
  with inv log assms(4) show ?thesis by (simp add: channel_inv_def)
qed

text \<open>One record is sealed, delivered and accepted.\<close>

lemma channel_one_record:
  "\<exists>c. channel_reach (replicate 16 1) (replicate 12 2) c \<and> ch_sent c = [([5, 6], 23)] \<and> ch_got c \<noteq> [] \<and> \<not> ch_forged c"
proof -
  let ?k = "replicate 16 1" and ?v = "replicate 12 2" and ?c0 = "channel_start empty_table empty_table"
  let ?b = "sealed ?k ?v 0 [5, 6, 23]" and ?g = "gcm_sbox_init empty_table"
  let ?c1 = "?c0\<lparr>ch_write_seq := 1, ch_tx := ?g, ch_sent := [([5, 6], 23)], ch_log := [(record_nonce ?v 0, ?b)]\<rparr>"
  have "channel_step ?k ?v ?c0 ?c1"
    using channel_step.seal [of ?c0 True "Some []" ?k ?v 23 "[5, 6]"]
      traffic_seal_sealed [OF empty_table_ok, of ?k ?v "[5, 6]" "[]" 0 23]
    by (simp add: channel_start_def length_traffic_header)
  then have r1: "channel_reach ?k ?v ?c1"
    using channel_reach.step [OF channel_reach.start [OF empty_table_ok empty_table_ok]] by blast
  have l: "length ?b = 19" by (simp add: length_sealed)
  have "lebtls_traffic_open empty_table (Some []) (Some 0) (Some ?k) (Some ?v) True (Some ?b) (word_of_nat (length ?b)) =
      (0, Some 1, Some ([5, 6], 23), ?g)"
    using traffic_open_any [OF empty_table_ok, of ?k ?v ?b "[]" 0] l by (simp add: unsealed_sealed)
  then have "channel_step ?k ?v ?c1 (?c1\<lparr>ch_read_seq := 1, ch_rx := ?g, ch_got := [([5, 6], 23)], ch_forged := forged_tag ?k ?v ?c1 ?b\<rparr>)"
    using channel_step.deliver [of ?c1 "Some []" ?k ?v ?b 0 1 "Some ([5, 6], 23)" ?g] l by (simp add: channel_start_def)
  moreover have "\<not> forged_tag ?k ?v ?c1 ?b" by (simp add: forged_tag_def channel_start_def)
  ultimately show ?thesis using channel_reach.step [OF r1] by fastforce
qed

theorem channel_in_order_witness:
  "\<exists>c. channel_reach (replicate 16 1) (replicate 12 2) c \<and> ch_sent c = [([5, 6], 23)] \<and> ch_got c = [([5, 6], 23)] \<and>
     ch_log c = [(record_nonce (replicate 12 2) 0, sealed (replicate 16 1) (replicate 12 2) 0 [5, 6, 23])]"
proof -
  obtain c where c: "channel_reach (replicate 16 1) (replicate 12 2) c" "ch_sent c = [([5, 6], 23)]" "ch_got c \<noteq> []" "\<not> ch_forged c"
    using channel_one_record by blast
  note p = channel_in_order [OF _ _ c(1)]
  have "prefix (ch_got c) [([5, 6], 23)]" using p c(2,4) by simp
  with c(3) have "ch_got c = [([5, 6], 23)]" by (auto simp: prefix_Cons)
  moreover have "ch_log c = [(record_nonce (replicate 12 2) 0, sealed (replicate 16 1) (replicate 12 2) 0 [5, 6, 23])]"
    using p c(2) by simp
  ultimately show ?thesis using c(1,2) by blast
qed

end
