(* ===== verification/Tls_Record.thy ===== *)
theory Tls_Record
  imports Traffic
begin

text \<open>
  modules/lebtls/record.c: sending and receiving TLS records over a TCP socket. The socket is
  a value of an arbitrary type and the calls on it are arguments: tcp\_recv, which gives None
  for a negative result and otherwise the bytes it stored, tcp\_send with its int result,
  which is negative, the number of bytes sent, or a smaller positive number when a segment
  after the first cannot be sent (tcp.c, lines 337 to 368), the test of the socket state, and task\_has\_pending\_signals, read at the time of the call. A write through the null
  pointer is an outcome of its own. Counts of received bytes are natural numbers, since they
  stay below 2 to the 15.
\<close>

unbundle bit_operations_syntax

record 't tcp_ops =
  op_recv :: "'t \<Rightarrow> nat \<Rightarrow> u8 list option \<times> 't"
  op_send :: "'t \<Rightarrow> u8 list \<Rightarrow> int \<times> 't"
  op_closed :: "'t \<Rightarrow> bool"
  op_pending :: "'t \<Rightarrow> bool"

datatype outcome = Ret int | Null_write

record tls_conn =
  rec_hdr :: "u8 list"
  rec_buf :: "u8 list option"
  rec_got :: nat
  app_key_tx :: "u8 list"
  app_key_rx :: "u8 list"
  app_iv_tx :: "u8 list"
  app_iv_rx :: "u8 list"
  app_read_seq :: u64
  app_write_seq :: u64
  stash :: "u8 list"
  stash_cap :: u64
  handshake_done :: bool

definition lebtls_rec_send ::
    "'t tcp_ops \<Rightarrow> bool \<Rightarrow> 't option \<Rightarrow> u8 \<Rightarrow> u8 list option \<Rightarrow> u64 \<Rightarrow> int \<times> 't option" where
  "lebtls_rec_send ops kmalloc_ok tcp type data len =
     (case tcp of
        None \<Rightarrow> (-1, tcp)
      | Some t \<Rightarrow>
          if len > 16384 then (-1, tcp)
          else if len > 0 \<and> data = None then (-1, tcp)
          else if \<not> kmalloc_ok then (-1, tcp)
          else
            (let rcd = [type, 0x03, 0x03, ucast (drop_bit 8 len AND 0xFF), ucast (len AND 0xFF)] @
                       readable data (unat len)
             in case op_send ops t rcd of (r, t') \<Rightarrow> (if r < 0 then -1 else 0, Some t')))"

function recv_fill_loop ::
    "'t tcp_ops \<Rightarrow> nat \<Rightarrow> nat \<Rightarrow> 't \<Rightarrow> u8 list option \<Rightarrow> nat \<Rightarrow> nat \<Rightarrow> outcome \<times> 't \<times> u8 list option \<times> nat" where
  "recv_fill_loop ops max_rounds len t buf got rounds =
     (if got < len then
        if op_pending ops t then (Ret (-1), t, buf, got)
        else
          (case op_recv ops t (len - got) of
             (None, t') \<Rightarrow> (Ret (-1), t', buf, got)
           | (Some [], t') \<Rightarrow>
               if op_closed ops t' then (Ret (-1), t', buf, got)
               else if max_rounds \<le> Suc rounds then (Ret 0, t', buf, got)
               else recv_fill_loop ops max_rounds len t' buf got (Suc rounds)
           | (Some (b # bs), t') \<Rightarrow>
               (case buf of
                  None \<Rightarrow> (Null_write, t', buf, got)
                | Some m \<Rightarrow>
                    recv_fill_loop ops max_rounds len t' (Some (put_bytes m got (b # bs)))
                      (got + length (b # bs)) 0))
      else (Ret 1, t, buf, got))"
  by pat_completeness auto
termination
  by (relation "(\<lambda>(ops, max_rounds, len, t, buf, got, rounds). len - got) <*mlex*>
        measure (\<lambda>(ops, max_rounds, len, t, buf, got, rounds). max_rounds - rounds)")
     (auto simp: mlex_prod_def wf_mlex)

declare recv_fill_loop.simps [simp del]

definition lebtls_recv_fill ::
    "'t tcp_ops \<Rightarrow> 't \<Rightarrow> u8 list option \<Rightarrow> nat \<Rightarrow> nat \<Rightarrow> u64 \<Rightarrow> outcome \<times> 't \<times> u8 list option \<times> nat" where
  "lebtls_recv_fill ops t buf len got timeout_ms = recv_fill_loop ops (unat (timeout_ms div 1000 + 2)) len t buf got 0"

definition header_len :: "u8 list \<Rightarrow> nat" where
  "header_len hdr = unat (push_bit 8 (ucast (hdr ! 3)) OR ucast (hdr ! 4) :: u64)"

text \<open>The second half of lebtls\_rec\_recv, once the header is there.\<close>

definition rec_recv_body ::
    "'t tcp_ops \<Rightarrow> 't \<Rightarrow> tls_conn \<Rightarrow> u64 \<Rightarrow> outcome \<times> (u8 \<times> u8 list option \<times> nat) option \<times> tls_conn \<times> 't" where
  "rec_recv_body ops t conn timeout_ms =
     (let len = header_len (rec_hdr conn)
      in case lebtls_recv_fill ops t (rec_buf conn) len (rec_got conn - 5) timeout_ms of
           (r, t', buf, body) \<Rightarrow>
             (let conn' = conn\<lparr>rec_buf := buf, rec_got := 5 + body\<rparr>
              in if r = Ret 1 then
                   (Ret 1, Some (rec_hdr conn ! 0, buf, len), conn'\<lparr>rec_buf := None, rec_got := 0\<rparr>, t')
                 else (r, None, conn', t')))"

definition lebtls_rec_recv ::
    "'t tcp_ops \<Rightarrow> (nat \<Rightarrow> u8 list option) \<Rightarrow> bool \<Rightarrow> 't \<Rightarrow> tls_conn \<Rightarrow> u64 \<Rightarrow>
     outcome \<times> (u8 \<times> u8 list option \<times> nat) option \<times> tls_conn \<times> 't" where
  "lebtls_rec_recv ops kmalloc ptrs_ok t conn timeout_ms =
     (if \<not> ptrs_ok then (Ret (-1), None, conn, t)
      else if rec_got conn < 5 then
        (case lebtls_recv_fill ops t (Some (rec_hdr conn)) 5 (rec_got conn) timeout_ms of
           (r, t', hdr, got) \<Rightarrow>
             (let conn' = conn\<lparr>rec_hdr := (case hdr of None \<Rightarrow> rec_hdr conn | Some h \<Rightarrow> h), rec_got := got\<rparr>
              in if r \<noteq> Ret 1 then (r, None, conn', t')
                 else
                   (let len = header_len (rec_hdr conn')
                    in if len > 16384 + 256 then (Ret (-1), None, conn', t')
                       else if len > 0 then
                         (case kmalloc len of
                            None \<Rightarrow> (Ret (-1), None, conn'\<lparr>rec_buf := None\<rparr>, t')
                          | Some m \<Rightarrow> rec_recv_body ops t' (conn'\<lparr>rec_buf := Some m\<rparr>) timeout_ms)
                       else rec_recv_body ops t' conn' timeout_ms)))
      else rec_recv_body ops t conn timeout_ms)"

subsection \<open>Filling a buffer\<close>

text \<open>
  What the module relies on of TCP: the bytes that the calls of tcp\_recv give are, in order, the
  bytes of one stream, and never more than were asked for.
\<close>

definition in_order :: "'t tcp_ops \<Rightarrow> ('t \<Rightarrow> u8 list) \<Rightarrow> bool" where
  "in_order ops stream \<longleftrightarrow>
     (\<forall>t n bs t'. op_recv ops t n = (Some bs, t') \<longrightarrow> length bs \<le> n \<and> stream t = bs @ stream t')"

lemma in_orderD:
  "in_order ops stream \<Longrightarrow> op_recv ops t n = (Some bs, t') \<Longrightarrow> length bs \<le> n \<and> stream t = bs @ stream t'"
  by (simp add: in_order_def)

definition filled :: "('t \<Rightarrow> u8 list) \<Rightarrow> nat \<Rightarrow> 't \<Rightarrow> u8 list \<Rightarrow> nat \<Rightarrow> outcome \<times> 't \<times> u8 list option \<times> nat \<Rightarrow> bool" where
  "filled stream len t m got res \<longleftrightarrow>
     (case res of (r, t', buf, got') \<Rightarrow>
        r \<in> {Ret 1, Ret 0, Ret (-1)} \<and>
        (\<exists>m'. buf = Some m' \<and> length m' = length m \<and> got \<le> got' \<and> got' \<le> len \<and> (r = Ret 1 \<longleftrightarrow> got' = len) \<and>
          (r \<noteq> Ret (-1) \<longrightarrow> take got' m' @ stream t' = take got m @ stream t)))"

lemma put_bytes_front:
  "off + length bs \<le> length m \<Longrightarrow> length (put_bytes m off bs) = length m \<and>
     take (off + length bs) (put_bytes m off bs) = take off m @ bs"
  by (simp add: put_bytes_def)

lemma recv_fill_loop_filled:
  assumes "in_order ops stream" and "buf = Some m" and "len \<le> length m" and "got \<le> len"
  shows "filled stream len t m got (recv_fill_loop ops max_rounds len t buf got rounds)"
  using assms
proof (induction ops max_rounds len t buf got rounds arbitrary: m rule: recv_fill_loop.induct)
  case (1 ops max_rounds len t buf got rounds)
  show ?case
  proof (cases "got < len \<and> \<not> op_pending ops t")
    case False
    with 1(3-6) show ?thesis
      by (subst recv_fill_loop.simps) (auto simp: filled_def)
  next
    case True
    obtain res t' where res: "op_recv ops t (len - got) = (res, t')" by fastforce
    show ?thesis
    proof (cases res)
      case None
      with True res 1(4-6) show ?thesis
        by (subst recv_fill_loop.simps) (simp add: filled_def)
    next
      case (Some bs)
      from in_orderD [OF 1(3) res [unfolded Some]] have s: "length bs \<le> len - got" "stream t = bs @ stream t'" by auto
      show ?thesis
      proof (cases bs)
        case Nil
        show ?thesis
        proof (cases "op_closed ops t' \<or> max_rounds \<le> Suc rounds")
          case True
          with \<open>got < len \<and> \<not> op_pending ops t\<close> res Some Nil s 1(4-6) show ?thesis
            by (subst recv_fill_loop.simps) (auto simp: filled_def)
        next
          case False
          have "filled stream len t' m got (recv_fill_loop ops max_rounds len t' buf got (Suc rounds))"
            using True False res Some Nil 1(3-6) by (intro 1(1)) auto
          with True False res Some Nil s show ?thesis
            by (subst recv_fill_loop.simps) (simp add: filled_def)
        qed
      next
        case (Cons b cs)
        let ?m = "put_bytes m got bs"
        have m: "length ?m = length m" "take (got + length bs) ?m = take got m @ bs"
          using put_bytes_front [of got bs m] s(1) 1(5,6) by auto
        have "filled stream len t' ?m (got + length bs) (recv_fill_loop ops max_rounds len t' (Some ?m) (got + length bs) 0)"
          using True res Some 1(3-6) m(1) s(1) unfolding Cons by (intro 1(2)) auto
        with True res Some Cons s m 1(4) show ?thesis
          by (subst recv_fill_loop.simps) (auto simp: filled_def)
      qed
    qed
  qed
qed

lemma recv_fill_filled:
  assumes "in_order ops stream" and "len \<le> length m" and "got \<le> len"
  shows "filled stream len t m got (lebtls_recv_fill ops t (Some m) len got timeout_ms)"
  unfolding lebtls_recv_fill_def using assms by (intro recv_fill_loop_filled) simp_all

subsection \<open>Receiving a record\<close>

lemma header_len_bound: "header_len hdr < 2 ^ 16"
proof -
  define x :: u64 where "x = push_bit 8 (ucast (hdr ! 3)) OR ucast (hdr ! 4)"
  have "x = take_bit 16 x"
    unfolding x_def by (intro bit_word_eqI) (auto simp: bit_simps dest: bit_imp_le_length)
  then have "unat x = unat (take_bit 16 x)" by (rule arg_cong)
  also have "\<dots> = take_bit 16 (unat x)" by (rule unsigned_take_bit_eq)
  finally have "unat x < 2 ^ 16" using take_bit_nat_less_exp [of 16 "unat x"] by simp
  then show ?thesis by (simp add: header_len_def x_def)
qed

text \<open>A connection between two calls, and the bytes of the record it has read so far.\<close>

definition rec_wf :: "tls_conn \<Rightarrow> bool" where
  "rec_wf conn \<longleftrightarrow>
     length (rec_hdr conn) = 5 \<and>
     (5 \<le> rec_got conn \<longrightarrow>
        header_len (rec_hdr conn) \<le> 16640 \<and> rec_got conn \<le> 5 + header_len (rec_hdr conn) \<and>
        (\<exists>m. rec_buf conn = Some m \<and> length m = header_len (rec_hdr conn)) \<and> 0 < header_len (rec_hdr conn))"

definition rec_partial :: "tls_conn \<Rightarrow> u8 list" where
  "rec_partial conn =
     take (rec_got conn) (rec_hdr conn) @
     (case rec_buf conn of None \<Rightarrow> [] | Some m \<Rightarrow> take (rec_got conn - 5) m)"

definition kmalloc_ok :: "(nat \<Rightarrow> u8 list option) \<Rightarrow> bool" where
  "kmalloc_ok kmalloc \<longleftrightarrow> (\<forall>n m. kmalloc n = Some m \<longrightarrow> length m = n)"

definition record_bytes :: "u8 list \<Rightarrow> u8 list \<Rightarrow> bool" where
  "record_bytes hdr body \<longleftrightarrow> length hdr = 5 \<and> length body = header_len hdr"

definition received ::
    "('t \<Rightarrow> u8 list) \<Rightarrow> tls_conn \<Rightarrow> u8 list \<Rightarrow> outcome \<times> (u8 \<times> u8 list option \<times> nat) option \<times> tls_conn \<times> 't \<Rightarrow> bool" where
  "received stream conn bytes res \<longleftrightarrow>
     (case res of (r, out, conn', t') \<Rightarrow>
        conn' = conn\<lparr>rec_hdr := rec_hdr conn', rec_buf := rec_buf conn', rec_got := rec_got conn'\<rparr> \<and>
        (r = Ret (-1) \<and> out = None \<or>
         r = Ret 0 \<and> out = None \<and> rec_wf conn' \<and> rec_partial conn' @ stream t' = bytes \<or>
         r = Ret 1 \<and> rec_wf conn' \<and> rec_got conn' = 0 \<and>
           (\<exists>hdr body. length hdr = 5 \<and> header_len hdr = length body \<and> bytes = hdr @ body @ stream t' \<and>
             (\<exists>buf. out = Some (hdr ! 0, buf, length body) \<and> (body \<noteq> [] \<longrightarrow> buf = Some body)))))"

lemma rec_recv_body_received:
  assumes "in_order ops stream" and "length (rec_hdr conn) = 5" and "5 \<le> rec_got conn"
    and "rec_got conn \<le> 5 + header_len (rec_hdr conn)" and "header_len (rec_hdr conn) \<le> 16640"
    and "header_len (rec_hdr conn) = 0 \<or> (\<exists>m. rec_buf conn = Some m \<and> length m = header_len (rec_hdr conn))"
  shows "received stream conn (rec_hdr conn @ (if header_len (rec_hdr conn) = 0 then [] else
      case rec_buf conn of None \<Rightarrow> [] | Some m \<Rightarrow> take (rec_got conn - 5) m) @ stream t) (rec_recv_body ops t conn timeout_ms)"
proof (cases "header_len (rec_hdr conn) = 0")
  case True
  then have "lebtls_recv_fill ops t (rec_buf conn) 0 (rec_got conn - 5) timeout_ms = (Ret 1, t, rec_buf conn, rec_got conn - 5)"
    by (simp add: lebtls_recv_fill_def recv_fill_loop.simps)
  with True assms(2) show ?thesis
    by (auto simp: rec_recv_body_def received_def rec_wf_def intro!: exI [of _ "rec_hdr conn"])
next
  case False
  let ?len = "header_len (rec_hdr conn)"
  obtain m where m: "rec_buf conn = Some m" "length m = ?len" using False assms(6) by auto
  obtain r t' buf got' where fill: "lebtls_recv_fill ops t (Some m) ?len (rec_got conn - 5) timeout_ms = (r, t', buf, got')"
    by (metis prod_cases4)
  have "filled stream ?len t m (rec_got conn - 5) (r, t', buf, got')"
    unfolding fill [symmetric] using assms m by (intro recv_fill_filled) auto
  then obtain m' where m': "buf = Some m'" "length m' = ?len" "got' \<le> ?len" "r \<in> {Ret 1, Ret 0, Ret (-1)}"
    "r = Ret 1 \<longrightarrow> got' = ?len" "r \<noteq> Ret (-1) \<longrightarrow> take got' m' @ stream t' = take (rec_got conn - 5) m @ stream t"
    using m(2) by (auto simp: filled_def)
  consider "r = Ret 1" | "r = Ret 0" | "r = Ret (-1)" using m'(4) by blast
  then show ?thesis
  proof cases
    case 1
    with m' False assms(2) m fill show ?thesis
      by (simp add: rec_recv_body_def received_def rec_wf_def)
         (rule exI [of _ "rec_hdr conn"], rule conjI, simp, rule exI [of _ m'], simp)
  next
    case 2
    with m' False assms m fill show ?thesis
      by (auto simp: rec_recv_body_def received_def rec_wf_def rec_partial_def)
  next
    case 3
    with m' False assms m fill show ?thesis
      by (auto simp: rec_recv_body_def received_def)
  qed
qed

lemma received_frame:
  assumes "received stream conn' bytes res" and "conn' = conn\<lparr>rec_hdr := h, rec_buf := b, rec_got := n\<rparr>"
  shows "received stream conn bytes res"
  using assms by (auto simp: received_def)

lemma rec_recv_received:
  assumes io: "in_order ops stream" and km: "kmalloc_ok kmalloc" and wf: "rec_wf conn"
  shows "received stream conn (rec_partial conn @ stream t) (lebtls_rec_recv ops kmalloc True t conn timeout_ms)"
proof (cases "rec_got conn < 5")
  case False
  with wf obtain m where m: "rec_buf conn = Some m" "length m = header_len (rec_hdr conn)" "0 < header_len (rec_hdr conn)"
    by (auto simp: rec_wf_def)
  have "received stream conn (rec_hdr conn @ take (rec_got conn - 5) m @ stream t) (rec_recv_body ops t conn timeout_ms)"
    using rec_recv_body_received [OF io, of conn t timeout_ms] wf m False by (simp add: rec_wf_def)
  with False m wf show ?thesis by (simp add: lebtls_rec_recv_def rec_partial_def rec_wf_def)
next
  case True
  let ?h = "rec_hdr conn"
  have h: "length ?h = 5" using wf by (simp add: rec_wf_def)
  obtain r t' buf got where fill: "lebtls_recv_fill ops t (Some ?h) 5 (rec_got conn) timeout_ms = (r, t', buf, got)"
    by (metis prod_cases4)
  have "filled stream 5 t ?h (rec_got conn) (r, t', buf, got)"
    unfolding fill [symmetric] using io h True by (intro recv_fill_filled) auto
  then obtain h' where h': "buf = Some h'" "length h' = 5" "got \<le> 5" "r \<in> {Ret 1, Ret 0, Ret (-1)}"
    "r = Ret 1 \<longleftrightarrow> got = 5" "r \<noteq> Ret (-1) \<longrightarrow> take got h' @ stream t' = take (rec_got conn) ?h @ stream t"
    using h by (auto simp: filled_def)
  have p: "rec_partial conn = take (rec_got conn) ?h"
    using True by (auto simp: rec_partial_def split: option.splits)
  define conn' where "conn' = conn\<lparr>rec_hdr := h', rec_got := got\<rparr>"
  show ?thesis
  proof (cases "r = Ret 1 \<and> header_len h' \<le> 16640")
    case no: False
    have e: "lebtls_rec_recv ops kmalloc True t conn timeout_ms = (if r = Ret 1 then Ret (-1) else r, None, conn', t')"
      using no True fill h'(1) by (auto simp: lebtls_rec_recv_def conn'_def Let_def)
    have "rec_wf conn'" "rec_partial conn' = take got h'" if "r \<noteq> Ret 1"
      using that h'(2,3,5) by (auto simp: conn'_def rec_wf_def rec_partial_def split: option.splits)
    moreover have "r = Ret 1 \<or> r = Ret 0 \<or> r = Ret (-1)" using h'(4) by simp
    ultimately show ?thesis
      using h'(6) unfolding e received_def p by (auto simp: conn'_def)
  next
    case ok: True
    with h' have g: "got = 5" "h' @ stream t' = take (rec_got conn) ?h @ stream t" by auto
    have body: "received stream conn (h' @ stream t') (rec_recv_body ops t' (conn'\<lparr>rec_buf := b\<rparr>) timeout_ms)"
      if "header_len h' = 0 \<or> (\<exists>m. b = Some m \<and> length m = header_len h')" for b
    proof (rule received_frame)
      show "conn'\<lparr>rec_buf := b\<rparr> = conn\<lparr>rec_hdr := h', rec_buf := b, rec_got := 5\<rparr>"
        by (simp add: conn'_def g(1))
      show "received stream (conn'\<lparr>rec_buf := b\<rparr>) (h' @ stream t') (rec_recv_body ops t' (conn'\<lparr>rec_buf := b\<rparr>) timeout_ms)"
      proof -
        define c where "c = conn'\<lparr>rec_buf := b\<rparr>"
        have c: "rec_hdr c = h'" "rec_got c = 5" "rec_buf c = b" by (simp_all add: c_def conn'_def g(1))
        have "(if header_len (rec_hdr c) = 0 then [] else
            case rec_buf c of None \<Rightarrow> [] | Some m \<Rightarrow> take (rec_got c - 5) m) = []"
          by (simp add: c(2) split: option.splits)
        with rec_recv_body_received [OF io, of c t' timeout_ms]
        have "received stream c (h' @ stream t') (rec_recv_body ops t' c timeout_ms)"
          using that ok h'(2) by (simp only: c append_Nil)
        then show ?thesis by (simp only: c_def)
      qed
    qed
    show ?thesis
    proof (cases "header_len h' = 0")
      case z: True
      with body [of "rec_buf conn"] ok True fill h'(1) g p show ?thesis
        by (simp add: lebtls_rec_recv_def Let_def conn'_def)
    next
      case z: False
      show ?thesis
      proof (cases "kmalloc (header_len h')")
        case None
        with z ok True fill h'(1) p show ?thesis by (simp add: lebtls_rec_recv_def Let_def received_def)
      next
        case (Some m)
        with km have "length m = header_len h'" by (simp add: kmalloc_ok_def)
        with body [of "Some m"] Some z ok True fill h'(1) g p show ?thesis
          by (simp add: lebtls_rec_recv_def Let_def conn'_def)
      qed
    qed
  qed
qed

text \<open>
  C39. Receiving a record loses no byte and makes up none. From a connection between two calls,
  whatever TCP delivers in order and however it is cut into pieces, lebtls\_rec\_recv either
  fails, or reports that the record is not complete and keeps what it has read, or hands out
  exactly the next record of the stream: five header bytes and as many more as the header says.
  It never writes through the null pointer.
\<close>

theorem rec_recv_next_record:
  assumes "in_order ops stream" and "kmalloc_ok kmalloc" and "rec_wf conn"
  shows "received stream conn (rec_partial conn @ stream t) (lebtls_rec_recv ops kmalloc True t conn timeout_ms)"
  using assms by (rule rec_recv_received)

text \<open>A socket that holds the bytes it will deliver, all of them at hand.\<close>

definition list_tcp :: "u8 list tcp_ops" where
  "list_tcp = \<lparr>op_recv = (\<lambda>t n. (Some (take n t), drop n t)), op_send = (\<lambda>t bs. (int (length bs), t @ bs)),
     op_closed = (\<lambda>t. False), op_pending = (\<lambda>t. False)\<rparr>"

lemma list_tcp_in_order: "in_order list_tcp (\<lambda>t. t)"
  by (simp add: in_order_def list_tcp_def)

definition fresh_conn :: "u8 list \<Rightarrow> u8 list \<Rightarrow> tls_conn" where
  "fresh_conn key iv =
     \<lparr>rec_hdr = replicate 5 0, rec_buf = None, rec_got = 0, app_key_tx = key, app_key_rx = key, app_iv_tx = iv,
      app_iv_rx = iv, app_read_seq = 0, app_write_seq = 0, stash = [], stash_cap = 0, handshake_done = True\<rparr>"

theorem rec_recv_next_record_witness:
  "received (\<lambda>t. t) (fresh_conn [] []) [23, 3, 3, 0, 2, 8, 9, 1]
     (lebtls_rec_recv list_tcp (\<lambda>n. Some (replicate n 0)) True [23, 3, 3, 0, 2, 8, 9, 1] (fresh_conn [] []) 1000)"
  using rec_recv_next_record [OF list_tcp_in_order, of "\<lambda>n. Some (replicate n 0)" "fresh_conn [] []"
      "[23, 3, 3, 0, 2, 8, 9, 1]" 1000]
  by (simp add: kmalloc_ok_def rec_wf_def fresh_conn_def rec_partial_def)

lemma recv_fill_loop_done: "len \<le> got \<Longrightarrow> recv_fill_loop ops k len t buf got rounds = (Ret 1, t, buf, got)"
  by (subst recv_fill_loop.simps) simp

text \<open>
  A header that announces more than the limit is refused, but the connection keeps it as read.
  A second call on that connection skips the check and the allocation, and the first byte that
  arrives is written through the null pointer. The callers give up after the first failure.
\<close>

lemma refused_header_then_null_write:
  assumes "length hdr = 5" and "16640 < header_len hdr" and "rec_got conn = 0" and "length (rec_hdr conn) = 5"
    and "rec_buf conn = None"
  shows "lebtls_rec_recv list_tcp kmalloc True (hdr @ b # w) conn tmo =
      (Ret (-1), None, conn\<lparr>rec_hdr := hdr, rec_got := 5\<rparr>, b # w) \<and>
    fst (lebtls_rec_recv list_tcp kmalloc' True (b # w) (conn\<lparr>rec_hdr := hdr, rec_got := 5\<rparr>) tmo) = Null_write"
proof
  obtain c cs where h: "hdr = c # cs" using assms(1) by (cases hdr) auto
  have "recv_fill_loop list_tcp k 5 (hdr @ b # w) (Some (rec_hdr conn)) 0 0 = (Ret 1, b # w, Some hdr, 5)" for k
    using assms(1,4) h
    by (subst recv_fill_loop.simps) (simp add: list_tcp_def recv_fill_loop_done put_bytes_def)
  then show "lebtls_rec_recv list_tcp kmalloc True (hdr @ b # w) conn tmo =
      (Ret (-1), None, conn\<lparr>rec_hdr := hdr, rec_got := 5\<rparr>, b # w)"
    using assms by (simp add: lebtls_rec_recv_def lebtls_recv_fill_def)
  obtain n where n: "header_len hdr = Suc n" using assms(2) by (cases "header_len hdr") auto
  have "\<exists>t'. recv_fill_loop list_tcp k (Suc n) (b # w) None 0 0 = (Null_write, t', None, 0)" for k
    by (subst recv_fill_loop.simps) (simp add: list_tcp_def)
  then obtain t' where "recv_fill_loop list_tcp (unat (tmo div 1000 + 2)) (header_len hdr) (b # w) None 0 0 = (Null_write, t', None, 0)"
    unfolding n by blast
  then show "fst (lebtls_rec_recv list_tcp kmalloc' True (b # w) (conn\<lparr>rec_hdr := hdr, rec_got := 5\<rparr>) tmo) = Null_write"
    using assms by (simp add: lebtls_rec_recv_def rec_recv_body_def lebtls_recv_fill_def)
qed

end
