(* ===== verification/Tls_Conn.thy ===== *)
theory Tls_Conn
  imports Traffic_Auth Tls_Record "HOL-Library.While_Combinator"
begin

text \<open>
  modules/lebtls/lebtls.c: sending and receiving application data on an established connection,
  with the stash that keeps what did not fit into the buffer of the caller. The i-th pass of
  a loop has its own outcomes of kmalloc; krealloc succeeds or fails by an argument. The stash
  is the list of the bytes it holds. The receive loop goes on as long as the peer sends
  handshake messages, so it is a partial function whose value is None if it never returns.
\<close>

unbundle bit_operations_syntax

definition LEBTLS_RT_HANDSHAKE :: u8 where
  "LEBTLS_RT_HANDSHAKE = 22"

definition int_of_len :: "u64 \<Rightarrow> int" where
  "int_of_len n = sint (ucast n :: 32 word)"

definition lebtls_stash_drain :: "tls_conn option \<Rightarrow> u8 list option \<Rightarrow> u64 \<Rightarrow> int \<times> tls_conn option \<times> u8 list option" where
  "lebtls_stash_drain conn buf len =
     (case (conn, buf) of
        (Some c, Some b) \<Rightarrow>
          if stash c = [] then (0, conn, buf)
          else (let n = (if word_of_nat (length (stash c)) < len then word_of_nat (length (stash c)) else len)
                in (int_of_len n, Some (c\<lparr>stash := drop (unat n) (stash c)\<rparr>), Some (put_bytes b 0 (take (unat n) (stash c)))))
      | _ \<Rightarrow> (0, conn, buf))"

text \<open>The loop that doubles the capacity; it stops at the need or when doubling would overflow.\<close>

definition grow_cap :: "u64 \<Rightarrow> u64 \<Rightarrow> u64 option" where
  "grow_cap cap need = while_option (\<lambda>cap. cap < need \<and> \<not> cap > 0xFFFFFFFFFFFFFFFF div 2) (\<lambda>cap. cap * 2) cap"

definition lebtls_stash_store :: "bool \<Rightarrow> tls_conn \<Rightarrow> u8 list \<Rightarrow> (int \<times> tls_conn) option" where
  "lebtls_stash_store realloc_ok c data =
     (if data = [] then Some (0, c)
      else
        (let len = word_of_nat (length (stash c)) :: u64; need = len + word_of_nat (length data)
         in if need < len then Some (-1, c)
            else if need > stash_cap c then
              (case grow_cap (if stash_cap c \<noteq> 0 then stash_cap c else 4096) need of
                 None \<Rightarrow> None
               | Some cap \<Rightarrow>
                   if cap < need then Some (-1, c)
                   else if \<not> realloc_ok then Some (-1, c)
                   else Some (0, c\<lparr>stash_cap := cap, stash := stash c @ data\<rparr>))
            else Some (0, c\<lparr>stash := stash c @ data\<rparr>)))"

function skip_messages :: "u8 list \<Rightarrow> int" where
  "skip_messages p =
     (if p = [] then 0
      else if length p < 4 then -1
      else if p ! 0 = 24 then -1
      else if p ! 0 \<noteq> 4 then -1
      else
        (let blen = unat (push_bit 16 (ucast (p ! 1)) OR push_bit 8 (ucast (p ! 2)) OR ucast (p ! 3) :: u64)
         in if blen > length p - 4 then -1 else skip_messages (drop (4 + blen) p)))"
  by pat_completeness auto
termination
  by (relation "measure length") auto

declare skip_messages.simps [simp del]

definition lebtls_skip_post_handshake :: "u8 list \<Rightarrow> int" where
  "lebtls_skip_post_handshake pt = skip_messages pt"

function send_loop ::
    "'t tcp_ops \<Rightarrow> (nat \<Rightarrow> bool) \<Rightarrow> (nat \<Rightarrow> u8 list option) \<Rightarrow> nat \<Rightarrow> sbox_state \<Rightarrow> 't \<Rightarrow> tls_conn \<Rightarrow> u8 list \<Rightarrow>
     bool \<times> tls_conn \<times> 't \<times> sbox_state" where
  "send_loop ops pt_ok rec_mem i g t conn data =
     (if data = [] then (True, conn, t, g)
      else
        (let chunk = (if length data > 16384 then 16384 else length data)
         in case lebtls_traffic_seal g (pt_ok i) (rec_mem i) (Some (app_write_seq conn)) (Some (app_key_tx conn))
                   (Some (app_iv_tx conn)) True LEBTLS_RT_APP_DATA (Some data) (word_of_nat chunk) of
              (r, seq, rcd, g) \<Rightarrow>
                (let conn = conn\<lparr>app_write_seq := (case seq of None \<Rightarrow> app_write_seq conn | Some s \<Rightarrow> s)\<rparr>
                 in if r < 0 then (False, conn, t, g)
                    else (case op_send ops t (case rcd of None \<Rightarrow> [] | Some b \<Rightarrow> b) of
                            (n, t) \<Rightarrow>
                              if n < 0 then (False, conn, t, g)
                              else send_loop ops pt_ok rec_mem (Suc i) g t conn (drop chunk data)))))"
  by pat_completeness auto
termination
  by (relation "measure (\<lambda>(ops, pt_ok, rec_mem, i, g, t, conn, data). length data)") auto

declare send_loop.simps [simp del]

definition lebtls_send ::
    "'t tcp_ops \<Rightarrow> (nat \<Rightarrow> bool) \<Rightarrow> (nat \<Rightarrow> u8 list option) \<Rightarrow> sbox_state \<Rightarrow> 't \<Rightarrow> tls_conn \<Rightarrow> u8 list option \<Rightarrow> u64 \<Rightarrow>
     int \<times> tls_conn \<times> 't \<times> sbox_state" where
  "lebtls_send ops pt_ok rec_mem g t conn data len =
     (case data of
        None \<Rightarrow> (-1, conn, t, g)
      | Some d \<Rightarrow>
          if \<not> handshake_done conn then (-1, conn, t, g)
          else (case send_loop ops pt_ok rec_mem 0 g t conn (take (unat len) d) of
                  (ok, conn, t, g) \<Rightarrow> (if ok then int_of_len len else -1, conn, t, g)))"

text \<open>What is done with the content of an application record.\<close>

definition recv_content ::
    "bool \<Rightarrow> tls_conn \<Rightarrow> u8 list \<Rightarrow> u64 \<Rightarrow> u8 list \<Rightarrow> (outcome \<times> u8 list \<times> tls_conn) option" where
  "recv_content realloc_ok conn buf len pt =
     (if length pt > unat len then
        (case lebtls_stash_store realloc_ok conn (drop (unat len) pt) of
           None \<Rightarrow> None
         | Some (r, conn') \<Rightarrow>
             (let buf' = put_bytes buf 0 (take (unat len) pt)
              in if r < 0 then Some (Ret (-1), buf', conn') else Some (Ret (int_of_len len), buf', conn')))
      else Some (Ret (int_of_len (word_of_nat (length pt))), put_bytes buf 0 pt, conn))"

partial_function (option) recv_loop ::
    "'t tcp_ops \<Rightarrow> (nat \<Rightarrow> nat \<Rightarrow> u8 list option) \<Rightarrow> (nat \<Rightarrow> u8 list option) \<Rightarrow> bool \<Rightarrow> nat \<Rightarrow> sbox_state \<Rightarrow> 't \<Rightarrow>
     tls_conn \<Rightarrow> u8 list \<Rightarrow> u64 \<Rightarrow> u64 \<Rightarrow> (outcome \<times> u8 list \<times> tls_conn \<times> 't \<times> sbox_state) option" where
  "recv_loop ops kmalloc pt_mem realloc_ok i g t conn buf len timeout_ms =
     (case lebtls_rec_recv ops (kmalloc i) True t conn timeout_ms of
        (r, None, conn, t) \<Rightarrow> Some (r, buf, conn, t, g)
      | (r, Some (type, rcd, rec_len), conn, t) \<Rightarrow>
          if type \<noteq> LEBTLS_RT_APP_DATA then Some (Ret (-1), buf, conn, t, g)
          else
            (case lebtls_traffic_open g (pt_mem i) (Some (app_read_seq conn)) (Some (app_key_rx conn))
                    (Some (app_iv_rx conn)) True rcd (word_of_nat rec_len) of
               (_, _, None, g) \<Rightarrow> Some (Ret (-1), buf, conn, t, g)
             | (_, seq, Some (pt, inner), g) \<Rightarrow>
                 (let conn = conn\<lparr>app_read_seq := (case seq of None \<Rightarrow> app_read_seq conn | Some s \<Rightarrow> s)\<rparr>
                  in if inner = LEBTLS_RT_HANDSHAKE then
                       if lebtls_skip_post_handshake pt < 0 then Some (Ret (-1), buf, conn, t, g)
                       else recv_loop ops kmalloc pt_mem realloc_ok (Suc i) g t conn buf len timeout_ms
                     else if inner \<noteq> LEBTLS_RT_APP_DATA then Some (Ret (-1), buf, conn, t, g)
                     else
                       (case recv_content realloc_ok conn buf len pt of
                          None \<Rightarrow> None
                        | Some (r, buf, conn) \<Rightarrow> Some (r, buf, conn, t, g)))))"

definition lebtls_recv ::
    "'t tcp_ops \<Rightarrow> (nat \<Rightarrow> nat \<Rightarrow> u8 list option) \<Rightarrow> (nat \<Rightarrow> u8 list option) \<Rightarrow> bool \<Rightarrow> sbox_state \<Rightarrow> 't \<Rightarrow>
     tls_conn \<Rightarrow> u8 list option \<Rightarrow> u64 \<Rightarrow> u64 \<Rightarrow> (outcome \<times> u8 list option \<times> tls_conn \<times> 't \<times> sbox_state) option" where
  "lebtls_recv ops kmalloc pt_mem realloc_ok g t conn buf len timeout_ms =
     (case buf of
        None \<Rightarrow> Some (Ret (-1), buf, conn, t, g)
      | Some b \<Rightarrow>
          if len = 0 then Some (Ret (-1), buf, conn, t, g)
          else if \<not> handshake_done conn then Some (Ret (-1), buf, conn, t, g)
          else
            (case lebtls_stash_drain (Some conn) buf len of
               (drained, c, buf') \<Rightarrow>
                 if drained > 0 then
                   Some (Ret drained, buf', (case c of None \<Rightarrow> conn | Some c \<Rightarrow> c), t, g)
                 else
                   map_option (\<lambda>(r, b, conn, t, g). (r, Some b, conn, t, g))
                     (recv_loop ops kmalloc pt_mem realloc_ok 0 g t conn b len timeout_ms)))"

subsection \<open>The stash\<close>

lemma grow_cap_stops:
  assumes "cap \<noteq> 0"
  shows "\<exists>c. grow_cap cap need = Some c"
  unfolding grow_cap_def
proof (rule measure_while_option_Some [where P = "\<lambda>c. c \<noteq> 0" and f = "\<lambda>c. 2 ^ 64 - unat c"])
  fix c :: u64 assume c: "c \<noteq> 0" "c < need \<and> \<not> c > 0xFFFFFFFFFFFFFFFF div 2"
  then have u: "0 < unat c" "unat c \<le> 0x7FFFFFFFFFFFFFFF"
    by (auto simp: word_less_nat_alt unat_gt_0)
  then have "unat (c * 2) = 2 * unat c" by (simp add: unat_word_ariths)
  with u show "c * 2 \<noteq> 0 \<and> 2 ^ 64 - unat (c * 2) < 2 ^ 64 - unat c"
    by (auto simp: word_unat_eq_iff)
qed (rule assms)

lemma stash_store_cases:
  obtains "lebtls_stash_store realloc_ok c d = Some (-1, c)"
  | cap where "lebtls_stash_store realloc_ok c d = Some (0, c\<lparr>stash_cap := cap, stash := stash c @ d\<rparr>)"
proof -
  obtain cap where "grow_cap (if stash_cap c \<noteq> 0 then stash_cap c else 4096) (word_of_nat (length (stash c)) + word_of_nat (length d)) = Some cap"
    using grow_cap_stops [of "if stash_cap c \<noteq> 0 then stash_cap c else 4096"] by fastforce
  then have "lebtls_stash_store realloc_ok c d = Some (-1, c) \<or>
      lebtls_stash_store realloc_ok c d = Some (0, c\<lparr>stash_cap := cap, stash := stash c @ d\<rparr>) \<or>
      lebtls_stash_store realloc_ok c d = Some (0, c\<lparr>stash_cap := stash_cap c, stash := stash c @ d\<rparr>)"
    by (auto simp: lebtls_stash_store_def Let_def)
  with that show ?thesis by blast
qed

subsection \<open>The byte stream\<close>

text \<open>The records of a sequence of messages from a sequence number on.\<close>

definition tls_record :: "u8 list \<Rightarrow> u8 list \<Rightarrow> u64 \<Rightarrow> u8 list \<times> u8 \<Rightarrow> u8 list" where
  "tls_record key iv seq x =
     traffic_header (word_of_nat (length (fst x) + 17)) @ sealed key iv seq (fst x @ [snd x])"

primrec tls_wire :: "u8 list \<Rightarrow> u8 list \<Rightarrow> u64 \<Rightarrow> (u8 list \<times> u8) list \<Rightarrow> u8 list" where
  "tls_wire key iv seq [] = []"
| "tls_wire key iv seq (x # xs) = tls_record key iv seq x @ tls_wire key iv (seq + 1) xs"

definition message_ok :: "u8 list \<times> u8 \<Rightarrow> bool" where
  "message_ok x \<longleftrightarrow> length (fst x) \<le> 16384 \<and>
     (snd x = LEBTLS_RT_APP_DATA \<or> snd x = LEBTLS_RT_HANDSHAKE \<and> lebtls_skip_post_handshake (fst x) = 0)"

definition app_data :: "(u8 list \<times> u8) list \<Rightarrow> u8 list" where
  "app_data xs = concat (map fst (filter (\<lambda>x. snd x = LEBTLS_RT_APP_DATA) xs))"

text \<open>
  The first record of a byte stream; and byte streams that may hold anything, but in which a
  record that authenticates at the number of its place is the one that was made of the message
  in this place.
\<close>

definition record_split :: "u8 list \<Rightarrow> u8 list \<Rightarrow> u8 list \<Rightarrow> u8 list \<Rightarrow> bool" where
  "record_split w hdr body rest \<longleftrightarrow> w = hdr @ body @ rest \<and> length hdr = 5 \<and> header_len hdr = length body"

primrec genuine :: "u8 list \<Rightarrow> u8 list \<Rightarrow> u64 \<Rightarrow> (u8 list \<times> u8) list \<Rightarrow> u8 list \<Rightarrow> bool" where
  "genuine key iv seq [] w \<longleftrightarrow>
     (\<forall>hdr body rest. record_split w hdr body rest \<longrightarrow> \<not> valid_tag key (record_nonce iv seq) body)"
| "genuine key iv seq (x # xs) w \<longleftrightarrow>
     (\<forall>hdr body rest. record_split w hdr body rest \<longrightarrow> valid_tag key (record_nonce iv seq) body \<longrightarrow>
        body = record_seal key iv seq x \<and> genuine key iv (seq + 1) xs rest)"

definition receiving :: "tls_conn \<Rightarrow> (u8 list \<times> u8) list \<Rightarrow> bool" where
  "receiving conn xs \<longleftrightarrow>
     rec_wf conn \<and> handshake_done conn \<and> length (app_key_rx conn) = 16 \<and> length (app_iv_rx conn) = 12 \<and> (\<forall>x \<in> set xs. message_ok x)"

definition incoming :: "('t \<Rightarrow> u8 list) \<Rightarrow> 't \<Rightarrow> tls_conn \<Rightarrow> (u8 list \<times> u8) list \<Rightarrow> bool" where
  "incoming stream t conn xs \<longleftrightarrow> receiving conn xs \<and>
     genuine (app_key_rx conn) (app_iv_rx conn) (app_read_seq conn) xs (rec_partial conn @ stream t)"

text \<open>Byte streams that hold exactly the records.\<close>

definition carries :: "('t \<Rightarrow> u8 list) \<Rightarrow> 't \<Rightarrow> tls_conn \<Rightarrow> (u8 list \<times> u8) list \<Rightarrow> bool" where
  "carries stream t conn xs \<longleftrightarrow> receiving conn xs \<and>
     rec_partial conn @ stream t = tls_wire (app_key_rx conn) (app_iv_rx conn) (app_read_seq conn) xs"

lemma header_len_traffic: "n < 2 ^ 16 \<Longrightarrow> header_len (traffic_header (word_of_nat n)) = n"
proof -
  assume n: "n < 2 ^ 16"
  let ?w = "word_of_nat n :: u64"
  have w: "unat ?w = n" using n by (simp add: unat_of_nat)
  have t: "x AND 0xFF = take_bit 8 x" for x :: u64 by (simp add: take_bit_eq_mask mask_eq_exp_minus_1)
  have d: "take_bit 8 (drop_bit 8 ?w) = drop_bit 8 ?w"
  proof -
    have "unat (drop_bit 8 ?w) < 2 ^ 8"
      using n by (simp only: unat_drop_bit_eq w) (simp add: drop_bit_eq_div less_mult_imp_div_less)
    then show ?thesis by (simp add: word_unat_eq_iff unsigned_take_bit_eq take_bit_nat_eq_self)
  qed
  have u: "ucast (ucast (take_bit 8 x) :: u8) = take_bit 8 x" for x :: u64
    by (intro bit_word_eqI) (auto simp: bit_simps)
  have "push_bit 8 (take_bit 8 (drop_bit 8 ?w)) OR take_bit 8 ?w = ?w"
    unfolding d by (intro bit_word_eqI) (auto simp: bit_simps)
  then show ?thesis
    by (simp only: header_len_def traffic_header_def nth_Cons_numeral nth_Cons_0 t u diff_Suc_1) (simp add: traffic_header_def t u w)
qed

lemma traffic_open_record:
  assumes "sbox_ok g" and "length key = 16" and "length iv = 12" and "length m \<le> 16384" and "mem \<noteq> None"
  shows "lebtls_traffic_open g mem (Some seq) (Some key) (Some iv) True (Some (sealed key iv seq (m @ [ty]))) (word_of_nat (length m + 17)) =
    (0, Some (seq + 1), Some (m, ty), gcm_sbox_init g)"
proof -
  let ?b = "sealed key iv seq (m @ [ty])"
  have l: "length ?b = length m + 17" by (simp add: length_sealed)
  from assms(5) obtain b where "mem = Some b" by blast
  then show ?thesis
    using traffic_open_any [OF assms(1-3), of ?b b seq] assms(4) l by (simp only: unsealed_sealed) simp
qed

lemma traffic_open_zero: "lebtls_traffic_open g mem (Some seq) key iv True rcd 0 = (-1, Some seq, None, g)"
  by (simp add: lebtls_traffic_open_def split: option.splits)

lemma traffic_open_no_memory: "lebtls_traffic_open g None (Some seq) key iv True rcd n = (-1, Some seq, None, g)"
  by (simp add: lebtls_traffic_open_def split: option.splits)

definition delivers ::
    "('t \<Rightarrow> u8 list) \<Rightarrow> u64 \<Rightarrow> u8 list \<Rightarrow> u8 list \<Rightarrow> outcome \<times> u8 list \<times> tls_conn \<times> 't \<times> sbox_state \<Rightarrow> bool" where
  "delivers stream len buf data res \<longleftrightarrow>
     (case res of (r, buf', conn', t', g') \<Rightarrow>
        sbox_ok g' \<and>
        (r = Ret (-1) \<or>
         (\<exists>n xs'. r = Ret (int n) \<and> n \<le> unat len \<and> length buf' = length buf \<and> drop n buf' = drop n buf \<and>
            incoming stream t' conn' xs' \<and> data = take n buf' @ stash conn' @ app_data xs')))"

lemma int_of_len_small: "unat n < 2 ^ 31 \<Longrightarrow> int_of_len n = int (unat n)"
proof -
  assume n: "unat n < 2 ^ 31"
  then have "unat (ucast n :: 32 word) = unat n"
    by (simp add: unsigned_ucast_eq take_bit_nat_eq_self)
  then have "uint (ucast n :: 32 word) = int (unat n)"
    by (metis uint_nat)
  moreover have "signed_take_bit 31 (int m) = int m" if "m < 2 ^ 31" for m
    using that by (intro signed_take_bit_int_eq_self) simp_all
  note this [OF n]
  ultimately show ?thesis by (simp only: int_of_len_def sint_uint) simp
qed

lemma incoming_frame:
  assumes "incoming stream t conn xs"
    and "rec_hdr conn' = rec_hdr conn" "rec_buf conn' = rec_buf conn" "rec_got conn' = rec_got conn"
    "app_key_rx conn' = app_key_rx conn" "app_iv_rx conn' = app_iv_rx conn" "app_read_seq conn' = app_read_seq conn"
    "handshake_done conn' = handshake_done conn"
  shows "incoming stream t conn' xs"
  using assms(1) unfolding incoming_def receiving_def rec_wf_def rec_partial_def assms(2-8) .

lemma recv_content_delivers:
  assumes "incoming stream t conn xs" and "stash conn = []" and "unat len < 2 ^ 31" and "unat len \<le> length buf" and "sbox_ok g"
  shows "\<exists>r buf' conn'. recv_content realloc_ok conn buf len m = Some (r, buf', conn') \<and>
    delivers stream len buf (m @ app_data xs) (r, buf', conn', t, g)"
proof (cases "length m > unat len")
  case True
  let ?d = "drop (unat len) m" and ?b = "put_bytes buf 0 (take (unat len) m)"
  have b: "take (unat len) ?b = take (unat len) m" "length ?b = length buf" "drop (unat len) ?b = drop (unat len) buf"
    using True assms(4) by (auto simp: put_bytes_def)
  show ?thesis
  proof (cases rule: stash_store_cases [of realloc_ok conn ?d])
    case 1
    with True assms(5) show ?thesis by (auto simp: recv_content_def delivers_def Let_def)
  next
    case (2 cap)
    let ?c = "conn\<lparr>stash_cap := cap, stash := stash conn @ ?d\<rparr>"
    have "incoming stream t ?c xs" by (rule incoming_frame [OF assms(1)]) simp_all
    with 2 True assms b show ?thesis
      by (auto simp: recv_content_def delivers_def Let_def int_of_len_small intro!: exI [of _ "unat len"] exI [of _ xs])
  qed
next
  case False
  let ?b = "put_bytes buf 0 m"
  have b: "take (length m) ?b = m" "length ?b = length buf" "drop (length m) ?b = drop (length m) buf"
    using False assms(4) by (auto simp: put_bytes_def)
  have "int_of_len (word_of_nat (length m)) = int (length m)"
    using False assms(3) by (subst int_of_len_small) (simp_all add: unat_of_nat)
  with False assms b show ?thesis
    by (auto simp: recv_content_def delivers_def intro!: exI [of _ "length m"] exI [of _ xs])
qed

text \<open>The next record of the stream is the one that was sent.\<close>

lemma next_record:
  assumes "length hdr = 5" and "header_len hdr = length body" and "message_ok x"
    and "hdr @ body @ w = tls_record key iv seq x @ w'"
  shows "hdr ! 0 = LEBTLS_RT_APP_DATA" and "body = sealed key iv seq (fst x @ [snd x])" and "w = w'"
    and "length body = length (fst x) + 17"
proof -
  let ?h = "traffic_header (word_of_nat (length (fst x) + 17))" and ?b = "sealed key iv seq (fst x @ [snd x])"
  have eq: "hdr @ (body @ w) = ?h @ (?b @ w')" using assms(4) by (simp add: tls_record_def)
  then have h: "hdr = ?h" and r: "body @ w = ?b @ w'"
    using assms(1) by (simp_all add: append_eq_append_conv length_traffic_header)
  have b: "length ?b = length (fst x) + 17" by (simp add: length_sealed)
  have "header_len ?h = length (fst x) + 17"
    using assms(3) by (intro header_len_traffic) (simp add: message_ok_def)
  with h assms(2) show l: "length body = length (fst x) + 17" by simp
  from r l b show "body = ?b" "w = w'" by (simp_all add: append_eq_append_conv)
  show "hdr ! 0 = LEBTLS_RT_APP_DATA" by (simp add: h traffic_header_def)
qed

lemma recv_loop_no_record:
  assumes "received stream conn (rec_partial conn @ stream t) (r, None, conn1, t1)" and "incoming stream t conn xs"
    and "stash conn = []" and "sbox_ok g"
  shows "delivers stream len buf (app_data xs) (r, buf, conn1, t1, g)"
proof -
  from assms(1) have c: "conn1 = conn\<lparr>rec_hdr := rec_hdr conn1, rec_buf := rec_buf conn1, rec_got := rec_got conn1\<rparr>"
    and r: "r = Ret (-1) \<or> r = Ret (int 0) \<and> rec_wf conn1 \<and> rec_partial conn1 @ stream t1 = rec_partial conn @ stream t"
    by (auto simp: received_def)
  have f: "app_key_rx conn1 = app_key_rx conn" "app_iv_rx conn1 = app_iv_rx conn" "app_read_seq conn1 = app_read_seq conn"
    "stash conn1 = stash conn" "handshake_done conn1 = handshake_done conn"
    by (subst c, simp)+
  show ?thesis
  proof (cases "r = Ret (-1)")
    case False
    with r assms(2) f have "incoming stream t1 conn1 xs" by (simp add: incoming_def receiving_def)
    with False r f assms(3,4) show ?thesis
      unfolding delivers_def by (auto intro!: exI [of _ 0] exI [of _ xs])
  qed (simp add: delivers_def assms(4))
qed

lemma record_received:
  assumes "received stream conn bytes (r, Some (ty, rcd, n), conn1, t1)"
  obtains hdr body where "record_split bytes hdr body (stream t1)" and "n = length body" and "body \<noteq> [] \<longrightarrow> rcd = Some body"
    and "rec_wf conn1" "rec_partial conn1 = []" and "app_key_rx conn1 = app_key_rx conn" "app_iv_rx conn1 = app_iv_rx conn"
      "app_read_seq conn1 = app_read_seq conn" "stash conn1 = stash conn" "handshake_done conn1 = handshake_done conn"
proof -
  from assms have c: "conn1 = conn\<lparr>rec_hdr := rec_hdr conn1, rec_buf := rec_buf conn1, rec_got := rec_got conn1\<rparr>"
    and w: "rec_wf conn1" "rec_got conn1 = 0" by (auto simp: received_def)
  have f: "app_key_rx conn1 = app_key_rx conn" "app_iv_rx conn1 = app_iv_rx conn" "app_read_seq conn1 = app_read_seq conn"
    "stash conn1 = stash conn" "handshake_done conn1 = handshake_done conn"
    by (subst c, simp)+
  have p: "rec_partial conn1 = []" using w(2) by (auto simp: rec_partial_def split: option.splits)
  from assms obtain hdr body where "record_split bytes hdr body (stream t1)" "n = length body" "body \<noteq> [] \<longrightarrow> rcd = Some body"
    by (auto simp: received_def record_split_def)
  with that w(1) p f show thesis by blast
qed

lemma next_seq_frame:
  "rec_partial (conn\<lparr>app_read_seq := s\<rparr>) = rec_partial conn" "rec_wf (conn\<lparr>app_read_seq := s\<rparr>) = rec_wf conn"
  by (simp_all add: rec_partial_def rec_wf_def split: option.splits)

text \<open>
  A record that is received and opened carries a valid tag, so it is the next one of those that
  were made.
\<close>

lemma opened_record:
  assumes "received stream conn (rec_partial conn @ stream t) (r, Some (ty, rcd, n), conn1, t1)"
    and inc: "incoming stream t conn xs" and "sbox_ok g"
    and op: "lebtls_traffic_open g mem (Some (app_read_seq conn1)) (Some (app_key_rx conn1)) (Some (app_iv_rx conn1)) True rcd (word_of_nat n) =
      (q, s, x, g')"
  shows "sbox_ok g'" and "x = Some y \<Longrightarrow> \<exists>ms. xs = y # ms \<and> s = Some (app_read_seq conn + 1) \<and> message_ok y \<and>
      incoming stream t1 (conn1\<lparr>app_read_seq := app_read_seq conn + 1\<rparr>) ms \<and> stash conn1 = stash conn"
proof -
  let ?k = "app_key_rx conn" and ?v = "app_iv_rx conn" and ?s = "app_read_seq conn"
  obtain hdr body where b: "record_split (rec_partial conn @ stream t) hdr body (stream t1)" "n = length body" "body \<noteq> [] \<longrightarrow> rcd = Some body"
      "rec_wf conn1" "rec_partial conn1 = []"
    and f: "app_key_rx conn1 = ?k" "app_iv_rx conn1 = ?v" "app_read_seq conn1 = ?s" "stash conn1 = stash conn" "handshake_done conn1 = handshake_done conn"
    by (rule record_received [OF assms(1)])
  have kv: "length ?k = 16" "length ?v = 12" using inc by (simp_all add: incoming_def receiving_def)
  have len: "length body < 2 ^ 16" using b(1) header_len_bound [of hdr] by (simp add: record_split_def)
  have "sbox_ok g' \<and> (x = Some y \<longrightarrow> (\<exists>ms. xs = y # ms \<and> s = Some (?s + 1) \<and> message_ok y \<and>
      incoming stream t1 (conn1\<lparr>app_read_seq := ?s + 1\<rparr>) ms \<and> stash conn1 = stash conn))"
  proof (cases "body = []")
    case True
    with op b(2) assms(3) show ?thesis by (simp add: traffic_open_zero)
  next
    case False
    from op have "lebtls_traffic_open g mem (Some ?s) (Some ?k) (Some ?v) True (Some body) (word_of_nat (length body)) = (q, s, x, g')"
      by (simp only: f b(2) mp [OF b(3) False])
    note o = open_result [OF assms(3) kv _ this]
    have "\<exists>ms. xs = y # ms \<and> message_ok y \<and> incoming stream t1 (conn1\<lparr>app_read_seq := ?s + 1\<rparr>) ms" if "x = Some y"
    proof -
      have y: "record_opened ?k ?v ?s body = Some y" using o(3) that len by simp
      then have v: "valid_tag ?k (record_nonce ?v ?s) body" using valid_tag_opened [OF kv(2), of body ?k ?s] len by simp
      with inc b(1) obtain m ms where xs: "xs = m # ms" and e: "body = record_seal ?k ?v ?s m" "genuine ?k ?v (?s + 1) ms (stream t1)"
        by (cases xs) (auto simp: incoming_def)
      have "y = m" using y e(1) by (auto simp: rp.opened_iff dest: rp.seal_inj)
      with xs e(2) inc b(4,5) f show ?thesis by (simp add: incoming_def receiving_def next_seq_frame)
    qed
    with o len f(4) show ?thesis by auto
  qed
  then show "sbox_ok g'" and "x = Some y \<Longrightarrow> \<exists>ms. xs = y # ms \<and> s = Some (?s + 1) \<and> message_ok y \<and>
      incoming stream t1 (conn1\<lparr>app_read_seq := ?s + 1\<rparr>) ms \<and> stash conn1 = stash conn"
    by blast+
qed

lemma recv_loop_opened:
  assumes "lebtls_rec_recv ops (kmalloc i) True t conn timeout_ms = (r, Some (LEBTLS_RT_APP_DATA, rcd, n), conn1, t1)"
    and "lebtls_traffic_open g (pt_mem i) (Some (app_read_seq conn1)) (Some (app_key_rx conn1)) (Some (app_iv_rx conn1))
        True rcd (word_of_nat n) = (q, Some s, Some m, g1)"
    and "c2 = conn1\<lparr>app_read_seq := s\<rparr>"
  shows "recv_loop ops kmalloc pt_mem realloc_ok i g t conn buf len timeout_ms =
    (if snd m = LEBTLS_RT_HANDSHAKE then
       if lebtls_skip_post_handshake (fst m) < 0 then Some (Ret (-1), buf, c2, t1, g1)
       else recv_loop ops kmalloc pt_mem realloc_ok (Suc i) g1 t1 c2 buf len timeout_ms
     else if snd m \<noteq> LEBTLS_RT_APP_DATA then Some (Ret (-1), buf, c2, t1, g1)
     else (case recv_content realloc_ok c2 buf len (fst m) of
             None \<Rightarrow> None | Some (r, buf, conn) \<Rightarrow> Some (r, buf, conn, t1, g1)))"
  using assms by (subst recv_loop.simps) (cases m, simp add: Let_def)

lemma recv_loop_step:
  assumes io: "in_order ops stream" and km: "\<And>i. kmalloc_ok (kmalloc i)"
    and len: "unat len < 2 ^ 31" "unat len \<le> length buf"
    and inc: "incoming stream t conn xs" and st: "stash conn = []" and g: "sbox_ok g"
    and IH: "\<And>m ms g t conn. xs = m # ms \<Longrightarrow> incoming stream t conn ms \<Longrightarrow> stash conn = [] \<Longrightarrow> sbox_ok g \<Longrightarrow>
      \<exists>res. recv_loop ops kmalloc pt_mem realloc_ok (Suc i) g t conn buf len timeout_ms = Some res \<and>
        delivers stream len buf (app_data ms) res"
  shows "\<exists>res. recv_loop ops kmalloc pt_mem realloc_ok i g t conn buf len timeout_ms = Some res \<and>
    delivers stream len buf (app_data xs) res"
proof -
  obtain r out conn1 t1 where rr: "lebtls_rec_recv ops (kmalloc i) True t conn timeout_ms = (r, out, conn1, t1)"
    by (metis prod_cases4)
  have rc: "received stream conn (rec_partial conn @ stream t) (r, out, conn1, t1)"
    using rec_recv_received [OF io km, of conn t i timeout_ms] inc by (simp add: rr incoming_def receiving_def)
  note loop = recv_loop.simps [of ops kmalloc pt_mem realloc_ok i g t conn buf len timeout_ms]
  show ?thesis
  proof (cases out)
    case None
    with rc have "delivers stream len buf (app_data xs) (r, buf, conn1, t1, g)"
      by (intro recv_loop_no_record [OF _ inc st g]) simp
    with None rr show ?thesis by (simp add: loop)
  next
    case (Some o1)
    obtain ty rcd n where o: "out = Some (ty, rcd, n)" using Some by (cases o1) auto
    obtain q s x g1 where op: "lebtls_traffic_open g (pt_mem i) (Some (app_read_seq conn1)) (Some (app_key_rx conn1)) (Some (app_iv_rx conn1))
        True rcd (word_of_nat n) = (q, s, x, g1)"
      by (metis prod_cases4)
    note od = opened_record [OF rc [unfolded o] inc g op]
    show ?thesis
    proof (cases "ty = LEBTLS_RT_APP_DATA \<and> x \<noteq> None")
      case False
      then show ?thesis using rr o op od(1) g
        by (cases "ty = LEBTLS_RT_APP_DATA"; cases x) (auto simp: loop delivers_def)
    next
      case True
      then obtain m where m: "ty = LEBTLS_RT_APP_DATA" "x = Some m" by blast
      from od(2) [OF m(2)] obtain ms where ms: "xs = m # ms" "s = Some (app_read_seq conn + 1)" "message_ok m"
        "incoming stream t1 (conn1\<lparr>app_read_seq := app_read_seq conn + 1\<rparr>) ms" "stash conn1 = stash conn" by blast
      define c2 where "c2 = conn1\<lparr>app_read_seq := app_read_seq conn + 1\<rparr>"
      have i2: "incoming stream t1 c2 ms" "stash c2 = []" using ms(4,5) st by (simp_all add: c2_def)
      note lp = recv_loop_opened [where kmalloc = kmalloc and pt_mem = pt_mem and i = i, OF rr [unfolded o m(1)] op [unfolded m(2) ms(2)] c2_def]
      show ?thesis
      proof (cases "snd m = LEBTLS_RT_APP_DATA")
        case True
        then have "snd m \<noteq> LEBTLS_RT_HANDSHAKE" by (simp add: LEBTLS_RT_APP_DATA_def LEBTLS_RT_HANDSHAKE_def)
        moreover obtain q buf' conn' where "recv_content realloc_ok c2 buf len (fst m) = Some (q, buf', conn')"
          "delivers stream len buf (fst m @ app_data ms) (q, buf', conn', t1, g1)"
          using recv_content_delivers [OF i2 len od(1), of realloc_ok "fst m"] by blast
        moreover have "app_data xs = fst m @ app_data ms" using True ms(1) by (simp add: app_data_def)
        ultimately show ?thesis using True by (simp add: lp)
      next
        case False
        with ms(3) have h: "snd m = LEBTLS_RT_HANDSHAKE" "lebtls_skip_post_handshake (fst m) = 0"
          by (auto simp: message_ok_def)
        have "app_data xs = app_data ms" using False ms(1) by (simp add: app_data_def)
        then show ?thesis using IH [OF ms(1) i2 od(1)] h by (simp add: lp)
      qed
    qed
  qed
qed

lemma recv_loop_delivers:
  assumes io: "in_order ops stream" and km: "\<And>i. kmalloc_ok (kmalloc i)"
    and len: "unat len < 2 ^ 31" "unat len \<le> length buf"
    and "incoming stream t conn xs" and "stash conn = []" and "sbox_ok g"
  shows "\<exists>res. recv_loop ops kmalloc pt_mem realloc_ok i g t conn buf len timeout_ms = Some res \<and>
    delivers stream len buf (app_data xs) res"
  using assms(5-7)
proof (induction xs arbitrary: i g t conn)
  case Nil
  show ?case by (rule recv_loop_step [OF io km len Nil]) simp
next
  case (Cons x xs)
  show ?case by (rule recv_loop_step [OF io km len Cons.prems]) (use Cons.IH in simp)
qed

lemma stash_drained:
  assumes "stash conn \<noteq> []" and "0 < len" and "unat len < 2 ^ 31" and "unat len \<le> length buf" and "length (stash conn) < 2 ^ 63"
  shows "lebtls_stash_drain (Some conn) (Some buf) len =
    (int (min (length (stash conn)) (unat len)), Some (conn\<lparr>stash := drop (min (length (stash conn)) (unat len)) (stash conn)\<rparr>),
     Some (put_bytes buf 0 (take (min (length (stash conn)) (unat len)) (stash conn))))"
proof -
  define n where "n = (if word_of_nat (length (stash conn)) < len then word_of_nat (length (stash conn)) else len)"
  have "unat (word_of_nat (length (stash conn)) :: u64) = length (stash conn)" using assms(5) by (simp add: unat_of_nat)
  then have k: "unat n = min (length (stash conn)) (unat len)" by (auto simp: n_def word_less_nat_alt)
  then have "int_of_len n = int (unat n)" using assms(3) by (intro int_of_len_small) simp
  then show ?thesis
    using assms(1) by (simp add: lebtls_stash_drain_def Let_def k flip: n_def)
qed

lemma recv_delivers:
  assumes io: "in_order ops stream" and km: "\<And>i. kmalloc_ok (kmalloc i)"
    and len: "0 < len" "unat len < 2 ^ 31" "unat len \<le> length buf"
    and inc: "incoming stream t conn xs" and g: "sbox_ok g" and st: "length (stash conn) < 2 ^ 63"
  shows "\<exists>r buf' conn' t' g'.
    lebtls_recv ops kmalloc pt_mem realloc_ok g t conn (Some buf) len timeout_ms = Some (r, Some buf', conn', t', g') \<and>
    delivers stream len buf (stash conn @ app_data xs) (r, buf', conn', t', g')"
proof (cases "stash conn = []")
  have hs: "handshake_done conn" using inc by (simp add: incoming_def receiving_def)
  case True
  then have "lebtls_stash_drain (Some conn) (Some buf) len = (0, Some conn, Some buf)"
    by (simp add: lebtls_stash_drain_def)
  moreover obtain res where "recv_loop ops kmalloc pt_mem realloc_ok 0 g t conn buf len timeout_ms = Some res"
    "delivers stream len buf (app_data xs) res"
    using recv_loop_delivers [where kmalloc = kmalloc, OF io km len(2,3) inc True g] by blast
  ultimately show ?thesis
    using len(1) hs True by (cases res) (auto simp: lebtls_recv_def)
next
  case False
  have hs: "handshake_done conn" using inc by (simp add: incoming_def receiving_def)
  define k where "k = min (length (stash conn)) (unat len)"
  let ?c = "conn\<lparr>stash := drop k (stash conn)\<rparr>" and ?b = "put_bytes buf 0 (take k (stash conn))"
  have n: "0 < k" "k \<le> unat len" "k \<le> length (stash conn)"
    using False len(1) by (auto simp: k_def unat_gt_0)
  have r: "lebtls_recv ops kmalloc pt_mem realloc_ok g t conn (Some buf) len timeout_ms =
      Some (Ret (int k), Some ?b, ?c, t, g)"
    using stash_drained [OF False len st, folded k_def] len(1) hs n(1) by (simp add: lebtls_recv_def)
  have "incoming stream t ?c xs" by (rule incoming_frame [OF inc]) simp_all
  moreover have "take k ?b = take k (stash conn)" "length ?b = length buf" "drop k ?b = drop k buf"
    using n len(3) by (auto simp: put_bytes_def)
  ultimately have "delivers stream len buf (stash conn @ app_data xs) (Ret (int k), ?b, ?c, t, g)"
    unfolding delivers_def using n(2) g
    by (auto intro!: exI [of _ k] exI [of _ xs] simp: append_assoc [symmetric] simp del: append_assoc)
  with r show ?thesis by blast
qed

text \<open>
  On an established connection whose TCP stream holds no forged tag for the records of a
  sequence of messages from the receiver's sequence number on, a call of lebtls\_recv always
  returns. It fails, or it
  stores in the caller's buffer exactly the next bytes of the application data, at most as many as
  asked for; what is left is in the stash and the records still to come. Records of session
  tickets between the data are skipped, and a call that times out half way through a record
  loses nothing.
\<close>

theorem lebtls_recv_delivers:
  assumes "in_order ops stream" and "\<And>i. kmalloc_ok (kmalloc i)"
    and "0 < len" and "unat len < 2 ^ 31" and "unat len \<le> length buf"
    and "incoming stream t conn xs" and "sbox_ok g" and "length (stash conn) < 2 ^ 63"
  shows "\<exists>r buf' conn' t' g'.
    lebtls_recv ops kmalloc pt_mem realloc_ok g t conn (Some buf) len timeout_ms = Some (r, Some buf', conn', t', g') \<and>
    delivers stream len buf (stash conn @ app_data xs) (r, buf', conn', t', g')"
  using assms by (rule recv_delivers)

subsection \<open>From one end to the other\<close>

text \<open>The pieces that lebtls\_send seals.\<close>

fun chunks :: "u8 list \<Rightarrow> u8 list list" where
  "chunks d = (if d = [] then [] else take 16384 d # chunks (drop 16384 d))"

declare chunks.simps [simp del]

lemma concat_chunks: "concat (chunks d) = d"
  by (induction d rule: chunks.induct) (subst chunks.simps, simp)

lemma chunks_small: "c \<in> set (chunks d) \<Longrightarrow> length c \<le> 16384"
proof (induction d rule: chunks.induct)
  case (1 d)
  then show ?case by (subst (asm) (2) chunks.simps) (auto split: if_splits)
qed

text \<open>
  What the module relies on of tcp\_send: when it returns the full count, the bytes were appended
  to the stream. Nothing is assumed of other results.
\<close>

definition appends :: "'t tcp_ops \<Rightarrow> ('t \<Rightarrow> u8 list) \<Rightarrow> bool" where
  "appends ops sent \<longleftrightarrow> (\<forall>t bs t'. op_send ops t bs = (int (length bs), t') \<longrightarrow> sent t' = sent t @ bs)"

text \<open>The log of a socket holds the byte strings that were given to tcp\_send, whatever came of them.\<close>

definition logs :: "'t tcp_ops \<Rightarrow> ('t \<Rightarrow> u8 list list) \<Rightarrow> bool" where
  "logs ops record \<longleftrightarrow> (\<forall>t bs. record (snd (op_send ops t bs)) = record t @ [bs])"

definition data_message :: "u8 list \<Rightarrow> u8 list \<times> u8" where
  "data_message c = (c, LEBTLS_RT_APP_DATA)"

lemma traffic_seal_take:
  assumes "n \<le> 16384"
  shows "lebtls_traffic_seal g p mem (Some seq) (Some key) (Some iv) True ty (Some (take n d)) (word_of_nat n) =
    lebtls_traffic_seal g p mem (Some seq) (Some key) (Some iv) True ty (Some d) (word_of_nat n)"
proof -
  have "unat (word_of_nat n :: u64) = n" using assms by (simp add: unat_of_nat)
  then have rd: "readable (Some (take n d)) (unat (word_of_nat n :: u64)) = readable (Some d) (unat (word_of_nat n :: u64))"
    "(Some (take n d) = None) = (Some d = None)"
    by (simp_all add: readable_def)
  show ?thesis unfolding lebtls_traffic_seal_def prod.case option.case rd ..
qed

lemma traffic_seal_chunk:
  assumes "sbox_ok g" and "length key = 16" and "length iv = 12" and "n \<le> 16384" and "n \<le> length d"
    and seal: "lebtls_traffic_seal g p mem (Some seq) (Some key) (Some iv) True ty (Some d) (word_of_nat n) = (r, s, rcd, g')"
    and "\<not> r < 0"
  shows "rcd = Some (tls_record key iv seq (take n d, ty))" and "s = Some (seq + 1)" and "sbox_ok g'"
proof -
  have "lebtls_traffic_seal g p mem (Some seq) (Some key) (Some iv) True ty (Some (take n d)) (word_of_nat n) = (r, s, rcd, g')"
    using seal by (simp only: traffic_seal_take [OF assms(4)])
  moreover have p: "p" and "mem \<noteq> None"
    using seal assms(7) by (auto simp: lebtls_traffic_seal_def split: if_splits option.splits)
  moreover from \<open>mem \<noteq> None\<close> obtain b where "mem = Some b" by blast
  moreover have "length (take n d) = n" using assms(5) by simp
  ultimately have "(r, s, rcd, g') = (0, Some (seq + 1), Some (traffic_header (word_of_nat (n + 17)) @ sealed key iv seq (take n d @ [ty])), gcm_sbox_init g)"
    using traffic_seal_sealed [OF assms(1-3), of "take n d" b seq ty] assms(4) by simp
  with assms(5) sbox_init_ok [OF assms(1)] show "rcd = Some (tls_record key iv seq (take n d, ty))" "s = Some (seq + 1)" "sbox_ok g'"
    by (simp_all add: tls_record_def)
qed

lemma send_loop_wire:
  assumes "appends ops sent" and full: "\<And>t bs. fst (op_send ops t bs) = int (length bs)" and "sbox_ok g" and "length (app_key_tx conn) = 16" and "length (app_iv_tx conn) = 12"
    and "send_loop ops pt_ok rec_mem i g t conn d = (True, conn', t', g')"
  shows "sent t' = sent t @ tls_wire (app_key_tx conn) (app_iv_tx conn) (app_write_seq conn) (map data_message (chunks d))"
  using assms(3-6)
proof (induction "length d" arbitrary: i g t conn d rule: less_induct)
  case less
  let ?k = "app_key_tx conn" and ?v = "app_iv_tx conn" and ?s = "app_write_seq conn"
  show ?case
  proof (cases "d = []")
    case True
    with less.prems show ?thesis by (simp add: send_loop.simps chunks.simps)
  next
    case False
    define n where "n = (if length d > 16384 then 16384 else length d)"
    have n: "n \<le> 16384" "n \<le> length d" "take n d = take 16384 d" "drop n d = drop 16384 d" by (auto simp: n_def)
    obtain r s rcd g1 where seal: "lebtls_traffic_seal g (pt_ok i) (rec_mem i) (Some ?s) (Some ?k) (Some ?v) True LEBTLS_RT_APP_DATA
        (Some d) (word_of_nat n) = (r, s, rcd, g1)"
      by (metis prod_cases4)
    have r: "\<not> r < 0"
      using less.prems(4) False seal by (subst (asm) send_loop.simps) (auto simp: Let_def simp flip: n_def split: if_splits)
    note c = traffic_seal_chunk [OF less.prems(1-3) n(1,2) seal r]
    define conn1 where "conn1 = conn\<lparr>app_write_seq := ?s + 1\<rparr>"
    obtain m t1 where t1: "op_send ops t (tls_record ?k ?v ?s (take n d, LEBTLS_RT_APP_DATA)) = (m, t1)"
      "send_loop ops pt_ok rec_mem (Suc i) g1 t1 conn1 (drop n d) = (True, conn', t', g')"
      using less.prems(4) False seal r c(1,2)
      by (subst (asm) send_loop.simps) (auto simp: Let_def conn1_def simp flip: n_def split: if_splits prod.splits)
    have "length (drop n d) < length d" using False by (simp add: n_def)
    from less.hyps [OF this c(3) _ _ t1(2)] less.prems(2,3)
    have "sent t' = sent t1 @ tls_wire ?k ?v (?s + 1) (map data_message (chunks (drop n d)))"
      by (simp add: conn1_def)
    moreover have "sent t1 = sent t @ tls_record ?k ?v ?s (take n d, LEBTLS_RT_APP_DATA)"
      using assms(1) t1(1) full [of t "tls_record ?k ?v ?s (take n d, LEBTLS_RT_APP_DATA)"] by (simp add: appends_def)
    ultimately show ?thesis
      using False n(3,4) by (simp add: chunks.simps [of d] data_message_def)
  qed
qed

primrec tls_records :: "u8 list \<Rightarrow> u8 list \<Rightarrow> u64 \<Rightarrow> (u8 list \<times> u8) list \<Rightarrow> u8 list list" where
  "tls_records key iv seq [] = []"
| "tls_records key iv seq (x # xs) = tls_record key iv seq x # tls_records key iv (seq + 1) xs"

lemma tls_records_nth:
  "length (tls_records key iv s xs) = length xs"
  "i < length xs \<Longrightarrow> tls_records key iv s xs ! i = tls_record key iv (s + word_of_nat i) (xs ! i)"
proof -
  show "length (tls_records key iv s xs) = length xs" by (induction xs arbitrary: s) simp_all
  show "i < length xs \<Longrightarrow> tls_records key iv s xs ! i = tls_record key iv (s + word_of_nat i) (xs ! i)"
    by (induction xs arbitrary: s i) (auto simp: nth_Cons ac_simps split: nat.splits)
qed

text \<open>Whatever tcp\_send returns, what the send loop gives to it are the first records of the data.\<close>

lemma send_loop_log:
  assumes "logs ops record" and "sbox_ok g" and "length (app_key_tx conn) = 16" and "length (app_iv_tx conn) = 12"
    and "send_loop ops pt_ok rec_mem i g t conn d = (ok, conn', t', g')"
  shows "\<exists>k. record t' = record t @ tls_records (app_key_tx conn) (app_iv_tx conn) (app_write_seq conn) (take k (map data_message (chunks d)))"
  using assms(2-5)
proof (induction "length d" arbitrary: i g t conn d rule: less_induct)
  case less
  let ?k = "app_key_tx conn" and ?v = "app_iv_tx conn" and ?s = "app_write_seq conn"
  define n where "n = (if length d > 16384 then 16384 else length d)"
  have n: "n \<le> 16384" "n \<le> length d" "take n d = take 16384 d" "drop n d = drop 16384 d" by (auto simp: n_def)
  obtain r s rcd g1 where seal: "lebtls_traffic_seal g (pt_ok i) (rec_mem i) (Some ?s) (Some ?k) (Some ?v) True LEBTLS_RT_APP_DATA
      (Some d) (word_of_nat n) = (r, s, rcd, g1)"
    by (metis prod_cases4)
  show ?case
  proof (cases "d = [] \<or> r < 0")
    case True
    with less.prems(4) seal have "t' = t"
      by (subst (asm) send_loop.simps) (auto simp: Let_def simp flip: n_def split: if_splits)
    then show ?thesis by (intro exI [of _ 0]) simp
  next
    case False
    then have d: "d \<noteq> []" "\<not> r < 0" by simp_all
    note c = traffic_seal_chunk [OF less.prems(1-3) n(1,2) seal d(2)]
    define conn1 where "conn1 = conn\<lparr>app_write_seq := ?s + 1\<rparr>"
    let ?r = "tls_record ?k ?v ?s (take n d, LEBTLS_RT_APP_DATA)"
    obtain m t1 where t1: "op_send ops t ?r = (m, t1)" by fastforce
    have rec1: "record t1 = record t @ [?r]" using assms(1) t1 unfolding logs_def by (metis snd_conv)
    have ch: "map data_message (chunks d) = (take n d, LEBTLS_RT_APP_DATA) # map data_message (chunks (drop n d))"
      using d(1) n(3,4) by (subst chunks.simps) (simp add: data_message_def)
    show ?thesis
    proof (cases "m < 0")
      case True
      with less.prems(4) d seal c(1,2) t1 have "t' = t1"
        by (subst (asm) send_loop.simps) (auto simp: Let_def simp flip: n_def)
      then show ?thesis using rec1 by (intro exI [of _ 1]) (simp add: ch)
    next
      case go: False
      have "send_loop ops pt_ok rec_mem (Suc i) g1 t1 conn1 (drop n d) = (ok, conn', t', g')"
        using less.prems(4) d seal c(1,2) t1 go by (subst (asm) send_loop.simps) (auto simp: Let_def conn1_def simp flip: n_def)
      moreover have "length (drop n d) < length d" using d(1) by (simp add: n_def)
      ultimately obtain k where "record t' = record t1 @ tls_records ?k ?v (?s + 1) (take k (map data_message (chunks (drop n d))))"
        using less.hyps [of "drop n d" g1 conn1 "Suc i" t1] c(3) less.prems(2,3) by (auto simp: conn1_def)
      then show ?thesis using rec1 by (intro exI [of _ "Suc k"]) (simp add: ch)
    qed
  qed
qed

lemma app_data_messages: "app_data (map data_message cs) = concat cs"
  by (induction cs) (simp_all add: app_data_def data_message_def)

text \<open>
  A sequence of calls of lebtls\_recv, each with its buffer, its length and what happens during it,
  up to the first that fails, and the bytes that the calls returned.
\<close>

record recv_call =
  rv_kmalloc :: "nat \<Rightarrow> nat \<Rightarrow> u8 list option"
  rv_pt_mem :: "nat \<Rightarrow> u8 list option"
  rv_realloc_ok :: bool
  rv_buf :: "u8 list"
  rv_len :: u64
  rv_timeout :: u64

primrec recv_calls ::
    "'t tcp_ops \<Rightarrow> sbox_state \<Rightarrow> 't \<Rightarrow> tls_conn \<Rightarrow> recv_call list \<Rightarrow> u8 list" where
  "recv_calls ops g t conn [] = []"
| "recv_calls ops g t conn (c # cs) =
     (case lebtls_recv ops (rv_kmalloc c) (rv_pt_mem c) (rv_realloc_ok c) g t conn (Some (rv_buf c)) (rv_len c) (rv_timeout c) of
        Some (Ret n, Some buf, conn, t, g) \<Rightarrow>
          if n < 0 then [] else take (nat n) buf @ recv_calls ops g t conn cs
      | _ \<Rightarrow> [])"

definition call_ok :: "recv_call \<Rightarrow> bool" where
  "call_ok c \<longleftrightarrow> (\<forall>i. kmalloc_ok (rv_kmalloc c i)) \<and> 0 < rv_len c \<and> unat (rv_len c) < 2 ^ 31 \<and>
     unat (rv_len c) \<le> length (rv_buf c)"

lemma recv_calls_prefix:
  assumes io: "in_order ops stream" and "\<forall>c \<in> set cs. call_ok c"
    and "incoming stream t conn xs" and "sbox_ok g" and "length (stash conn @ app_data xs) < 2 ^ 63"
  shows "\<exists>rest. stash conn @ app_data xs = recv_calls ops g t conn cs @ rest"
  using assms(2-5)
proof (induction cs arbitrary: g t conn xs)
  case (Cons c cs)
  obtain r buf conn1 t1 g1 where r:
    "lebtls_recv ops (rv_kmalloc c) (rv_pt_mem c) (rv_realloc_ok c) g t conn (Some (rv_buf c)) (rv_len c) (rv_timeout c) =
      Some (r, Some buf, conn1, t1, g1)"
    and d: "delivers stream (rv_len c) (rv_buf c) (stash conn @ app_data xs) (r, buf, conn1, t1, g1)"
    using recv_delivers [OF io, of "rv_kmalloc c" "rv_len c" "rv_buf c" t conn xs g "rv_pt_mem c" "rv_realloc_ok c" "rv_timeout c"]
      Cons.prems by (auto simp: call_ok_def)
  show ?case
  proof (cases "r = Ret (-1)")
    case True
    with r show ?thesis by simp
  next
    case False
    with d obtain n ys where n: "r = Ret (int n)" "incoming stream t1 conn1 ys" "sbox_ok g1"
        "stash conn @ app_data xs = take n buf @ (stash conn1 @ app_data ys)"
      by (auto simp: delivers_def)
    from n(4) Cons.prems(4) have "length (stash conn1 @ app_data ys) < 2 ^ 63"
      by (metis append_assoc length_append le_add2 le_less_trans)
    with Cons.IH [OF _ n(2,3)] Cons.prems(1) obtain rest where
      "stash conn1 @ app_data ys = recv_calls ops g1 t1 conn1 cs @ rest" by auto
    with n(1,4) r show ?thesis by simp
  qed
qed simp

lemma carries_genuine:
  assumes "length iv = 12" and "\<forall>x \<in> set xs. message_ok x"
  shows "genuine key iv seq xs (tls_wire key iv seq xs)"
  using assms(2)
proof (induction xs arbitrary: seq)
  case (Cons x xs)
  show ?case
    unfolding genuine.simps
  proof (intro allI impI)
    fix hdr body rest
    assume sp: "record_split (tls_wire key iv seq (x # xs)) hdr body rest"
    have "message_ok x" using Cons.prems by simp
    from next_record [OF _ _ this, of hdr body rest key iv seq "tls_wire key iv (seq + 1) xs"] sp
    have "body = sealed key iv seq (fst x @ [snd x])" "rest = tls_wire key iv (seq + 1) xs" by (simp_all add: record_split_def)
    then show "body = record_seal key iv seq x \<and> genuine key iv (seq + 1) xs rest"
      using Cons by (simp add: record_seal_def)
  qed
qed (simp add: record_split_def)

lemma carries_incoming: "carries stream t conn xs \<Longrightarrow> incoming stream t conn xs"
  using carries_genuine by (simp add: carries_def incoming_def receiving_def)

text \<open>
  A byte stream without forged tags: each record of it that authenticates at the number of its
  place, counted from a first number on, is one that was made under the nonce of this number.
\<close>

function unforged :: "u8 list \<Rightarrow> u8 list \<Rightarrow> (u8 list \<times> u8 list) list \<Rightarrow> u64 \<Rightarrow> u8 list \<Rightarrow> bool" where
  "unforged key iv made seq w =
     (let n = header_len (take 5 w)
      in if length w < 5 + n then True
         else valid_tag key (record_nonce iv seq) (take n (drop 5 w)) \<longrightarrow>
                (record_nonce iv seq, take n (drop 5 w)) \<in> set made \<and> unforged key iv made (seq + 1) (drop (5 + n) w))"
  by pat_completeness auto
termination
  by (relation "measure (\<lambda>(key, iv, made, seq, w). length w)") auto

declare unforged.simps [simp del]

lemma unforged_split:
  assumes "unforged key iv made seq w" and "record_split w hdr body rest" and "valid_tag key (record_nonce iv seq) body"
  shows "(record_nonce iv seq, body) \<in> set made \<and> unforged key iv made (seq + 1) rest"
  using assms(1) by (subst (asm) unforged.simps) (use assms(2,3) in \<open>auto simp: record_split_def Let_def\<close>)

lemma unforged_genuine:
  assumes "length iv = 12" and "logged (record_nonce iv) (record_seal key iv) s made xs" and "length xs < 2 ^ 64"
    and "unforged key iv made (s + word_of_nat j) w" and "j \<le> length xs"
  shows "genuine key iv (s + word_of_nat j) (drop j xs) w"
  using assms(4,5)
proof (induction "length xs - j" arbitrary: j w)
  case 0
  then have j: "j = length xs" by simp
  have "False" if "record_split w hdr body rest" "valid_tag key (record_nonce iv (s + word_of_nat j)) body" for hdr body rest
    using rp.logged_number [OF assms(2) inj_record_nonce [OF assms(1)], of j body] unforged_split [OF 0(2) that] assms(3) j by simp
  then show ?case using j by auto
next
  case (Suc d)
  then have j: "j < length xs" by simp
  have "body = record_seal key iv (s + word_of_nat j) (xs ! j) \<and> genuine key iv (s + word_of_nat j + 1) (drop (Suc j) xs) rest"
    if "record_split w hdr body rest" "valid_tag key (record_nonce iv (s + word_of_nat j)) body" for hdr body rest
  proof -
    note u = unforged_split [OF Suc.prems(1) that]
    have "body = record_seal key iv (s + word_of_nat j) (xs ! j)"
      using rp.logged_number [OF assms(2) inj_record_nonce [OF assms(1)], of j body] u assms(3) j by simp
    moreover have "genuine key iv (s + word_of_nat (Suc j)) (drop (Suc j) xs) rest"
      using Suc.hyps(2) u j by (intro Suc.hyps(1)) (auto simp: ac_simps)
    ultimately show ?thesis by (simp add: ac_simps)
  qed
  then show ?case using j by (simp flip: Cons_nth_drop_Suc)
qed

text \<open>The nonces and bodies of records that were given to tcp\_send one after the other.\<close>

definition made_records :: "u8 list \<Rightarrow> u64 \<Rightarrow> u8 list list \<Rightarrow> (u8 list \<times> u8 list) list" where
  "made_records iv s rs = map (\<lambda>i. (record_nonce iv (s + word_of_nat i), drop 5 (rs ! i))) [0..<length rs]"

lemma made_records_logged: "logged (record_nonce iv) (record_seal key iv) s (made_records iv s (tls_records key iv s xs)) xs"
  by (simp add: logged_def made_records_def tls_records_nth tls_record_def record_seal_def length_traffic_header)

lemma length_chunks: "length (chunks d) \<le> length d"
proof (induction d rule: chunks.induct)
  case (1 d)
  show ?case
  proof (cases "d = []")
    case False
    with 1 have "length (chunks (drop 16384 d)) \<le> length (drop 16384 d)" by simp
    with False show ?thesis by (subst chunks.simps) (cases d, auto)
  qed (simp add: chunks.simps)
qed

lemma fresh_partial: "rec_got b = 0 \<Longrightarrow> rec_partial b = []"
  by (auto simp: rec_partial_def split: option.splits)

lemma chunk_messages_ok: "x \<in> set (map data_message (chunks d)) \<Longrightarrow> message_ok x"
  using chunks_small by (auto simp: message_ok_def data_message_def)

lemma sent_carries:
  assumes "stream u = tls_wire (app_key_rx b) (app_iv_rx b) (app_read_seq b) (map data_message (chunks d))"
    and "handshake_done b" "rec_got b = 0" "length (rec_hdr b) = 5" "length (app_key_rx b) = 16" "length (app_iv_rx b) = 12"
  shows "carries stream u b (map data_message (chunks d))"
  using assms chunk_messages_ok [of _ d] fresh_partial [OF assms(3)] by (auto simp: carries_def receiving_def rec_wf_def)

text \<open>
  C8. What lebtls\_recv returns at one end is what was given to lebtls\_send at the other, in order
  and unaltered. Let the sender send data, with whatever allocation failures and whatever
  tcp\_send returns and does with the bytes, short counts and failures included. Let any
  byte stream at all reach a receiver with the same keys and sequence number, as long as no
  record of it carries a forged tag: a valid one under the nonce of the receiver's number that is
  not on a record that the sender gave to tcp\_send under this nonce. Then whatever calls of
  lebtls\_recv the receiver makes up to the first that fails, with whatever buffers, time-outs, pieces
  of TCP data and allocation failures, the bytes they return are a prefix of the data.
\<close>

theorem tls_stream_in_order:
  assumes "logs ops record" and "sbox_ok g" and "length (app_key_tx a) = 16" and "length (app_iv_tx a) = 12"
    and send: "lebtls_send ops pt_ok rec_mem g t a (Some d) (word_of_nat (length d)) = (r, a', t', g')"
    and d: "length d < 2 ^ 31"
    and io: "in_order ops' stream" and h: "sbox_ok h"
    and b: "handshake_done b" "rec_got b = 0" "length (rec_hdr b) = 5" "stash b = []"
    and keys: "app_key_rx b = app_key_tx a" "app_iv_rx b = app_iv_tx a" "app_read_seq b = app_write_seq a"
    and auth: "unforged (app_key_rx b) (app_iv_rx b)
      (made_records (app_iv_tx a) (app_write_seq a) (drop (length (record t)) (record t'))) (app_read_seq b) (stream u)"
    and cs: "\<forall>c \<in> set cs. call_ok c"
  shows "\<exists>rest. d = recv_calls ops' h u b cs @ rest"
proof -
  let ?k = "app_key_tx a" and ?v = "app_iv_tx a" and ?s = "app_write_seq a"
  have len: "unat (word_of_nat (length d) :: u64) = length d" using d by (simp add: unat_of_nat)
  have "\<exists>k. record t' = record t @ tls_records ?k ?v ?s (take k (map data_message (chunks d)))"
  proof (cases "handshake_done a")
    case True
    with send obtain ok where "send_loop ops pt_ok rec_mem 0 g t a d = (ok, a', t', g')"
      by (auto simp: lebtls_send_def len split: prod.splits)
    from send_loop_log [OF assms(1-4) this] show ?thesis .
  next
    case False
    with send show ?thesis by (intro exI [of _ 0]) (simp add: lebtls_send_def)
  qed
  then obtain k where k: "drop (length (record t)) (record t') = tls_records ?k ?v ?s (map data_message (take k (chunks d)))"
    by (auto simp: take_map)
  let ?xs = "map data_message (take k (chunks d))"
  have "length ?xs < 2 ^ 64" using length_chunks [of d] d by simp
  then have "genuine ?k ?v ?s ?xs (stream u)"
    using unforged_genuine [OF assms(4) made_records_logged [of ?v ?k ?s ?xs], of 0 "stream u"] auth keys k by simp
  moreover have "message_ok x" if "x \<in> set ?xs" for x
    using that chunk_messages_ok [of x d] by (auto dest: in_set_takeD)
  ultimately have "incoming stream u b ?xs"
    using b(1-3) keys assms(3,4) fresh_partial [OF b(2)] by (simp add: incoming_def receiving_def rec_wf_def)
  moreover have e: "d = concat (take k (chunks d)) @ concat (drop k (chunks d))"
    by (metis append_take_drop_id concat_append concat_chunks)
  then have "length (concat (take k (chunks d))) \<le> length d" by (metis length_append le_add1)
  then have "length (concat (take k (chunks d))) < 2 ^ 63" using d by simp
  ultimately obtain rest where "concat (take k (chunks d)) = recv_calls ops' h u b cs @ rest"
    using recv_calls_prefix [OF io cs, of u b ?xs h] h b(4) by (auto simp: app_data_messages)
  with e show ?thesis by (metis append_assoc)
qed

definition demo_conn :: tls_conn where
  "demo_conn = fresh_conn (replicate 16 1) (replicate 12 2)"

lemma demo_conn_fields [simp]:
  "rec_hdr demo_conn = replicate 5 0" "rec_buf demo_conn = None" "rec_got demo_conn = 0" "stash demo_conn = []"
  "app_key_tx demo_conn = replicate 16 1" "app_key_rx demo_conn = replicate 16 1" "app_iv_tx demo_conn = replicate 12 2"
  "app_iv_rx demo_conn = replicate 12 2" "app_read_seq demo_conn = 0" "app_write_seq demo_conn = 0" "handshake_done demo_conn"
  by (simp_all add: demo_conn_def fresh_conn_def)

definition demo_call :: "nat \<Rightarrow> recv_call" where
  "demo_call n = \<lparr>rv_kmalloc = (\<lambda>i n. Some (replicate n 0)), rv_pt_mem = (\<lambda>i. Some []), rv_realloc_ok = True,
     rv_buf = replicate n 0, rv_len = word_of_nat n, rv_timeout = 1000\<rparr>"

lemma demo_call_ok: "0 < n \<Longrightarrow> n < 2 ^ 31 \<Longrightarrow> call_ok (demo_call n)"
  by (simp add: call_ok_def demo_call_def kmalloc_ok_def unat_of_nat word_less_nat_alt)

theorem lebtls_recv_delivers_witness:
  "\<exists>r buf' conn' t' g'.
     lebtls_recv list_tcp (\<lambda>i n. Some (replicate n 0)) (\<lambda>i. Some []) True empty_table
       (tls_wire (replicate 16 1) (replicate 12 2) 0 [([], 22), ([5, 6], 23)]) demo_conn (Some [0, 0, 0]) 3 1000 =
     Some (r, Some buf', conn', t', g') \<and> delivers (\<lambda>t. t) 3 [0, 0, 0] [5, 6] (r, buf', conn', t', g')"
proof -
  have "incoming (\<lambda>t. t) (tls_wire (replicate 16 1) (replicate 12 2) 0 [([], 22), ([5, 6], 23)]) demo_conn [([], 22), ([5, 6], 23)]"
    by (rule carries_incoming) (simp add: carries_def receiving_def rec_wf_def rec_partial_def message_ok_def LEBTLS_RT_APP_DATA_def LEBTLS_RT_HANDSHAKE_def
        lebtls_skip_post_handshake_def skip_messages.simps)
  from lebtls_recv_delivers [OF list_tcp_in_order _ _ _ _ this empty_table_ok,
      of "\<lambda>i n. Some (replicate n 0)" 3 "[0, 0, 0]" "\<lambda>i. Some []" True 1000]
  show ?thesis by (simp add: kmalloc_ok_def app_data_def LEBTLS_RT_APP_DATA_def)
qed

text \<open>A socket that also records what is given to it.\<close>

definition recording :: "'t tcp_ops \<Rightarrow> ('t \<times> u8 list list) tcp_ops" where
  "recording ops =
     \<lparr>op_recv = (\<lambda>(t, l) n. case op_recv ops t n of (r, t') \<Rightarrow> (r, (t', l))),
      op_send = (\<lambda>(t, l) bs. case op_send ops t bs of (r, t') \<Rightarrow> (r, (t', l @ [bs]))),
      op_closed = (\<lambda>(t, l). op_closed ops t), op_pending = (\<lambda>(t, l). op_pending ops t)\<rparr>"

lemma recording_logs: "logs (recording ops) snd"
  by (auto simp: logs_def recording_def split: prod.splits)

definition demo_body :: "u8 list" where
  "demo_body = sealed (replicate 16 1) (replicate 12 2) 0 [5, 6, 7, 23]"

lemma demo_send:
  "\<exists>a' g'. lebtls_send (recording list_tcp) (\<lambda>_. True) (\<lambda>_. Some []) empty_table ([], []) demo_conn (Some [5, 6, 7]) 3 =
     (3, a', (traffic_header 20 @ demo_body, [traffic_header 20 @ demo_body]), g')"
proof -
  have "lebtls_traffic_seal empty_table True (Some []) (Some 0) (Some (replicate 16 1)) (Some (replicate 12 2)) True 23 (Some [5, 6, 7]) 3 =
    (0, Some 1, Some (traffic_header 20 @ demo_body), gcm_sbox_init empty_table)"
    using traffic_seal_sealed [OF empty_table_ok, of "replicate 16 1" "replicate 12 2" "[5, 6, 7]" "[]" 0 23] by (simp add: demo_body_def)
  then show ?thesis
    by (simp add: lebtls_send_def send_loop.simps [of _ _ _ 0] send_loop.simps [of _ _ _ "Suc 0"] LEBTLS_RT_APP_DATA_def
        list_tcp_def recording_def int_of_len_def)
qed

text \<open>The stream that reaches the receiver breaks off in the middle of a second record.\<close>

lemma demo_unforged:
  "unforged (replicate 16 1) (replicate 12 2) (made_records (replicate 12 2) 0 [traffic_header 20 @ demo_body]) 0
     (traffic_header 20 @ demo_body @ [23, 3])"
proof -
  have b: "length demo_body = 20" by (simp add: demo_body_def length_sealed)
  have h: "header_len (traffic_header 20) = 20" "length (traffic_header 20) = 5"
    using header_len_traffic [of 20] by (simp_all add: length_traffic_header)
  have "unforged (replicate 16 1) (replicate 12 2) m 1 [23, 3]" for m
    by (subst unforged.simps) (simp add: Let_def)
  then show ?thesis
    by (subst unforged.simps) (simp add: h b Let_def made_records_def)
qed

theorem tls_stream_in_order_witness:
  "\<exists>rest. [5, 6, 7] = recv_calls list_tcp empty_table (traffic_header 20 @ demo_body @ [23, 3]) demo_conn [demo_call 2, demo_call 4] @ rest"
proof -
  obtain a' g' where s: "lebtls_send (recording list_tcp) (\<lambda>_. True) (\<lambda>_. Some []) empty_table ([], []) demo_conn (Some [5, 6, 7]) 3 =
     (3, a', (traffic_header 20 @ demo_body, [traffic_header 20 @ demo_body]), g')"
    using demo_send by blast
  show ?thesis
    using tls_stream_in_order [OF recording_logs empty_table_ok _ _ _ _ list_tcp_in_order empty_table_ok,
      of demo_conn list_tcp "\<lambda>_. True" "\<lambda>_. Some []" "([], [])" "[5, 6, 7]" 3 a' _ g' demo_conn
        "traffic_header 20 @ demo_body @ [23, 3]" "[demo_call 2, demo_call 4]"] s demo_unforged
    by (simp add: demo_call_ok del: recv_calls.simps)
qed

end
