(* ===== verification/Tls_Live.thy ===== *)
theory Tls_Live
  imports Tls_Conn
begin

text \<open>
  The other half of the contract of lebtls.c: when memory is at hand and TCP has the bytes,
  sending succeeds and every call of lebtls\_recv makes progress, so that enough calls return
  all of the data.
\<close>

subsection \<open>Records arrive\<close>

text \<open>TCP hands out at least one byte of a stream that has some, and no signal is pending.\<close>

definition prompt :: "'t tcp_ops \<Rightarrow> ('t \<Rightarrow> u8 list) \<Rightarrow> bool" where
  "prompt ops stream \<longleftrightarrow>
     (\<forall>t n. 0 < n \<and> stream t \<noteq> [] \<longrightarrow>
        \<not> op_pending ops t \<and> (\<exists>b bs t'. op_recv ops t n = (Some (b # bs), t')))"

definition memory_ok :: "(nat \<Rightarrow> u8 list option) \<Rightarrow> bool" where
  "memory_ok kmalloc \<longleftrightarrow> (\<forall>n. \<exists>m. kmalloc n = Some m \<and> length m = n)"

lemma recv_fill_loop_complete:
  assumes "in_order ops stream" and "prompt ops stream" and "buf = Some m" and "len - got \<le> length (stream t)"
  shows "fst (recv_fill_loop ops max_rounds len t buf got rounds) = Ret 1"
  using assms
proof (induction ops max_rounds len t buf got rounds arbitrary: m rule: recv_fill_loop.induct)
  case (1 ops max_rounds len t buf got rounds)
  show ?case
  proof (cases "got < len")
    case False
    then show ?thesis by (simp add: recv_fill_loop_done)
  next
    case True
    with 1(6) have "stream t \<noteq> []" by auto
    with True 1(4) obtain b bs t' where r: "\<not> op_pending ops t" "op_recv ops t (len - got) = (Some (b # bs), t')"
      unfolding prompt_def by (meson zero_less_diff)
    have "stream t = (b # bs) @ stream t'" using in_orderD [OF 1(3) r(2)] by simp
    then have "len - (got + length (b # bs)) \<le> length (stream t')" using 1(6) by simp
    then have "fst (recv_fill_loop ops max_rounds len t' (Some (put_bytes m got (b # bs))) (got + length (b # bs)) 0) = Ret 1"
      using True r 1(3-5) by (intro 1(2)) auto
    with True r 1(5) show ?thesis by (subst recv_fill_loop.simps) simp
  qed
qed

lemma rec_recv_body_complete:
  assumes "in_order ops stream" and "prompt ops stream"
    and "header_len (rec_hdr conn) = 0 \<or> rec_buf conn \<noteq> None"
    and "header_len (rec_hdr conn) - (rec_got conn - 5) \<le> length (stream t)"
  shows "fst (rec_recv_body ops t conn timeout_ms) = Ret 1"
proof -
  have "fst (lebtls_recv_fill ops t (rec_buf conn) (header_len (rec_hdr conn)) (rec_got conn - 5) timeout_ms) = Ret 1"
  proof (cases "header_len (rec_hdr conn) = 0")
    case True
    then show ?thesis by (simp add: lebtls_recv_fill_def recv_fill_loop_done)
  next
    case False
    then show ?thesis
      unfolding lebtls_recv_fill_def using assms by (auto intro: recv_fill_loop_complete)
  qed
  then show ?thesis by (auto simp: rec_recv_body_def Let_def split: prod.splits)
qed

lemma rec_recv_complete:
  assumes io: "in_order ops stream" and pr: "prompt ops stream" and km: "memory_ok kmalloc" and wf: "rec_wf conn"
    and rcd: "rec_partial conn @ stream t = hdr @ body @ w" "length hdr = 5" "header_len hdr = length body" "length body \<le> 16640"
  shows "fst (lebtls_rec_recv ops kmalloc True t conn timeout_ms) = Ret 1"
proof (cases "rec_got conn < 5")
  case False
  with wf obtain m where m: "rec_buf conn = Some m" "length m = header_len (rec_hdr conn)" "length (rec_hdr conn) = 5"
      "rec_got conn \<le> 5 + header_len (rec_hdr conn)"
    by (auto simp: rec_wf_def)
  have p: "rec_hdr conn @ (take (rec_got conn - 5) m @ stream t) = hdr @ (body @ w)"
    using rcd(1) False m by (simp add: rec_partial_def)
  then have "rec_hdr conn = hdr" "length (take (rec_got conn - 5) m @ stream t) = length (body @ w)"
    using m(3) rcd(2) by (auto simp: append_eq_append_conv)
  then have "header_len (rec_hdr conn) - (rec_got conn - 5) \<le> length (stream t)" using rcd(3) m(2) by simp
  with False m(1) show ?thesis
    using rec_recv_body_complete [OF io pr, of conn t timeout_ms] by (simp add: lebtls_rec_recv_def)
next
  case True
  let ?h = "rec_hdr conn"
  have h: "length ?h = 5" using wf by (simp add: rec_wf_def)
  have p: "take (rec_got conn) ?h @ stream t = hdr @ body @ w"
    using rcd(1) True by (auto simp: rec_partial_def split: option.splits)
  from arg_cong [OF p, of length] have "5 - rec_got conn \<le> length (stream t)" using h True rcd(2) by simp
  then obtain t' buf got where fill: "lebtls_recv_fill ops t (Some ?h) 5 (rec_got conn) timeout_ms = (Ret 1, t', buf, got)"
    using recv_fill_loop_complete [OF io pr refl, of 5 "rec_got conn" t] unfolding lebtls_recv_fill_def by (metis prod.collapse)
  have "filled stream 5 t ?h (rec_got conn) (Ret 1, t', buf, got)"
    unfolding fill [symmetric] using io h True by (intro recv_fill_filled) auto
  then obtain h' where h': "buf = Some h'" "length h' = 5" "got = 5" "h' @ stream t' = hdr @ body @ w"
    using h p by (auto simp: filled_def)
  then have e: "h' = hdr" "stream t' = body @ w" using rcd(2) by (auto simp: append_eq_append_conv)
  obtain m where m: "kmalloc (length body) = Some m" using km by (auto simp: memory_ok_def)
  have "fst (rec_recv_body ops t' (conn\<lparr>rec_hdr := hdr, rec_got := 5, rec_buf := b\<rparr>) timeout_ms) = Ret 1"
    if "body = [] \<or> b \<noteq> None" for b
    using that e(2) rcd(3) by (intro rec_recv_body_complete [OF io pr]) auto
  from this [of "Some m"] this [of "rec_buf conn"] show ?thesis
    using True fill h' e rcd(3,4) m by (auto simp: lebtls_rec_recv_def Let_def)
qed

subsection \<open>A call makes progress\<close>

lemma carries_frame:
  assumes "carries stream t conn xs"
    and "rec_hdr conn' = rec_hdr conn" "rec_buf conn' = rec_buf conn" "rec_got conn' = rec_got conn"
    "app_key_rx conn' = app_key_rx conn" "app_iv_rx conn' = app_iv_rx conn" "app_read_seq conn' = app_read_seq conn"
    "handshake_done conn' = handshake_done conn"
  shows "carries stream t conn' xs"
  using assms(1) unfolding carries_def receiving_def rec_wf_def rec_partial_def assms(2-8) .

lemma carried_record:
  assumes "received stream conn (rec_partial conn @ stream t) (r, Some (ty, rcd, n), conn1, t1)"
    and "carries stream t conn xs"
  obtains m ms where "xs = m # ms" and "ty = LEBTLS_RT_APP_DATA" and "n = length (fst m) + 17"
    and "rcd = Some (sealed (app_key_rx conn) (app_iv_rx conn) (app_read_seq conn) (fst m @ [snd m]))"
    and "app_key_rx conn1 = app_key_rx conn" "app_iv_rx conn1 = app_iv_rx conn" "app_read_seq conn1 = app_read_seq conn"
      "stash conn1 = stash conn"
    and "carries stream t1 (conn1\<lparr>app_read_seq := app_read_seq conn + 1\<rparr>) ms"
proof -
  let ?k = "app_key_rx conn" and ?v = "app_iv_rx conn" and ?s = "app_read_seq conn"
  from assms(1) have c: "conn1 = conn\<lparr>rec_hdr := rec_hdr conn1, rec_buf := rec_buf conn1, rec_got := rec_got conn1\<rparr>"
    and w: "rec_wf conn1" "rec_got conn1 = 0" by (auto simp: received_def)
  from assms(1) obtain hdr body where
    hb: "length hdr = 5" "header_len hdr = length body" "rec_partial conn @ stream t = hdr @ body @ stream t1"
      "ty = hdr ! 0" "n = length body" "body \<noteq> [] \<longrightarrow> rcd = Some body"
    by (auto simp: received_def)
  from assms(2) hb(3) have wire: "hdr @ body @ stream t1 = tls_wire ?k ?v ?s xs" by (simp add: carries_def receiving_def)
  have f: "app_key_rx conn1 = ?k" "app_iv_rx conn1 = ?v" "app_read_seq conn1 = ?s" "stash conn1 = stash conn"
    "handshake_done conn1 = handshake_done conn"
    by (subst c, simp)+
  from wire hb(1) obtain m ms where xs: "xs = m # ms" by (cases xs) auto
  have ok: "message_ok m" using assms(2) xs by (simp add: carries_def receiving_def)
  note nr = next_record [OF hb(1,2) ok, of "stream t1" ?k ?v ?s "tls_wire ?k ?v (?s + 1) ms"]
  have b: "hdr ! 0 = LEBTLS_RT_APP_DATA" "body = sealed ?k ?v ?s (fst m @ [snd m])" "stream t1 = tls_wire ?k ?v (?s + 1) ms"
    "length body = length (fst m) + 17"
    using nr wire xs by simp_all
  have "body \<noteq> []" using b(4) by auto
  have "rec_partial conn1 = []" using w(2) by (auto simp: rec_partial_def split: option.splits)
  moreover have "rec_partial (conn1\<lparr>app_read_seq := ?s + 1\<rparr>) = rec_partial conn1"
      "rec_wf (conn1\<lparr>app_read_seq := ?s + 1\<rparr>) = rec_wf conn1"
    by (simp_all add: rec_partial_def rec_wf_def split: option.splits)
  ultimately have "carries stream t1 (conn1\<lparr>app_read_seq := ?s + 1\<rparr>) ms"
    using assms(2) xs b(3) w f by (simp add: carries_def receiving_def)
  with that xs hb(4-6) b f \<open>body \<noteq> []\<close> show thesis by auto
qed

lemma grow_cap_enough:
  assumes "grow_cap cap need = Some c" and "need \<le> 16384"
  shows "need \<le> c"
proof -
  have "\<not> (c < need \<and> \<not> c > 0xFFFFFFFFFFFFFFFF div 2)"
    using assms(1) unfolding grow_cap_def by (rule while_option_stop)
  moreover have "\<not> c > 0xFFFFFFFFFFFFFFFF div 2" if "c < need"
    using that assms(2) by (simp add: word_less_nat_alt word_le_nat_alt)
  ultimately show ?thesis by (meson not_less)
qed

lemma stash_store_empty:
  assumes "stash c = []" and "length d \<le> 16384"
  shows "\<exists>cap. lebtls_stash_store True c d = Some (0, c\<lparr>stash_cap := cap, stash := d\<rparr>)"
proof -
  let ?cap = "if stash_cap c \<noteq> 0 then stash_cap c else 4096"
  obtain cap where g: "grow_cap ?cap (word_of_nat (length d)) = Some cap"
    using grow_cap_stops [of ?cap] by fastforce
  have "(word_of_nat (length d) :: u64) \<le> 16384" using assms(2) by (simp add: word_le_nat_alt unat_of_nat)
  with grow_cap_enough [OF g] have "\<not> cap < word_of_nat (length d)" by (simp add: not_less)
  then have "lebtls_stash_store True c d = Some (0, c\<lparr>stash_cap := cap, stash := d\<rparr>) \<or>
      lebtls_stash_store True c d = Some (0, c\<lparr>stash_cap := stash_cap c, stash := d\<rparr>)"
    using g assms(1) by (auto simp: lebtls_stash_store_def Let_def)
  then show ?thesis by blast
qed

definition progress ::
    "('t \<Rightarrow> u8 list) \<Rightarrow> u8 list \<Rightarrow> outcome \<times> u8 list \<times> tls_conn \<times> 't \<times> sbox_state \<Rightarrow> bool" where
  "progress stream data res \<longleftrightarrow>
     (case res of (r, buf, conn, t, g) \<Rightarrow>
        sbox_ok g \<and>
        (\<exists>n cs. r = Ret (int n) \<and> 0 < n \<and> n \<le> length buf \<and> [] \<notin> set cs \<and> carries stream t conn (map data_message cs) \<and>
           data = take n buf @ stash conn @ concat cs))"

lemma recv_content_progress:
  assumes "carries stream t conn (map data_message cs)" and "[] \<notin> set cs" and "stash conn = []" and "sbox_ok g"
    and "0 < len" "unat len < 2 ^ 31" "unat len \<le> length buf" and "m \<noteq> []" "length m \<le> 16384"
  shows "\<exists>r buf' conn'. recv_content True conn buf len m = Some (r, buf', conn') \<and>
    progress stream (m @ concat cs) (r, buf', conn', t, g)"
proof (cases "length m > unat len")
  case True
  let ?d = "drop (unat len) m" and ?b = "put_bytes buf 0 (take (unat len) m)"
  obtain cap where c: "lebtls_stash_store True conn ?d = Some (0, conn\<lparr>stash_cap := cap, stash := ?d\<rparr>)"
    using stash_store_empty [OF assms(3), of ?d] assms(9) by (auto simp: trans_le_add1 le_diff_conv)
  have "carries stream t (conn\<lparr>stash_cap := cap, stash := ?d\<rparr>) (map data_message cs)"
    by (rule carries_frame [OF assms(1)]) simp_all
  moreover have "take (unat len) ?b = take (unat len) m" "unat len \<le> length ?b" using True assms(7) by (auto simp: put_bytes_def)
  ultimately show ?thesis
    using True c assms(2,4,5,6)
    by (auto simp: recv_content_def progress_def Let_def int_of_len_small unat_gt_0 intro!: exI [of _ "unat len"] exI [of _ cs])
next
  case False
  let ?b = "put_bytes buf 0 m"
  have "take (length m) ?b = m" "length m \<le> length ?b" using False assms(7) by (auto simp: put_bytes_def)
  moreover have "int_of_len (word_of_nat (length m)) = int (length m)"
    using False assms(6) by (subst int_of_len_small) (simp_all add: unat_of_nat)
  ultimately show ?thesis
    using False assms by (auto simp: recv_content_def progress_def intro!: exI [of _ "length m"] exI [of _ cs])
qed

lemma recv_loop_progress:
  assumes io: "in_order ops stream" and pr: "prompt ops stream" and km: "memory_ok (kmalloc i)" and pm: "pt_mem i \<noteq> None"
    and len: "0 < len" "unat len < 2 ^ 31" "unat len \<le> length buf"
    and inc: "carries stream t conn (map data_message (c # cs))" and ne: "[] \<notin> set (c # cs)"
    and st: "stash conn = []" and g: "sbox_ok g"
  shows "\<exists>res. recv_loop ops kmalloc pt_mem True i g t conn buf len timeout_ms = Some res \<and>
    progress stream (c @ concat cs) res"
proof -
  let ?k = "app_key_rx conn" and ?v = "app_iv_rx conn" and ?s = "app_read_seq conn"
  let ?h = "traffic_header (word_of_nat (length c + 17))" and ?b = "sealed ?k ?v ?s (c @ [LEBTLS_RT_APP_DATA])"
  have c: "length c \<le> 16384" "rec_wf conn" "length ?k = 16" "length ?v = 12"
    and w: "rec_partial conn @ stream t = ?h @ ?b @ tls_wire ?k ?v (?s + 1) (map data_message cs)"
    using inc by (simp_all add: carries_def receiving_def message_ok_def data_message_def tls_record_def)
  have b: "length ?h = 5" "header_len ?h = length ?b" "length ?b \<le> 16640"
    using c(1) header_len_traffic [of "length c + 17"] by (simp_all add: length_traffic_header length_sealed)
  obtain out conn1 t1 where rr: "lebtls_rec_recv ops (kmalloc i) True t conn timeout_ms = (Ret 1, out, conn1, t1)"
    using rec_recv_complete [OF io pr km c(2) w b] by (metis prod.collapse)
  have "kmalloc_ok (kmalloc i)" using km unfolding memory_ok_def kmalloc_ok_def by (metis option.inject)
  with rec_recv_received [OF io _ c(2), of "kmalloc i" t timeout_ms]
  have rc: "received stream conn (rec_partial conn @ stream t) (Ret 1, out, conn1, t1)" by (simp add: rr)
  then obtain ty rcd n where o: "out = Some (ty, rcd, n)" by (auto simp: received_def)
  obtain m ms where m: "map data_message (c # cs) = m # ms" "ty = LEBTLS_RT_APP_DATA" "n = length (fst m) + 17"
      "rcd = Some (sealed ?k ?v ?s (fst m @ [snd m]))" "app_key_rx conn1 = ?k" "app_iv_rx conn1 = ?v" "app_read_seq conn1 = ?s"
      "stash conn1 = stash conn" "carries stream t1 (conn1\<lparr>app_read_seq := ?s + 1\<rparr>) ms"
    by (rule carried_record [OF rc [unfolded o] inc])
  have m1: "fst m = c" "snd m = LEBTLS_RT_APP_DATA" "ms = map data_message cs" using m(1) by (auto simp: data_message_def)
  define c2 where "c2 = conn1\<lparr>app_read_seq := ?s + 1\<rparr>"
  have op: "lebtls_traffic_open g (pt_mem i) (Some (app_read_seq conn1)) (Some (app_key_rx conn1)) (Some (app_iv_rx conn1))
      True rcd (word_of_nat n) = (0, Some (?s + 1), Some (c, LEBTLS_RT_APP_DATA), gcm_sbox_init g)"
    unfolding m(3-7) m1 using g c pm by (intro traffic_open_record) auto
  obtain q buf' conn' where "recv_content True c2 buf len c = Some (q, buf', conn')"
      "progress stream (c @ concat cs) (q, buf', conn', t1, gcm_sbox_init g)"
    using recv_content_progress [of stream t1 c2 cs "gcm_sbox_init g" len buf c] m(8,9) m1(3) ne st c(1) len sbox_init_ok [OF g]
    by (auto simp: c2_def)
  then show ?thesis
    using rr o m(2) op
    by (subst recv_loop.simps) (simp add: LEBTLS_RT_APP_DATA_def LEBTLS_RT_HANDSHAKE_def flip: c2_def)
qed

lemma recv_progress:
  assumes io: "in_order ops stream" and pr: "prompt ops stream" and km: "memory_ok (kmalloc 0)" and pm: "pt_mem 0 \<noteq> None"
    and len: "0 < len" "unat len < 2 ^ 31" "unat len \<le> length buf"
    and inc: "carries stream t conn (map data_message cs)" and ne: "[] \<notin> set cs" and g: "sbox_ok g"
    and st: "length (stash conn) < 2 ^ 63" and data: "stash conn @ concat cs \<noteq> []"
  shows "\<exists>r buf' conn' t' g'.
    lebtls_recv ops kmalloc pt_mem True g t conn (Some buf) len timeout_ms = Some (r, Some buf', conn', t', g') \<and>
    progress stream (stash conn @ concat cs) (r, buf', conn', t', g')"
proof (cases "stash conn = []")
  have hs: "handshake_done conn" using inc by (simp add: carries_def receiving_def)
  case True
  with data obtain d ds where cs: "cs = d # ds" by (cases cs) auto
  have "lebtls_stash_drain (Some conn) (Some buf) len = (0, Some conn, Some buf)"
    using True by (simp add: lebtls_stash_drain_def)
  moreover obtain res where "recv_loop ops kmalloc pt_mem True 0 g t conn buf len timeout_ms = Some res"
    "progress stream (d @ concat ds) res"
    using recv_loop_progress [where kmalloc = kmalloc and pt_mem = pt_mem and i = 0, OF io pr km pm len inc [unfolded cs] ne [unfolded cs] True g] by blast
  ultimately show ?thesis
    using len(1) hs True cs by (cases res) (auto simp: lebtls_recv_def)
next
  have hs: "handshake_done conn" using inc by (simp add: carries_def receiving_def)
  case False
  define k where "k = min (length (stash conn)) (unat len)"
  let ?c = "conn\<lparr>stash := drop k (stash conn)\<rparr>" and ?b = "put_bytes buf 0 (take k (stash conn))"
  have k: "0 < k" "take k ?b = take k (stash conn)" "k \<le> length ?b"
    using False len(1,3) by (auto simp: k_def unat_gt_0 put_bytes_def)
  have r: "lebtls_recv ops kmalloc pt_mem True g t conn (Some buf) len timeout_ms = Some (Ret (int k), Some ?b, ?c, t, g)"
    using stash_drained [OF False len st, folded k_def] len(1) hs k(1) by (simp add: lebtls_recv_def)
  have "carries stream t ?c (map data_message cs)" by (rule carries_frame [OF inc]) simp_all
  with k have "progress stream (stash conn @ concat cs) (Ret (int k), ?b, ?c, t, g)"
    unfolding progress_def using g ne
    by (auto intro!: exI [of _ k] exI [of _ cs] simp: append_assoc [symmetric] simp del: append_assoc)
  with r show ?thesis by blast
qed

subsection \<open>All of the data\<close>

lemma send_loop_succeeds:
  assumes "\<And>i. pt_ok i" and "\<And>i. rec_mem i \<noteq> None" and "\<And>t bs. 0 \<le> fst (op_send ops t bs)" and "sbox_ok g"
    and "length (app_key_tx conn) = 16" and "length (app_iv_tx conn) = 12"
  shows "fst (send_loop ops pt_ok rec_mem i g t conn d)"
  using assms(4-6)
proof (induction "length d" arbitrary: i g t conn d rule: less_induct)
  case less
  let ?k = "app_key_tx conn" and ?v = "app_iv_tx conn" and ?s = "app_write_seq conn"
  show ?case
  proof (cases "d = []")
    case True
    then show ?thesis by (simp add: send_loop.simps)
  next
    case False
    define n where "n = (if length d > 16384 then 16384 else length d)"
    obtain mem where m: "rec_mem i = Some mem" using assms(2) [of i] by blast
    have n: "n \<le> 16384" "length (take n d) = n" "unat (word_of_nat n :: u64) = n" by (auto simp: n_def unat_of_nat)
    have seal: "lebtls_traffic_seal g (pt_ok i) (rec_mem i) (Some ?s) (Some ?k) (Some ?v) True LEBTLS_RT_APP_DATA (Some d) (word_of_nat n) =
        (0, Some (?s + 1), Some (tls_record ?k ?v ?s (take n d, LEBTLS_RT_APP_DATA)), gcm_sbox_init g)"
      using traffic_seal_sealed [OF less.prems, of "take n d" mem ?s LEBTLS_RT_APP_DATA] n(1,2) m assms(1)
      by (simp add: tls_record_def traffic_seal_take [OF n(1)] del: length_take)
    obtain m t1 where t1: "op_send ops t (tls_record ?k ?v ?s (take n d, LEBTLS_RT_APP_DATA)) = (m, t1)" by fastforce
    then have "\<not> m < 0" using assms(3) by (metis fst_conv not_less)
    have "length (drop n d) < length d" using False by (simp add: n_def)
    from less.hyps [OF this sbox_init_ok [OF less.prems(1), THEN conjunct1], of "conn\<lparr>app_write_seq := ?s + 1\<rparr>" "Suc i" t1] less.prems(2,3)
    show ?thesis
      using False seal t1 \<open>\<not> m < 0\<close> by (subst send_loop.simps) (simp add: Let_def flip: n_def)
  qed
qed

definition call_live :: "recv_call \<Rightarrow> bool" where
  "call_live c \<longleftrightarrow> memory_ok (rv_kmalloc c 0) \<and> rv_pt_mem c 0 \<noteq> None \<and> rv_realloc_ok c"

lemma recv_calls_all:
  assumes io: "in_order ops stream" and pr: "prompt ops stream" and "\<forall>c \<in> set cs. call_ok c \<and> call_live c"
    and "carries stream t conn (map data_message ds)" and "[] \<notin> set ds" and "sbox_ok g"
    and "length (stash conn @ concat ds) < 2 ^ 63" and "length (stash conn @ concat ds) \<le> length cs"
  shows "recv_calls ops g t conn cs = stash conn @ concat ds"
  using assms(3-8)
proof (induction cs arbitrary: g t conn ds)
  case (Cons c cs)
  show ?case
  proof (cases "stash conn @ concat ds = []")
    case True
    with recv_calls_prefix [OF io, of "c # cs" t conn "map data_message ds" g] Cons.prems carries_incoming [OF Cons.prems(2)]
    show ?thesis by (auto simp: app_data_messages)
  next
    case False
    have c: "memory_ok (rv_kmalloc c 0)" "rv_pt_mem c 0 \<noteq> None" "rv_realloc_ok c = True" "0 < rv_len c" "unat (rv_len c) < 2 ^ 31"
        "unat (rv_len c) \<le> length (rv_buf c)" and st: "length (stash conn) < 2 ^ 63"
      using Cons.prems(1,5) by (simp_all add: call_ok_def call_live_def)
    obtain r buf conn1 t1 g1 where r:
        "lebtls_recv ops (rv_kmalloc c) (rv_pt_mem c) (rv_realloc_ok c) g t conn (Some (rv_buf c)) (rv_len c) (rv_timeout c) =
          Some (r, Some buf, conn1, t1, g1)"
      and p: "progress stream (stash conn @ concat ds) (r, buf, conn1, t1, g1)"
      unfolding c(3)
      using recv_progress [where kmalloc = "rv_kmalloc c" and pt_mem = "rv_pt_mem c", OF io pr c(1,2,4,5,6) Cons.prems(2,3,4) st False]
      by blast
    from p obtain n es where n: "r = Ret (int n)" "0 < n" "n \<le> length buf" "[] \<notin> set es" "carries stream t1 conn1 (map data_message es)" "sbox_ok g1"
        "stash conn @ concat ds = take n buf @ (stash conn1 @ concat es)"
      by (auto simp: progress_def)
    have "recv_calls ops g1 t1 conn1 cs = stash conn1 @ concat es"
      using arg_cong [OF n(7), of length] n(2-6) Cons.prems(1,5,6) by (intro Cons.IH) auto
    with r n(1,7) show ?thesis by simp
  qed
qed simp

lemma chunks_nonempty: "[] \<notin> set (chunks d)"
proof (induction d rule: chunks.induct)
  case (1 d)
  then show ?case by (subst chunks.simps) auto
qed

text \<open>
  C4. When memory is at hand and TCP takes all bytes and delivers them, nothing stalls. lebtls\_send seals
  all of the data, returns its length and puts the records on the stream; on a receiver
  with the same keys and sequence number, as many calls of lebtls\_recv as there are bytes return
  together exactly the data that was sent, whatever the sizes of the buffers and the pieces in
  which TCP hands out the stream.
\<close>

theorem tls_stream_complete:
  assumes "appends ops sent" and full: "\<And>t bs. fst (op_send ops t bs) = int (length bs)" and "\<And>i. pt_ok i" and "\<And>i. rec_mem i \<noteq> None"
    and "sbox_ok g" and a: "length (app_key_tx a) = 16" "length (app_iv_tx a) = 12" "handshake_done a"
    and d: "length d < 2 ^ 31"
    and io: "in_order ops' stream" and pr: "prompt ops' stream" and "sbox_ok h"
    and b: "handshake_done b" "rec_got b = 0" "length (rec_hdr b) = 5" "stash b = []"
    and keys: "app_key_rx b = app_key_tx a" "app_iv_rx b = app_iv_tx a" "app_read_seq b = app_write_seq a"
    and cs: "\<forall>c \<in> set cs. call_ok c \<and> call_live c" "length d \<le> length cs"
  shows "\<exists>a' t' g'. lebtls_send ops pt_ok rec_mem g t a (Some d) (word_of_nat (length d)) = (int (length d), a', t', g') \<and>
    (\<forall>u. stream u = drop (length (sent t)) (sent t') \<longrightarrow> recv_calls ops' h u b cs = d)"
proof -
  have len: "unat (word_of_nat (length d) :: u64) = length d" using d by (simp add: unat_of_nat)
  obtain a' t' g' where s: "send_loop ops pt_ok rec_mem 0 g t a d = (True, a', t', g')"
    using send_loop_succeeds [where pt_ok = pt_ok and rec_mem = rec_mem and ops = ops, OF assms(3,4) _ assms(5) a(1,2), of 0 t d] full
    by (metis (full_types) of_nat_0_le_iff prod.collapse)
  then have "lebtls_send ops pt_ok rec_mem g t a (Some d) (word_of_nat (length d)) = (int (length d), a', t', g')"
    using d a(3) by (simp add: lebtls_send_def len int_of_len_small)
  moreover have "recv_calls ops' h u b cs = d" if "stream u = drop (length (sent t)) (sent t')" for u
  proof -
    have "stream u = tls_wire (app_key_rx b) (app_iv_rx b) (app_read_seq b) (map data_message (chunks d))"
      using that send_loop_wire [where ops = ops, OF assms(1) full assms(5) a(1,2) s] keys by simp
    then have "carries stream u b (map data_message (chunks d))"
      using b(1-3) keys a by (intro sent_carries) simp_all
    from recv_calls_all [OF io pr cs(1) this chunks_nonempty assms(12)] show ?thesis
      using b(4) cs(2) d by (simp add: concat_chunks)
  qed
  ultimately show ?thesis by blast
qed

theorem tls_stream_complete_witness:
  "\<exists>a' t' g'. lebtls_send list_tcp (\<lambda>_. True) (\<lambda>_. Some []) empty_table [] demo_conn (Some [5, 6, 7]) 3 = (3, a', t', g') \<and>
     recv_calls list_tcp empty_table t' demo_conn [demo_call 2, demo_call 4, demo_call 1] = [5, 6, 7]"
proof -
  have "appends list_tcp (\<lambda>t. t)" by (simp add: appends_def list_tcp_def)
  moreover have "prompt list_tcp (\<lambda>t. t)"
    by (auto simp: prompt_def list_tcp_def neq_Nil_conv gr0_conv_Suc)
  moreover have "\<forall>c \<in> set [demo_call 2, demo_call 4, demo_call 1]. call_ok c \<and> call_live c"
    by (simp add: demo_call_ok) (simp add: call_live_def demo_call_def memory_ok_def)
  moreover have "fst (op_send list_tcp t bs) = int (length bs)" for t bs by (simp add: list_tcp_def)
  ultimately show ?thesis
    using tls_stream_complete [of list_tcp "\<lambda>t. t" "\<lambda>_. True" "\<lambda>_. Some []" empty_table demo_conn "[5, 6, 7]" list_tcp "\<lambda>t. t" empty_table demo_conn
        "[demo_call 2, demo_call 4, demo_call 1]" "[]"] empty_table_ok list_tcp_in_order
    by (simp del: recv_calls.simps)
qed

text \<open>
  C40. The count that tcp\_send returns is only compared with zero. As long as it is never negative,
  and memory is at hand, lebtls\_send returns the length of the data as sent, however few bytes of
  each record TCP took: on a short count it goes on with the next record, and the peer finds a
  record cut short.
\<close>

theorem send_ignores_short_counts:
  assumes "\<And>t bs. 0 \<le> fst (op_send ops t bs)" and "\<And>i. pt_ok i" and "\<And>i. rec_mem i \<noteq> None"
    and "sbox_ok g" and "length (app_key_tx a) = 16" and "length (app_iv_tx a) = 12" and "handshake_done a"
    and "length d < 2 ^ 31"
  shows "fst (lebtls_send ops pt_ok rec_mem g t a (Some d) (word_of_nat (length d))) = int (length d)"
proof -
  have len: "unat (word_of_nat (length d) :: u64) = length d" using assms(8) by (simp add: unat_of_nat)
  obtain a' t' g' where "send_loop ops pt_ok rec_mem 0 g t a d = (True, a', t', g')"
    using send_loop_succeeds [where pt_ok = pt_ok and rec_mem = rec_mem and ops = ops, OF assms(2,3,1,4-6), of 0 t d]
    by (metis (full_types) prod.collapse)
  then show ?thesis using assms(7,8) by (simp add: lebtls_send_def len int_of_len_small)
qed

text \<open>A socket that takes one byte of what it is given.\<close>

definition short_tcp :: "u8 list tcp_ops" where
  "short_tcp = list_tcp\<lparr>op_send := (\<lambda>t bs. (int (length (take 1 bs)), t @ take 1 bs))\<rparr>"

theorem send_ignores_short_counts_witness:
  "fst (lebtls_send short_tcp (\<lambda>_. True) (\<lambda>_. Some []) empty_table [] demo_conn (Some [5, 6, 7]) 3) = 3 \<and>
   op_send short_tcp [] [23, 3, 3, 0, 20] = (1, [23])"
  using send_ignores_short_counts [of short_tcp "\<lambda>_. True" "\<lambda>_. Some []" empty_table demo_conn "[5, 6, 7]" "[]"] empty_table_ok
  by (simp add: short_tcp_def)

end
