(* ===== verification/Spec2Isabelle.thy ===== *)
theory Spec2Isabelle
  imports Prelude Seccomp Md_Hash Sha2 Hmac Rng Creds Refht Pfa_Pool Vmm_Props Uaccess_Props
    Fsname Hkdf Aes Aes_Spec Gcm Traffic Traffic_Auth Tls_Channel Tls_Record Tls_Conn Tls_Live
begin

text \<open>
  A verification of parts of Lebirun, an x86-64 operating system kernel in C with a C
  library, loadable modules and user programs. The theories model components of the kernel
  under src/kernel: how it confines system calls and identities, its cryptographic core,
  and the memory management that everything else stands on; and of the loadable module
  src/modules/lebtls how application data travels over an established TLS 1.3 connection.

  \<^bold>\<open>The parts and how they meet.\<close> Every system call passes the seccomp filter of its task
  (seccomp.c) and the mask in its credentials (syscall\_ids.c). Arguments that point to user
  memory are checked and copied by uaccess.c, which walks the page tables of the task
  (vmm\_map.c). Page tables and user pages are frames of the page frame allocator (pmm.c),
  and a frame shared by copy on write is counted in the table of reference counts of the
  same file. The random number generator (rng.c) is keyed by SHA-256, and HMAC and the
  loadable modules use the same hashes (kernel/crypto). In the TLS module keys are derived
  by HKDF over that HMAC (hkdf.c); data is cut into records that are sealed with
  AES-128-GCM (traffic.c over aead.c), sent and received as records over TCP (record.c), and
  handed to the caller with a stash for what did not fit (lebtls.c).

  \<^bold>\<open>Theories.\<close>
  \<^item> Prelude: shared types of machine words, errors and generic lemmas.
  \<^item> Seccomp: the filter language (bpf\_insn, bpf\_check\_program, bpf\_run), installing,
    inheriting and releasing filters, and the verdict (seccomp\_check). A checked filter
    returns within its length, so the interpreter needs no fuel beyond it; filters and
    verdicts are followed over all reachable states of a system of tasks.
  \<^item> Md\_Hash, Sha2, Hmac: a locale for streaming hashes with a byte buffer, its
    interpretations on sha256.c and sha512.c, the functions of FIPS 180-4, and hmac.c with
    the function of RFC 2104. Counters are kept at their width, the two-word counter of
    SHA-512 with its carry. The side of the standard is written apart from the code: its own round
    and logical functions, and the constants as the leading bits of the fractional parts of square and cube
    roots of the first primes, against which the tables of the code are proved.
  \<^item> Rng: ChaCha20, entropy pools, reseeding and output (rng.c), against RFC 8439.
  \<^item> Creds: user and group identities, capabilities, masks, sessions, fork and exec
    (syscall\_ids.c), as operations on a task record and a step relation over all tasks, setpgid and
    setsid among the steps. The confinement under no\_new\_privs covers the real, effective, saved and
    file-system ids of user and group and the supplementary groups, and the agreement of the
    credentials block with the task all twelve fields that are kept in both.
  \<^item> Refht: the resizable hash table of page reference counts (pmm.c, refht\_ functions),
    refined to a map of counts; operations are split where the code drops the lock, and an
    interleaving of the pieces keeps the table well-formed. The locale page\_owners states
    what owners of a page rely on.
  \<^item> Pfa, Pfa\_Bitmap, Pfa\_Alloc, Pfa\_Release, Pfa\_Pool: the bitmap allocator (pmm.c). Pfa is
    the model, with physical memory as bytes, since the bitmap lives in frames it manages.
    Pfa\_Bitmap has the invariant pfa\_ok, Pfa\_Alloc and Pfa\_Release the effect of every
    function, Pfa\_Pool the locale frame\_pool between the allocator and its clients and its
    interpretation. The two loops that give frames back and search again take a number of
    rounds; it is the number of frames of the searched range plus one, and
    direct\_loop\_rounds and mapped\_loop\_rounds show that more rounds change nothing.
  \<^item> Vmm, Vmm\_Tree, Vmm\_Space, Vmm\_Range, Vmm\_Apart, Vmm\_Props, Vmm\_Copy: user address spaces
    (vmm\_map.c). Vmm is the model: tables as a function of the address of a table and an
    index, and the state of the allocator, so that tables and pages come from pmm.c.
    Vmm\_Tree says what one changed entry does to a tree of tables, Vmm\_Space has the
    invariant space\_ok and the effect of mapping, unmapping, protecting and pruning,
    Vmm\_Range the mapping of ranges with its way back on failure, Vmm\_Apart the locale
    apart\_spaces for several spaces over one allocator and its interpretation, Vmm\_Copy
    the copies to and from user memory.
  \<^item> Uaccess, Uaccess\_Props: checking ranges of user memory and copying bytes and strings
    (uaccess.c). The page fault handlers are parameters.
  \<^item> Fsname: file names between UTF-8 and the UTF-16 of FAT and exFAT (kernel/lib/fsname.c).
  \<^item> Hkdf: lebtls\_hkdf\_extract, lebtls\_hkdf\_expand and lebtls\_hkdf\_label (hkdf.c) with the
    functions of RFC 5869 and RFC 8446, the label prefix of the latter written out again.
  \<^item> Aes, Aes\_Spec, Gcm: aead.c. Aes is the block cipher with its table of the S-box as
    state, and the field of FIPS 197: products of polynomials over two elements and the remainder
    by 0x11B, to which gcm\_gfmul and gcm\_sbox are proved equal. Aes\_Spec has the cipher of FIPS 197
    over that field;
    Gcm the hash and counter mode on bytes, their specification of SP 800-38D on words of 128
    bits, and lebtls\_aead\_seal and lebtls\_aead\_open.
  \<^item> Traffic: nonces, sealing and opening of one record (traffic.c). Traffic\_Auth: when a body
    carries a valid tag for a sequence number, stated over the standards and not over the code, and the
    locale record\_protection for the two ends. Tls\_Channel: one
    direction of a connection as a step relation, any interleaving of the two
    operations with a network that may hand the receiver anything, replayed and reordered records included. A
    tag is forged when a body is delivered that is valid for the number the receiver is at and was never
    sealed under the nonce of that number; this is the assumption that GCM is meant to justify, and it says
    nothing of the order of records.
  \<^item> Tls\_Record: records over TCP (record.c), with time-outs and records that arrive in
    pieces. The calls of TCP are a record of functions, tcp\_ops, with the count that tcp\_send returns,
    which may be short; what is relied on is named in in\_order (received bytes are the next of the
    stream), logs (a record of what was handed to tcp\_send), appends (what was taken with a full count is on
    the stream) and prompt (waiting bytes are handed out). The loop that fills a buffer ends because it counts
    rounds without progress.
  \<^item> Tls\_Conn, Tls\_Live: lebtls\_send and lebtls\_recv (lebtls.c). The receive loop runs as long as
    the peer sends handshake messages and is a partial function; lebtls\_recv\_delivers shows
    that it returns on every stream of finitely many records. Tls\_Conn shows what a call
    delivers and that nothing is reordered, on every stream without forged tags and for every result of
    tcp\_send; Tls\_Live that nothing is held back when tcp\_send takes all bytes, and that a
    short count is passed over.

  \<^bold>\<open>What is shown.\<close> Safety over all histories: no frame is handed out twice, a shared page
  is freed by its last owner, address spaces never share a table and change only where an
  operation names a page, a task that gave up new privileges gains no id, group or capability, a denied
  call stays denied, a filter is never lost on fork, key stream bytes are not reused, records
  of a TLS connection are accepted in the order in which they were sealed unless a tag was forged,
  and the received bytes are a prefix of those sent.
  Refinement: hashes, HMAC, HKDF, AES, GCM and ChaCha20 compute the published functions, the hash table
  implements a map of counts, the byte scan of the bitmap the scan by bits. Termination and
  liveness: admitted filters return, a free frame is found, data sent over TLS arrives
  completely. Failure: a range is mapped
  completely or not at all, a failed share changes no count, accesses outside the user half
  are refused before any effect. Round trips: capabilities, groups, user memory, file names, records. Six
  theorems show where the code differs from what it means to do: the exec that restores
  capabilities of root in spite of no\_new\_privs, the session made by a former group leader,
  the standard encoding of BPF negation that the checker refuses, the search hint that
  hides a run of free frames, the padding of TLS records that is not removed, and the short count
  of tcp\_send that lebtls\_send takes for success; the lemmas
  prune\_skips\_empty\_pdpt, overlong\_dot\_accepted, hkdf\_expand\_truncates and
  refused\_header\_then\_null\_write show four more: a table that pruning never gives back, a
  file stored under the name of its directory, a limit on the output length that very
  large requests pass, and a write through the null pointer on a connection that is used
  after a failure.

  \<^bold>\<open>Conventions.\<close> Locks are not modelled except where a component drops its lock in the
  middle of an operation: the sections of Refht and the two of pmm\_alloc\_page are steps of their own.
  Page tables are kept apart from the bytes of physical memory, so that a copy to user memory
  cannot alter a table in the model. The page fault handlers of task.c and idt.c are parameters of
  Uaccess, and its theorems hold for all of them. Outcomes of the kernel heap are arguments of the
  operations that allocate, and so are the contents of memory that was not initialised. Sizes and frame numbers that cannot wrap are natural numbers
  and those that can have the wrap-around written out; everything else has its width.

  \<^bold>\<open>Not modelled.\<close> The heap and slabs (their state is inside the memory they manage and
  would need a typed view of it), the scheduler and context switches (assembly and
  concurrency on shared memory), page fault handlers and program loading, the virtual file
  system and the file systems, sockets and the network stack, signals and polling, the
  instruction emulator, drivers and console, the handshake of the TLS module with its
  certificates, curves and self-tests, the C library and user programs. Translation caches, interrupts and log output are left out throughout.
\<close>

end
